(* ===== verification/Prelude.thy ===== *)
theory Prelude
  imports Main "HOL-Library.AList" "HOL-Library.List_Lexorder" "HOL-Library.Char_ord"
begin

text \<open>
  Shared vocabulary of the development: the outcome type of the fallible builders, the
  containers of the C++ standard library that the code uses (\<open>std::set\<close> of strings,
  \<open>std::unordered_map\<close>), \<open>std::to_string\<close>, 32-bit counters, and the generic lemmas and
  theorem collections the components share.
\<close>

named_theorems edge_simps \<open>how the graph operations read and write the dependency edges\<close>
named_theorems engine_simps \<open>how the execution handlers change the run-time state\<close>

section \<open>Outcomes\<close>

text \<open>
  A builder either returns 0 with the object it has built (\<open>Ok\<close>), returns a non-zero code
  (\<open>Err\<close>, with what the log line of that return says), or never returns: an unbounded
  recursion, or an access C++ leaves undefined (\<open>Crash\<close>).
\<close>

datatype ('e, 'a) outcome = Ok 'a | Err 'e | Crash

primrec and_then :: "('e, 'a) outcome \<Rightarrow> ('a \<Rightarrow> ('e, 'b) outcome) \<Rightarrow> ('e, 'b) outcome" where
  "and_then (Ok x) f = f x"
| "and_then (Err e) f = Err e"
| "and_then Crash f = Crash"

lemma and_then_Ok_iff: "and_then m f = Ok y \<longleftrightarrow> (\<exists>x. m = Ok x \<and> f x = Ok y)"
  by (cases m) auto

lemma and_then_OkE:
  assumes "and_then m f = Ok y"
  obtains x where "m = Ok x" "f x = Ok y"
  using assms by (auto simp: and_then_Ok_iff)

text \<open>A loop over a list whose body may stop the whole function.\<close>

primrec for_each :: "'b list \<Rightarrow> ('b \<Rightarrow> 'a \<Rightarrow> ('e, 'a) outcome) \<Rightarrow> 'a \<Rightarrow> ('e, 'a) outcome" where
  "for_each [] f s = Ok s"
| "for_each (x # xs) f s = and_then (f x s) (for_each xs f)"

text \<open>Invariant rule for such a loop.\<close>

lemma for_each_invariant:
  assumes "for_each xs f s = Ok t" and "P s"
    and "\<And>x s s'. x \<in> set xs \<Longrightarrow> P s \<Longrightarrow> f x s = Ok s' \<Longrightarrow> P s'"
  shows "P t"
  using assms
proof (induction xs arbitrary: s)
  case (Cons x xs)
  from Cons.prems(1) obtain s' where "f x s = Ok s'" "for_each xs f s' = Ok t"
    by (auto simp: and_then_Ok_iff)
  with Cons.prems Cons.IH[of s'] show ?case by (meson list.set_intros)
qed simp

text \<open>What one iteration establishes and later iterations keep holds at the end.\<close>

lemma for_each_establishes:
  assumes "for_each xs f s = Ok t" and "x \<in> set xs" and "P s"
    and inv: "\<And>y s s'. y \<in> set xs \<Longrightarrow> P s \<Longrightarrow> f y s = Ok s' \<Longrightarrow> P s'"
    and est: "\<And>s s'. P s \<Longrightarrow> f x s = Ok s' \<Longrightarrow> Q s'"
    and keep: "\<And>y s s'. y \<in> set xs \<Longrightarrow> P s \<Longrightarrow> Q s \<Longrightarrow> f y s = Ok s' \<Longrightarrow> Q s'"
  shows "Q t"
  using assms(1-3) inv keep
proof (induction xs arbitrary: s)
  case (Cons y ys)
  from Cons.prems(1) obtain s' where s': "f y s = Ok s'" "for_each ys f s' = Ok t"
    by (auto simp: and_then_Ok_iff)
  have P': "P s'" using Cons.prems(3,4) s'(1) by (meson list.set_intros(1))
  show ?case
  proof (cases "x = y")
    case True
    have "P s' \<and> Q s'" using est[of s s'] Cons.prems(3) s'(1) P' True by simp
    with s'(2) have "P t \<and> Q t"
      by (rule for_each_invariant) (meson Cons.prems(4,5) list.set_intros(2))
    then show ?thesis by simp
  next
    case False
    with Cons.prems(2) have "x \<in> set ys" by simp
    then show ?thesis
      using Cons.IH[OF s'(2) _ P'] Cons.prems(4,5) by (meson list.set_intros(2))
  qed
qed simp

text \<open>The same for a loop over the indices of a vector.\<close>

lemma for_each_append: "for_each (xs @ ys) f s = and_then (for_each xs f s) (for_each ys f)"
proof (induction xs arbitrary: s)
  case (Cons x xs)
  then show ?case by (cases "f x s") simp_all
qed simp

lemma for_each_upt_invariant:
  assumes "for_each [0..<n] f s = Ok t" and "P 0 s"
    and "\<And>i s s'. i < n \<Longrightarrow> P i s \<Longrightarrow> f i s = Ok s' \<Longrightarrow> P (Suc i) s'"
  shows "P n t"
  using assms(1,3)
proof (induction n arbitrary: t)
  case (Suc n)
  then obtain u where u: "for_each [0..<n] f s = Ok u" "f n u = Ok t"
    by (auto simp: for_each_append and_then_Ok_iff)
  have "P n u" using Suc.IH[OF u(1)] Suc.prems(2) by (meson less_Suc_eq)
  then show ?case using Suc.prems(2)[of n u t] u(2) by simp
qed (use assms(2) in simp)

section \<open>Containers\<close>

text \<open>
  \<open>std::set<std::string>\<close> is a list of strings, sorted and without duplicates, in the order
  its iterators visit; \<open>set_insert\<close> is its \<open>insert\<close>.
\<close>

type_synonym string_set = "string list"

definition set_insert :: "string \<Rightarrow> string_set \<Rightarrow> string_set" where
  "set_insert x s = List.insort_insert x s"

definition set_insert_all :: "string list \<Rightarrow> string_set \<Rightarrow> string_set" where
  "set_insert_all xs s = fold set_insert xs s"

lemma set_set_insert [simp]: "set (set_insert x s) = insert x (set s)"
  by (simp add: set_insert_def set_insort_insert)

lemma set_set_insert_all [simp]: "set (set_insert_all xs s) = set xs \<union> set s"
  unfolding set_insert_all_def by (induction xs arbitrary: s) auto

lemma sorted_set_insert: "sorted s \<Longrightarrow> sorted (set_insert x s)"
  by (simp add: set_insert_def sorted_insort_insert)

lemma distinct_set_insert: "distinct s \<Longrightarrow> distinct (set_insert x s)"
  by (simp add: set_insert_def distinct_insort_insert)

lemma set_insert_all_valid:
  "sorted s \<and> distinct s \<Longrightarrow> sorted (set_insert_all xs s) \<and> distinct (set_insert_all xs s)"
  unfolding set_insert_all_def
  by (induction xs arbitrary: s) (auto simp: sorted_set_insert distinct_set_insert)

text \<open>
  A set of pointers whose iteration order the library leaves open (\<open>std::unordered_set\<close>) is a
  list without duplicates; a new element goes to the end, and every function that iterates
  takes the order of the list as it is, so that a theorem about all lists is a theorem about
  all orders.
\<close>

definition unordered_insert :: "'a \<Rightarrow> 'a list \<Rightarrow> 'a list" where
  "unordered_insert x xs = (if x \<in> set xs then xs else xs @ [x])"

lemma set_unordered_insert [simp]: "set (unordered_insert x xs) = insert x (set xs)"
  by (auto simp: unordered_insert_def)

lemma distinct_unordered_insert [simp]:
  "distinct (unordered_insert x xs) = distinct xs"
  by (auto simp: unordered_insert_def)

text \<open>Maps with a key order are association lists; \<open>AList.update\<close> is \<open>m[k] = v\<close>.\<close>

lemma map_of_update: "map_of (AList.update k v m) = (map_of m)(k \<mapsto> v)"
  by (simp add: update_conv')

section \<open>Numbers\<close>

text \<open>\<open>std::to_string\<close> of an unsigned number, as decimal digits.\<close>

definition digit_char :: "nat \<Rightarrow> char" where
  "digit_char d = char_of (48 + d)"

fun to_string :: "nat \<Rightarrow> string" where
  "to_string n = (if n < 10 then [digit_char n] else to_string (n div 10) @ [digit_char (n mod 10)])"

declare to_string.simps [simp del]

text \<open>The inverse, used only to show that different numbers print differently.\<close>

definition parse_digits :: "string \<Rightarrow> nat" where
  "parse_digits s = foldl (\<lambda>a c. 10 * a + (of_char c - 48)) 0 s"

lemma digit_char_code: "d < 10 \<Longrightarrow> of_char (digit_char d) = (48 + d :: nat)"
  by (simp add: digit_char_def of_char_of)

lemma parse_to_string: "parse_digits (to_string n) = n"
proof (induction n rule: to_string.induct)
  case (1 n)
  show ?case
  proof (cases "n < 10")
    case True
    then show ?thesis
      by (subst to_string.simps) (simp add: parse_digits_def digit_char_code)
  next
    case False
    with 1 have "parse_digits (to_string (n div 10)) = n div 10" by simp
    with False show ?thesis
      by (subst to_string.simps) (simp add: parse_digits_def digit_char_code)
  qed
qed

lemma to_string_inject: "to_string m = to_string n \<longleftrightarrow> m = n"
  by (metis parse_to_string)

lemma to_string_nonempty [simp]: "to_string n \<noteq> []"
  by (subst to_string.simps) simp

text \<open>
  Counters of type \<open>uint32_t\<close>: \<open>fetch_sub\<close> returns the value before the subtraction, and
  subtracting from 0 wraps around.
\<close>

definition u32 :: "nat \<Rightarrow> nat" where
  "u32 n = n mod 2 ^ 32"

definition fetch_sub :: "nat \<Rightarrow> nat \<times> nat" where
  "fetch_sub n = (n, if n = 0 then 2 ^ 32 - 1 else n - 1)"

lemma u32_small: "n < 2 ^ 32 \<Longrightarrow> u32 n = n"
  by (simp add: u32_def)

lemma fetch_sub_pos: "0 < n \<Longrightarrow> fetch_sub n = (n, n - 1)"
  by (simp add: fetch_sub_def)

section \<open>Counting\<close>

lemma length_filter_update:
  "j < length xs \<Longrightarrow> P (xs ! j) \<Longrightarrow> \<not> P x \<Longrightarrow>
    Suc (length (filter P (xs[j := x]))) = length (filter P xs)"
  by (induction xs arbitrary: j) (auto split: nat.split)

lemma length_filter_eq_0_iff: "length (filter P xs) = 0 \<longleftrightarrow> (\<forall>i < length xs. \<not> P (xs ! i))"
  by (simp add: filter_empty_conv all_set_conv_all_nth)

section \<open>Transition systems\<close>

text \<open>An invariant of the steps that start from one state holds in every state they reach.\<close>

locale invariant_system =
  fixes step :: "'s \<Rightarrow> 's \<Rightarrow> bool" and init :: 's and inv :: "'s \<Rightarrow> bool"
  assumes inv_init: "inv init"
    and inv_step: "inv s \<Longrightarrow> step s t \<Longrightarrow> inv t"
begin

lemma always_inv: "step\<^sup>*\<^sup>* init s \<Longrightarrow> inv s"
  by (induction rule: rtranclp_induct) (auto intro: inv_init inv_step)

end

end
