(* ===== verification/Params.thy ===== *)
theory Params
  imports Prelude "HOL-Library.Word"
begin

text \<open>
  The dynamic parameter tree of \<open>graph/params.h\<close> and \<open>graph/params.cpp\<close>: a \<open>Params\<close> object
  holds one scalar of each kind, a table of named children, an array of children, and a
  pointer to a parent object that is searched when a name is missing locally.

  An object is a value of the datatype below; the parent pointer is an address into a heap of
  \<open>Params\<close> objects (only objects that somebody owns by name are ever parents: an operator's
  arguments, the arguments of a selection, the caller's parameters). A lookup that follows the
  parent pointers returns \<open>None\<close> when it does not return, because the pointers form a cycle,
  or when it dereferences a dangling pointer. Doubles are only stored and compared by the
  modelled code, so they are their 64-bit patterns; 64-bit integers are only stored, so they
  are integers.
\<close>

section \<open>The object\<close>

datatype param_type =
  PARAM_INVALID | PARAM_STRING | PARAM_INT | PARAM_DOUBLE | PARAM_BOOL | PARAM_OBJECT | PARAM_ARRAY

type_synonym paddr = nat

datatype params = Params
  (param_type: param_type) (str: string) (iv: int) (dv: "64 word") (bv: bool) (invalid: bool)
  (members: "(string \<times> params) list") (param_array: "params list") (parent: "paddr option")

type_synonym pheap = "paddr \<Rightarrow> params option"

definition new_params :: "bool \<Rightarrow> params" where
  "new_params nv = Params PARAM_INVALID '''' 0 0 False nv [] [] None"

primrec SetString :: "string \<Rightarrow> params \<Rightarrow> params" where
  "SetString v (Params t s i d b nv m a p) = Params PARAM_STRING v i d b nv m a p"

primrec SetInt :: "int \<Rightarrow> params \<Rightarrow> params" where
  "SetInt v (Params t s i d b nv m a p) = Params PARAM_INT s v d b nv m a p"

primrec SetDouble :: "64 word \<Rightarrow> params \<Rightarrow> params" where
  "SetDouble v (Params t s i d b nv m a p) = Params PARAM_DOUBLE s i v b nv m a p"

primrec SetBool :: "bool \<Rightarrow> params \<Rightarrow> params" where
  "SetBool v (Params t s i d b nv m a p) = Params PARAM_BOOL s i d v nv m a p"

primrec set_parent :: "paddr option \<Rightarrow> params \<Rightarrow> params" where
  "set_parent q (Params t s i d b nv m a p) = Params t s i d b nv m a q"

primrec set_members :: "(string \<times> params) list \<Rightarrow> params \<Rightarrow> params" where
  "set_members m' (Params t s i d b nv m a p) = Params PARAM_OBJECT s i d b nv m' a p"

primrec set_array :: "params list \<Rightarrow> params \<Rightarrow> params" where
  "set_array a' (Params t s i d b nv m a p) = Params PARAM_ARRAY s i d b nv m a' p"

definition Valid :: "params \<Rightarrow> bool" where
  "Valid p = (\<not> invalid p)"

definition is_type :: "param_type \<Rightarrow> params \<Rightarrow> bool" where
  "is_type t p = (if invalid p then False else param_type p = t)"

definition IsBool :: "params \<Rightarrow> bool" where "IsBool = is_type PARAM_BOOL"
definition IsString :: "params \<Rightarrow> bool" where "IsString = is_type PARAM_STRING"
definition IsDouble :: "params \<Rightarrow> bool" where "IsDouble = is_type PARAM_DOUBLE"
definition IsInt :: "params \<Rightarrow> bool" where "IsInt = is_type PARAM_INT"
definition IsObject :: "params \<Rightarrow> bool" where "IsObject = is_type PARAM_OBJECT"
definition IsArray :: "params \<Rightarrow> bool" where "IsArray = is_type PARAM_ARRAY"

definition Size :: "params \<Rightarrow> nat" where
  "Size p = (if length (members p) > 0 then length (members p) else length (param_array p))"

definition BuildFromString :: "string \<Rightarrow> params \<Rightarrow> params" where
  "BuildFromString v p =
    (case p of Params t s i d b nv m a q \<Rightarrow>
      if nv then p
      else if v = ''true'' then Params t v i d True nv m a q
      else if v = ''false'' then Params t v i d False nv m a q
      else Params t v i d b nv m a q)"

section \<open>Lookup through the parents\<close>

partial_function (option) Get :: "pheap \<Rightarrow> params \<Rightarrow> string \<Rightarrow> params option" where
  "Get h p name =
    (case map_of (members p) name of
       Some q \<Rightarrow> Some q
     | None \<Rightarrow> (case parent p of
         None \<Rightarrow> Some (new_params True)
       | Some a \<Rightarrow> (case h a of None \<Rightarrow> None | Some q \<Rightarrow> Get h q name)))"

partial_function (option) Contains :: "pheap \<Rightarrow> params \<Rightarrow> string \<Rightarrow> bool option" where
  "Contains h p name =
    (if map_of (members p) name \<noteq> None then Some True
     else (case parent p of
         None \<Rightarrow> Some False
       | Some a \<Rightarrow> (case h a of None \<Rightarrow> None | Some q \<Rightarrow> Contains h q name)))"

definition index_const :: "params \<Rightarrow> nat \<Rightarrow> params" where
  "index_const p i = (if length (param_array p) > i then param_array p ! i else new_params True)"

text \<open>
  \<open>GetVar\<close> of \<open>a.b.c\<close>: look \<open>a\<close> up, then go on with the rest of the name. The rest is
  \<open>var_name.substr(pos)\<close>, which begins with the dot at \<open>pos\<close>.
\<close>

partial_function (option) GetVar :: "pheap \<Rightarrow> params \<Rightarrow> string \<Rightarrow> params option" where
  "GetVar h p name =
    (if CHR ''.'' \<notin> set name then Get h p name
     else Option.bind (Get h p (takeWhile (\<lambda>c. c \<noteq> CHR ''.'') name))
            (\<lambda>q. GetVar h q (dropWhile (\<lambda>c. c \<noteq> CHR ''.'') name)))"

partial_function (option) SetParent :: "pheap \<Rightarrow> paddr \<Rightarrow> paddr option \<Rightarrow> pheap option" where
  "SetParent h this q =
    (case h this of None \<Rightarrow> None | Some p \<Rightarrow>
      (case q of
         None \<Rightarrow> Some (h(this \<mapsto> set_parent None p))
       | Some a \<Rightarrow>
           if this = a then Some h
           else (case parent p of
                   None \<Rightarrow> Some (h(this \<mapsto> set_parent (Some a) p))
                 | Some b \<Rightarrow> if b = a then Some h else SetParent h b (Some a))))"

section \<open>Writing\<close>

text \<open>\<open>params[name]\<close> of the table creates a default child; the overloads of \<open>Put\<close> then set it.\<close>

definition table_at :: "(string \<times> params) list \<Rightarrow> string \<Rightarrow> params" where
  "table_at m name = (case map_of m name of None \<Rightarrow> new_params False | Some q \<Rightarrow> q)"

definition put_with :: "(params \<Rightarrow> params) \<Rightarrow> string \<Rightarrow> params \<Rightarrow> params" where
  "put_with f name p = set_members (AList.update name (f (table_at (members p) name)) (members p)) p"

definition PutString :: "string \<Rightarrow> string \<Rightarrow> params \<Rightarrow> params" where
  "PutString name v = put_with (SetString v) name"

definition PutInt :: "string \<Rightarrow> int \<Rightarrow> params \<Rightarrow> params" where
  "PutInt name v = put_with (SetInt v) name"

definition PutDouble :: "string \<Rightarrow> 64 word \<Rightarrow> params \<Rightarrow> params" where
  "PutDouble name v = put_with (SetDouble v) name"

definition PutBool :: "string \<Rightarrow> bool \<Rightarrow> params \<Rightarrow> params" where
  "PutBool name v = put_with (SetBool v) name"

definition PutParams :: "string \<Rightarrow> params \<Rightarrow> params \<Rightarrow> params" where
  "PutParams name v = put_with (\<lambda>_. v) name"

text \<open>\<open>Add().f()\<close>: append a default element and change it through the returned reference.\<close>

definition AddWith :: "(params \<Rightarrow> params) \<Rightarrow> params \<Rightarrow> params" where
  "AddWith f p = set_array (param_array p @ [f (new_params False)]) p"

text \<open>
  \<open>(*this)[idx].f()\<close>: an index past the end grows the array with default elements (and makes
  the object an array), an index inside leaves the kind of the object alone.
\<close>

definition at_index :: "nat \<Rightarrow> (params \<Rightarrow> params) \<Rightarrow> params \<Rightarrow> params" where
  "at_index i f p =
    (if length (param_array p) > i
     then (case p of Params t s iv' d b nv m a q \<Rightarrow> Params t s iv' d b nv m (a[i := f (a ! i)]) q)
     else set_array ((param_array p @ replicate (i + 1 - length (param_array p)) (new_params False))
                       [i := f (new_params False)]) p)"

definition Insert :: "params \<Rightarrow> params \<Rightarrow> params" where
  "Insert other p =
    (let p' = set_members (fold (\<lambda>(k, v). AList.update k v) (members other) (members p)) p
     in case p' of Params t s i d b nv m a q \<Rightarrow> Params t s i d b nv m (a @ param_array other) q)"

text \<open>
  \<open>ParseFromString\<close> cuts the text with boost's \<open>split\<close> and \<open>trim\<close>, which are parameters here.
\<close>

definition parse_pair :: "(string \<Rightarrow> char \<Rightarrow> string list) \<Rightarrow> (string \<Rightarrow> string) \<Rightarrow> string \<Rightarrow> params \<Rightarrow> params"
  where
  "parse_pair split trim s p =
    (let kv = split s (CHR ''='')
     in if length kv = 2 then put_with (BuildFromString (trim (kv ! 1))) (trim (kv ! 0)) p else p)"

definition ParseFromString ::
  "(string \<Rightarrow> char \<Rightarrow> string list) \<Rightarrow> (string \<Rightarrow> string) \<Rightarrow> string \<Rightarrow> params \<Rightarrow> params" where
  "ParseFromString split trim v p = fold (parse_pair split trim) (split v (CHR '','')) p"

text \<open>
  \<open>isCondString\<close>: a non-empty text with a character that is neither a letter, a digit nor an
  underscore is an expression; anything else is the name of a setting.
\<close>

definition isalpha :: "char \<Rightarrow> bool" where
  "isalpha c = (let n = (of_char c :: nat) in (65 \<le> n \<and> n \<le> 90) \<or> (97 \<le> n \<and> n \<le> 122))"

definition isdigit :: "char \<Rightarrow> bool" where
  "isdigit c = (let n = (of_char c :: nat) in 48 \<le> n \<and> n \<le> 57)"

definition isCondString :: "string \<Rightarrow> bool" where
  "isCondString s =
    (if s = [] then False
     else list_ex (\<lambda>ch. \<not> isalpha ch \<and> \<not> isdigit ch \<and> ch \<noteq> CHR ''_'') s)"

record cond_params =
  match :: string
  cargs :: params
  inherit_default :: bool

definition IsCondExpr :: "cond_params \<Rightarrow> bool" where
  "IsCondExpr c = isCondString (match c)"

record graph_data =
  d_id :: string
  d_field :: string
  move_from_when_skipped :: string
  aggregate :: "string list"
  required :: bool
  move :: bool
  is_extern :: bool
  is_in_out :: bool

definition new_graph_data :: graph_data where
  "new_graph_data = \<lparr>d_id = '''', d_field = '''', move_from_when_skipped = '''', aggregate = [],
     required = False, move = False, is_extern = False, is_in_out = False\<rparr>"

record config_setting =
  cs_name :: string
  cs_cond :: string
  cs_processor :: string

section \<open>Parent chains\<close>

text \<open>\<open>chain h p qs\<close>: following the parent pointers from \<open>p\<close> visits exactly the objects \<open>qs\<close>.\<close>

inductive chain :: "pheap \<Rightarrow> params \<Rightarrow> params list \<Rightarrow> bool" for h where
  chain_root: "parent p = None \<Longrightarrow> chain h p []"
| chain_link: "parent p = Some a \<Longrightarrow> h a = Some q \<Longrightarrow> chain h q qs \<Longrightarrow> chain h p (q # qs)"

inductive_cases chain_NilE: "chain h p []"
inductive_cases chain_ConsE: "chain h p (q # qs)"

lemma Get_chain:
  "chain h p qs \<Longrightarrow>
    Get h p name =
      Some (case List.find (\<lambda>q. map_of (members q) name \<noteq> None) (p # qs) of
              None \<Rightarrow> new_params True | Some q \<Rightarrow> the (map_of (members q) name))"
proof (induction rule: chain.induct)
  case (chain_root p)
  then show ?case by (subst Get.simps) (auto split: option.split)
next
  case (chain_link p a q qs)
  then show ?case by (subst Get.simps) (auto split: option.split)
qed

lemma Contains_chain:
  "chain h p qs \<Longrightarrow>
    Contains h p name = Some (list_ex (\<lambda>q. map_of (members q) name \<noteq> None) (p # qs))"
proof (induction rule: chain.induct)
  case (chain_root p)
  then show ?case by (subst Contains.simps) auto
next
  case (chain_link p a q qs)
  then show ?case by (subst Contains.simps) auto
qed

lemma set_parent_parent [simp]: "parent (set_parent q p) = q"
  by (cases p) simp

lemma set_parent_members [simp]: "members (set_parent q p) = members p"
  by (cases p) simp

lemma members_set_members [simp]: "members (set_members m p) = m"
  by (cases p) simp

lemma parent_set_members [simp]: "parent (set_members m p) = parent p"
  by (cases p) simp

lemma find_members: "List.find P xs = Some x \<Longrightarrow> x \<in> set xs \<and> P x"
  by (induction xs) (auto split: if_splits)


text \<open>The same chain by addresses, for the operation that changes parent pointers.\<close>

inductive achain :: "pheap \<Rightarrow> paddr \<Rightarrow> paddr list \<Rightarrow> bool" for h where
  achain_root: "h a = Some p \<Longrightarrow> parent p = None \<Longrightarrow> achain h a []"
| achain_link: "h a = Some p \<Longrightarrow> parent p = Some b \<Longrightarrow> achain h b bs \<Longrightarrow> achain h a (b # bs)"

lemma achain_mapped: "achain h a bs \<Longrightarrow> x \<in> set (a # bs) \<Longrightarrow> h x \<noteq> None"
  by (induction rule: achain.induct) auto

lemma table_at_type:
  "param_type (table_at m name) = (case map_of m name of None \<Rightarrow> PARAM_INVALID | Some q \<Rightarrow> param_type q)"
  by (simp add: table_at_def new_params_def split: option.split)

lemma BuildFromString_type [simp]: "param_type (BuildFromString v p) = param_type p"
  by (cases p) (simp add: BuildFromString_def)

lemma update_values:
  "list_all (\<lambda>(k, q). P q) m \<Longrightarrow> P v \<Longrightarrow> list_all (\<lambda>(k, q). P q) (AList.update k v m)"
  by (induction m) auto

lemma list_all_map_of: "list_all (\<lambda>(k, q). P q) m \<Longrightarrow> map_of m k = Some q \<Longrightarrow> P q"
  by (auto simp: list_all_iff dest: map_of_SomeD)

lemma fold_parse_pair_untyped:
  "list_all (\<lambda>(k, q). param_type q = PARAM_INVALID) (members p) \<Longrightarrow>
    list_all (\<lambda>(k, q). param_type q = PARAM_INVALID) (members (fold (parse_pair split trim) ss p))"
proof (induction ss arbitrary: p)
  case (Cons s ss)
  have "list_all (\<lambda>(k, q). param_type q = PARAM_INVALID) (members (parse_pair split trim s p))"
    using Cons.prems
    by (auto simp: parse_pair_def put_with_def Let_def table_at_type split: option.split
        intro!: update_values dest: list_all_map_of)
  then show ?case using Cons.IH by simp
qed simp

section \<open>Properties\<close>

text \<open>
  \<open>GetVar\<close> never returns on a dotted name: the rest of the name still begins with the dot
  the loop has just found, so the loop looks up the empty name for ever. Only a name without a
  dot is resolved, and then exactly like \<open>Get\<close>.
\<close>

theorem GetVar_dotted_diverges:
  "GetVar h p name = (if CHR ''.'' \<in> set name then None else Get h p name)"
proof (cases "CHR ''.'' \<in> set name")
  case True
  have "GetVar h p name \<noteq> Some r" for r
  proof
    assume ret: "GetVar h p name = Some r"
    have "CHR ''.'' \<notin> set name"
    proof (rule GetVar.raw_induct [where P = "\<lambda>h p name r. CHR ''.'' \<notin> set name", OF _ ret])
      fix f :: "pheap \<Rightarrow> params \<Rightarrow> string \<Rightarrow> params option" and h p n r
      assume IH: "\<And>h p n r. f h p n = Some r \<Longrightarrow> CHR ''.'' \<notin> set n"
        and eq: "(if CHR ''.'' \<notin> set n then Get h p n
          else Option.bind (Get h p (takeWhile (\<lambda>c. c \<noteq> CHR ''.'') n))
                 (\<lambda>q. f h q (dropWhile (\<lambda>c. c \<noteq> CHR ''.'') n))) = Some r"
      show "CHR ''.'' \<notin> set n"
      proof
        assume dot: "CHR ''.'' \<in> set n"
        with eq obtain q where "f h q (dropWhile (\<lambda>c. c \<noteq> CHR ''.'') n) = Some r"
          by (auto simp: bind_eq_Some_conv)
        then have "CHR ''.'' \<notin> set (dropWhile (\<lambda>c. c \<noteq> CHR ''.'') n)" by (rule IH)
        moreover from dot have "dropWhile (\<lambda>c. c \<noteq> CHR ''.'') n \<noteq> []"
          by (auto simp: dropWhile_eq_Nil_conv)
        then have "hd (dropWhile (\<lambda>c. c \<noteq> CHR ''.'') n) = CHR ''.''"
          using hd_dropWhile [of "\<lambda>c. c \<noteq> CHR ''.''" n] by simp
        ultimately show False using \<open>dropWhile _ n \<noteq> []\<close> by (metis hd_in_set)
      qed
    qed
    with True show False by simp
  qed
  with True show ?thesis by (cases "GetVar h p name") auto
next
  case False
  then show ?thesis by (subst GetVar.simps) simp
qed

text \<open>
  A lookup takes the child of the nearest object on the parent chain that has the name, so
  an object's own entries shadow its parents', and a name nobody has gives the invalid default
  object; \<open>Contains\<close> answers whether somebody on the chain has it.
\<close>

theorem Get_nearest_on_chain:
  assumes "chain h p qs"
  shows "Get h p name =
      Some (case List.find (\<lambda>q. map_of (members q) name \<noteq> None) (p # qs) of
              None \<Rightarrow> new_params True | Some q \<Rightarrow> the (map_of (members q) name))
    \<and> Contains h p name = Some (list_ex (\<lambda>q. map_of (members q) name \<noteq> None) (p # qs))"
  using Get_chain[OF assms] Contains_chain[OF assms] by simp

definition example_heap :: pheap where
  "example_heap = [0 \<mapsto> PutInt ''b'' 2 (PutInt ''a'' 1 (new_params False)),
     1 \<mapsto> set_parent (Some 0) (PutInt ''a'' 7 (new_params False))]"

lemma example_chain:
  "chain example_heap (the (example_heap 1)) [the (example_heap 0)]"
  by (rule chain_link [where a = 0])
    (auto simp: example_heap_def PutInt_def put_with_def new_params_def intro: chain_root)

theorem Get_nearest_on_chain_witness:
  "map_option iv (Get example_heap (the (example_heap 1)) ''a'') = Some 7
    \<and> map_option iv (Get example_heap (the (example_heap 1)) ''b'') = Some 2
    \<and> Contains example_heap (the (example_heap 1)) ''c'' = Some False"
  unfolding Get_nearest_on_chain [OF example_chain, THEN conjunct1]
    Get_nearest_on_chain [OF example_chain, THEN conjunct2]
  by (simp add: example_heap_def PutInt_def put_with_def new_params_def table_at_def)

text \<open>
  Attaching a parent appends it behind the end of the existing chain: it becomes the parent
  of the last ancestor, every object in between keeps its own parent, and an object that is
  already on the chain is not attached a second time.
\<close>

theorem SetParent_appends:
  assumes "achain h a as"
  shows "SetParent h a (Some q) =
    Some (if q \<in> set (a # as) then h
          else h(last (a # as) \<mapsto> set_parent (Some q) (the (h (last (a # as))))))"
  using assms
proof (induction rule: achain.induct)
  case (achain_root a p)
  then show ?case by (subst SetParent.simps) auto
next
  case (achain_link a p b bs)
  show ?case
  proof (cases "q = a \<or> q = b")
    case True
    with achain_link.hyps show ?thesis by (subst SetParent.simps) auto
  next
    case False
    have "SetParent h a (Some q) = SetParent h b (Some q)"
      using achain_link.hyps False by (subst SetParent.simps) simp
    with achain_link.IH False show ?thesis by simp
  qed
qed

theorem SetParent_appends_witness:
  "SetParent example_heap 1 (Some 5) =
     Some (example_heap(0 \<mapsto> set_parent (Some 5) (the (example_heap 0))))"
proof -
  have "achain example_heap 0 []"
    by (rule achain_root) (auto simp: example_heap_def PutInt_def put_with_def new_params_def)
  then have "achain example_heap 1 [0]"
    by (rule achain_link [rotated 2]) (auto simp: example_heap_def)
  from SetParent_appends [OF this, of 5] show ?thesis by simp
qed

text \<open>
  The objects that \<open>ParseFromString\<close> stores have no kind: \<open>BuildFromString\<close> fills the text
  and never the type, so no operator parameter accepts such a value.
\<close>

theorem ParseFromString_untyped:
  "list_all (\<lambda>(k, q). \<not> IsString q \<and> \<not> IsInt q \<and> \<not> IsDouble q \<and> \<not> IsBool q)
     (members (ParseFromString split trim v (new_params False)))"
proof -
  have "list_all (\<lambda>(k, q). param_type q = PARAM_INVALID) (members (new_params False))"
    by (simp add: new_params_def)
  then have "list_all (\<lambda>(k, q). param_type q = PARAM_INVALID)
      (members (ParseFromString split trim v (new_params False)))"
    unfolding ParseFromString_def by (rule fold_parse_pair_untyped)
  then show ?thesis
    by (simp add: list_all_iff is_type_def IsString_def IsInt_def IsDouble_def IsBool_def split_beta)
qed

end
