(* ===== verification/Vertex.thy ===== *)
theory Vertex
  imports Params
begin

unbundle bit_operations_syntax

text \<open>
  The vertex of a graph (\<open>graph/vertex.h\<close>, \<open>graph/vertex.cpp\<close>): its configuration, the
  dependency edges that the builder derives from it, and the operations that look at one vertex
  only. Operations that follow pointers to other vertices are in theory \<open>Graph\<close>.

  A \<open>Vertex*\<close> points into the graph's vector of configured vertices or into its list of
  generated vertices, so it is a reference of type \<open>vref\<close>.
\<close>

section \<open>Results\<close>

datatype vresult = V_RESULT_INVALID | V_RESULT_OK | V_RESULT_ERR | V_RESULT_SKIP | V_RESULT_ALL

primrec result_bits :: "vresult \<Rightarrow> nat" where
  "result_bits V_RESULT_INVALID = 0"
| "result_bits V_RESULT_OK = 1"
| "result_bits V_RESULT_ERR = 2"
| "result_bits V_RESULT_SKIP = 4"
| "result_bits V_RESULT_ALL = 7"

text \<open>The test \<open>0 != (result & expected)\<close> of the executor.\<close>

definition result_matches :: "vresult \<Rightarrow> vresult \<Rightarrow> bool" where
  "result_matches r e = (result_bits r AND result_bits e \<noteq> 0)"

text \<open>The values of \<open>VertexErrCode\<close>; an operator's own return code is cast to it unchanged.\<close>

definition V_CODE_INVALID :: int where "V_CODE_INVALID = 0"
definition V_CODE_OK :: int where "V_CODE_OK = 1"
definition V_CODE_ERR :: int where "V_CODE_ERR = 2"
definition V_CODE_SKIP :: int where "V_CODE_SKIP = 3"

section \<open>The vertex\<close>

datatype vref = VertexRef nat | GenRef nat

record vertex =
  v_id :: string
  v_processor :: string
  v_args :: params
  v_select_args :: "cond_params list"
  v_cond :: string
  v_expect :: string
  v_expect_deps :: string_set
  v_expect_config :: string
  v_is_start :: bool
  v_cluster :: string
  v_graph :: string
  v_while_cond :: string
  v_while_async :: bool
  v_successor :: string_set
  v_successor_on_ok :: string_set
  v_successor_on_err :: string_set
  v_consequent :: string_set
  v_alternative :: string_set
  v_deps :: string_set
  v_deps_on_ok :: string_set
  v_deps_on_err :: string_set
  v_input :: "graph_data list"
  v_output :: "graph_data list"
  v_ignore_processor_execute_error :: bool
  v_early_exit_graph_if_failed :: bool
  v_successor_vertex :: "vref list"
  v_deps_expected_results :: "vresult list"
  v_deps_idx :: "(vref \<times> nat) list"
  v_is_id_generated :: bool

definition new_vertex :: vertex where
  "new_vertex = \<lparr>v_id = '''', v_processor = '''', v_args = new_params False, v_select_args = [],
     v_cond = '''', v_expect = '''', v_expect_deps = [], v_expect_config = '''', v_is_start = False,
     v_cluster = '''', v_graph = '''', v_while_cond = '''', v_while_async = True,
     v_successor = [], v_successor_on_ok = [], v_successor_on_err = [], v_consequent = [],
     v_alternative = [], v_deps = [], v_deps_on_ok = [], v_deps_on_err = [],
     v_input = [], v_output = [], v_ignore_processor_execute_error = True,
     v_early_exit_graph_if_failed = False, v_successor_vertex = [],
     v_deps_expected_results = [], v_deps_idx = [], v_is_id_generated = False\<rparr>"

section \<open>Operators as the builder sees them\<close>

text \<open>
  The builder asks the operator factory for an operator object only to read the names and flags
  of its input and output fields.
\<close>

record field_info =
  fi_name :: string
  fi_id :: nat
  fi_is_extern :: bool
  fi_is_aggregate :: bool
  fi_is_in_out :: bool

record processor_fields =
  GetInputIds :: "field_info list"
  GetOutputIds :: "field_info list"

type_synonym factory = "string \<rightharpoonup> processor_fields"

section \<open>Operations\<close>

definition SetGeneratedId :: "string \<Rightarrow> vertex \<Rightarrow> vertex" where
  "SetGeneratedId i v = v\<lparr>v_id := i, v_is_id_generated := True\<rparr>"

definition IsSuccessorsEmpty :: "vertex \<Rightarrow> bool" where
  "IsSuccessorsEmpty v = (v_successor_vertex v = [])"

text \<open>
  There are two overloads of \<open>IsDepsEmpty\<close>: the \<open>const\<close> one reads the configuration, the other
  one the edges built so far. A call on an object that is not \<open>const\<close> takes the second.
\<close>

definition IsDepsEmpty_const :: "vertex \<Rightarrow> bool" where
  "IsDepsEmpty_const v = (v_expect v = [] \<and> v_expect_config v = [] \<and> v_deps v = []
     \<and> v_deps_on_ok v = [] \<and> v_deps_on_err v = [])"

definition IsDepsEmpty :: "vertex \<Rightarrow> bool" where
  "IsDepsEmpty v = (v_deps_idx v = [])"

definition Verify :: "vertex \<Rightarrow> bool" where
  "Verify v =
    (if v_is_start v
     then (if v_deps v \<noteq> [] \<or> v_deps_on_ok v \<noteq> [] \<or> v_deps_on_err v \<noteq> [] then False else True)
     else (if IsSuccessorsEmpty v \<and> IsDepsEmpty v then False else True))"

definition MergeSuccessor :: "vertex \<Rightarrow> vertex" where
  "MergeSuccessor v = v\<lparr>
     v_successor_on_ok := set_insert_all (v_consequent v) (v_successor_on_ok v),
     v_successor_on_err := set_insert_all (v_alternative v) (v_successor_on_err v)\<rparr>"

definition IsCondVertex :: "vertex \<Rightarrow> bool" where
  "IsCondVertex v = (v_cond v \<noteq> [] \<or> v_consequent v \<noteq> [] \<or> v_alternative v \<noteq> [])"

definition GetDependencyIndex :: "vertex \<Rightarrow> vref \<Rightarrow> int" where
  "GetDependencyIndex v p = (case map_of (v_deps_idx v) p of None \<Rightarrow> -1 | Some i \<Rightarrow> int i)"

text \<open>
  \<open>FillInputOutput\<close> adds the operator's fields that the configuration leaves out. The search
  for a configured entry stops at the first match, and an entry that is not found is added at
  the end.
\<close>

fun fill_input :: "field_info \<Rightarrow> graph_data list \<Rightarrow> graph_data list" where
  "fill_input f [] =
    [new_graph_data\<lparr>d_id := fi_name f, d_field := fi_name f, is_extern := fi_is_extern f,
       is_in_out := fi_is_in_out f, move := fi_is_in_out f\<rparr>]"
| "fill_input f (d # ds) =
    (if d_field d = fi_name f
     then (if fi_is_in_out f
           then d\<lparr>move := True, is_in_out := True,
                  is_extern := (if fi_is_extern f then True else is_extern d)\<rparr>
           else d) # ds
     else d # fill_input f ds)"

fun fill_output :: "field_info \<Rightarrow> graph_data list \<Rightarrow> graph_data list" where
  "fill_output f [] = [new_graph_data\<lparr>d_id := fi_name f, d_field := fi_name f\<rparr>]"
| "fill_output f (d # ds) = (if d_field d = fi_name f then d # ds else d # fill_output f ds)"

text \<open>\<open>None\<close> stands for the return of -1, which leaves the vertex as it was.\<close>

definition FillInputOutput :: "factory \<Rightarrow> vertex \<Rightarrow> vertex option" where
  "FillInputOutput F v =
    (if v_processor v = [] then Some v
     else (case F (v_processor v) of
       None \<Rightarrow> None
     | Some p \<Rightarrow> Some (v\<lparr>v_input := fold fill_input (GetInputIds p) (v_input v),
                         v_output := fold fill_output (GetOutputIds p) (v_output v)\<rparr>)))"

section \<open>Lemmas\<close>

lemma result_matches_ALL: "result_matches r V_RESULT_ALL \<longleftrightarrow> r \<noteq> V_RESULT_INVALID"
  by (cases r) (simp_all add: result_matches_def)

lemma result_matches_OK: "result_matches r V_RESULT_OK \<longleftrightarrow> r = V_RESULT_OK \<or> r = V_RESULT_ALL"
  by (cases r) (simp_all add: result_matches_def)

lemma result_matches_ERR: "result_matches r V_RESULT_ERR \<longleftrightarrow> r = V_RESULT_ERR \<or> r = V_RESULT_ALL"
  by (cases r) (simp_all add: result_matches_def)

lemma not_matches_INVALID [simp]: "\<not> result_matches V_RESULT_INVALID e"
  by (simp add: result_matches_def)

lemma fill_input_fields:
  "set (map d_field (fill_input f ds)) = insert (fi_name f) (set (map d_field ds))"
  by (induction f ds rule: fill_input.induct) (auto simp: new_graph_data_def)

lemma fill_output_fields:
  "set (map d_field (fill_output f ds)) = insert (fi_name f) (set (map d_field ds))"
  by (induction f ds rule: fill_output.induct) (auto simp: new_graph_data_def)

lemma fold_fill_input_fields:
  "set (map d_field (fold fill_input fs ds)) = fi_name ` set fs \<union> set (map d_field ds)"
  by (induction fs arbitrary: ds) (simp_all add: fill_input_fields del: set_map)

lemma fold_fill_output_fields:
  "set (map d_field (fold fill_output fs ds)) = fi_name ` set fs \<union> set (map d_field ds)"
  by (induction fs arbitrary: ds) (simp_all add: fill_output_fields del: set_map)

text \<open>The edge fields of a vertex, which no operation of this theory writes.\<close>

definition edge_fields :: "vertex \<Rightarrow> vref list \<times> vresult list \<times> (vref \<times> nat) list" where
  "edge_fields v = (v_successor_vertex v, v_deps_expected_results v, v_deps_idx v)"

lemma edge_fields_MergeSuccessor [edge_simps]: "edge_fields (MergeSuccessor v) = edge_fields v"
  by (simp add: edge_fields_def MergeSuccessor_def)

lemma edge_fields_FillInputOutput:
  "FillInputOutput F v = Some w \<Longrightarrow> edge_fields w = edge_fields v \<and> v_id w = v_id v
    \<and> v_processor w = v_processor v \<and> v_graph w = v_graph v"
  by (auto simp: FillInputOutput_def edge_fields_def split: if_splits option.splits)

section \<open>Properties\<close>

text \<open>
  After a successful \<open>FillInputOutput\<close> the vertex has an entry for every input and every
  output field of its operator, and still one for every field it configured; nothing else.
\<close>

theorem FillInputOutput_complete:
  assumes "FillInputOutput F v = Some w" and "v_processor v \<noteq> []"
  shows "\<exists>p. F (v_processor v) = Some p
     \<and> d_field ` set (v_input w) = fi_name ` set (GetInputIds p) \<union> d_field ` set (v_input v)
     \<and> d_field ` set (v_output w) = fi_name ` set (GetOutputIds p) \<union> d_field ` set (v_output v)"
  using assms fold_fill_input_fields fold_fill_output_fields
  by (auto simp: FillInputOutput_def split: option.splits simp flip: set_map)

definition example_fields :: processor_fields where
  "example_fields = \<lparr>GetInputIds = [\<lparr>fi_name = ''a'', fi_id = 1, fi_is_extern = False,
      fi_is_aggregate = False, fi_is_in_out = False\<rparr>],
    GetOutputIds = [\<lparr>fi_name = ''b'', fi_id = 2, fi_is_extern = False,
      fi_is_aggregate = False, fi_is_in_out = False\<rparr>]\<rparr>"

theorem FillInputOutput_complete_witness:
  "\<exists>w p. FillInputOutput [''op'' \<mapsto> example_fields] (new_vertex\<lparr>v_processor := ''op''\<rparr>) = Some w
     \<and> [''op'' \<mapsto> example_fields] ''op'' = Some p \<and> d_field ` set (v_input w) = {''a''}"
proof -
  define v where "v = new_vertex\<lparr>v_processor := ''op''\<rparr>"
  obtain w where w: "FillInputOutput [''op'' \<mapsto> example_fields] v = Some w"
    by (simp add: FillInputOutput_def v_def)
  have "v_processor v \<noteq> []" by (simp add: v_def)
  from FillInputOutput_complete [OF w this] w show ?thesis
    by (auto simp: v_def new_vertex_def example_fields_def)
qed

end
