(* ===== verification/Graph.thy ===== *)
theory Graph
  imports Vertex
begin

text \<open>
  The graph builder (\<open>graph/graph.h\<close>, \<open>graph/graph.cpp\<close> and the pointer-following operations of
  \<open>graph/vertex.cpp\<close>): \<open>Graph::Build\<close> names the vertices, generates a condition vertex for every
  \<open>expect\<close> expression, derives the dependency edges from the configured names and from the data
  the vertices read and write, and rejects graphs with a cycle.

  The graph owns its vertices (\<open>g_vertex\<close>, the configured ones, and \<open>g_gen_vertex\<close>); \<open>deref\<close>
  follows a reference and \<open>modify\<close> writes through one. The back pointers \<open>_graph\<close> and \<open>_cluster\<close>
  are the graph and cluster arguments of the operations.
\<close>

section \<open>Graphs and clusters\<close>

record graph =
  g_name :: string
  g_vertex :: "vertex list"
  g_vertex_skip_as_error :: bool
  g_gen_while_subgraph :: bool
  g_early_exit_graph_if_failed :: bool
  g_priority :: int
  g_gen_vertex :: "vertex list"
  g_nodes :: "(string \<times> vref) list"
  g_data_mapping_table :: "(string \<times> vref) list"
  g_idx :: nat
  g_is_gen_while_graph :: bool

definition new_graph :: graph where
  "new_graph = \<lparr>g_name = '''', g_vertex = [], g_vertex_skip_as_error = True,
     g_gen_while_subgraph = False, g_early_exit_graph_if_failed = False, g_priority = -1,
     g_gen_vertex = [], g_nodes = [], g_data_mapping_table = [], g_idx = 0,
     g_is_gen_while_graph = False\<rparr>"

record cluster =
  c_name :: string
  c_desc :: string
  c_strict_dsl :: bool
  c_default_expr_processor :: string
  c_default_context_pool_size :: int
  c_graph :: "graph list"
  c_config_setting :: "config_setting list"
  c_file_name :: string
  c_graphs :: "(string \<times> nat) list"
  c_builded :: bool

definition new_cluster :: cluster where
  "new_cluster = \<lparr>c_name = '''', c_desc = '''', c_strict_dsl = True,
     c_default_expr_processor = '''', c_default_context_pool_size = 64, c_graph = [],
     c_config_setting = [], c_file_name = '''', c_graphs = [], c_builded = False\<rparr>"

text \<open>What the log line of each failing return of the builders says.\<close>

datatype build_error =
    ExpectAndExpectConfig string
  | NoConfigSetting string
  | DuplicateNodeId string
  | FillInputOutputFailed string
  | EmptyOutputField string
  | DuplicateData string string
  | EmptyInputField string
  | ProcessorAndGraphEmpty string
  | NoSuccessorId string
  | NoDepId string
  | NoInputData string string
  | VerifyFailed string
  | HasCircle
  | EmptyGraph string
  | EmptyDefaultExprProcessor

section \<open>References\<close>

definition deref :: "graph \<Rightarrow> vref \<Rightarrow> vertex" where
  "deref g p = (case p of VertexRef i \<Rightarrow> g_vertex g ! i | GenRef i \<Rightarrow> g_gen_vertex g ! i)"

definition modify :: "vref \<Rightarrow> (vertex \<Rightarrow> vertex) \<Rightarrow> graph \<Rightarrow> graph" where
  "modify p f g = (case p of
     VertexRef i \<Rightarrow> g\<lparr>g_vertex := (g_vertex g)[i := f (g_vertex g ! i)]\<rparr>
   | GenRef i \<Rightarrow> g\<lparr>g_gen_vertex := (g_gen_vertex g)[i := f (g_gen_vertex g ! i)]\<rparr>)"

definition valid_ref :: "graph \<Rightarrow> vref \<Rightarrow> bool" where
  "valid_ref g p = (case p of VertexRef i \<Rightarrow> i < length (g_vertex g)
                            | GenRef i \<Rightarrow> i < length (g_gen_vertex g))"

abbreviation succs :: "graph \<Rightarrow> vref \<Rightarrow> vref list" where
  "succs g p \<equiv> v_successor_vertex (deref g p)"

abbreviation deps_idx :: "graph \<Rightarrow> vref \<Rightarrow> (vref \<times> nat) list" where
  "deps_idx g p \<equiv> v_deps_idx (deref g p)"

definition FindVertexById :: "graph \<Rightarrow> string \<Rightarrow> vref option" where
  "FindVertexById g i = map_of (g_nodes g) i"

definition FindVertexByData :: "graph \<Rightarrow> string \<Rightarrow> vref option" where
  "FindVertexByData g d = map_of (g_data_mapping_table g) d"

definition ContainsConfigSetting :: "cluster \<Rightarrow> string \<Rightarrow> bool" where
  "ContainsConfigSetting c name =
    list_ex (\<lambda>cfg. if name \<noteq> [] \<and> hd name = CHR ''!'' then cs_name cfg = tl name
                   else cs_name cfg = name) (c_config_setting c)"

section \<open>Naming vertices\<close>

definition generateNodeId :: "graph \<Rightarrow> string \<times> graph" where
  "generateNodeId g = (g_name g @ ''_'' @ to_string (g_idx g), g\<lparr>g_idx := g_idx g + 1\<rparr>)"

definition geneatedCondVertex :: "cluster \<Rightarrow> string \<Rightarrow> graph \<Rightarrow> vref \<times> graph" where
  "geneatedCondVertex c cond g =
    (let (i, g') = generateNodeId g;
         v = MergeSuccessor ((SetGeneratedId i new_vertex)
               \<lparr>v_processor := c_default_expr_processor c, v_cond := cond\<rparr>);
         r = GenRef (length (g_gen_vertex g'))
     in (r, g'\<lparr>g_nodes := AList.update i r (g_nodes g'), g_gen_vertex := g_gen_vertex g' @ [v]\<rparr>))"

definition assign_processor :: "cluster \<Rightarrow> vref \<Rightarrow> graph \<Rightarrow> graph" where
  "assign_processor c p = modify p (\<lambda>n. if v_processor n = [] \<and> v_cond n \<noteq> []
     then n\<lparr>v_processor := c_default_expr_processor c\<rparr> else n)"

definition assign_id :: "vref \<Rightarrow> graph \<Rightarrow> graph" where
  "assign_id p g =
    (if v_id (deref g p) = []
     then (if v_processor (deref g p) = []
           then (let (i, g') = generateNodeId g in modify p (SetGeneratedId i) g')
           else modify p (\<lambda>n. n\<lparr>v_id := v_processor n\<rparr>) g)
     else g)"

definition assign_cluster :: "cluster \<Rightarrow> vref \<Rightarrow> graph \<Rightarrow> graph" where
  "assign_cluster c p = modify p (\<lambda>n. if v_graph n \<noteq> [] \<and> (v_cluster n = ''.'' \<or> v_cluster n = [])
     then n\<lparr>v_cluster := c_file_name c\<rparr> else n)"

definition check_expect :: "cluster \<Rightarrow> vertex \<Rightarrow> build_error option" where
  "check_expect c n =
    (if v_expect n \<noteq> [] \<and> v_expect_config n \<noteq> [] then Some (ExpectAndExpectConfig (v_id n))
     else if v_expect_config n \<noteq> [] \<and> \<not> ContainsConfigSetting c (v_expect_config n)
     then Some (NoConfigSetting (v_expect_config n))
     else None)"

text \<open>
  The condition vertex of an \<open>expect\<close> expression is generated for the first vertex that has it
  and shared by the later ones; its dependencies are those of that first vertex.
\<close>

definition link_expect ::
  "cluster \<Rightarrow> vref \<Rightarrow> graph \<times> (string \<rightharpoonup> vref) \<Rightarrow> graph \<times> (string \<rightharpoonup> vref)" where
  "link_expect c p = (\<lambda>(g, gen).
    let n = deref g p in
    if v_expect n = [] then (g, gen)
    else
      let (g1, gen1) =
        (case gen (v_expect n) of
           Some _ \<Rightarrow> (g, gen)
         | None \<Rightarrow>
             let (r, g') = geneatedCondVertex c (v_expect n) g;
                 g'' = modify r (\<lambda>cv. if v_expect_deps n \<noteq> []
                     then cv\<lparr>v_deps := v_expect_deps n\<rparr>
                     else cv\<lparr>v_deps := v_deps n, v_deps_on_err := v_deps_on_err n,
                             v_deps_on_ok := v_deps_on_ok n\<rparr>) g'
             in (g'', gen(v_expect n \<mapsto> r)));
          cid = v_id (deref g1 (the (gen1 (v_expect n))))
      in (modify p (\<lambda>n. n\<lparr>v_deps_on_ok := set_insert cid (v_deps_on_ok n)\<rparr>) g1, gen1))"

fun name_outputs :: "vref \<Rightarrow> string \<Rightarrow> graph_data list \<Rightarrow> (string \<times> vref) list \<Rightarrow>
    (build_error, graph_data list \<times> (string \<times> vref) list) outcome" where
  "name_outputs p nid [] tbl = Ok ([], tbl)"
| "name_outputs p nid (d # ds) tbl =
    (if d_field d = [] then Err (EmptyOutputField nid)
     else
       let d' = (if d_id d = [] then d\<lparr>d_id := d_field d\<rparr> else d)
       in if map_of tbl (d_id d') \<noteq> None then Err (DuplicateData (d_id d') nid)
          else and_then (name_outputs p nid ds (AList.update (d_id d') p tbl))
                 (\<lambda>(ds', tbl'). Ok (d' # ds', tbl')))"

fun name_inputs :: "string \<Rightarrow> graph_data list \<Rightarrow> (build_error, graph_data list) outcome" where
  "name_inputs nid [] = Ok []"
| "name_inputs nid (d # ds) =
    (if d_field d = [] then Err (EmptyInputField nid)
     else and_then (name_inputs nid ds)
            (\<lambda>ds'. Ok ((if d_id d = [] then d\<lparr>d_id := d_field d\<rparr> else d) # ds')))"

definition register_node :: "vref \<Rightarrow> graph \<Rightarrow> (build_error, graph) outcome" where
  "register_node p g =
    (let i = v_id (deref g p)
     in if map_of (g_nodes g) i \<noteq> None then Err (DuplicateNodeId i)
        else let g' = modify p MergeSuccessor g
             in Ok (g'\<lparr>g_nodes := AList.update i p (g_nodes g')\<rparr>))"

definition fill_fields :: "cluster \<Rightarrow> factory \<Rightarrow> vref \<Rightarrow> graph \<Rightarrow> (build_error, graph) outcome" where
  "fill_fields c F p g =
    (case FillInputOutput F (deref g p) of
       Some w \<Rightarrow> Ok (modify p (\<lambda>_. w) g)
     | None \<Rightarrow> if c_strict_dsl c then Err (FillInputOutputFailed (v_id (deref g p))) else Ok g)"

definition name_data :: "vref \<Rightarrow> graph \<Rightarrow> (build_error, graph) outcome" where
  "name_data p g =
    (let n = deref g p
     in and_then (name_outputs p (v_id n) (v_output n) (g_data_mapping_table g)) (\<lambda>(outs, tbl).
        and_then (name_inputs (v_id n) (v_input n)) (\<lambda>ins.
        Ok ((modify p (\<lambda>n. n\<lparr>v_output := outs, v_input := ins\<rparr>) g)\<lparr>g_data_mapping_table := tbl\<rparr>))))"

text \<open>The body of the first loop of \<open>Graph::Build\<close>.\<close>

definition prepare_vertex :: "cluster \<Rightarrow> factory \<Rightarrow> vref \<Rightarrow> graph \<times> (string \<rightharpoonup> vref) \<Rightarrow>
    (build_error, graph \<times> (string \<rightharpoonup> vref)) outcome" where
  "prepare_vertex c F p = (\<lambda>(g, gen).
    let g1 = assign_cluster c p (assign_id p (assign_processor c p g))
    in case check_expect c (deref g1 p) of
         Some e \<Rightarrow> Err e
       | None \<Rightarrow>
           let (g2, gen') = link_expect c p (g1, gen)
           in and_then (register_node p g2) (\<lambda>g3.
              and_then (fill_fields c F p g3) (\<lambda>g4.
              and_then (name_data p g4) (\<lambda>g5. Ok (g5, gen')))))"

section \<open>Edges\<close>

text \<open>\<open>resize\<close> of a vector of results; new elements are value-initialised to 0.\<close>

definition resize :: "nat \<Rightarrow> vresult list \<Rightarrow> vresult list" where
  "resize n xs = take n xs @ replicate (n - length xs) V_RESULT_INVALID"

text \<open>
  \<open>this->Depend(v, expected)\<close>. The first call for a pair of vertices decides the expected
  result; later ones only find that the edge exists.
\<close>

definition Depend :: "vref \<Rightarrow> vref \<Rightarrow> vresult \<Rightarrow> graph \<Rightarrow> graph" where
  "Depend this v expected g =
    (let g1 = modify v (\<lambda>w. w\<lparr>v_successor_vertex := unordered_insert this (v_successor_vertex w)\<rparr>) g
     in if map_of (deps_idx g1 this) v = None
        then modify this (\<lambda>w. let idx = length (v_deps_idx w);
                                  m = AList.update v idx (v_deps_idx w)
                              in w\<lparr>v_deps_idx := m,
                                   v_deps_expected_results :=
                                     (resize (length m) (v_deps_expected_results w))[idx := expected]\<rparr>) g1
        else g1)"

definition BuildDeps :: "vref \<Rightarrow> vresult \<Rightarrow> string_set \<Rightarrow> graph \<Rightarrow> (build_error, graph) outcome" where
  "BuildDeps this expected dependency =
    for_each dependency (\<lambda>dep g. case FindVertexById g dep of
        None \<Rightarrow> Err (NoDepId dep)
      | Some v \<Rightarrow> Ok (Depend this v expected g))"

definition BuildSuccessors :: "vref \<Rightarrow> vresult \<Rightarrow> string_set \<Rightarrow> graph \<Rightarrow> (build_error, graph) outcome" where
  "BuildSuccessors this expected sucessor =
    for_each sucessor (\<lambda>i g. case FindVertexById g i of
        None \<Rightarrow> Err (NoSuccessorId i)
      | Some v \<Rightarrow> Ok (Depend v this expected g))"

text \<open>One data name that the vertex reads: the edge from the vertex that writes it.\<close>

definition data_dep :: "vref \<Rightarrow> graph_data \<Rightarrow> bool \<Rightarrow> string \<Rightarrow> graph \<Rightarrow> (build_error, graph) outcome" where
  "data_dep this data skip_self did g =
    (case FindVertexByData g did of
       None \<Rightarrow> if is_extern data then Ok g else Err (NoInputData (v_id (deref g this)) did)
     | Some v \<Rightarrow>
         if skip_self \<and> is_in_out data \<and> v = this then Ok g
         else Ok (Depend this v (if required data then V_RESULT_OK else V_RESULT_ALL) g))"

definition build_input :: "vref \<Rightarrow> graph_data \<Rightarrow> graph \<Rightarrow> (build_error, graph) outcome" where
  "build_input this data =
    (if aggregate data = [] then data_dep this data True (d_id data)
     else for_each (aggregate data) (data_dep this data False))"

definition check_select_args :: "cluster \<Rightarrow> cond_params list \<Rightarrow> build_error option" where
  "check_select_args c sel =
    map_option (\<lambda>s. NoConfigSetting (match s))
      (List.find (\<lambda>s. \<not> IsCondExpr s \<and> \<not> ContainsConfigSetting c (match s)) sel)"

definition BuildVertex :: "cluster \<Rightarrow> vref \<Rightarrow> graph \<Rightarrow> (build_error, graph) outcome" where
  "BuildVertex c this g =
    (let n = deref g this
     in if v_processor n = [] \<and> v_graph n = [] then Err (ProcessorAndGraphEmpty (v_id n))
        else case check_select_args c (v_select_args n) of
          Some e \<Rightarrow> Err e
        | None \<Rightarrow>
            and_then (BuildDeps this V_RESULT_ALL (v_deps n) g) (\<lambda>g.
            and_then (BuildDeps this V_RESULT_OK (v_deps_on_ok n) g) (\<lambda>g.
            and_then (BuildDeps this V_RESULT_ERR (v_deps_on_err n) g) (\<lambda>g.
            and_then (BuildSuccessors this V_RESULT_ALL (v_successor n) g) (\<lambda>g.
            and_then (BuildSuccessors this V_RESULT_OK (v_successor_on_ok n) g) (\<lambda>g.
            and_then (BuildSuccessors this V_RESULT_ERR (v_successor_on_err n) g) (\<lambda>g.
            for_each (v_input n) (build_input this) g)))))))"

section \<open>Cycles\<close>

text \<open>
  \<open>FindVertexInSuccessors\<close> recurses without remembering where it has been. \<open>search_successors\<close>
  is its loop over a list of successors; \<open>None\<close> is a recursion that never returns.
\<close>

partial_function (option) search_successors ::
  "(vref \<Rightarrow> vref list) \<Rightarrow> vref list \<Rightarrow> vref \<Rightarrow> bool option" where
  "search_successors succ ws v =
    (case ws of
       [] \<Rightarrow> Some False
     | w # ws' \<Rightarrow>
         Option.bind (if succ w = [] then Some False
                      else if v \<in> set (succ w) then Some True
                      else search_successors succ (succ w) v)
           (\<lambda>found. if found then Some True else search_successors succ ws' v))"

declare search_successors.simps [code]

definition FindVertexInSuccessors :: "(vref \<Rightarrow> vref list) \<Rightarrow> vref \<Rightarrow> vref \<Rightarrow> bool option" where
  "FindVertexInSuccessors succ this v =
    (if succ this = [] then Some False
     else if v \<in> set (succ this) then Some True
     else search_successors succ (succ this) v)"

fun test_nodes :: "(vref \<Rightarrow> vref list) \<Rightarrow> vref list \<Rightarrow> bool option" where
  "test_nodes succ [] = Some False"
| "test_nodes succ (p # ps) =
    Option.bind (FindVertexInSuccessors succ p p)
      (\<lambda>found. if found then Some True else test_nodes succ ps)"

definition TestCircle :: "graph \<Rightarrow> bool option" where
  "TestCircle g = test_nodes (succs g) (map snd (g_nodes g))"

section \<open>Build\<close>

definition mark_single :: "graph \<Rightarrow> graph" where
  "mark_single g =
    (if length (g_vertex g) = 1 \<and> IsDepsEmpty (deref g (VertexRef 0)) \<and> g_gen_vertex g = []
     then modify (VertexRef 0) (\<lambda>n. n\<lparr>v_is_start := True\<rparr>) g else g)"

definition vertex_refs :: "graph \<Rightarrow> vref list" where
  "vertex_refs g = map VertexRef [0..<length (g_vertex g)]"

definition gen_refs :: "graph \<Rightarrow> vref list" where
  "gen_refs g = map GenRef [0..<length (g_gen_vertex g)]"

definition verify_all :: "vref list \<Rightarrow> graph \<Rightarrow> (build_error, graph) outcome" where
  "verify_all ps = for_each ps (\<lambda>p g. if Verify (deref g p) then Ok g
                                       else Err (VerifyFailed (v_id (deref g p))))"

definition finish_build :: "graph \<Rightarrow> (build_error, graph) outcome" where
  "finish_build g =
    (case TestCircle g of
       None \<Rightarrow> Crash
     | Some circle \<Rightarrow>
         if circle then Err HasCircle
         else if g_nodes g = [] \<and> g_gen_vertex g = [] then Err (EmptyGraph (g_name g))
         else Ok g)"

text \<open>\<open>Graph::Build\<close> up to the cycle test, and the whole of it.\<close>

definition build_edges :: "cluster \<Rightarrow> factory \<Rightarrow> graph \<Rightarrow> (build_error, graph) outcome" where
  "build_edges c F g =
    and_then (for_each (vertex_refs g) (prepare_vertex c F) (g, Map.empty)) (\<lambda>(g, _).
    and_then (Ok (mark_single g)) (\<lambda>g.
    and_then (for_each (vertex_refs g) (BuildVertex c) g) (\<lambda>g.
    and_then (for_each (gen_refs g) (BuildVertex c) g) (\<lambda>g.
    and_then (verify_all (vertex_refs g) g) (\<lambda>g. verify_all (gen_refs g) g)))))"

definition GraphBuild :: "cluster \<Rightarrow> factory \<Rightarrow> graph \<Rightarrow> (build_error, graph) outcome" where
  "GraphBuild c F g = and_then (build_edges c F g) finish_build"

end
