(* ===== verification/GraphEdges.thy ===== *)
theory GraphEdges
  imports Graph "HOL-Library.Sublist"
begin

text \<open>
  The dependency edges of the builder: the two directions of every edge agree, the dependencies
  of a vertex are numbered 0, 1, ... in the order they were found, and building only adds
  edges. These are the facts the executor's counters rest on.
\<close>

section \<open>References\<close>

lemma deref_modify [edge_simps]:
  "valid_ref g p \<Longrightarrow> deref (modify p f g) q = (if q = p then f (deref g p) else deref g q)"
  by (cases p; cases q) (auto simp: deref_def modify_def valid_ref_def)

lemma valid_ref_modify [simp]: "valid_ref (modify p f g) q = valid_ref g q"
  by (cases p; cases q) (auto simp: modify_def valid_ref_def)

lemma modify_fields [simp]:
  "g_nodes (modify p f g) = g_nodes g"
  "g_data_mapping_table (modify p f g) = g_data_mapping_table g"
  "g_name (modify p f g) = g_name g"
  "g_idx (modify p f g) = g_idx g"
  "length (g_vertex (modify p f g)) = length (g_vertex g)"
  "length (g_gen_vertex (modify p f g)) = length (g_gen_vertex g)"
  by (auto simp: modify_def split: vref.split)

lemma deref_table_update [simp]:
  "deref (g\<lparr>g_nodes := x\<rparr>) = deref g" "deref (g\<lparr>g_data_mapping_table := y\<rparr>) = deref g"
  "deref (g\<lparr>g_idx := z\<rparr>) = deref g"
  by (auto simp: deref_def fun_eq_iff split: vref.split)

lemma valid_ref_table_update [simp]:
  "valid_ref (g\<lparr>g_nodes := x\<rparr>) = valid_ref g" "valid_ref (g\<lparr>g_data_mapping_table := y\<rparr>) = valid_ref g"
  "valid_ref (g\<lparr>g_idx := z\<rparr>) = valid_ref g"
  by (auto simp: valid_ref_def fun_eq_iff split: vref.split)

lemma update_absent: "map_of m k = None \<Longrightarrow> AList.update k v m = m @ [(k, v)]"
  by (induction m) (auto split: if_splits)

section \<open>Well-formed edges\<close>

definition depends :: "graph \<Rightarrow> vref \<Rightarrow> vref \<Rightarrow> bool" where
  "depends g p q = (q \<in> fst ` set (deps_idx g p))"

definition edge_result :: "vresult \<Rightarrow> bool" where
  "edge_result r = (r \<in> {V_RESULT_ALL, V_RESULT_OK, V_RESULT_ERR})"

definition vertex_edges_ok :: "vertex \<Rightarrow> bool" where
  "vertex_edges_ok v =
    (distinct (v_successor_vertex v) \<and> distinct (map fst (v_deps_idx v))
     \<and> map snd (v_deps_idx v) = [0..<length (v_deps_idx v)]
     \<and> length (v_deps_expected_results v) = length (v_deps_idx v)
     \<and> (\<forall>r \<in> set (v_deps_expected_results v). edge_result r))"

definition edges_ok :: "graph \<Rightarrow> bool" where
  "edges_ok g =
    ((\<forall>p. valid_ref g p \<longrightarrow> vertex_edges_ok (deref g p)
        \<and> (\<forall>q \<in> set (succs g p). valid_ref g q) \<and> (\<forall>q. depends g p q \<longrightarrow> valid_ref g q))
     \<and> (\<forall>p q. valid_ref g p \<longrightarrow> valid_ref g q \<longrightarrow> (q \<in> set (succs g p) \<longleftrightarrow> depends g q p)))"

lemma edges_okD:
  assumes "edges_ok g" "valid_ref g p"
  shows "vertex_edges_ok (deref g p)" "q \<in> set (succs g p) \<Longrightarrow> valid_ref g q"
    "depends g p q \<Longrightarrow> valid_ref g q"
    "valid_ref g q \<Longrightarrow> q \<in> set (succs g p) \<longleftrightarrow> depends g q p"
  using assms unfolding edges_ok_def by blast+

lemma vertex_edges_ok_succs:
  "vertex_edges_ok v \<Longrightarrow> distinct ss \<Longrightarrow> vertex_edges_ok (v\<lparr>v_successor_vertex := ss\<rparr>)"
  by (simp add: vertex_edges_ok_def)

lemma vertex_edges_ok_dep:
  assumes "vertex_edges_ok v" "map_of (v_deps_idx v) q = None" "edge_result e"
  shows "vertex_edges_ok (v\<lparr>v_deps_idx := v_deps_idx v @ [(q, length (v_deps_idx v))],
     v_deps_expected_results := v_deps_expected_results v @ [e]\<rparr>)"
  using assms by (auto simp: vertex_edges_ok_def map_of_eq_None_iff)

text \<open>What \<open>Depend\<close> does to a vertex, edge field by edge field.\<close>

lemma resize_append:
  "length xs = n \<Longrightarrow> (resize (Suc n) xs)[n := e] = xs @ [e]"
  by (auto simp: resize_def list_update_append)

lemma deref_Depend:
  assumes "edges_ok g" "valid_ref g this" "valid_ref g v"
  shows "deref (Depend this v e g) p =
    (let w = deref g p;
         w1 = (if p = v then w\<lparr>v_successor_vertex := unordered_insert this (v_successor_vertex w)\<rparr> else w)
     in if p = this \<and> \<not> depends g this v
        then w1\<lparr>v_deps_idx := v_deps_idx w @ [(v, length (v_deps_idx w))],
               v_deps_expected_results := v_deps_expected_results w @ [e]\<rparr>
        else w1)"
proof -
  have len: "length (v_deps_expected_results (deref g this)) = length (deps_idx g this)"
    using edges_okD(1)[OF assms(1,2)] by (simp add: vertex_edges_ok_def)
  define g1 where
    "g1 = modify v (\<lambda>w. w\<lparr>v_successor_vertex := unordered_insert this (v_successor_vertex w)\<rparr>) g"
  have g1: "deref g1 q = (if q = v
      then (deref g q)\<lparr>v_successor_vertex := unordered_insert this (succs g q)\<rparr> else deref g q)"
    "valid_ref g1 q = valid_ref g q" for q
    using assms(3) by (simp_all add: g1_def deref_modify)
  have none: "map_of (deps_idx g1 this) v = None \<longleftrightarrow> \<not> depends g this v"
    by (simp add: depends_def map_of_eq_None_iff g1)
  show ?thesis
  proof (cases "depends g this v")
    case True
    then have "Depend this v e g = g1"
      using none by (auto simp: Depend_def Let_def simp flip: g1_def)
    with True show ?thesis by (simp add: g1 Let_def)
  next
    case False
    have upd: "deps_idx g1 this = deps_idx g this"
      "v_deps_expected_results (deref g1 this) = v_deps_expected_results (deref g this)"
      by (simp_all add: g1)
    have absent: "AList.update v n (deps_idx g this) = deps_idx g this @ [(v, n)]" for n
      using False by (intro update_absent) (simp add: depends_def map_of_eq_None_iff)
    have "Depend this v e g = modify this (\<lambda>w. let idx = length (v_deps_idx w);
          m = AList.update v idx (v_deps_idx w)
        in w\<lparr>v_deps_idx := m, v_deps_expected_results :=
             (resize (length m) (v_deps_expected_results w))[idx := e]\<rparr>) g1"
      using False none by (simp add: Depend_def flip: g1_def)
    then have "deref (Depend this v e g) p =
      (if p = this then (deref g1 this)\<lparr>v_deps_idx := deps_idx g this @ [(v, length (deps_idx g this))],
           v_deps_expected_results := v_deps_expected_results (deref g this) @ [e]\<rparr> else deref g1 p)"
      using assms(2) g1(2) by (simp add: deref_modify Let_def upd absent resize_append len)
    with False show ?thesis by (simp add: g1 Let_def)
  qed
qed

lemma valid_ref_Depend [simp]: "valid_ref (Depend this v e g) q = valid_ref g q"
  by (simp add: Depend_def Let_def)

lemma Depend_fields [simp]:
  "g_nodes (Depend this v e g) = g_nodes g"
  "g_data_mapping_table (Depend this v e g) = g_data_mapping_table g"
  "length (g_vertex (Depend this v e g)) = length (g_vertex g)"
  "length (g_gen_vertex (Depend this v e g)) = length (g_gen_vertex g)"
  by (simp_all add: Depend_def Let_def)

lemma succs_Depend:
  assumes "edges_ok g" "valid_ref g this" "valid_ref g v"
  shows "succs (Depend this v e g) p = (if p = v then unordered_insert this (succs g v) else succs g p)"
  by (simp add: deref_Depend[OF assms] Let_def)

lemma depends_Depend:
  assumes "edges_ok g" "valid_ref g this" "valid_ref g v"
  shows "depends (Depend this v e g) p q \<longleftrightarrow> depends g p q \<or> (p = this \<and> q = v)"
  by (auto simp: deref_Depend[OF assms] Let_def depends_def)

lemma edges_ok_Depend:
  assumes "edges_ok g" "valid_ref g this" "valid_ref g v" "edge_result e"
  shows "edges_ok (Depend this v e g)"
proof -
  note D = succs_Depend[OF assms(1-3)] depends_Depend[OF assms(1-3)]
  have V: "vertex_edges_ok (deref (Depend this v e g) p)" if "valid_ref g p" for p
  proof -
    define w where "w = deref g p"
    define w1 where "w1 = (if p = v
      then w\<lparr>v_successor_vertex := unordered_insert this (v_successor_vertex w)\<rparr> else w)"
    have w: "vertex_edges_ok w" using assms(1) that unfolding w_def by (rule edges_okD)
    then have w1: "vertex_edges_ok w1"
      unfolding w1_def by (auto intro!: vertex_edges_ok_succs simp: vertex_edges_ok_def)
    have deps: "v_deps_idx w1 = v_deps_idx w" "v_deps_expected_results w1 = v_deps_expected_results w"
      by (simp_all add: w1_def)
    show ?thesis
    proof (cases "p = this \<and> \<not> depends g this v")
      case True
      then have "map_of (v_deps_idx w1) v = None"
        unfolding deps by (auto simp: w_def depends_def map_of_eq_None_iff)
      note ok = vertex_edges_ok_dep[OF w1 this assms(4)]
      from True have "deref (Depend this v e g) p = w1\<lparr>v_deps_idx := v_deps_idx w @ [(v, length (v_deps_idx w))],
          v_deps_expected_results := v_deps_expected_results w @ [e]\<rparr>"
        unfolding deref_Depend[OF assms(1-3)] Let_def w_def w1_def by simp
      with ok show ?thesis by (simp add: deps)
    next
      case False
      then have "deref (Depend this v e g) p = w1"
        unfolding deref_Depend[OF assms(1-3)] Let_def w1_def w_def by auto
      with w1 show ?thesis by simp
    qed
  qed
  have S: "valid_ref g q" if "valid_ref g p" "q \<in> set (succs (Depend this v e g) p)" for p q
    using that edges_okD(2)[OF assms(1)] assms(2) by (auto simp: D split: if_splits)
  have T: "valid_ref g q" if "valid_ref g p" "depends (Depend this v e g) p q" for p q
    using that edges_okD(3)[OF assms(1)] assms(3) by (auto simp: D)
  have U: "q \<in> set (succs (Depend this v e g) p) \<longleftrightarrow> depends (Depend this v e g) q p"
    if "valid_ref g p" "valid_ref g q" for p q
    using edges_okD(4)[OF assms(1) that] by (auto simp: D)
  show ?thesis
    unfolding edges_ok_def valid_ref_Depend using V S T U by blast
qed

section \<open>Building only adds edges\<close>

definition config :: "vertex \<Rightarrow> vertex" where
  "config v = v\<lparr>v_successor_vertex := [], v_deps_expected_results := [], v_deps_idx := []\<rparr>"

text \<open>
  \<open>grows g g'\<close>: \<open>g'\<close> is \<open>g\<close> with more edges; the numbers and the expected results of the edges
  of \<open>g\<close> are the same in both.
\<close>

definition vertex_grows :: "vertex \<Rightarrow> vertex \<Rightarrow> bool" where
  "vertex_grows v w =
    (config w = config v \<and> set (v_successor_vertex v) \<subseteq> set (v_successor_vertex w)
     \<and> prefix (v_deps_idx v) (v_deps_idx w)
     \<and> prefix (v_deps_expected_results v) (v_deps_expected_results w))"

lemma vertex_grows_trans: "vertex_grows u v \<Longrightarrow> vertex_grows v w \<Longrightarrow> vertex_grows u w"
  by (auto simp: vertex_grows_def)

definition grows :: "graph \<Rightarrow> graph \<Rightarrow> bool" where
  "grows g g' =
    (g_nodes g' = g_nodes g \<and> g_data_mapping_table g' = g_data_mapping_table g
     \<and> length (g_vertex g') = length (g_vertex g) \<and> length (g_gen_vertex g') = length (g_gen_vertex g)
     \<and> (\<forall>p. valid_ref g p \<longrightarrow> vertex_grows (deref g p) (deref g' p)))"

lemma grows_refl [simp]: "grows g g"
  by (simp add: grows_def vertex_grows_def)

lemma grows_valid: "grows g g' \<Longrightarrow> valid_ref g' p = valid_ref g p"
  by (auto simp: grows_def valid_ref_def split: vref.split)

lemma grows_trans:
  assumes "grows g g'" "grows g' g''"
  shows "grows g g''"
  using assms grows_valid[OF assms(1)] vertex_grows_trans unfolding grows_def by metis

lemma grows_depends: "grows g g' \<Longrightarrow> valid_ref g p \<Longrightarrow> depends g p q \<Longrightarrow> depends g' p q"
  unfolding grows_def vertex_grows_def depends_def by (metis image_mono set_mono_prefix subsetD)

lemma grows_tables:
  "grows g g' \<Longrightarrow> FindVertexById g' = FindVertexById g"
  "grows g g' \<Longrightarrow> FindVertexByData g' = FindVertexByData g"
  by (auto simp: grows_def FindVertexById_def FindVertexByData_def)

lemma grows_config: "grows g g' \<Longrightarrow> valid_ref g p \<Longrightarrow> config (deref g' p) = config (deref g p)"
  by (simp add: grows_def vertex_grows_def)

lemma grows_Depend:
  assumes "edges_ok g" "valid_ref g this" "valid_ref g v"
  shows "grows g (Depend this v e g)"
  by (auto simp: grows_def vertex_grows_def deref_Depend[OF assms] Let_def config_def)

text \<open>
  The configured fields a building step reads are those of the configuration, so they are the
  same in every graph that has grown from this one.
\<close>

lemma config_selectors:
  "v_deps (config v) = v_deps v" "v_deps_on_ok (config v) = v_deps_on_ok v"
  "v_deps_on_err (config v) = v_deps_on_err v" "v_successor (config v) = v_successor v"
  "v_successor_on_ok (config v) = v_successor_on_ok v"
  "v_successor_on_err (config v) = v_successor_on_err v"
  "v_input (config v) = v_input v" "v_output (config v) = v_output v"
  "v_processor (config v) = v_processor v" "v_graph (config v) = v_graph v"
  "v_id (config v) = v_id v"
  by (simp_all add: config_def)

lemma config_fields:
  "config v = config w \<Longrightarrow> v_deps v = v_deps w \<and> v_deps_on_ok v = v_deps_on_ok w
     \<and> v_deps_on_err v = v_deps_on_err w \<and> v_successor v = v_successor w
     \<and> v_successor_on_ok v = v_successor_on_ok w \<and> v_successor_on_err v = v_successor_on_err w
     \<and> v_input v = v_input w \<and> v_output v = v_output w \<and> v_processor v = v_processor w
     \<and> v_graph v = v_graph w \<and> v_id v = v_id w"
  using config_selectors[of v] config_selectors[of w] by simp

section \<open>Every building step keeps the edges well-formed\<close>

definition tables_ok :: "graph \<Rightarrow> bool" where
  "tables_ok g = ((\<forall>p \<in> snd ` set (g_nodes g). valid_ref g p)
     \<and> (\<forall>p \<in> snd ` set (g_data_mapping_table g). valid_ref g p))"

definition build_inv :: "graph \<Rightarrow> graph \<Rightarrow> bool" where
  "build_inv g0 g = (edges_ok g \<and> tables_ok g \<and> grows g0 g)"

lemma FindVertexById_valid: "tables_ok g \<Longrightarrow> FindVertexById g i = Some p \<Longrightarrow> valid_ref g p"
  by (force simp: tables_ok_def FindVertexById_def dest: map_of_SomeD)

lemma FindVertexByData_valid: "tables_ok g \<Longrightarrow> FindVertexByData g i = Some p \<Longrightarrow> valid_ref g p"
  by (force simp: tables_ok_def FindVertexByData_def dest: map_of_SomeD)

lemma build_inv_Depend:
  assumes "build_inv g0 g" "valid_ref g this" "valid_ref g v" "edge_result e"
  shows "build_inv g0 (Depend this v e g)"
  using assms edges_ok_Depend[of g this v e] grows_Depend[of g this v e]
  by (auto simp: build_inv_def tables_ok_def intro: grows_trans)

lemma build_inv_valid: "build_inv g0 g \<Longrightarrow> valid_ref g p = valid_ref g0 p"
  by (simp add: build_inv_def grows_valid)

end
