(* ===== verification/GraphBuild.thy ===== *)
theory GraphBuild
  imports GraphEdges
begin

text \<open>
  What \<open>Graph::Build\<close> guarantees about a graph it accepts: the edges are well-formed, every name
  and every data item that a vertex has when the edges are built has become an edge, and every vertex has an
  operator or a subgraph. Theory \<open>ConfigKept\<close> goes back from there to the configuration; the cycle test is
  treated in theory \<open>GraphCircle\<close>.
\<close>

section \<open>The second phase: edges\<close>

lemma edge_result_values [simp]:
  "edge_result V_RESULT_ALL" "edge_result V_RESULT_OK" "edge_result V_RESULT_ERR"
  by (simp_all add: edge_result_def)

lemma build_inv_tables: "build_inv g0 g \<Longrightarrow> tables_ok g"
  by (simp add: build_inv_def)

lemma build_inv_grows: "build_inv g g' \<Longrightarrow> grows g g'"
  by (simp add: build_inv_def)

lemma build_inv_refl: "edges_ok g \<Longrightarrow> tables_ok g \<Longrightarrow> build_inv g g"
  by (simp add: build_inv_def)

lemma build_inv_trans: "build_inv g g' \<Longrightarrow> build_inv g' g'' \<Longrightarrow> build_inv g g''"
  by (auto simp: build_inv_def intro: grows_trans)

lemma build_inv_for_each:
  assumes "for_each xs f g = Ok g'" and "build_inv g0 g"
    and "\<And>x h h'. x \<in> set xs \<Longrightarrow> build_inv g0 h \<Longrightarrow> f x h = Ok h' \<Longrightarrow> build_inv g0 h'"
  shows "build_inv g0 g'"
  using for_each_invariant[of xs f g g' "build_inv g0"] assms by blast

text \<open>A loop of building steps: each establishes its \<open>Q\<close>, and growing the graph keeps it.\<close>

lemma linking_loop:
  assumes run: "for_each xs f g = Ok g'" and inv: "build_inv g0 g" and self: "valid_ref g0 this"
    and step: "\<And>x h h' h0. f x h = Ok h' \<Longrightarrow> build_inv h0 h \<Longrightarrow> valid_ref h0 this \<Longrightarrow> build_inv h h' \<and> Q x h'"
    and keep: "\<And>x h h'. grows h h' \<Longrightarrow> valid_ref h this \<Longrightarrow> Q x h \<Longrightarrow> Q x h'"
  shows "build_inv g g' \<and> (\<forall>x \<in> set xs. Q x g')"
proof -
  have g: "build_inv g g" using inv by (simp add: build_inv_def)
  have self_g: "valid_ref g this" using inv self by (simp add: build_inv_valid)
  have trans: "build_inv g h'" if "build_inv g h" "f x h = Ok h'" for x h h'
    using step[OF that(2,1) self_g] that(1) build_inv_trans by blast
  have "Q x g'" if "x \<in> set xs" for x
  proof (rule for_each_establishes [where P = "build_inv g" and Q = "Q x", OF run that g])
    show "\<And>y h h'. build_inv g h \<Longrightarrow> f y h = Ok h' \<Longrightarrow> build_inv g h'" by (rule trans)
    show "\<And>h h'. build_inv g h \<Longrightarrow> f x h = Ok h' \<Longrightarrow> Q x h'" using step self_g by blast
    show "\<And>y h h'. build_inv g h \<Longrightarrow> Q x h \<Longrightarrow> f y h = Ok h' \<Longrightarrow> Q x h'"
      using step self_g keep by (metis build_inv_def grows_valid)
  qed
  moreover have "build_inv g g'" using run g trans by (rule build_inv_for_each)
  ultimately show ?thesis by blast
qed

text \<open>
  One name of a list of names: an edge to or from the vertex with that name. \<open>fwd\<close> says which of
  the two is the dependent one.
\<close>

definition name_step :: "bool \<Rightarrow> (string \<Rightarrow> build_error) \<Rightarrow> vref \<Rightarrow> vresult \<Rightarrow> string \<Rightarrow> graph \<Rightarrow>
    (build_error, graph) outcome" where
  "name_step fwd err this e n g = (case FindVertexById g n of None \<Rightarrow> Err (err n)
      | Some q \<Rightarrow> Ok (if fwd then Depend this q e g else Depend q this e g))"

definition named :: "bool \<Rightarrow> vref \<Rightarrow> string \<Rightarrow> graph \<Rightarrow> bool" where
  "named fwd this n g = (\<exists>q. FindVertexById g n = Some q \<and> valid_ref g q
      \<and> (if fwd then depends g this q else depends g q this))"

lemma named_grows: "grows g g' \<Longrightarrow> valid_ref g this \<Longrightarrow> named fwd this n g \<Longrightarrow> named fwd this n g'"
  unfolding named_def using grows_depends grows_tables(1) grows_valid by metis

lemma name_step_ok:
  assumes "name_step fwd err this e n g = Ok g'" "build_inv g0 g" "valid_ref g0 this" "edge_result e"
  shows "build_inv g g' \<and> named fwd this n g'"
proof -
  have g: "build_inv g g" "edges_ok g" and self: "valid_ref g this"
    using assms(2,3) by (auto simp: build_inv_def grows_valid)
  from assms(1) obtain q where q: "FindVertexById g n = Some q"
    "g' = (if fwd then Depend this q e g else Depend q this e g)"
    by (auto simp: name_step_def split: option.splits)
  have v: "valid_ref g q" using q(1) assms(2) by (meson FindVertexById_valid build_inv_tables)
  have "build_inv g g'"
    using build_inv_Depend[OF g(1) self v assms(4)] build_inv_Depend[OF g(1) v self assms(4)] q(2) by simp
  moreover have "FindVertexById g' n = Some q" using q by (simp add: FindVertexById_def)
  moreover have "if fwd then depends g' this q else depends g' q this"
    using q(2) depends_Depend[OF g(2) self v] depends_Depend[OF g(2) v self] by simp
  moreover have "valid_ref g' q" using v q(2) by simp
  ultimately show ?thesis unfolding named_def by blast
qed

lemma name_loop:
  assumes "for_each ns (name_step fwd err this e) g = Ok g'" "build_inv g0 g" "valid_ref g0 this" "edge_result e"
  shows "build_inv g g' \<and> (\<forall>n \<in> set ns. named fwd this n g')"
  using linking_loop[OF assms(1-3), where Q = "named fwd this"] name_step_ok[OF _ _ _ assms(4)]
    named_grows by blast

lemma BuildDeps_step: "BuildDeps this e ns = for_each ns (name_step True NoDepId this e)"
  unfolding BuildDeps_def by (rule arg_cong [where f = "for_each ns"]) (auto simp: fun_eq_iff name_step_def split: option.split)

lemma BuildSuccessors_step: "BuildSuccessors this e ns = for_each ns (name_step False NoSuccessorId this e)"
  unfolding BuildSuccessors_def by (rule arg_cong [where f = "for_each ns"]) (auto simp: fun_eq_iff name_step_def split: option.split)

text \<open>Every vertex of \<open>ns\<close> is there, and \<open>p\<close> depends on it (\<open>names_after\<close>) or it on \<open>p\<close>.\<close>

definition names_after :: "graph \<Rightarrow> vref \<Rightarrow> string_set \<Rightarrow> bool" where
  "names_after g p ns = (\<forall>n \<in> set ns. \<exists>q. FindVertexById g n = Some q \<and> depends g p q)"

definition names_before :: "graph \<Rightarrow> vref \<Rightarrow> string_set \<Rightarrow> bool" where
  "names_before g p ns = (\<forall>n \<in> set ns. \<exists>q. FindVertexById g n = Some q \<and> depends g q p)"

lemma build_deps:
  assumes "BuildDeps this e ns g = Ok g'" "build_inv g0 g" "valid_ref g0 this" "edge_result e"
  shows "build_inv g g'" "names_after g' this ns"
  using name_loop[OF assms(1)[unfolded BuildDeps_step] assms(2-4)]
  by (auto simp: named_def names_after_def)

lemma build_succs:
  assumes "BuildSuccessors this e ns g = Ok g'" "build_inv g0 g" "valid_ref g0 this" "edge_result e"
  shows "build_inv g g'" "names_before g' this ns"
  using name_loop[OF assms(1)[unfolded BuildSuccessors_step] assms(2-4)]
  by (auto simp: named_def names_before_def)

lemma names_after_grows:
  "grows g g' \<Longrightarrow> valid_ref g p \<Longrightarrow> names_after g p ns \<Longrightarrow> names_after g' p ns"
  unfolding names_after_def using grows_depends grows_tables(1) by metis

lemma names_before_grows:
  "grows g g' \<Longrightarrow> tables_ok g \<Longrightarrow> names_before g p ns \<Longrightarrow> names_before g' p ns"
  unfolding names_before_def using grows_depends grows_tables(1) FindVertexById_valid by metis

text \<open>What an input item asks for, and that it stays true while the graph grows.\<close>

definition data_linked :: "vref \<Rightarrow> graph_data \<Rightarrow> bool \<Rightarrow> string \<Rightarrow> graph \<Rightarrow> bool" where
  "data_linked this data skip_self did g =
    (case FindVertexByData g did of
       None \<Rightarrow> is_extern data
     | Some q \<Rightarrow> depends g this q \<or> (skip_self \<and> is_in_out data \<and> q = this))"

definition input_linked :: "vref \<Rightarrow> graph_data \<Rightarrow> graph \<Rightarrow> bool" where
  "input_linked this data g =
    (if aggregate data = [] then data_linked this data True (d_id data) g
     else (\<forall>did \<in> set (aggregate data). data_linked this data False did g))"

lemma data_linked_grows:
  "grows g g' \<Longrightarrow> valid_ref g this \<Longrightarrow> data_linked this d s i g \<Longrightarrow> data_linked this d s i g'"
  by (auto simp: data_linked_def grows_tables dest: grows_depends split: option.splits)

lemma input_linked_grows:
  "grows g g' \<Longrightarrow> valid_ref g this \<Longrightarrow> input_linked this d g \<Longrightarrow> input_linked this d g'"
  unfolding input_linked_def using data_linked_grows by metis

lemma data_dep_ok:
  assumes "data_dep this d s i g = Ok g'" "build_inv g0 g" "valid_ref g0 this"
  shows "build_inv g g' \<and> data_linked this d s i g'"
proof -
  have g: "build_inv g g" "edges_ok g" and self: "valid_ref g this"
    using assms(2,3) by (auto simp: build_inv_def grows_valid)
  show ?thesis
  proof (cases "FindVertexByData g i")
    case None
    with assms(1) g show ?thesis by (auto simp: data_dep_def data_linked_def split: if_splits)
  next
    case (Some q)
    have q: "valid_ref g q" using Some assms(2) by (meson FindVertexByData_valid build_inv_tables)
    show ?thesis
    proof (cases "s \<and> is_in_out d \<and> q = this")
      case True
      with assms(1) g Some show ?thesis by (auto simp: data_dep_def data_linked_def)
    next
      case False
      with assms(1) Some have g': "g' = Depend this q (if required d then V_RESULT_OK else V_RESULT_ALL) g"
        by (auto simp: data_dep_def split: if_splits)
      have "build_inv g g'" unfolding g' by (rule build_inv_Depend [OF g(1) self q]) simp
      moreover have "depends g' this q" by (simp add: g' depends_Depend[OF g(2) self q])
      moreover have "FindVertexByData g' i = Some q" using Some by (simp add: g' FindVertexByData_def)
      ultimately show ?thesis by (simp add: data_linked_def)
    qed
  qed
qed

lemma build_input_ok:
  assumes "build_input this d g = Ok g'" "build_inv g0 g" "valid_ref g0 this"
  shows "build_inv g g' \<and> input_linked this d g'"
proof (cases "aggregate d = []")
  case True
  with assms data_dep_ok[of this d True "d_id d" g g' g0] show ?thesis
    by (simp add: build_input_def input_linked_def)
next
  case False
  then have "for_each (aggregate d) (data_dep this d False) g = Ok g'"
    using assms(1) by (simp add: build_input_def)
  from linking_loop [OF this assms(2,3), where Q = "data_linked this d False"]
  show ?thesis using False data_dep_ok data_linked_grows by (auto simp: input_linked_def)
qed

text \<open>Everything the configuration of vertex \<open>p\<close> mentions is an edge.\<close>

definition vertex_linked :: "graph \<Rightarrow> vref \<Rightarrow> bool" where
  "vertex_linked g p =
    (names_after g p (v_deps (deref g p)) \<and> names_after g p (v_deps_on_ok (deref g p))
     \<and> names_after g p (v_deps_on_err (deref g p)) \<and> names_before g p (v_successor (deref g p))
     \<and> names_before g p (v_successor_on_ok (deref g p))
     \<and> names_before g p (v_successor_on_err (deref g p))
     \<and> (\<forall>d \<in> set (v_input (deref g p)). input_linked p d g))"

lemma vertex_linked_grows:
  assumes "grows g g'" "tables_ok g" "valid_ref g p" "vertex_linked g p"
  shows "vertex_linked g' p"
  using assms(4) config_fields[OF grows_config[OF assms(1,3)]] names_after_grows[OF assms(1,3)]
    names_before_grows[OF assms(1,2)] input_linked_grows[OF assms(1,3)]
  unfolding vertex_linked_def by simp

lemma BuildVertex_ok:
  assumes run: "BuildVertex c p g = Ok g'" and inv: "build_inv g0 g" and p: "valid_ref g0 p"
  shows "build_inv g g' \<and> vertex_linked g' p
     \<and> (v_processor (deref g' p) \<noteq> [] \<or> v_graph (deref g' p) \<noteq> [])"
proof -
  define n where "n = deref g p"
  from run obtain g1 g2 g3 g4 g5 g6 where steps:
    "BuildDeps p V_RESULT_ALL (v_deps n) g = Ok g1"
    "BuildDeps p V_RESULT_OK (v_deps_on_ok n) g1 = Ok g2"
    "BuildDeps p V_RESULT_ERR (v_deps_on_err n) g2 = Ok g3"
    "BuildSuccessors p V_RESULT_ALL (v_successor n) g3 = Ok g4"
    "BuildSuccessors p V_RESULT_OK (v_successor_on_ok n) g4 = Ok g5"
    "BuildSuccessors p V_RESULT_ERR (v_successor_on_err n) g5 = Ok g6"
    "for_each (v_input n) (build_input p) g6 = Ok g'"
    and proc: "v_processor n \<noteq> [] \<or> v_graph n \<noteq> []"
    by (auto simp: BuildVertex_def Let_def and_then_Ok_iff split: if_splits option.splits simp flip: n_def)
  have gg: "build_inv g g" and pg: "valid_ref g p"
    using inv p by (auto simp: build_inv_def grows_valid)
  note b1 = build_deps[OF steps(1) gg pg, simplified]
  note b2 = build_deps[OF steps(2) b1(1) pg, simplified]
  have i2: "build_inv g g2" using b1(1) b2(1) by (rule build_inv_trans)
  note b3 = build_deps[OF steps(3) i2 pg, simplified]
  have i3: "build_inv g g3" using i2 b3(1) by (rule build_inv_trans)
  note b4 = build_succs[OF steps(4) i3 pg, simplified]
  have i4: "build_inv g g4" using i3 b4(1) by (rule build_inv_trans)
  note b5 = build_succs[OF steps(5) i4 pg, simplified]
  have i5: "build_inv g g5" using i4 b5(1) by (rule build_inv_trans)
  note b6 = build_succs[OF steps(6) i5 pg, simplified]
  have i6: "build_inv g g6" using i5 b6(1) by (rule build_inv_trans)
  have b7: "build_inv g6 g' \<and> (\<forall>d \<in> set (v_input n). input_linked p d g')"
    using linking_loop [OF steps(7) i6 pg, where Q = "input_linked p"]
      build_input_ok input_linked_grows by blast
  have i7: "build_inv g g'" using i6 b7 build_inv_trans by blast
  have late: "grows g6 g'" "grows g5 g'" "grows g4 g'" "grows g3 g'" "grows g2 g'" "grows g1 g'"
    using b7 b6(1) b5(1) b4(1) b3(1) b2(1) by (meson build_inv_grows grows_trans)+
  have c: "config (deref g' p) = config n"
    using i7 pg unfolding n_def by (intro grows_config) (auto simp: build_inv_def)
  have after: "names_after g' p ns" if "build_inv g h" "grows h g'" "names_after h p ns" for h ns
    using names_after_grows[OF that(2) _ that(3)] that(1) pg by (simp add: build_inv_valid)
  have before: "names_before g' p ns" if "build_inv g h" "grows h g'" "names_before h p ns" for h ns
    using names_before_grows[OF that(2) _ that(3)] that(1) by (simp add: build_inv_tables)
  have "vertex_linked g' p"
    unfolding vertex_linked_def
    using config_fields[OF c] b7
      after[OF b1(1) late(6) b1(2)] after[OF i2 late(5) b2(2)] after[OF i3 late(4) b3(2)]
      before[OF i4 late(3) b4(2)] before[OF i5 late(2) b5(2)] before[OF i6 late(1) b6(2)] by simp
  with i7 proc config_fields[OF c] show ?thesis by auto
qed

section \<open>The first phase: names\<close>

text \<open>
  No vertex has an edge yet. The first phase keeps it so; \<open>touches p g g'\<close> says that a step for
  vertex \<open>p\<close> changes no other vertex, keeps the owners of the data names, and generates
  vertices at the end of the list only.
\<close>

definition unlinked :: "graph \<Rightarrow> bool" where
  "unlinked g = (\<forall>p. valid_ref g p \<longrightarrow> edge_fields (deref g p) = ([], [], []))"

definition touches :: "vref \<Rightarrow> graph \<Rightarrow> graph \<Rightarrow> bool" where
  "touches p g g' =
    (length (g_vertex g') = length (g_vertex g) \<and> length (g_gen_vertex g) \<le> length (g_gen_vertex g')
     \<and> (\<forall>q. valid_ref g q \<longrightarrow> q \<noteq> p \<longrightarrow> deref g' q = deref g q)
     \<and> (unlinked g \<longrightarrow> unlinked g') \<and> (tables_ok g \<longrightarrow> tables_ok g')
     \<and> map_of (g_data_mapping_table g) \<subseteq>\<^sub>m map_of (g_data_mapping_table g'))"

lemma touches_valid: "touches p g g' \<Longrightarrow> valid_ref g q \<Longrightarrow> valid_ref g' q"
  by (auto simp: touches_def valid_ref_def split: vref.splits)

lemma touches_refl [simp]: "touches p g g"
  by (simp add: touches_def)

lemma touches_trans:
  assumes "touches p g g'" "touches p g' g''"
  shows "touches p g g''"
proof -
  have "deref g'' q = deref g q" if "valid_ref g q" "q \<noteq> p" for q
    using that touches_valid[OF assms(1) that(1)] assms unfolding touches_def by simp
  moreover have "map_of (g_data_mapping_table g) \<subseteq>\<^sub>m map_of (g_data_mapping_table g'')"
    using assms unfolding touches_def by (blast intro: map_le_trans)
  ultimately show ?thesis using assms unfolding touches_def by simp
qed

lemma unlinked_modify:
  "unlinked g \<Longrightarrow> valid_ref g p \<Longrightarrow> (\<And>v. edge_fields (f v) = edge_fields v) \<Longrightarrow> unlinked (modify p f g)"
  by (auto simp: unlinked_def deref_modify)

lemma tables_ok_modify [simp]: "tables_ok (modify p f g) = tables_ok g"
  by (simp add: tables_ok_def)

lemma touches_modify:
  assumes "valid_ref g p" "edge_fields (f (deref g p)) = edge_fields (deref g p)"
  shows "touches p g (modify p f g)"
  using assms by (auto simp: touches_def unlinked_def deref_modify)

lemma generateNodeId_fields [simp]:
  "g_vertex (snd (generateNodeId g)) = g_vertex g" "g_gen_vertex (snd (generateNodeId g)) = g_gen_vertex g"
  "g_nodes (snd (generateNodeId g)) = g_nodes g"
  "g_data_mapping_table (snd (generateNodeId g)) = g_data_mapping_table g"
  "deref (snd (generateNodeId g)) = deref g" "valid_ref (snd (generateNodeId g)) = valid_ref g"
  by (auto simp: generateNodeId_def)

lemma touches_same:
  "g_vertex g' = g_vertex g \<Longrightarrow> g_gen_vertex g' = g_gen_vertex g \<Longrightarrow> (tables_ok g \<longrightarrow> tables_ok g')
   \<Longrightarrow> map_of (g_data_mapping_table g) \<subseteq>\<^sub>m map_of (g_data_mapping_table g') \<Longrightarrow> touches p g g'"
  by (auto simp: touches_def unlinked_def valid_ref_def deref_def split: vref.splits)

lemma touches_assign_processor: "valid_ref g p \<Longrightarrow> touches p g (assign_processor c p g)"
  unfolding assign_processor_def by (rule touches_modify) (simp_all add: edge_fields_def)

lemma touches_assign_cluster: "valid_ref g p \<Longrightarrow> touches p g (assign_cluster c p g)"
  unfolding assign_cluster_def by (rule touches_modify) (simp_all add: edge_fields_def)

lemma touches_assign_id:
  assumes "valid_ref g p"
  shows "touches p g (assign_id p g)"
proof -
  have "touches p g (snd (generateNodeId g))" by (rule touches_same) (simp_all add: tables_ok_def)
  moreover have "touches p (snd (generateNodeId g)) (modify p (SetGeneratedId i) (snd (generateNodeId g)))" for i
    using assms by (intro touches_modify) (simp_all add: edge_fields_def SetGeneratedId_def)
  moreover have "touches p g (modify p (\<lambda>n. n\<lparr>v_id := v_processor n\<rparr>) g)"
    using assms by (intro touches_modify) (simp_all add: edge_fields_def)
  ultimately show ?thesis
    unfolding assign_id_def by (auto simp: case_prod_unfold Let_def intro: touches_trans)
qed

lemma AList_update_range: "snd ` set (AList.update k v m) \<subseteq> insert v (snd ` set m)"
  by (induction m) auto

lemma tables_ok_tables:
  assumes "tables_ok h" "valid_ref h p"
  shows "snd ` set t \<subseteq> insert p (snd ` set (g_nodes h)) \<Longrightarrow> tables_ok (h\<lparr>g_nodes := t\<rparr>)"
    "snd ` set t \<subseteq> insert p (snd ` set (g_data_mapping_table h)) \<Longrightarrow>
     tables_ok (h\<lparr>g_data_mapping_table := t\<rparr>)"
proof -
  have "valid_ref h q" if "q \<in> snd ` set t" "snd ` set t \<subseteq> insert p (snd ` set u)"
    "\<forall>q \<in> snd ` set u. valid_ref h q" for q and u :: "(string \<times> vref) list"
    using that assms(2) by blast
  with assms(1) show "snd ` set t \<subseteq> insert p (snd ` set (g_nodes h)) \<Longrightarrow> tables_ok (h\<lparr>g_nodes := t\<rparr>)"
    "snd ` set t \<subseteq> insert p (snd ` set (g_data_mapping_table h)) \<Longrightarrow>
     tables_ok (h\<lparr>g_data_mapping_table := t\<rparr>)"
    unfolding tables_ok_def by simp_all
qed

lemma touches_generated:
  assumes "geneatedCondVertex c cond g = (r, g')"
  shows "touches p g g' \<and> valid_ref g' r \<and> \<not> valid_ref g r"
proof -
  have parts: "g_vertex g' = g_vertex g" "g_data_mapping_table g' = g_data_mapping_table g"
    "r = GenRef (length (g_gen_vertex g))"
    "\<exists>v i. g_gen_vertex g' = g_gen_vertex g @ [v] \<and> edge_fields v = ([], [], [])
       \<and> g_nodes g' = AList.update i r (g_nodes g)"
    using assms by (auto simp: geneatedCondVertex_def Let_def generateNodeId_def edge_fields_def
        MergeSuccessor_def SetGeneratedId_def new_vertex_def)
  then obtain v i where v: "g_gen_vertex g' = g_gen_vertex g @ [v]" "edge_fields v = ([], [], [])"
    "g_nodes g' = AList.update i r (g_nodes g)" by blast
  have d: "deref g' q = deref g q" if "valid_ref g q" for q
    using that parts(1) v(1) by (auto simp: deref_def valid_ref_def nth_append split: vref.splits)
  have rv: "deref g' r = v" using parts(3) v(1) by (simp add: deref_def)
  have val: "valid_ref g' q \<longleftrightarrow> valid_ref g q \<or> q = r" for q
    using parts(1,3) v(1) by (auto simp: valid_ref_def split: vref.splits)
  have "tables_ok g \<longrightarrow> tables_ok g'"
    using AList_update_range[of i r "g_nodes g"] unfolding tables_ok_def v(3) parts(2) val by blast
  moreover have "unlinked g \<longrightarrow> unlinked g'"
    using d rv v(2) unfolding unlinked_def val by metis
  ultimately show ?thesis
    using d val parts v(1) by (auto simp: touches_def valid_ref_def)
qed

lemma touches_register_node:
  assumes "register_node p g = Ok g'" "valid_ref g p"
  shows "touches p g g'"
proof -
  define h where "h = modify p MergeSuccessor g"
  define i where "i = v_id (deref g p)"
  have h: "touches p g h" "valid_ref h p"
    using assms(2) by (auto simp: h_def edge_simps intro!: touches_modify)
  have g': "g' = h\<lparr>g_nodes := AList.update i p (g_nodes h)\<rparr>"
    using assms(1) by (auto simp: register_node_def Let_def h_def i_def split: if_splits)
  have "tables_ok h \<longrightarrow> tables_ok g'"
    unfolding g' using tables_ok_tables(1)[OF _ h(2) AList_update_range] by blast
  then have "touches p h g'" by (intro touches_same) (simp_all add: g')
  with h(1) show ?thesis by (rule touches_trans)
qed

lemma touches_fill_fields:
  assumes "fill_fields c F p g = Ok g'" "valid_ref g p"
  shows "touches p g g'"
  using assms edge_fields_FillInputOutput
  by (auto simp: fill_fields_def split: option.splits if_splits intro!: touches_modify)

text \<open>Naming the outputs enters each of them for vertex \<open>p\<close>, and no name that is taken already.\<close>

lemma name_outputs_ok:
  "name_outputs p i ds tbl = Ok (ds', tbl') \<Longrightarrow>
    map_of tbl \<subseteq>\<^sub>m map_of tbl' \<and> snd ` set tbl' \<subseteq> insert p (snd ` set tbl)
    \<and> (\<forall>d \<in> set ds'. d_field d \<noteq> [] \<and> d_id d \<noteq> [] \<and> map_of tbl' (d_id d) = Some p)"
proof (induction ds arbitrary: tbl ds')
  case (Cons d ds)
  define d' where "d' = (if d_id d = [] then d\<lparr>d_id := d_field d\<rparr> else d)"
  from Cons.prems obtain es where es: "name_outputs p i ds (AList.update (d_id d') p tbl) = Ok (es, tbl')"
    "ds' = d' # es" "map_of tbl (d_id d') = None" "d_field d \<noteq> []"
    by (auto simp: d'_def and_then_Ok_iff Let_def split: if_splits)
  note IH = Cons.IH[OF es(1)]
  have le: "map_of tbl \<subseteq>\<^sub>m map_of (AList.update (d_id d') p tbl)"
    using es(3) by (auto simp: map_le_def map_of_update)
  have "map_of (AList.update (d_id d') p tbl) (d_id d') = Some p" by (simp add: map_of_update)
  then have "map_of tbl' (d_id d') = Some p" using IH by (metis domI map_le_def)
  moreover have "d_field d' \<noteq> []" "d_id d' \<noteq> []" using es(4) by (auto simp: d'_def)
  moreover have "map_of tbl \<subseteq>\<^sub>m map_of tbl'" using le IH by (blast intro: map_le_trans)
  moreover have "snd ` set tbl' \<subseteq> insert p (snd ` set tbl)"
    using IH AList_update_range[of "d_id d'" p tbl] by blast
  ultimately show ?case using IH unfolding es(2) by simp
qed auto

definition outputs_registered :: "graph \<Rightarrow> vref \<Rightarrow> bool" where
  "outputs_registered g p =
    (\<forall>d \<in> set (v_output (deref g p)). d_id d \<noteq> [] \<and> FindVertexByData g (d_id d) = Some p)"

lemma touches_name_data:
  assumes "name_data p g = Ok g'" "valid_ref g p"
  shows "touches p g g'" "outputs_registered g' p" "v_id (deref g' p) = v_id (deref g p)"
proof -
  from assms obtain outs tbl ins where n:
    "name_outputs p (v_id (deref g p)) (v_output (deref g p)) (g_data_mapping_table g) = Ok (outs, tbl)"
    "g' = (modify p (\<lambda>n. n\<lparr>v_output := outs, v_input := ins\<rparr>) g)\<lparr>g_data_mapping_table := tbl\<rparr>"
    by (auto simp: name_data_def Let_def and_then_Ok_iff)
  define h where "h = modify p (\<lambda>n. n\<lparr>v_output := outs, v_input := ins\<rparr>) g"
  have h: "touches p g h" "g' = h\<lparr>g_data_mapping_table := tbl\<rparr>"
    using assms(2) by (auto simp: h_def n(2) edge_fields_def intro!: touches_modify)
  note o = name_outputs_ok[OF n(1)]
  have "tables_ok h \<longrightarrow> tables_ok g'"
    unfolding h(2) using o assms(2) tables_ok_tables(2)[of h p tbl] by (simp add: h_def)
  then have "touches p h g'" using o by (intro touches_same) (simp_all add: h(2) h_def)
  with h(1) show "touches p g g'" by (rule touches_trans)
  have "deref g' p = (deref g p)\<lparr>v_output := outs, v_input := ins\<rparr>"
    using assms(2) by (simp add: h(2) h_def deref_modify)
  then show "outputs_registered g' p" "v_id (deref g' p) = v_id (deref g p)"
    using o by (auto simp: outputs_registered_def FindVertexByData_def h(2))
qed

text \<open>
  Identifiers. A generated vertex always owns its identifier. A configured vertex owns its
  identifier unless a vertex generated later was given the same one: \<open>geneatedCondVertex\<close> writes
  into \<open>_nodes\<close> without looking.
\<close>

definition generated_id :: "graph \<Rightarrow> string \<Rightarrow> bool" where
  "generated_id g i = (\<exists>k < g_idx g. i = g_name g @ ''_'' @ to_string k)"

definition gen_ids_ok :: "graph \<Rightarrow> bool" where
  "gen_ids_ok g = (\<forall>j < length (g_gen_vertex g). generated_id g (v_id (g_gen_vertex g ! j))
     \<and> FindVertexById g (v_id (g_gen_vertex g ! j)) = Some (GenRef j))"

definition owns_id :: "graph \<Rightarrow> vref \<Rightarrow> bool" where
  "owns_id g p = (FindVertexById g (v_id (deref g p)) = Some p
     \<or> (\<exists>j < length (g_gen_vertex g). v_id (g_gen_vertex g ! j) = v_id (deref g p)))"

definition keeps_ids :: "vref \<Rightarrow> graph \<Rightarrow> graph \<Rightarrow> bool" where
  "keeps_ids p g g' = (gen_ids_ok g \<longrightarrow> gen_ids_ok g'
     \<and> (\<forall>q. valid_ref g q \<longrightarrow> q \<noteq> p \<longrightarrow> owns_id g q \<longrightarrow> owns_id g' q))"

lemma keeps_ids_trans:
  "keeps_ids p g g' \<Longrightarrow> keeps_ids p g' g'' \<Longrightarrow> touches p g g' \<Longrightarrow> keeps_ids p g g''"
  unfolding keeps_ids_def using touches_valid by blast

text \<open>A step that writes configured vertex \<open>i\<close> only and leaves the table of identifiers alone.\<close>

lemma keeps_ids_quiet:
  assumes "g_gen_vertex g' = g_gen_vertex g" "g_nodes g' = g_nodes g" "g_name g' = g_name g"
    "g_idx g \<le> g_idx g'" "\<And>q. q \<noteq> p \<Longrightarrow> deref g' q = deref g q"
  shows "keeps_ids p g g'"
proof -
  have "generated_id g i \<Longrightarrow> generated_id g' i" for i
    using assms(3,4) unfolding generated_id_def by (metis order_less_le_trans)
  moreover have "FindVertexById g' = FindVertexById g" by (simp add: FindVertexById_def assms(2) fun_eq_iff)
  ultimately show ?thesis
    using assms(5) by (simp add: keeps_ids_def gen_ids_ok_def owns_id_def assms(1))
qed

lemma g_gen_vertex_modify [simp]: "g_gen_vertex (modify (VertexRef i) f g) = g_gen_vertex g"
  by (simp add: modify_def)

lemma keeps_ids_modify: "valid_ref g (VertexRef i) \<Longrightarrow> keeps_ids (VertexRef i) g (modify (VertexRef i) f g)"
  by (rule keeps_ids_quiet) (simp_all add: deref_modify)

lemma keeps_ids_assign_id:
  assumes "valid_ref g (VertexRef i)"
  shows "keeps_ids (VertexRef i) g (assign_id (VertexRef i) g)"
proof -
  have "g_idx g \<le> g_idx (assign_id (VertexRef i) g)" "g_name (assign_id (VertexRef i) g) = g_name g"
    "g_nodes (assign_id (VertexRef i) g) = g_nodes g"
    "g_gen_vertex (assign_id (VertexRef i) g) = g_gen_vertex g"
    by (auto simp: assign_id_def generateNodeId_def)
  moreover have "deref (assign_id (VertexRef i) g) q = deref g q" if "q \<noteq> VertexRef i" for q
    using that assms by (auto simp: assign_id_def generateNodeId_def deref_modify)
  ultimately show ?thesis by (intro keeps_ids_quiet) auto
qed

lemma keeps_ids_register_node:
  assumes "register_node (VertexRef i) g = Ok g'" "valid_ref g (VertexRef i)"
  shows "keeps_ids (VertexRef i) g g'" "owns_id g' (VertexRef i)"
proof -
  define n where "n = v_id (deref g (VertexRef i))"
  define h where "h = modify (VertexRef i) MergeSuccessor g"
  have free: "map_of (g_nodes g) n = None"
    and g': "g' = h\<lparr>g_nodes := AList.update n (VertexRef i) (g_nodes h)\<rparr>"
    using assms(1) by (auto simp: register_node_def Let_def n_def h_def split: if_splits)
  have find: "FindVertexById g' m = (if m = n then Some (VertexRef i) else FindVertexById g m)" for m
    by (simp add: FindVertexById_def g' map_of_update h_def)
  have same: "g_gen_vertex g' = g_gen_vertex g" "g_idx g' = g_idx g" "g_name g' = g_name g"
    by (simp_all add: g' h_def)
  have d: "q \<noteq> VertexRef i \<Longrightarrow> deref g' q = deref g q" for q
    using assms(2) by (simp add: g' h_def deref_modify)
  have found: "FindVertexById g m = Some q \<Longrightarrow> FindVertexById g' m = Some q" for m q
    using free by (auto simp: find) (simp add: FindVertexById_def)
  have "gen_ids_ok g \<Longrightarrow> gen_ids_ok g'"
    using found by (simp add: gen_ids_ok_def same generated_id_def)
  moreover have "owns_id g' q" if "owns_id g q" "q \<noteq> VertexRef i" for q
    using that(1) found unfolding owns_id_def same d[OF that(2)] by blast
  ultimately show "keeps_ids (VertexRef i) g g'" by (simp add: keeps_ids_def)
  have "v_id (deref g' (VertexRef i)) = n"
    using assms(2) by (simp add: g' h_def deref_modify n_def MergeSuccessor_def)
  then show "owns_id g' (VertexRef i)" by (simp add: owns_id_def find)
qed

lemma keeps_ids_generated:
  assumes "geneatedCondVertex c cond g = (r, g')"
  shows "keeps_ids p g g'"
proof -
  define i where "i = g_name g @ ''_'' @ to_string (g_idx g)"
  obtain v where v: "g_gen_vertex g' = g_gen_vertex g @ [v]" "v_id v = i" and
    g': "r = GenRef (length (g_gen_vertex g))" "g_nodes g' = AList.update i r (g_nodes g)"
      "g_idx g' = g_idx g + 1" "g_name g' = g_name g" "g_vertex g' = g_vertex g"
    using assms by (auto simp: geneatedCondVertex_def Let_def generateNodeId_def i_def
        MergeSuccessor_def SetGeneratedId_def new_vertex_def)
  have find: "FindVertexById g' m = (if m = i then Some r else FindVertexById g m)" for m
    by (simp add: FindVertexById_def g' map_of_update)
  have fresh: "generated_id g m \<Longrightarrow> m \<noteq> i" for m
    by (auto simp: generated_id_def i_def to_string_inject)
  have gen: "generated_id g m \<Longrightarrow> generated_id g' m" "generated_id g' i" for m
    by (auto simp: generated_id_def i_def g' less_Suc_eq)
  have "gen_ids_ok g'" if "gen_ids_ok g"
    unfolding gen_ids_ok_def v(1)
  proof (intro allI impI)
    fix j assume "j < length (g_gen_vertex g @ [v])"
    then consider "j < length (g_gen_vertex g)" | "j = length (g_gen_vertex g)" by fastforce
    then show "generated_id g' (v_id ((g_gen_vertex g @ [v]) ! j))
        \<and> FindVertexById g' (v_id ((g_gen_vertex g @ [v]) ! j)) = Some (GenRef j)"
    proof cases
      case 1
      then have "generated_id g (v_id (g_gen_vertex g ! j))"
        "FindVertexById g (v_id (g_gen_vertex g ! j)) = Some (GenRef j)"
        using that by (simp_all add: gen_ids_ok_def)
      with 1 fresh gen(1) show ?thesis by (simp add: nth_append find)
    next
      case 2
      then show ?thesis using gen(2) v(2) g'(1) by (simp add: find)
    qed
  qed
  moreover have "owns_id g' q" if "valid_ref g q" "owns_id g q" for q
  proof -
    have "deref g' q = deref g q"
      using that(1) v(1) g'(5) by (auto simp: deref_def valid_ref_def nth_append split: vref.splits)
    moreover have "\<exists>j < length (g_gen_vertex g'). v_id (g_gen_vertex g' ! j) = m"
      if "m = i \<or> (\<exists>j < length (g_gen_vertex g). v_id (g_gen_vertex g ! j) = m)" for m
      using that v unfolding v(1) by (metis length_append_singleton less_Suc_eq nth_append nth_append_length)
    ultimately show ?thesis
      using that(2) find[of "v_id (deref g q)"] unfolding owns_id_def by metis
  qed
  ultimately show ?thesis by (simp add: keeps_ids_def)
qed

lemma link_expect_ok:
  assumes "link_expect c (VertexRef i) (g, gen) = (g', gen')" "valid_ref g (VertexRef i)"
  shows "keeps_ids (VertexRef i) g g' \<and> touches (VertexRef i) g g'"
proof (cases "v_expect (deref g (VertexRef i)) = []")
  case True
  with assms show ?thesis by (simp add: link_expect_def keeps_ids_def)
next
  case False
  let ?p = "VertexRef i"
  define n where "n = deref g ?p"
  obtain g1 cid where g1: "g' = modify ?p (\<lambda>n. n\<lparr>v_deps_on_ok := set_insert cid (v_deps_on_ok n)\<rparr>) g1" "keeps_ids ?p g g1" "touches ?p g g1"
  proof (cases "gen (v_expect n)")
    case None
    obtain r h where gc: "geneatedCondVertex c (v_expect n) g = (r, h)" by fastforce
    note t = touches_generated[OF gc] and k = keeps_ids_generated[OF gc, of ?p]
    define f :: "vertex \<Rightarrow> vertex" where "f = (\<lambda>cv. if v_expect_deps n \<noteq> []
        then cv\<lparr>v_deps := v_expect_deps n\<rparr>
        else cv\<lparr>v_deps := v_deps n, v_deps_on_err := v_deps_on_err n, v_deps_on_ok := v_deps_on_ok n\<rparr>)"
    have f: "v_id (f v) = v_id v" "edge_fields (f v) = edge_fields v" for v
      by (simp_all add: f_def edge_fields_def)
    have r: "r = GenRef (length (g_gen_vertex g))" "length (g_gen_vertex h) = Suc (length (g_gen_vertex g))"
      using gc by (auto simp: geneatedCondVertex_def Let_def generateNodeId_def)
    have ids: "v_id (g_gen_vertex (modify r f h) ! j) = v_id (g_gen_vertex h ! j)" for j
      using f(1) r by (simp add: modify_def nth_list_update)
    have "gen_ids_ok (modify r f h) = gen_ids_ok h"
      by (simp add: gen_ids_ok_def ids generated_id_def FindVertexById_def)
    moreover have "owns_id (modify r f h) q = owns_id h q" for q
    proof -
      have "v_id (deref (modify r f h) q) = v_id (deref h q)" using t f(1) by (simp add: deref_modify)
      then show ?thesis by (simp add: owns_id_def ids FindVertexById_def)
    qed
    ultimately have "keeps_ids ?p g (modify r f h)" using k by (simp add: keeps_ids_def)
    moreover have "touches ?p g (modify r f h)"
    proof -
      have "unlinked h \<longrightarrow> unlinked (modify r f h)" using t f(2) by (auto intro!: unlinked_modify)
      moreover have "deref (modify r f h) q = deref g q" if "valid_ref g q" "q \<noteq> ?p" for q
        using that t by (auto simp: deref_modify touches_def)
      ultimately show ?thesis using t unfolding touches_def by simp
    qed
    moreover have "\<exists>cid. g' = modify ?p (\<lambda>n. n\<lparr>v_deps_on_ok := set_insert cid (v_deps_on_ok n)\<rparr>) (modify r f h)"
      using assms(1) False None gc unfolding f_def n_def by (auto simp: link_expect_def Let_def)
    ultimately show thesis using that by blast
  next
    case (Some r)
    with assms(1) False that show thesis
      by (auto simp: link_expect_def Let_def n_def keeps_ids_def)
  qed
  have v: "valid_ref g1 ?p" using g1(3) assms(2) by (rule touches_valid)
  have "touches ?p g1 g'" unfolding g1(1) using v by (rule touches_modify) (simp add: edge_fields_def)
  moreover have "keeps_ids ?p g1 g'" unfolding g1(1) using v by (rule keeps_ids_modify)
  ultimately show ?thesis using g1(2,3) keeps_ids_trans touches_trans by blast
qed

text \<open>
  A configured vertex after its pass: it has its identifier and its data names, and a later pass
  takes neither away.
\<close>

definition named_ok :: "graph \<Rightarrow> vref \<Rightarrow> bool" where
  "named_ok g p = (owns_id g p \<and> outputs_registered g p)"

lemma outputs_registered_touches:
  assumes "touches p g g'" "valid_ref g q" "q \<noteq> p" "outputs_registered g q"
  shows "outputs_registered g' q"
proof -
  have "FindVertexByData g d = Some q \<Longrightarrow> FindVertexByData g' d = Some q" for d
    using assms(1) unfolding touches_def FindVertexByData_def map_le_def by (metis domI)
  moreover have "deref g' q = deref g q" using assms(1-3) by (simp add: touches_def)
  ultimately show ?thesis using assms(4) by (simp add: outputs_registered_def)
qed

lemma prepare_vertex_ok:
  assumes run: "prepare_vertex c F (VertexRef i) (g, gen) = Ok (g', gen')" and p: "valid_ref g (VertexRef i)"
  shows "touches (VertexRef i) g g'" "keeps_ids (VertexRef i) g g'" "gen_ids_ok g \<Longrightarrow> named_ok g' (VertexRef i)"
proof -
  let ?p = "VertexRef i"
  define a1 where "a1 = assign_processor c ?p g"
  define a2 where "a2 = assign_id ?p a1"
  define a3 where "a3 = assign_cluster c ?p a2"
  from run obtain a4 a5 a6 where a: "link_expect c ?p (a3, gen) = (a4, gen')"
    "register_node ?p a4 = Ok a5" "fill_fields c F ?p a5 = Ok a6" "name_data ?p a6 = Ok g'"
    by (auto simp: prepare_vertex_def Let_def and_then_Ok_iff a1_def a2_def a3_def
        split: option.splits prod.splits)
  have t1: "touches ?p g a1" unfolding a1_def using p by (rule touches_assign_processor)
  note p1 = touches_valid[OF t1 p]
  have k1: "keeps_ids ?p g a1" using p by (simp add: a1_def assign_processor_def keeps_ids_modify)
  have t2: "touches ?p a1 a2" unfolding a2_def using p1 by (rule touches_assign_id)
  note p2 = touches_valid[OF t2 p1]
  have k2: "keeps_ids ?p a1 a2" unfolding a2_def using p1 by (rule keeps_ids_assign_id)
  have t3: "touches ?p a2 a3" unfolding a3_def using p2 by (rule touches_assign_cluster)
  note p3 = touches_valid[OF t3 p2]
  have k3: "keeps_ids ?p a2 a3" using p2 by (simp add: a3_def assign_cluster_def keeps_ids_modify)
  note k4 = conjunct1[OF link_expect_ok[OF a(1) p3]] and t4 = conjunct2[OF link_expect_ok[OF a(1) p3]]
  note p4 = touches_valid[OF t4 p3]
  note t5 = touches_register_node[OF a(2) p4] and k5 = keeps_ids_register_node[OF a(2) p4]
  note p5 = touches_valid[OF t5 p4]
  note t6 = touches_fill_fields[OF a(3) p5]
  note p6 = touches_valid[OF t6 p5]
  have k6: "keeps_ids ?p a5 a6"
    using a(3) p5 by (auto simp: fill_fields_def keeps_ids_def split: option.splits if_splits
        intro!: keeps_ids_modify[unfolded keeps_ids_def])
  note t7 = touches_name_data[OF a(4) p6]
  have same7: "g_gen_vertex g' = g_gen_vertex a6" "g_nodes g' = g_nodes a6" "g_name g' = g_name a6"
    "g_idx g' = g_idx a6"
    using a(4) by (auto simp: name_data_def Let_def and_then_Ok_iff)
  have d7: "q \<noteq> ?p \<Longrightarrow> deref g' q = deref a6 q" for q
    using a(4) p6 by (auto simp: name_data_def Let_def and_then_Ok_iff deref_modify)
  have k7: "keeps_ids ?p a6 g'" using same7 d7 by (intro keeps_ids_quiet) simp_all
  note t12 = touches_trans[OF t1 t2] and k12 = keeps_ids_trans[OF k1 k2 t1]
  note t13 = touches_trans[OF t12 t3] and k13 = keeps_ids_trans[OF k12 k3 t12]
  note t14 = touches_trans[OF t13 t4] and k14 = keeps_ids_trans[OF k13 k4 t13]
  note t15 = touches_trans[OF t14 t5] and k15 = keeps_ids_trans[OF k14 k5(1) t14]
  note t16 = touches_trans[OF t15 t6] and k16 = keeps_ids_trans[OF k15 k6 t15]
  show "touches ?p g g'" using t16 t7(1) by (rule touches_trans)
  show "keeps_ids ?p g g'" using keeps_ids_trans[OF k16 k7 t16] .
  have same6: "g_gen_vertex a6 = g_gen_vertex a5" "g_nodes a6 = g_nodes a5"
    "v_id (deref a6 ?p) = v_id (deref a5 ?p)"
    using a(3) p5 edge_fields_FillInputOutput
    by (auto simp: fill_fields_def deref_modify split: option.splits if_splits)
  have "owns_id g' ?p"
    using k5(2) unfolding owns_id_def FindVertexById_def same7 same6 t7(3) .
  with t7(2) show "named_ok g' ?p" by (simp add: named_ok_def)
qed

section \<open>The whole of \<open>Graph::Build\<close>\<close>

text \<open>A graph as the configuration reader leaves it.\<close>

definition fresh_graph :: "graph \<Rightarrow> bool" where
  "fresh_graph g = (g_gen_vertex g = [] \<and> g_nodes g = [] \<and> g_data_mapping_table g = []
     \<and> list_all (\<lambda>v. edge_fields v = ([], [], [])) (g_vertex g))"

lemma fresh_graphD:
  assumes "fresh_graph g"
  shows "unlinked g" "tables_ok g" "gen_ids_ok g"
  using assms
  by (auto simp: fresh_graph_def unlinked_def tables_ok_def gen_ids_ok_def valid_ref_def deref_def
      list_all_iff split: vref.splits)

lemma named_ok_keep:
  "touches p g g' \<Longrightarrow> keeps_ids p g g' \<Longrightarrow> gen_ids_ok g \<Longrightarrow> valid_ref g q \<Longrightarrow> q \<noteq> p \<Longrightarrow>
    named_ok g q \<Longrightarrow> named_ok g' q"
  unfolding named_ok_def using outputs_registered_touches by (auto simp: keeps_ids_def)

lemma in_vertex_refs: "p \<in> set (vertex_refs g) \<longleftrightarrow> (\<exists>i < length (g_vertex g). p = VertexRef i)"
  by (auto simp: vertex_refs_def)

lemma valid_ref_cases: "valid_ref g p \<longleftrightarrow> p \<in> set (vertex_refs g) \<union> set (gen_refs g)"
  by (cases p) (auto simp: valid_ref_def vertex_refs_def gen_refs_def)

text \<open>What holds between the two phases.\<close>

definition phase1_inv :: "nat \<Rightarrow> graph \<Rightarrow> bool" where
  "phase1_inv n g = (unlinked g \<and> tables_ok g \<and> gen_ids_ok g \<and> length (g_vertex g) = n)"

lemma prepare_step:
  assumes "phase1_inv n (fst s)" "p \<in> VertexRef ` {..<n}" "prepare_vertex c F p s = Ok s'"
  shows "phase1_inv n (fst s')" "named_ok (fst s') p"
    "q \<in> VertexRef ` {..<n} \<Longrightarrow> named_ok (fst s) q \<Longrightarrow> named_ok (fst s') q"
proof -
  obtain i where i: "p = VertexRef i" "i < n" using assms(2) by auto
  have v: "valid_ref (fst s) (VertexRef i)" using i assms(1) by (simp add: phase1_inv_def valid_ref_def)
  have run: "prepare_vertex c F (VertexRef i) (fst s, snd s) = Ok (fst s', snd s')"
    using assms(3) i by simp
  note ok = prepare_vertex_ok[OF run v]
  show "phase1_inv n (fst s')"
    using ok(1,2) assms(1) by (simp add: phase1_inv_def touches_def keeps_ids_def)
  show named: "named_ok (fst s') p" using ok(3) assms(1) i by (simp add: phase1_inv_def)
  show "named_ok (fst s') q" if "q \<in> VertexRef ` {..<n}" "named_ok (fst s) q"
  proof (cases "q = p")
    case False
    have "valid_ref (fst s) q" using that(1) assms(1) by (auto simp: phase1_inv_def valid_ref_def)
    then show ?thesis
      using named_ok_keep[OF ok(1,2)] that False assms(1) i by (simp add: phase1_inv_def)
  qed (use named in simp)
qed

lemma prepare_loop:
  assumes "fresh_graph g" "for_each (vertex_refs g) (prepare_vertex c F) (g, Map.empty) = Ok s"
  defines "n \<equiv> length (g_vertex g)"
  shows "phase1_inv n (fst s)" "i < n \<Longrightarrow> named_ok (fst s) (VertexRef i)"
proof -
  have start: "phase1_inv n (fst (g, Map.empty :: string \<rightharpoonup> vref))"
    using fresh_graphD[OF assms(1)] by (simp add: phase1_inv_def n_def)
  have refs: "set (vertex_refs g) = VertexRef ` {..<n}" by (auto simp: vertex_refs_def n_def)
  show "phase1_inv n (fst s)"
    using assms(2) start prepare_step(1) unfolding refs[symmetric]
    by (rule for_each_invariant[where P = "\<lambda>s. phase1_inv n (fst s)"]) (simp_all add: refs)
  show "named_ok (fst s) (VertexRef i)" if "i < n"
  proof (rule for_each_establishes[where P = "\<lambda>s. phase1_inv n (fst s)" and
        Q = "\<lambda>s. named_ok (fst s) (VertexRef i)", OF assms(2) _ start])
    show "VertexRef i \<in> set (vertex_refs g)" using that by (simp add: refs)
    show "phase1_inv n (fst s')" if "y \<in> set (vertex_refs g)" "phase1_inv n (fst s)"
      "prepare_vertex c F y s = Ok s'" for y s s'
      using that prepare_step(1) by (simp add: refs)
    show "named_ok (fst s') (VertexRef i)" if "phase1_inv n (fst s)"
      "prepare_vertex c F (VertexRef i) s = Ok s'" for s s'
      using prepare_step(2)[OF that(1) _ that(2)] \<open>i < n\<close> by simp
    show "named_ok (fst s') (VertexRef i)" if "y \<in> set (vertex_refs g)" "phase1_inv n (fst s)"
      "named_ok (fst s) (VertexRef i)" "prepare_vertex c F y s = Ok s'" for y s s'
      using prepare_step(3)[OF that(2) _ that(4)] that(1,3) \<open>i < n\<close> by (simp add: refs)
  qed
qed

lemma unlinked_edges_ok: "unlinked g \<Longrightarrow> edges_ok g"
  by (simp add: edges_ok_def vertex_edges_ok_def unlinked_def edge_fields_def depends_def)

lemma mark_single_ok:
  assumes "phase1_inv n g"
  shows "phase1_inv n (mark_single g)" "named_ok g (VertexRef i) \<Longrightarrow> named_ok (mark_single g) (VertexRef i)"
    "g_gen_vertex (mark_single g) = g_gen_vertex g"
proof -
  have "phase1_inv n (mark_single g) \<and> (named_ok g (VertexRef i) \<longrightarrow> named_ok (mark_single g) (VertexRef i))
      \<and> g_gen_vertex (mark_single g) = g_gen_vertex g"
  proof (cases "mark_single g = g")
    case False
    then have one: "length (g_vertex g) = 1"
      and m: "mark_single g = modify (VertexRef 0) (\<lambda>n. n\<lparr>v_is_start := True\<rparr>) g"
      by (auto simp: mark_single_def split: if_splits)
    have v: "valid_ref g (VertexRef 0)" using one by (simp add: valid_ref_def)
    let ?g = "modify (VertexRef 0) (\<lambda>n. n\<lparr>v_is_start := True\<rparr>) g"
    have d: "v_id (deref ?g q) = v_id (deref g q)" "v_output (deref ?g q) = v_output (deref g q)" for q
      using v by (simp_all add: deref_modify)
    have "named_ok ?g q = named_ok g q" for q
      by (simp add: named_ok_def owns_id_def outputs_registered_def d FindVertexById_def FindVertexByData_def)
    moreover have "gen_ids_ok ?g = gen_ids_ok g"
      by (simp add: gen_ids_ok_def generated_id_def FindVertexById_def)
    moreover
    have "unlinked g \<Longrightarrow> unlinked ?g"
      using v by (auto intro: unlinked_modify simp: edge_fields_def)
    ultimately show ?thesis
      using assms unfolding m phase1_inv_def by simp
  qed (use assms in simp)
  then show "phase1_inv n (mark_single g)"
    "named_ok g (VertexRef i) \<Longrightarrow> named_ok (mark_single g) (VertexRef i)"
    "g_gen_vertex (mark_single g) = g_gen_vertex g" by auto
qed

lemma named_ok_grows:
  assumes "grows g g'" "valid_ref g p" "named_ok g p"
  shows "named_ok g' p"
proof -
  have c: "config (deref g' q) = config (deref g q)" if "valid_ref g q" for q
    using assms(1) that by (rule grows_config)
  have id: "v_id (g_gen_vertex g' ! j) = v_id (g_gen_vertex g ! j)" if "j < length (g_gen_vertex g)" for j
    using that config_fields[OF c[of "GenRef j"]] by (simp add: valid_ref_def deref_def)
  have len: "length (g_gen_vertex g') = length (g_gen_vertex g)" using assms(1) by (simp add: grows_def)
  have gens: "(\<exists>j < length (g_gen_vertex g'). v_id (g_gen_vertex g' ! j) = m) \<longleftrightarrow>
      (\<exists>j < length (g_gen_vertex g). v_id (g_gen_vertex g ! j) = m)" for m
    unfolding len using id by auto
  have same: "v_id (deref g' p) = v_id (deref g p)" "v_output (deref g' p) = v_output (deref g p)"
    using c[OF assms(2)] by (metis config_selectors(8,11))+
  show ?thesis
    using assms(3) unfolding named_ok_def owns_id_def outputs_registered_def gens same
      grows_tables[OF assms(1)] .
qed

text \<open>The second phase over a list of vertices.\<close>

definition vertex_built :: "graph \<Rightarrow> vref \<Rightarrow> bool" where
  "vertex_built g p = (vertex_linked g p \<and> (v_processor (deref g p) \<noteq> [] \<or> v_graph (deref g p) \<noteq> []))"

lemma vertex_built_grows:
  assumes "grows g g'" "tables_ok g" "valid_ref g p" "vertex_built g p"
  shows "vertex_built g' p"
  using vertex_linked_grows[OF assms(1-3)] assms(4) config_fields[OF grows_config[OF assms(1,3)]]
  by (simp add: vertex_built_def)

lemma build_loop:
  assumes run: "for_each ps (BuildVertex c) g = Ok g'" and inv: "build_inv g0 g"
    and ps: "\<And>p. p \<in> set ps \<Longrightarrow> valid_ref g0 p"
  shows "build_inv g0 g'" "p \<in> set ps \<Longrightarrow> vertex_built g' p"
proof -
  have step: "build_inv g0 h'" "vertex_built h' p" "grows h h'"
    if "p \<in> set ps" "build_inv g0 h" "BuildVertex c p h = Ok h'" for p h h'
    using BuildVertex_ok[OF that(3,2) ps[OF that(1)]] that(2)
    by (auto simp: vertex_built_def intro: build_inv_trans build_inv_grows)
  show "build_inv g0 g'" using run inv step(1) by (rule build_inv_for_each)
  show "vertex_built g' p" if "p \<in> set ps"
  proof (rule for_each_establishes[where P = "build_inv g0" and Q = "\<lambda>h. vertex_built h p", OF run that inv])
    show "build_inv g0 h'" if "y \<in> set ps" "build_inv g0 h" "BuildVertex c y h = Ok h'" for y h h'
      using that by (rule step(1))
    show "vertex_built h' p" if "build_inv g0 h" "BuildVertex c p h = Ok h'" for h h'
      using \<open>p \<in> set ps\<close> that by (rule step(2))
    show "vertex_built h' p" if "y \<in> set ps" "build_inv g0 h" "vertex_built h p"
      "BuildVertex c y h = Ok h'" for y h h'
      using vertex_built_grows[OF step(3)[OF that(1,2,4)] build_inv_tables[OF that(2)] _ that(3)]
        build_inv_valid[OF that(2)] ps[OF \<open>p \<in> set ps\<close>] by simp
  qed
qed

lemma verify_all_ok:
  "verify_all ps g = Ok g' \<Longrightarrow> g' = g \<and> (\<forall>p \<in> set ps. Verify (deref g p))"
  unfolding verify_all_def by (induction ps) (auto simp: and_then_Ok_iff split: if_splits)

lemma finish_build_ok: "finish_build g = Ok g' \<longleftrightarrow> g' = g \<and> TestCircle g = Some False
    \<and> \<not> (g_nodes g = [] \<and> g_gen_vertex g = [])"
  by (auto simp: finish_build_def split: option.splits if_splits)

lemma edges_to_vertices:
  assumes "grows g g'" shows "vertex_refs g' = vertex_refs g" "gen_refs g' = gen_refs g"
  using assms by (simp_all add: grows_def vertex_refs_def gen_refs_def)

text \<open>Everything a successful build has established.\<close>

lemma GraphBuild_phases:
  assumes "fresh_graph g" "GraphBuild c F g = Ok g'"
  shows "edges_ok g'" "tables_ok g'" "valid_ref g' p \<Longrightarrow> vertex_built g' p \<and> Verify (deref g' p)"
    "TestCircle g' = Some False" "g_nodes g' \<noteq> [] \<or> g_gen_vertex g' \<noteq> []"
    "length (g_vertex g') = length (g_vertex g)"
    "i < length (g_vertex g) \<Longrightarrow> named_ok g' (VertexRef i)"
    "\<exists>h. gen_ids_ok h \<and> unlinked h \<and> grows h g'"
proof -
  let ?n = "length (g_vertex g)"
  from assms(2) obtain s g1 g2 g3 g4 where run:
    "for_each (vertex_refs g) (prepare_vertex c F) (g, Map.empty) = Ok s"
    "for_each (vertex_refs (mark_single (fst s))) (BuildVertex c) (mark_single (fst s)) = Ok g1"
    "for_each (gen_refs g1) (BuildVertex c) g1 = Ok g2" and
    ver0: "verify_all (vertex_refs g2) g2 = Ok g3" "verify_all (gen_refs g3) g3 = Ok g4" "finish_build g4 = Ok g'"
    by (force simp: GraphBuild_def build_edges_def and_then_Ok_iff)
  have ver: "verify_all (vertex_refs g2) g2 = Ok g2" "verify_all (gen_refs g2) g2 = Ok g2" "finish_build g2 = Ok g'"
    using ver0 verify_all_ok[OF ver0(1)] verify_all_ok[OF ver0(2)] by simp_all
  define h where "h = mark_single (fst s)"
  note p1 = prepare_loop[OF assms(1) run(1)]
  have h: "phase1_inv ?n h" using mark_single_ok(1)[OF p1(1)] by (simp add: h_def)
  then have h0: "build_inv h h" by (simp add: phase1_inv_def build_inv_refl unlinked_edges_ok)
  have b1: "build_inv h g1" "p \<in> set (vertex_refs h) \<Longrightarrow> vertex_built g1 p" for p
    using build_loop[OF run(2)[folded h_def] h0] by (simp_all add: valid_ref_cases)
  have e1: "vertex_refs g1 = vertex_refs h" "gen_refs g1 = gen_refs h"
    using edges_to_vertices[OF build_inv_grows[OF b1(1)]] by simp_all
  have b2: "build_inv h g2" "p \<in> set (gen_refs h) \<Longrightarrow> vertex_built g2 p" for p
    using build_loop[OF run(3) b1(1)] by (simp_all add: e1 valid_ref_cases)
  have b12: "build_inv g1 g2"
    using build_loop(1)[OF run(3), of g1] b1(1) by (simp add: build_inv_def e1 valid_ref_cases)
  have g': "g' = g2" "TestCircle g2 = Some False" "\<not> (g_nodes g2 = [] \<and> g_gen_vertex g2 = [])"
    using ver(3) by (simp_all add: finish_build_ok)
  have e2: "vertex_refs g2 = vertex_refs h" "gen_refs g2 = gen_refs h"
    using edges_to_vertices[OF build_inv_grows[OF b2(1)]] by simp_all
  show "edges_ok g'" "tables_ok g'" using b2(1) by (simp_all add: g' build_inv_def)
  show "TestCircle g' = Some False" "g_nodes g' \<noteq> [] \<or> g_gen_vertex g' \<noteq> []" using g' by simp_all
  show "length (g_vertex g') = ?n" using b2(1) h by (simp add: g' build_inv_def grows_def phase1_inv_def)
  show "vertex_built g' p \<and> Verify (deref g' p)" if "valid_ref g' p"
  proof
    have p: "p \<in> set (vertex_refs h) \<union> set (gen_refs h)" using that by (simp add: g' valid_ref_cases e2)
    have "vertex_built g2 p" if "p \<in> set (vertex_refs h)"
      using vertex_built_grows[OF build_inv_grows[OF b12] build_inv_tables[OF b1(1)] _ b1(2)[OF that]] that
      by (simp add: valid_ref_cases e1)
    with p b2(2) show "vertex_built g' p" by (auto simp: g')
    show "Verify (deref g' p)" using verify_all_ok[OF ver(1)] verify_all_ok[OF ver(2)] p by (auto simp: g' e2)
  qed
  show "named_ok g' (VertexRef i)" if "i < ?n"
  proof -
    have "named_ok h (VertexRef i)" using mark_single_ok(2)[OF p1(1)] p1(2)[OF that] by (simp add: h_def)
    moreover have "valid_ref h (VertexRef i)" using that h by (simp add: valid_ref_def phase1_inv_def)
    ultimately show ?thesis using named_ok_grows[OF build_inv_grows[OF b2(1)]] by (simp add: g')
  qed
  show "\<exists>h. gen_ids_ok h \<and> unlinked h \<and> grows h g'"
    using h build_inv_grows[OF b2(1)] by (auto simp: g' phase1_inv_def)
qed

end
