(* ===== verification/GraphCircle.thy ===== *)
theory GraphCircle
  imports GraphBuild
begin

text \<open>
  The cycle test of \<open>Graph::Build\<close> (\<open>Graph::TestCircle\<close>, \<open>Vertex::FindVertexInSuccessors\<close>). The
  search keeps no set of visited vertices. It returns for every vertex of an acyclic graph, and
  its answers are right; on a graph with a cycle it may also never return, when it enters the
  cycle from a vertex outside. The lemmas hold for every order in which the unordered containers
  are visited.
\<close>

section \<open>Answers\<close>

text \<open>The edges the search follows: from a vertex to its successors.\<close>

definition successor_rel :: "(vref \<Rightarrow> vref list) \<Rightarrow> (vref \<times> vref) set" where
  "successor_rel succ = {(p, q). q \<in> set (succ p)}"

lemma path_cases: "(w, v) \<in> (successor_rel succ)\<^sup>+ \<longleftrightarrow>
    v \<in> set (succ w) \<or> (\<exists>x \<in> set (succ w). (x, v) \<in> (successor_rel succ)\<^sup>+)"
proof
  assume "(w, v) \<in> (successor_rel succ)\<^sup>+"
  then show "v \<in> set (succ w) \<or> (\<exists>x \<in> set (succ w). (x, v) \<in> (successor_rel succ)\<^sup>+)"
    by (rule converse_tranclE) (auto simp: successor_rel_def)
next
  have "x \<in> set (succ w) \<Longrightarrow> (w, x) \<in> successor_rel succ" for x by (simp add: successor_rel_def)
  then show "v \<in> set (succ w) \<or> (\<exists>x \<in> set (succ w). (x, v) \<in> (successor_rel succ)\<^sup>+) \<Longrightarrow>
      (w, v) \<in> (successor_rel succ)\<^sup>+"
    by (blast intro: r_into_trancl trancl_into_trancl2)
qed

definition answer_ok :: "(vref \<Rightarrow> vref list) \<Rightarrow> vref list \<Rightarrow> vref \<Rightarrow> bool \<Rightarrow> bool" where
  "answer_ok succ ws v found =
    (if found then \<exists>w \<in> set ws. (w, v) \<in> (successor_rel succ)\<^sup>+
     else \<forall>w \<in> set ws. (w, v) \<notin> (successor_rel succ)\<^sup>+)"

lemma search_successors_answer:
  assumes "search_successors succ ws v = Some found"
  shows "answer_ok succ ws v found"
proof (rule search_successors.raw_induct [where P = answer_ok, OF _ assms], unfold answer_ok_def, goal_cases)
  case (1 search succ ws v found)
  let ?E = "successor_rel succ"
  show ?case
  proof (cases ws)
    case Nil
    with 1(2) show ?thesis by (cases found) auto
  next
    case (Cons w ws')
    define m where "m = (if succ w = [] then Some False else if v \<in> set (succ w) then Some True
      else search succ (succ w) v)"
    from 1(2) Cons obtain b where b: "m = Some b" "(if b then Some True else search succ ws' v) = Some found"
      by (auto simp: m_def bind_eq_Some_conv)
    have edge: "(w, v) \<in> ?E\<^sup>+ \<longleftrightarrow> v \<in> set (succ w) \<or> (\<exists>x \<in> set (succ w). (x, v) \<in> ?E\<^sup>+)"
      by (rule path_cases)
    have w: "b \<longleftrightarrow> (w, v) \<in> ?E\<^sup>+"
    proof (cases "succ w = [] \<or> v \<in> set (succ w)")
      case True
      with b(1) edge show ?thesis by (auto simp: m_def split: if_splits)
    next
      case False
      with b(1) have "search succ (succ w) v = Some b" by (simp add: m_def)
      from 1(1)[OF this] edge False show ?thesis by (auto split: if_splits)
    qed
    show ?thesis
    proof (cases b)
      case True
      with b(2) w Cons show ?thesis by auto
    next
      case False
      with b(2) have "search succ ws' v = Some found" by simp
      from 1(1)[OF this] w False Cons show ?thesis by auto
    qed
  qed
qed

lemma FindVertexInSuccessors_answer:
  assumes "FindVertexInSuccessors succ p v = Some found"
  shows "found \<longleftrightarrow> (p, v) \<in> (successor_rel succ)\<^sup>+"
proof -
  have "search_successors succ [p] v = Some found"
    by (subst search_successors.simps)
       (use assms in \<open>auto simp: FindVertexInSuccessors_def search_successors.simps[of succ "[]"]
          split: if_splits\<close>)
  from search_successors_answer[OF this, unfolded answer_ok_def] show ?thesis by (auto split: if_splits)
qed

lemma test_nodes_answer:
  "test_nodes succ ps = Some found \<Longrightarrow>
    (if found then \<exists>p \<in> set ps. (p, p) \<in> (successor_rel succ)\<^sup>+
     else \<forall>p \<in> set ps. (p, p) \<notin> (successor_rel succ)\<^sup>+)"
proof (induction ps)
  case (Cons p ps)
  then obtain b where b: "FindVertexInSuccessors succ p p = Some b"
    "(if b then Some True else test_nodes succ ps) = Some found"
    by (auto simp: bind_eq_Some_conv)
  note FindVertexInSuccessors_answer[OF b(1)]
  with b(2) Cons.IH show ?case by (cases b) (auto split: if_splits)
qed simp

section \<open>Termination on acyclic graphs\<close>

text \<open>
  The search from \<open>w\<close> returns when no infinite path starts at \<open>w\<close>: \<open>w\<close> is in the accessible
  part of the converse of the edge relation.
\<close>

abbreviation no_infinite_path :: "(vref \<Rightarrow> vref list) \<Rightarrow> vref \<Rightarrow> bool" where
  "no_infinite_path succ w \<equiv> w \<in> Wellfounded.acc ((successor_rel succ)\<inverse>)"

lemma search_list_returns:
  assumes "\<And>w. w \<in> set ws \<Longrightarrow> \<exists>b. (if succ w = [] then Some False else if v \<in> set (succ w) then Some True
      else search_successors succ (succ w) v) = Some b"
  shows "\<exists>found. search_successors succ ws v = Some found"
  using assms
proof (induction ws)
  case Nil
  have "search_successors succ [] v = Some False" by (subst search_successors.simps) simp
  then show ?case by blast
next
  case (Cons x xs)
  obtain b where "(if succ x = [] then Some False else if v \<in> set (succ x) then Some True
        else search_successors succ (succ x) v) = Some b"
    using Cons.prems by fastforce
  moreover obtain b' where "search_successors succ xs v = Some b'" using Cons by fastforce
  ultimately have "search_successors succ (x # xs) v = Some (b \<or> b')"
    by (subst search_successors.simps) (cases b; simp)
  then show ?case by blast
qed

lemma search_vertex_returns:
  assumes "no_infinite_path succ w"
  shows "\<exists>b. (if succ w = [] then Some False else if v \<in> set (succ w) then Some True
      else search_successors succ (succ w) v) = Some b"
  using assms
proof (induction w rule: acc_induct_rule)
  case (1 w)
  have "\<exists>found. search_successors succ (succ w) v = Some found"
    by (rule search_list_returns, rule 1(2)) (simp add: successor_rel_def)
  then show ?case by (cases "succ w = []"; cases "v \<in> set (succ w)") auto
qed

lemma test_nodes_returns:
  assumes "\<And>p. p \<in> set ps \<Longrightarrow> no_infinite_path succ p"
  shows "\<exists>found. test_nodes succ ps = Some found"
  using assms
proof (induction ps)
  case (Cons p ps)
  have "\<exists>b. FindVertexInSuccessors succ p p = Some b"
    using search_vertex_returns[of p succ p] Cons.prems by (simp add: FindVertexInSuccessors_def)
  moreover have "\<exists>b. test_nodes succ ps = Some b" using Cons by simp
  ultimately show ?case by (auto split: if_splits)
next
  case Nil
  have "test_nodes succ [] = Some False" by simp
  then show ?case by blast
qed

section \<open>Graphs\<close>

definition edge_rel :: "graph \<Rightarrow> (vref \<times> vref) set" where
  "edge_rel g = {(p, q). valid_ref g p \<and> q \<in> set (succs g p)}"

lemma finite_valid: "finite {p. valid_ref g p}"
proof -
  have "{p. valid_ref g p} \<subseteq> VertexRef ` {..<length (g_vertex g)} \<union> GenRef ` {..<length (g_gen_vertex g)}"
    by (rule subsetI, case_tac x) (auto simp: valid_ref_def)
  then show ?thesis by (rule finite_subset) simp
qed

lemma edge_rel_valid: "edges_ok g \<Longrightarrow> (p, q) \<in> edge_rel g \<Longrightarrow> valid_ref g p \<and> valid_ref g q"
  by (auto simp: edge_rel_def dest: edges_okD(2))

lemma finite_edge_rel: "edges_ok g \<Longrightarrow> finite (edge_rel g)"
  by (rule finite_subset[OF _ finite_cartesian_product[OF finite_valid[of g] finite_valid[of g]]])
     (auto dest: edge_rel_valid)

lemma successor_path:
  assumes "edges_ok g" "valid_ref g p"
  shows "(p, q) \<in> (successor_rel (succs g))\<^sup>+ \<longleftrightarrow> (p, q) \<in> (edge_rel g)\<^sup>+"
proof
  assume "(p, q) \<in> (successor_rel (succs g))\<^sup>+"
  then have "(p, q) \<in> (edge_rel g)\<^sup>+ \<and> valid_ref g q"
  proof (induction rule: trancl_induct)
    case (base y)
    then have "(p, y) \<in> edge_rel g" using assms(2) by (simp add: successor_rel_def edge_rel_def)
    with edge_rel_valid[OF assms(1) this] show ?case by blast
  next
    case (step y z)
    then have "(y, z) \<in> edge_rel g" by (simp add: successor_rel_def edge_rel_def)
    with step edge_rel_valid[OF assms(1) this] show ?case by (blast intro: trancl_into_trancl)
  qed
  then show "(p, q) \<in> (edge_rel g)\<^sup>+" by simp
next
  assume "(p, q) \<in> (edge_rel g)\<^sup>+"
  then show "(p, q) \<in> (successor_rel (succs g))\<^sup>+"
    by (rule trancl_mono) (auto simp: edge_rel_def successor_rel_def)
qed

lemma acyclic_no_infinite_path:
  assumes "edges_ok g" "acyclic (edge_rel g)" "valid_ref g p"
  shows "no_infinite_path (succs g) p"
proof -
  have "wf ((edge_rel g)\<inverse>)" using assms(1,2) by (intro finite_acyclic_wf_converse finite_edge_rel)
  then show ?thesis using assms(3)
  proof (induction p rule: wf_induct_rule)
    case (less p)
    show ?case
    proof (rule accI)
      fix q assume "(q, p) \<in> (successor_rel (succs g))\<inverse>"
      then have q: "(q, p) \<in> (edge_rel g)\<inverse>" using less(2) by (simp add: successor_rel_def edge_rel_def)
      with edge_rel_valid[OF assms(1)] less(1)[OF q] show "no_infinite_path (succs g) q" by blast
    qed
  qed
qed

lemma edge_rel_depends: "edges_ok g \<Longrightarrow> valid_ref g p \<Longrightarrow> valid_ref g q \<Longrightarrow>
    (p, q) \<in> edge_rel g \<longleftrightarrow> depends g q p"
  using edges_okD(4) by (auto simp: edge_rel_def)

end
