(* ===== verification/ConfigKept.thy ===== *)
theory ConfigKept
  imports GraphBuild
begin

text \<open>
  What the first phase of \<open>Graph::Build\<close> keeps of a configured vertex and what it adds: names and
  data items stay, consequents and alternatives become successors on success and on failure, an
  \<open>expect\<close> expression becomes a dependency on a generated vertex, and the fields of the operator
  become data items. These lemmas carry the statements about the finished graph back to the
  configuration.
\<close>

section \<open>One vertex\<close>

definition keeps_data :: "graph_data \<Rightarrow> graph_data \<Rightarrow> bool" where
  "keeps_data d d' = (d_field d' = d_field d \<and> aggregate d' = aggregate d \<and> required d' = required d
     \<and> (is_extern d \<longrightarrow> is_extern d') \<and> (d_id d' = d_id d \<or> d_id d = [] \<and> d_id d' = d_field d))"

definition keeps_config :: "vertex \<Rightarrow> vertex \<Rightarrow> bool" where
  "keeps_config w v =
    (set (v_deps w) \<subseteq> set (v_deps v) \<and> set (v_deps_on_ok w) \<subseteq> set (v_deps_on_ok v)
     \<and> set (v_deps_on_err w) \<subseteq> set (v_deps_on_err v) \<and> set (v_successor w) \<subseteq> set (v_successor v)
     \<and> set (v_successor_on_ok w) \<subseteq> set (v_successor_on_ok v)
     \<and> set (v_successor_on_err w) \<subseteq> set (v_successor_on_err v)
     \<and> v_consequent v = v_consequent w \<and> v_alternative v = v_alternative w \<and> v_expect v = v_expect w
     \<and> (\<forall>d \<in> set (v_input w). \<exists>d' \<in> set (v_input v). keeps_data d d'))"

lemma keeps_data_refl [simp]: "keeps_data d d"
  by (simp add: keeps_data_def)

lemma keeps_data_trans: "keeps_data d d' \<Longrightarrow> keeps_data d' d'' \<Longrightarrow> keeps_data d d''"
  by (auto simp: keeps_data_def)

lemma keeps_config_refl [simp]: "keeps_config w w"
  by (force simp: keeps_config_def)

lemma keeps_config_trans:
  assumes "keeps_config w v" "keeps_config v u" shows "keeps_config w u"
proof -
  have "\<exists>d' \<in> set (v_input u). keeps_data d d'" if "d \<in> set (v_input w)" for d
    using that assms keeps_data_trans unfolding keeps_config_def by meson
  with assms show ?thesis unfolding keeps_config_def by auto
qed

lemma keeps_config_same_input:
  assumes "v_input v = v_input w" "set (v_deps w) \<subseteq> set (v_deps v)" "set (v_deps_on_ok w) \<subseteq> set (v_deps_on_ok v)"
    "set (v_deps_on_err w) \<subseteq> set (v_deps_on_err v)" "set (v_successor w) \<subseteq> set (v_successor v)"
    "set (v_successor_on_ok w) \<subseteq> set (v_successor_on_ok v)" "set (v_successor_on_err w) \<subseteq> set (v_successor_on_err v)"
    "v_consequent v = v_consequent w" "v_alternative v = v_alternative w" "v_expect v = v_expect w"
  shows "keeps_config w v"
proof -
  have "\<forall>d \<in> set (v_input w). \<exists>d' \<in> set (v_input v). keeps_data d d'"
    unfolding assms(1) using keeps_data_refl by blast
  with assms(2-) show ?thesis by (simp add: keeps_config_def)
qed

lemma fill_input_keeps:
  "d \<in> set ds \<Longrightarrow> \<exists>d' \<in> set (fill_input f ds). keeps_data d d'"
proof (induction f ds rule: fill_input.induct)
  case (2 f e es)
  show ?case
  proof (cases "d_field e = fi_name f")
    case True
    let ?e = "if fi_is_in_out f then e\<lparr>move := True, is_in_out := True,
        is_extern := (if fi_is_extern f then True else is_extern e)\<rparr> else e"
    have s: "fill_input f (e # es) = ?e # es" using True by simp
    have "keeps_data e ?e" by (simp add: keeps_data_def)
    with 2 show ?thesis unfolding s by (metis keeps_data_refl list.set_intros set_ConsD)
  next
    case False
    with 2 show ?thesis by (auto intro: keeps_data_refl)
  qed
qed simp

lemma fold_fill_input_keeps:
  "d \<in> set ds \<Longrightarrow> \<exists>d' \<in> set (fold fill_input fs ds). keeps_data d d'"
proof (induction fs arbitrary: d ds)
  case (Cons f fs)
  obtain e where e: "e \<in> set (fill_input f ds)" "keeps_data d e" using fill_input_keeps[OF Cons.prems] by blast
  obtain e' where "e' \<in> set (fold fill_input fs (fill_input f ds))" "keeps_data e e'" using Cons.IH[OF e(1)] by blast
  with e(2) keeps_data_trans show ?case by auto
qed (auto intro: keeps_data_refl)

lemma FillInputOutput_keeps: "FillInputOutput F v = Some w \<Longrightarrow> keeps_config v w"
  using fold_fill_input_keeps
  by (auto simp: FillInputOutput_def keeps_config_def intro: keeps_data_refl split: if_splits option.splits)

text \<open>Naming the inputs resolves each of them, and leaves none without a name.\<close>

lemma name_inputs_ok:
  "name_inputs i ds = Ok ds' \<Longrightarrow>
    (\<forall>d \<in> set ds. \<exists>d' \<in> set ds'. keeps_data d d') \<and> (\<forall>d' \<in> set ds'. d_id d' \<noteq> [])
    \<and> d_field ` set ds' = d_field ` set ds"
proof (induction ds arbitrary: ds')
  case (Cons d ds)
  define d' where "d' = (if d_id d = [] then d\<lparr>d_id := d_field d\<rparr> else d)"
  from Cons.prems obtain es where es: "name_inputs i ds = Ok es" "ds' = d' # es" "d_field d \<noteq> []"
    by (auto simp: d'_def and_then_Ok_iff split: if_splits)
  have "keeps_data d d'" "d_id d' \<noteq> []" "d_field d' = d_field d" using es(3) by (auto simp: d'_def keeps_data_def)
  with Cons.IH[OF es(1)] show ?case unfolding es(2) by auto
qed simp

definition fields_filled :: "factory \<Rightarrow> vertex \<Rightarrow> bool" where
  "fields_filled F v = (v_processor v \<noteq> [] \<longrightarrow>
    (\<forall>P. F (v_processor v) = Some P \<longrightarrow> fi_name ` set (GetInputIds P) \<subseteq> d_field ` set (v_input v)))"

lemma FillInputOutput_filled: "FillInputOutput F v = Some w \<Longrightarrow> fields_filled F w"
  using fold_fill_input_fields unfolding set_map
  by (auto simp: FillInputOutput_def fields_filled_def split: if_splits option.splits)

lemma no_fields: "FillInputOutput F v = None \<Longrightarrow> fields_filled F v"
  by (auto simp: FillInputOutput_def fields_filled_def split: if_splits option.splits)

section \<open>One pass of the first loop\<close>

text \<open>The generated vertices found in the table of expressions are there, with their expression.\<close>

definition conds_ok :: "graph \<Rightarrow> (string \<rightharpoonup> vref) \<Rightarrow> bool" where
  "conds_ok g gen = (\<forall>e r. gen e = Some r \<longrightarrow>
     (\<exists>j < length (g_gen_vertex g). r = GenRef j \<and> v_cond (g_gen_vertex g ! j) = e))"

definition expect_linked :: "graph \<Rightarrow> vertex \<Rightarrow> bool" where
  "expect_linked g v = (v_expect v \<noteq> [] \<longrightarrow>
    (\<exists>j < length (g_gen_vertex g). v_cond (g_gen_vertex g ! j) = v_expect v
       \<and> v_id (g_gen_vertex g ! j) \<in> set (v_deps_on_ok v)))"

definition prepared :: "factory \<Rightarrow> vertex \<Rightarrow> graph \<Rightarrow> vref \<Rightarrow> bool" where
  "prepared F w g p = (keeps_config w (deref g p)
     \<and> set (v_consequent w) \<subseteq> set (v_successor_on_ok (deref g p))
     \<and> set (v_alternative w) \<subseteq> set (v_successor_on_err (deref g p))
     \<and> fields_filled F (deref g p) \<and> (\<forall>d \<in> set (v_input (deref g p)). d_id d \<noteq> [])
     \<and> expect_linked g (deref g p))"


lemma conds_ok_touches:
  assumes "touches (VertexRef i) g g'" "j < length (g_gen_vertex g)"
  shows "g_gen_vertex g' ! j = g_gen_vertex g ! j" "j < length (g_gen_vertex g')"
proof -
  have "deref g' (GenRef j) = deref g (GenRef j)"
    using assms by (simp add: touches_def valid_ref_def)
  then show "g_gen_vertex g' ! j = g_gen_vertex g ! j" by (simp add: deref_def)
  show "j < length (g_gen_vertex g')" using assms by (simp add: touches_def)
qed

lemma generated_cond:
  assumes "geneatedCondVertex c cond g = (r, g')"
  shows "r = GenRef (length (g_gen_vertex g))" "length (g_gen_vertex g') = Suc (length (g_gen_vertex g))"
    "v_cond (deref g' r) = cond"
  using assms by (auto simp: geneatedCondVertex_def Let_def generateNodeId_def deref_def nth_append
      MergeSuccessor_def SetGeneratedId_def)

lemma link_expect_keeps:
  assumes "link_expect c (VertexRef i) (g, gen) = (g', gen')" "valid_ref g (VertexRef i)" "conds_ok g gen"
  shows "conds_ok g' gen'" "keeps_config (deref g (VertexRef i)) (deref g' (VertexRef i))"
    "expect_linked g' (deref g' (VertexRef i))"
proof -
  let ?p = "VertexRef i"
  define n where "n = deref g ?p"
  note t = conjunct2[OF link_expect_ok[OF assms(1,2)]]
  have "conds_ok g' gen' \<and> keeps_config n (deref g' ?p) \<and> expect_linked g' (deref g' ?p)"
  proof (cases "v_expect n = []")
    case True
    with assms show ?thesis by (simp add: link_expect_def expect_linked_def n_def)
  next
    case False
    obtain g1 j where g1: "gen' (v_expect n) = Some (GenRef j)" "j < length (g_gen_vertex g1)"
      "v_cond (g_gen_vertex g1 ! j) = v_expect n" "deref g1 ?p = n" "valid_ref g1 ?p" "conds_ok g1 gen'"
      "g' = modify ?p (\<lambda>v. v\<lparr>v_deps_on_ok := set_insert (v_id (deref g1 (GenRef j))) (v_deps_on_ok v)\<rparr>) g1"
    proof (cases "gen (v_expect n)")
      case None
      obtain r h where gc: "geneatedCondVertex c (v_expect n) g = (r, h)" by fastforce
      note th = touches_generated[OF gc, of ?p] and r = generated_cond[OF gc]
      define f :: "vertex \<Rightarrow> vertex" where "f = (\<lambda>cv. if v_expect_deps n \<noteq> []
          then cv\<lparr>v_deps := v_expect_deps n\<rparr>
          else cv\<lparr>v_deps := v_deps n, v_deps_on_err := v_deps_on_err n, v_deps_on_ok := v_deps_on_ok n\<rparr>)"
      define h' where "h' = modify r f h"
      have same: "gen' = gen(v_expect n \<mapsto> r)"
        "g' = modify ?p (\<lambda>v. v\<lparr>v_deps_on_ok := set_insert (v_id (deref h' r)) (v_deps_on_ok v)\<rparr>) h'"
        using assms(1) False None gc unfolding h'_def f_def n_def by (simp_all add: link_expect_def Let_def)
      have vr: "valid_ref h r" using th by simp
      have cond: "v_cond (deref h' r) = v_expect n"
        using vr r(3) by (simp add: h'_def deref_modify f_def)
      have old: "g_gen_vertex h' ! k = g_gen_vertex g ! k" if "k < length (g_gen_vertex g)" for k
      proof -
        have "GenRef k \<noteq> r" using that r(1) by simp
        then have "deref h' (GenRef k) = deref h (GenRef k)" using vr by (simp add: h'_def deref_modify)
        with conds_ok_touches(1)[OF conjunct1[OF touches_generated[OF gc]] that] show ?thesis by (simp add: deref_def)
      qed
      have len: "length (g_gen_vertex h') = Suc (length (g_gen_vertex g))" using r(2) by (simp add: h'_def)
      have "conds_ok h' gen'"
        unfolding conds_ok_def
      proof (intro allI impI)
        fix e q assume q: "gen' e = Some q"
        show "\<exists>j < length (g_gen_vertex h'). q = GenRef j \<and> v_cond (g_gen_vertex h' ! j) = e"
        proof (cases "e = v_expect n")
          case True
          with q r(1) have "q = GenRef (length (g_gen_vertex g))" by (simp add: same(1))
          with cond r(1) len True show ?thesis by (simp add: deref_def)
        next
          case False
          with q assms(3) obtain k where "k < length (g_gen_vertex g)" "q = GenRef k" "v_cond (g_gen_vertex g ! k) = e"
            by (auto simp: same(1) conds_ok_def)
          with old len show ?thesis by (auto intro!: exI[of _ k])
        qed
      qed
      moreover have "deref h' ?p = n"
      proof -
        have "deref h' ?p = deref h ?p" using vr r(1) by (simp add: h'_def deref_modify)
        also have "\<dots> = n"
          using gc by (auto simp: n_def deref_def geneatedCondVertex_def Let_def generateNodeId_def)
        finally show ?thesis .
      qed
      moreover have "valid_ref h' ?p" using touches_valid[OF conjunct1[OF th] assms(2)] by (simp add: h'_def)
      ultimately show thesis
        using that[of "length (g_gen_vertex g)" h'] same cond r(1) len by (simp add: deref_def)
    next
      case (Some r)
      with assms(3) obtain j where j: "j < length (g_gen_vertex g)" "r = GenRef j" "v_cond (g_gen_vertex g ! j) = v_expect n"
        by (auto simp: conds_ok_def)
      have same: "gen' = gen" "g' = modify ?p (\<lambda>v. v\<lparr>v_deps_on_ok := set_insert (v_id (deref g (GenRef j))) (v_deps_on_ok v)\<rparr>) g"
        using assms(1) False Some unfolding n_def j(2) by (simp_all add: link_expect_def Let_def)
      show thesis
        by (rule that[OF _ j(1,3) n_def[symmetric] assms(2) _ same(2)]) (simp_all add: same(1) Some j(2) assms(3))
    qed
    have d: "deref g' ?p = n\<lparr>v_deps_on_ok := set_insert (v_id (deref g1 (GenRef j))) (v_deps_on_ok n)\<rparr>"
      using g1(4,5) by (simp add: g1(7) deref_modify)
    have gens: "g_gen_vertex g' = g_gen_vertex g1" by (simp add: g1(7))
    have "expect_linked g' (deref g' ?p)"
      using g1(2,3) unfolding expect_linked_def d gens by (auto simp: deref_def[of g1 "GenRef j"])
    moreover have "keeps_config n (deref g' ?p)" unfolding d by (rule keeps_config_same_input) auto
    moreover have "conds_ok g' gen'" using g1(6) by (simp add: conds_ok_def gens)
    ultimately show ?thesis by simp
  qed
  then show "conds_ok g' gen'" "keeps_config (deref g ?p) (deref g' ?p)" "expect_linked g' (deref g' ?p)"
    by (simp_all add: n_def)
qed

lemma assign_keeps:
  assumes "valid_ref g p"
  shows "keeps_config (deref g p) (deref (assign_processor c p g) p)"
    "keeps_config (deref g p) (deref (assign_id p g) p)" "keeps_config (deref g p) (deref (assign_cluster c p g) p)"
proof -
  have m: "keeps_config (deref g p) (deref (modify p f g) p)" if "keeps_config (deref g p) (f (deref g p))" for f
    using that assms by (simp add: deref_modify)
  have i: "keeps_config v (v\<lparr>v_id := a\<rparr>)" "keeps_config v (SetGeneratedId a v)" for v a
    by (rule keeps_config_same_input; simp add: SetGeneratedId_def)+
  show "keeps_config (deref g p) (deref (assign_processor c p g) p)"
    "keeps_config (deref g p) (deref (assign_cluster c p g) p)"
    unfolding assign_processor_def assign_cluster_def by (rule m, rule keeps_config_same_input; simp)+
  have v: "valid_ref (snd (generateNodeId g)) p" using assms by simp
  show "keeps_config (deref g p) (deref (assign_id p g) p)"
    using m[of "\<lambda>n. n\<lparr>v_id := v_processor n\<rparr>"] i v
    by (auto simp: assign_id_def case_prod_unfold Let_def deref_modify)
qed

lemma fill_fields_result:
  assumes "fill_fields c F (VertexRef i) g = Ok g'" and p: "valid_ref g (VertexRef i)"
  shows "g_gen_vertex g' = g_gen_vertex g \<and> valid_ref g' (VertexRef i)
    \<and> (FillInputOutput F (deref g (VertexRef i)) = Some (deref g' (VertexRef i))
      \<or> FillInputOutput F (deref g (VertexRef i)) = None \<and> deref g' (VertexRef i) = deref g (VertexRef i))"
proof (cases "FillInputOutput F (deref g (VertexRef i))")
  case None
  with assms show ?thesis by (simp add: fill_fields_def split: if_splits)
next
  case (Some w)
  with assms(1) have "g' = modify (VertexRef i) (\<lambda>_. w) g" by (simp add: fill_fields_def)
  with Some p show ?thesis by (simp add: deref_modify)
qed

lemma name_data_result:
  assumes "name_data (VertexRef i) g = Ok g'" and p: "valid_ref g (VertexRef i)"
  shows "\<exists>ins outs. name_inputs (v_id (deref g (VertexRef i))) (v_input (deref g (VertexRef i))) = Ok ins
    \<and> deref g' (VertexRef i) = (deref g (VertexRef i))\<lparr>v_output := outs, v_input := ins\<rparr>
    \<and> g_gen_vertex g' = g_gen_vertex g"
proof -
  from assms(1) obtain outs tbl ins where n:
    "name_inputs (v_id (deref g (VertexRef i))) (v_input (deref g (VertexRef i))) = Ok ins"
    "g' = (modify (VertexRef i) (\<lambda>n. n\<lparr>v_output := outs, v_input := ins\<rparr>) g)\<lparr>g_data_mapping_table := tbl\<rparr>"
    by (auto simp: name_data_def Let_def and_then_Ok_iff)
  then show ?thesis using p by (simp add: deref_modify) blast
qed

lemma prepare_vertex_prepared:
  assumes run: "prepare_vertex c F (VertexRef i) (g, gen) = Ok (g', gen')" and p: "valid_ref g (VertexRef i)"
    and cs: "conds_ok g gen"
  shows "conds_ok g' gen'" "prepared F (deref g (VertexRef i)) g' (VertexRef i)"
proof -
  let ?p = "VertexRef i"
  define a1 where "a1 = assign_processor c ?p g"
  define a2 where "a2 = assign_id ?p a1"
  define a3 where "a3 = assign_cluster c ?p a2"
  from run obtain a4 a5 a6 where a: "link_expect c ?p (a3, gen) = (a4, gen')"
    "register_node ?p a4 = Ok a5" "fill_fields c F ?p a5 = Ok a6" "name_data ?p a6 = Ok g'"
    by (auto simp: prepare_vertex_def Let_def and_then_Ok_iff a1_def a2_def a3_def
        split: option.splits prod.splits)
  have p1: "valid_ref a1 ?p" using touches_valid[OF touches_assign_processor[OF p] p] by (simp add: a1_def)
  have p2: "valid_ref a2 ?p" using touches_valid[OF touches_assign_id[OF p1] p1] by (simp add: a2_def)
  have p3: "valid_ref a3 ?p" using touches_valid[OF touches_assign_cluster[OF p2] p2] by (simp add: a3_def)
  have "g_gen_vertex a3 = g_gen_vertex g"
    by (simp add: a3_def a2_def a1_def assign_cluster_def assign_processor_def assign_id_def case_prod_unfold Let_def)
  then have c3: "conds_ok a3 gen" using cs by (simp add: conds_ok_def)
  have k3: "keeps_config (deref g ?p) (deref a3 ?p)"
    using assign_keeps(1)[OF p] assign_keeps(2)[OF p1] assign_keeps(3)[OF p2] keeps_config_trans
    unfolding a1_def a2_def a3_def by blast
  note l = link_expect_keeps[OF a(1) p3 c3]
  have p4: "valid_ref a4 ?p" using touches_valid[OF conjunct2[OF link_expect_ok[OF a(1) p3]] p3] .
  have d5: "deref a5 ?p = MergeSuccessor (deref a4 ?p)" and g5: "g_gen_vertex a5 = g_gen_vertex a4" and p5: "valid_ref a5 ?p"
    using a(2) p4 by (auto simp: register_node_def Let_def deref_modify split: if_splits)
  have g6: "g_gen_vertex a6 = g_gen_vertex a5" and p6: "valid_ref a6 ?p"
    and d6: "FillInputOutput F (deref a5 ?p) = Some (deref a6 ?p)
      \<or> FillInputOutput F (deref a5 ?p) = None \<and> deref a6 ?p = deref a5 ?p"
    using fill_fields_result[OF a(3) p5] by simp_all
  from name_data_result[OF a(4) p6] obtain outs ins where n: "name_inputs (v_id (deref a6 ?p)) (v_input (deref a6 ?p)) = Ok ins"
    "deref g' ?p = (deref a6 ?p)\<lparr>v_output := outs, v_input := ins\<rparr>" "g_gen_vertex g' = g_gen_vertex a6"
    by blast
  note ins = name_inputs_ok[OF n(1)]
  show "conds_ok g' gen'" using l(1) by (simp add: conds_ok_def n(3) g6 g5)
  have k5: "keeps_config (deref a4 ?p) (deref a5 ?p)"
    unfolding d5 by (rule keeps_config_same_input) (auto simp: MergeSuccessor_def)
  have k6: "keeps_config (deref a5 ?p) (deref a6 ?p)" and f6: "fields_filled F (deref a6 ?p)"
    using d6 FillInputOutput_keeps FillInputOutput_filled no_fields by auto
  have k7: "keeps_config (deref a6 ?p) (deref g' ?p)" unfolding n(2) using ins by (simp add: keeps_config_def)
  have k4: "keeps_config (deref g ?p) (deref a4 ?p)" using k3 l(2) by (rule keeps_config_trans)
  have k57: "keeps_config (deref a5 ?p) (deref g' ?p)" using k6 k7 by (rule keeps_config_trans)
  have k: "keeps_config (deref g ?p) (deref g' ?p)"
    using keeps_config_trans[OF keeps_config_trans[OF k4 k5] k57] .
  have "v_consequent (deref a4 ?p) = v_consequent (deref g ?p)" "v_alternative (deref a4 ?p) = v_alternative (deref g ?p)"
    using k4 by (simp_all add: keeps_config_def)
  then have "set (v_consequent (deref g ?p)) \<subseteq> set (v_successor_on_ok (deref a5 ?p))"
    "set (v_alternative (deref g ?p)) \<subseteq> set (v_successor_on_err (deref a5 ?p))"
    by (auto simp: d5 MergeSuccessor_def)
  with k57 have "set (v_consequent (deref g ?p)) \<subseteq> set (v_successor_on_ok (deref g' ?p))"
    "set (v_alternative (deref g ?p)) \<subseteq> set (v_successor_on_err (deref g' ?p))"
    unfolding keeps_config_def by blast+
  moreover have "fields_filled F (deref g' ?p)" using f6 ins by (simp add: fields_filled_def n(2))
  moreover have "\<forall>d \<in> set (v_input (deref g' ?p)). d_id d \<noteq> []" using ins by (simp add: n(2))
  moreover have "expect_linked g' (deref g' ?p)"
  proof -
    have "v_expect (deref g' ?p) = v_expect (deref a4 ?p)" "set (v_deps_on_ok (deref a4 ?p)) \<subseteq> set (v_deps_on_ok (deref g' ?p))"
      using keeps_config_trans[OF k5 k57] by (simp_all add: keeps_config_def)
    with l(3) show ?thesis by (auto simp: expect_linked_def n(3) g6 g5)
  qed
  ultimately show "prepared F (deref g ?p) g' ?p" using k by (simp add: prepared_def)
qed


section \<open>The whole of \<open>Graph::Build\<close>\<close>

lemma prepared_kept:
  assumes "prepared F w g p" "deref g' p = deref g p"
    and "\<And>j. j < length (g_gen_vertex g) \<Longrightarrow> j < length (g_gen_vertex g') \<and> g_gen_vertex g' ! j = g_gen_vertex g ! j"
  shows "prepared F w g' p"
  using assms unfolding prepared_def expect_linked_def by fastforce

lemma for_each_map: "for_each (map h xs) f s = for_each xs (\<lambda>x. f (h x)) s"
proof (induction xs arbitrary: s)
  case (Cons x xs)
  then show ?case by (cases "f (h x) s") simp_all
qed simp

definition prepared_upto :: "factory \<Rightarrow> graph \<Rightarrow> nat \<Rightarrow> graph \<times> (string \<rightharpoonup> vref) \<Rightarrow> bool" where
  "prepared_upto F g k s = (length (g_vertex (fst s)) = length (g_vertex g) \<and> conds_ok (fst s) (snd s)
     \<and> (\<forall>i < k. prepared F (g_vertex g ! i) (fst s) (VertexRef i))
     \<and> (\<forall>i. k \<le> i \<and> i < length (g_vertex g) \<longrightarrow> deref (fst s) (VertexRef i) = g_vertex g ! i))"

lemma prepared_upto_step:
  assumes "k < length (g_vertex g)" "prepared_upto F g k s" "prepare_vertex c F (VertexRef k) s = Ok s'"
  shows "prepared_upto F g (Suc k) s'"
proof -
  have v: "valid_ref (fst s) (VertexRef i)" if "i < length (g_vertex g)" for i
    using that assms(2) by (simp add: prepared_upto_def valid_ref_def)
  have run: "prepare_vertex c F (VertexRef k) (fst s, snd s) = Ok (fst s', snd s')" using assms(3) by simp
  have cs: "conds_ok (fst s) (snd s)" using assms(2) by (simp add: prepared_upto_def)
  note t = prepare_vertex_ok(1)[OF run v[OF assms(1)]]
  note p = prepare_vertex_prepared[OF run v[OF assms(1)] cs]
  have same: "deref (fst s') (VertexRef i) = deref (fst s) (VertexRef i)" if "i < length (g_vertex g)" "i \<noteq> k" for i
    using t v[OF that(1)] that(2) by (simp add: touches_def)
  have new: "prepared F (g_vertex g ! k) (fst s') (VertexRef k)"
    using p(2) assms(1,2) by (simp add: prepared_upto_def)
  have "prepared F (g_vertex g ! i) (fst s') (VertexRef i)" if "i < Suc k" for i
  proof (cases "i = k")
    case False
    with that have i: "i < k" by simp
    have "prepared F (g_vertex g ! i) (fst s) (VertexRef i)" using i assms(2) by (simp add: prepared_upto_def)
    then show ?thesis
      by (rule prepared_kept) (use same i assms(1) conds_ok_touches[OF t] in auto)
  qed (use new in simp)
  moreover have "length (g_vertex (fst s')) = length (g_vertex g)"
    using t assms(2) by (simp add: touches_def prepared_upto_def)
  ultimately show ?thesis using p(1) same assms(2) by (simp add: prepared_upto_def)
qed

lemma prepare_loop_prepared:
  assumes "for_each (vertex_refs g) (prepare_vertex c F) (g, Map.empty) = Ok s" "i < length (g_vertex g)"
  shows "prepared F (g_vertex g ! i) (fst s) (VertexRef i)"
proof -
  have "for_each [0..<length (g_vertex g)] (\<lambda>i. prepare_vertex c F (VertexRef i)) (g, Map.empty) = Ok s"
    using assms(1) by (simp add: vertex_refs_def for_each_map)
  then have "prepared_upto F g (length (g_vertex g)) s"
    by (rule for_each_upt_invariant) (auto simp: prepared_upto_step, simp add: prepared_upto_def conds_ok_def deref_def)
  with assms(2) show ?thesis by (simp add: prepared_upto_def)
qed

lemma mark_single_prepared:
  assumes "prepared F w g p" shows "prepared F w (mark_single g) p"
proof (cases "mark_single g = g")
  case False
  then have v: "valid_ref g (VertexRef 0)" and m: "mark_single g = modify (VertexRef 0) (\<lambda>n. n\<lparr>v_is_start := True\<rparr>) g"
    by (auto simp: mark_single_def valid_ref_def split: if_splits)
  let ?g = "modify (VertexRef 0) (\<lambda>n. n\<lparr>v_is_start := True\<rparr>) g"
  obtain b where d: "deref ?g p = (deref g p)\<lparr>v_is_start := b\<rparr>"
    by (cases "p = VertexRef 0") (auto simp: deref_modify[OF v] intro: that[of "v_is_start (deref g p)"])
  have "keeps_config (deref g p) (deref ?g p)" unfolding d by (rule keeps_config_same_input) auto
  moreover have "fields_filled F (deref ?g p) = fields_filled F (deref g p)"
    "expect_linked ?g (deref ?g p) = expect_linked g (deref g p)"
    by (simp_all add: d fields_filled_def expect_linked_def)
  ultimately show ?thesis
    using assms keeps_config_trans unfolding m prepared_def by (auto simp: d)
qed (use assms in simp)

lemma config_more: "config v = config w \<Longrightarrow> v_cond v = v_cond w \<and> v_expect v = v_expect w
    \<and> v_consequent v = v_consequent w \<and> v_alternative v = v_alternative w"
  by (cases v; cases w) (simp add: config_def)

lemma prepared_grows:
  assumes "grows g g'" "valid_ref g p" "prepared F w g p"
  shows "prepared F w g' p"
proof -
  have c: "config (deref g' q) = config (deref g q)" if "valid_ref g q" for q
    using assms(1) that by (rule grows_config)
  note e = config_fields[OF c[OF assms(2)]] config_more[OF c[OF assms(2)]]
  have len: "length (g_gen_vertex g') = length (g_gen_vertex g)" using assms(1) by (simp add: grows_def)
  have gen: "v_id (g_gen_vertex g' ! j) = v_id (g_gen_vertex g ! j)" "v_cond (g_gen_vertex g' ! j) = v_cond (g_gen_vertex g ! j)"
    if "j < length (g_gen_vertex g)" for j
    using that config_fields[OF c[of "GenRef j"]] config_more[OF c[of "GenRef j"]] by (simp_all add: valid_ref_def deref_def)
  have "expect_linked g' (deref g' p)"
    using assms(3) gen unfolding prepared_def expect_linked_def len by (metis e)
  then show ?thesis using assms(3) e by (simp add: prepared_def keeps_config_def fields_filled_def)
qed

text \<open>What the finished graph still has of a configured vertex, and that it finds its generated vertices.\<close>

lemma GraphBuild_prepared:
  assumes "fresh_graph g" "GraphBuild c F g = Ok g'"
  shows "i < length (g_vertex g) \<Longrightarrow> prepared F (g_vertex g ! i) g' (VertexRef i)"
    "j < length (g_gen_vertex g') \<Longrightarrow> FindVertexById g' (v_id (g_gen_vertex g' ! j)) = Some (GenRef j)"
proof -
  from assms(2) obtain s g1 g2 g3 g4 where run:
    "for_each (vertex_refs g) (prepare_vertex c F) (g, Map.empty) = Ok s"
    "for_each (vertex_refs (mark_single (fst s))) (BuildVertex c) (mark_single (fst s)) = Ok g1"
    "for_each (gen_refs g1) (BuildVertex c) g1 = Ok g2" and
    ver: "verify_all (vertex_refs g2) g2 = Ok g3" "verify_all (gen_refs g3) g3 = Ok g4" "finish_build g4 = Ok g'"
    by (force simp: GraphBuild_def build_edges_def and_then_Ok_iff)
  have g': "g' = g2" using verify_all_ok[OF ver(1)] verify_all_ok[OF ver(2)] ver(3) by (simp add: finish_build_ok)
  define h where "h = mark_single (fst s)"
  have h: "phase1_inv (length (g_vertex g)) h"
    using mark_single_ok(1)[OF prepare_loop(1)[OF assms(1) run(1)]] by (simp add: h_def)
  then have h0: "build_inv h h" by (simp add: phase1_inv_def build_inv_refl unlinked_edges_ok)
  have b1: "build_inv h g1" using build_loop(1)[OF run(2)[folded h_def] h0] by (simp add: valid_ref_cases)
  have "gen_refs g1 = gen_refs h" using edges_to_vertices[OF build_inv_grows[OF b1]] by simp
  then have "build_inv h g2" using build_loop(1)[OF run(3) b1] by (simp add: valid_ref_cases)
  then have grow: "grows h g'" unfolding g' by (rule build_inv_grows)
  show "prepared F (g_vertex g ! i) g' (VertexRef i)" if "i < length (g_vertex g)"
  proof (rule prepared_grows[OF grow])
    show "valid_ref h (VertexRef i)" using h that by (simp add: phase1_inv_def valid_ref_def)
    show "prepared F (g_vertex g ! i) h (VertexRef i)"
      unfolding h_def using prepare_loop_prepared[OF run(1) that] by (rule mark_single_prepared)
  qed
  show "FindVertexById g' (v_id (g_gen_vertex g' ! j)) = Some (GenRef j)" if "j < length (g_gen_vertex g')"
  proof -
    have j: "j < length (g_gen_vertex h)" using that grow by (simp add: grows_def)
    then have "valid_ref h (GenRef j)" by (simp add: valid_ref_def)
    from config_fields[OF grows_config[OF grow this]]
    have "v_id (g_gen_vertex g' ! j) = v_id (g_gen_vertex h ! j)" by (simp add: deref_def)
    with h j show ?thesis by (simp add: phase1_inv_def gen_ids_ok_def grows_tables[OF grow])
  qed
qed

end
