(* ===== verification/Builder.thy ===== *)
theory Builder
  imports GraphCircle ConfigKept
begin

text \<open>
  The properties of \<open>Graph::Build\<close>: what a caller may rely on when it returns 0, and the two
  ways in which it goes wrong.
\<close>

section \<open>An example\<close>

text \<open>Vertex \<open>b\<close> runs after \<open>a\<close> and only if an expression over the data of \<open>a\<close> holds.\<close>

definition example_cluster :: cluster where
  "example_cluster = new_cluster\<lparr>c_default_expr_processor := ''expr'', c_file_name := ''main''\<rparr>"

definition example_factory :: factory where
  "example_factory = [''op'' \<mapsto> \<lparr>GetInputIds = [], GetOutputIds =
       [\<lparr>fi_name = ''out'', fi_id = 1, fi_is_extern = False, fi_is_aggregate = False, fi_is_in_out = False\<rparr>]\<rparr>,
     ''sink'' \<mapsto> \<lparr>GetInputIds =
       [\<lparr>fi_name = ''out'', fi_id = 1, fi_is_extern = False, fi_is_aggregate = False, fi_is_in_out = False\<rparr>],
       GetOutputIds = []\<rparr>, ''expr'' \<mapsto> \<lparr>GetInputIds = [], GetOutputIds = []\<rparr>]"

definition example_graph :: graph where
  "example_graph = new_graph\<lparr>g_name := ''g'', g_vertex :=
     [new_vertex\<lparr>v_id := ''a'', v_processor := ''op''\<rparr>,
      new_vertex\<lparr>v_id := ''b'', v_processor := ''sink'', v_expect := ''out>1'', v_deps := [''a'']\<rparr>]\<rparr>"

definition nodes_of :: "(build_error, graph) outcome \<Rightarrow> (string \<times> vref) list option" where
  "nodes_of r = (case r of Ok g \<Rightarrow> Some (g_nodes g) | _ \<Rightarrow> None)"

lemma example_fresh: "fresh_graph example_graph"
  by code_simp

lemma example_builds:
  obtains g' where "GraphBuild example_cluster example_factory example_graph = Ok g'"
    "g_nodes g' = [(''a'', VertexRef 0), (''g_0'', GenRef 0), (''b'', VertexRef 1)]"
proof -
  have "nodes_of (GraphBuild example_cluster example_factory example_graph)
      = Some [(''a'', VertexRef 0), (''g_0'', GenRef 0), (''b'', VertexRef 1)]"
    by code_simp
  then show thesis using that by (auto simp: nodes_of_def split: outcome.splits)
qed

section \<open>Edges\<close>

text \<open>
  C4: when \<open>Graph::Build\<close> returns 0, the edges of the graph are well-formed: successor and
  dependency tables mirror each other, the dependencies of each vertex are numbered 0, 1, ...
  without gap or repetition, and each of them has an expected result that is not
  \<open>V_RESULT_INVALID\<close>. The run-time counters are sized by these tables.
\<close>

theorem GraphBuild_edges:
  assumes "fresh_graph g" and "GraphBuild c F g = Ok g'" and "valid_ref g' p"
  shows "(q \<in> set (succs g' p) \<longleftrightarrow> valid_ref g' q \<and> p \<in> fst ` set (deps_idx g' q))
    \<and> distinct (succs g' p)
    \<and> distinct (map fst (deps_idx g' p))
    \<and> map snd (deps_idx g' p) = [0..<length (deps_idx g' p)]
    \<and> length (v_deps_expected_results (deref g' p)) = length (deps_idx g' p)
    \<and> V_RESULT_INVALID \<notin> set (v_deps_expected_results (deref g' p))"
proof (intro conjI)
  note e = GraphBuild_phases(1)[OF assms(1,2)]
  note ok = edges_okD(1)[OF e assms(3)]
  show "q \<in> set (succs g' p) \<longleftrightarrow> valid_ref g' q \<and> p \<in> fst ` set (deps_idx g' q)"
    using edges_okD(2,4)[OF e assms(3)] unfolding depends_def by blast
  show "distinct (succs g' p)" "distinct (map fst (deps_idx g' p))"
    "map snd (deps_idx g' p) = [0..<length (deps_idx g' p)]"
    "length (v_deps_expected_results (deref g' p)) = length (deps_idx g' p)"
    "V_RESULT_INVALID \<notin> set (v_deps_expected_results (deref g' p))"
    using ok by (auto simp: vertex_edges_ok_def edge_result_def)
qed

theorem GraphBuild_edges_witness:
  "\<exists>g'. GraphBuild example_cluster example_factory example_graph = Ok g'
     \<and> distinct (succs g' (VertexRef 0)) \<and> V_RESULT_INVALID \<notin> set (v_deps_expected_results (deref g' (VertexRef 1)))"
proof -
  obtain g' where g': "GraphBuild example_cluster example_factory example_graph = Ok g'"
    by (rule example_builds)
  have "length (g_vertex g') = 2"
    using GraphBuild_phases(6)[OF example_fresh g'] by (simp add: example_graph_def)
  then have v: "valid_ref g' (VertexRef 0)" "valid_ref g' (VertexRef 1)" by (simp_all add: valid_ref_def)
  from GraphBuild_edges[OF example_fresh g' v(1)] GraphBuild_edges[OF example_fresh g' v(2)] g'
  show ?thesis by blast
qed

text \<open>
  C7: when \<open>Graph::Build\<close> returns 0, everything the configuration of a vertex mentions has
  become an edge. For the vertex \<open>w\<close> as it was configured: it depends on every vertex it names as a
  dependency; every vertex it names as a successor, a consequent or an alternative depends on it; if
  it has an \<open>expect\<close> expression, it depends on a generated vertex that evaluates this expression.
  Every configured input item is still there, with its aggregate, under its identifier or else its
  field name, and there is one for every input field of the operator. Each input item, and each
  member of an aggregate, is written by a vertex it depends on, or comes from outside, or (not for
  an aggregate) is updated in place by the vertex itself. And the vertex has an operator or a subgraph.
\<close>

theorem GraphBuild_links:
  assumes "fresh_graph g" and "GraphBuild c F g = Ok g'" and "i < length (g_vertex g)"
  shows "let w = g_vertex g ! i; v = deref g' (VertexRef i); ins = fst ` set (deps_idx g' (VertexRef i)) in
    (\<forall>n \<in> set (v_deps w) \<union> set (v_deps_on_ok w) \<union> set (v_deps_on_err w).
      \<exists>q. FindVertexById g' n = Some q \<and> q \<in> ins)
    \<and> (\<forall>n \<in> set (v_successor w) \<union> set (v_successor_on_ok w) \<union> set (v_successor_on_err w)
        \<union> set (v_consequent w) \<union> set (v_alternative w).
      \<exists>q. FindVertexById g' n = Some q \<and> VertexRef i \<in> fst ` set (deps_idx g' q))
    \<and> (v_expect w \<noteq> [] \<longrightarrow>
      (\<exists>j < length (g_gen_vertex g'). v_cond (g_gen_vertex g' ! j) = v_expect w \<and> GenRef j \<in> ins))
    \<and> (\<forall>d \<in> set (v_input w). \<exists>d' \<in> set (v_input v). d_field d' = d_field d \<and> aggregate d' = aggregate d
        \<and> d_id d' = (if d_id d = [] then d_field d else d_id d) \<and> (is_extern d \<longrightarrow> is_extern d'))
    \<and> (\<forall>P. v_processor v \<noteq> [] \<and> F (v_processor v) = Some P \<longrightarrow>
        fi_name ` set (GetInputIds P) \<subseteq> d_field ` set (v_input v))
    \<and> (\<forall>d \<in> set (v_input v). \<forall>n \<in> (if aggregate d = [] then {d_id d} else set (aggregate d)).
        case FindVertexByData g' n of None \<Rightarrow> is_extern d
        | Some q \<Rightarrow> q \<in> ins \<or> aggregate d = [] \<and> is_in_out d \<and> q = VertexRef i)
    \<and> (v_processor v \<noteq> [] \<or> v_graph v \<noteq> [])"
proof -
  let ?p = "VertexRef i" and ?w = "g_vertex g ! i"
  have vr: "valid_ref g' ?p" using assms(3) GraphBuild_phases(6)[OF assms(1,2)] by (simp add: valid_ref_def)
  note b = GraphBuild_phases(3)[OF assms(1,2) vr]
  note l = b[THEN conjunct1, unfolded vertex_built_def, THEN conjunct1, unfolded vertex_linked_def
      names_after_def names_before_def depends_def]
  note gb = GraphBuild_prepared[OF assms(1,2)]
  note q = gb(1)[OF assms(3), unfolded prepared_def]
  note k = q[THEN conjunct1, unfolded keeps_config_def]
  have deps: "\<forall>n \<in> set (v_deps ?w) \<union> set (v_deps_on_ok ?w) \<union> set (v_deps_on_err ?w).
      \<exists>r. FindVertexById g' n = Some r \<and> r \<in> fst ` set (deps_idx g' ?p)"
    using k l by blast
  have succs: "\<forall>n \<in> set (v_successor ?w) \<union> set (v_successor_on_ok ?w) \<union> set (v_successor_on_err ?w)
      \<union> set (v_consequent ?w) \<union> set (v_alternative ?w).
      \<exists>r. FindVertexById g' n = Some r \<and> ?p \<in> fst ` set (deps_idx g' r)"
    using k l q by blast
  have expect: "v_expect ?w \<noteq> [] \<longrightarrow> (\<exists>j < length (g_gen_vertex g').
      v_cond (g_gen_vertex g' ! j) = v_expect ?w \<and> GenRef j \<in> fst ` set (deps_idx g' ?p))"
  proof
    assume ex: "v_expect ?w \<noteq> []"
    have e: "v_expect (deref g' ?p) = v_expect ?w" using k by simp
    have "expect_linked g' (deref g' ?p)" using q by blast
    then have "\<exists>j < length (g_gen_vertex g'). v_cond (g_gen_vertex g' ! j) = v_expect ?w
        \<and> v_id (g_gen_vertex g' ! j) \<in> set (v_deps_on_ok (deref g' ?p))"
      using ex by (simp add: expect_linked_def e)
    then obtain j where j: "j < length (g_gen_vertex g')" "v_cond (g_gen_vertex g' ! j) = v_expect ?w"
      "v_id (g_gen_vertex g' ! j) \<in> set (v_deps_on_ok (deref g' ?p))" by (elim exE conjE)
    obtain r where "FindVertexById g' (v_id (g_gen_vertex g' ! j)) = Some r" "r \<in> fst ` set (deps_idx g' ?p)"
      using l j(3) by blast
    then show "\<exists>j < length (g_gen_vertex g'). v_cond (g_gen_vertex g' ! j) = v_expect ?w \<and> GenRef j \<in> fst ` set (deps_idx g' ?p)"
      using gb(2)[OF j(1)] j(1,2) by auto
  qed
  have ids: "\<forall>d \<in> set (v_input (deref g' ?p)). d_id d \<noteq> []" using q by blast
  have items: "\<forall>d \<in> set (v_input ?w). \<exists>d' \<in> set (v_input (deref g' ?p)). d_field d' = d_field d
      \<and> aggregate d' = aggregate d \<and> d_id d' = (if d_id d = [] then d_field d else d_id d) \<and> (is_extern d \<longrightarrow> is_extern d')"
  proof
    fix d assume "d \<in> set (v_input ?w)"
    then obtain d' where d': "d' \<in> set (v_input (deref g' ?p))" "keeps_data d d'" using k by blast
    show "\<exists>d' \<in> set (v_input (deref g' ?p)). d_field d' = d_field d \<and> aggregate d' = aggregate d
        \<and> d_id d' = (if d_id d = [] then d_field d else d_id d) \<and> (is_extern d \<longrightarrow> is_extern d')"
      using d' ids by (intro bexI[OF _ d'(1)]) (auto simp: keeps_data_def)
  qed
  have fields: "\<forall>P. v_processor (deref g' ?p) \<noteq> [] \<and> F (v_processor (deref g' ?p)) = Some P \<longrightarrow>
      fi_name ` set (GetInputIds P) \<subseteq> d_field ` set (v_input (deref g' ?p))"
    using q unfolding fields_filled_def by blast
  have linked: "\<forall>d \<in> set (v_input (deref g' ?p)). \<forall>n \<in> (if aggregate d = [] then {d_id d} else set (aggregate d)).
      case FindVertexByData g' n of None \<Rightarrow> is_extern d
      | Some r \<Rightarrow> r \<in> fst ` set (deps_idx g' ?p) \<or> aggregate d = [] \<and> is_in_out d \<and> r = ?p"
  proof (intro ballI)
    fix d n assume d: "d \<in> set (v_input (deref g' ?p))" and n: "n \<in> (if aggregate d = [] then {d_id d} else set (aggregate d))"
    have "input_linked ?p d g'" using l d by blast
    then have "data_linked ?p d (aggregate d = []) n g'"
      using n by (cases "aggregate d = []") (simp_all add: input_linked_def)
    then show "case FindVertexByData g' n of None \<Rightarrow> is_extern d
        | Some r \<Rightarrow> r \<in> fst ` set (deps_idx g' ?p) \<or> aggregate d = [] \<and> is_in_out d \<and> r = ?p"
      by (simp add: data_linked_def depends_def split: option.splits)
  qed
  have op: "v_processor (deref g' ?p) \<noteq> [] \<or> v_graph (deref g' ?p) \<noteq> []" using b by (simp add: vertex_built_def)
  show ?thesis unfolding Let_def using deps succs expect items fields linked op by (intro conjI) assumption+
qed

theorem GraphBuild_links_witness:
  "\<exists>g' j. GraphBuild example_cluster example_factory example_graph = Ok g'
     \<and> v_cond (g_gen_vertex g' ! j) = ''out>1'' \<and> GenRef j \<in> fst ` set (deps_idx g' (VertexRef 1))
     \<and> (\<exists>q. FindVertexById g' ''a'' = Some q \<and> q \<in> fst ` set (deps_idx g' (VertexRef 1)))"
proof -
  obtain g' where g': "GraphBuild example_cluster example_factory example_graph = Ok g'"
    by (rule example_builds)
  have i: "1 < length (g_vertex example_graph)" by (simp add: example_graph_def)
  have w: "v_expect (g_vertex example_graph ! 1) = ''out>1''" "set (v_deps (g_vertex example_graph ! 1)) = {''a''}"
    by (simp_all add: example_graph_def new_vertex_def)
  from GraphBuild_links[OF example_fresh g' i] g' w show ?thesis unfolding Let_def by auto
qed

section \<open>Cycles\<close>

text \<open>
  C21: When \<open>Graph::Build\<close> returns 0, no vertex in the table of vertices depends on itself,
  directly or through others: the edges are those to the successors, each of which depends on the vertex.
  The test that finds the cycles keeps no set of visited vertices.
\<close>

theorem GraphBuild_acyclic:
  assumes "fresh_graph g" and "GraphBuild c F g = Ok g'" and "FindVertexById g' i = Some p"
  shows "(p, p) \<notin> {(q, r). valid_ref g' q \<and> r \<in> set (succs g' q)}\<^sup>+"
proof -
  note b = GraphBuild_phases[OF assms(1,2)]
  have p: "valid_ref g' p" using FindVertexById_valid[OF b(2) assms(3)] .
  have "(i, p) \<in> set (g_nodes g')"
    using assms(3) by (simp add: FindVertexById_def map_of_SomeD)
  with test_nodes_answer[OF b(4)[unfolded TestCircle_def]]
  have "(p, p) \<notin> (successor_rel (succs g'))\<^sup>+" by auto
  with successor_path[OF b(1) p] show ?thesis by (simp add: edge_rel_def)
qed

theorem GraphBuild_acyclic_witness:
  "\<exists>g'. GraphBuild example_cluster example_factory example_graph = Ok g'
     \<and> (VertexRef 0, VertexRef 0) \<notin> {(q, r). valid_ref g' q \<and> r \<in> set (succs g' q)}\<^sup>+"
proof -
  obtain g' where g': "GraphBuild example_cluster example_factory example_graph = Ok g'"
    "g_nodes g' = [(''a'', VertexRef 0), (''g_0'', GenRef 0), (''b'', VertexRef 1)]"
    by (rule example_builds)
  have "FindVertexById g' ''a'' = Some (VertexRef 0)" by (simp add: FindVertexById_def g'(2))
  from GraphBuild_acyclic[OF example_fresh g'(1) this] g'(1) show ?thesis by blast
qed

text \<open>
  On a graph whose edges have no cycle the test returns, and it finds none. (It keeps no set
  of visited vertices, so that this is not obvious.)
\<close>

theorem TestCircle_acyclic:
  assumes "edges_ok g" and "tables_ok g" and "acyclic {(p, q). valid_ref g p \<and> q \<in> set (succs g p)}"
  shows "TestCircle g = Some False"
proof -
  have E: "{(p, q). valid_ref g p \<and> q \<in> set (succs g p)} = edge_rel g" by (simp add: edge_rel_def)
  have valid: "valid_ref g p" if "p \<in> set (map snd (g_nodes g))" for p
    using that assms(2) by (auto simp: tables_ok_def)
  obtain found where found: "TestCircle g = Some found"
    using test_nodes_returns[of "map snd (g_nodes g)" "succs g"]
      acyclic_no_infinite_path[OF assms(1) assms(3)[unfolded E] valid] by (auto simp: TestCircle_def)
  have "(p, p) \<notin> (successor_rel (succs g))\<^sup>+" if "p \<in> set (map snd (g_nodes g))" for p
    using assms(3) successor_path[OF assms(1) valid[OF that]] by (simp add: E acyclic_def)
  with test_nodes_answer[OF found[unfolded TestCircle_def]] have "\<not> found" by (auto split: if_splits)
  with found show ?thesis by simp
qed

definition single_graph :: graph where
  "single_graph = new_graph\<lparr>g_vertex := [new_vertex], g_nodes := [(''a'', VertexRef 0)]\<rparr>"

theorem TestCircle_acyclic_witness:
  "TestCircle single_graph = Some False"
proof (rule TestCircle_acyclic)
  let ?g = single_graph
  have v: "valid_ref ?g p \<longleftrightarrow> p = VertexRef 0" for p
    by (cases p) (auto simp: single_graph_def valid_ref_def new_graph_def)
  have d: "succs ?g (VertexRef 0) = []" "deps_idx ?g (VertexRef 0) = []"
    "v_deps_expected_results (deref ?g (VertexRef 0)) = []"
    by (simp_all add: single_graph_def deref_def) (simp_all add: new_vertex_def)
  show "edges_ok ?g"
    unfolding edges_ok_def v by (simp add: d vertex_edges_ok_def depends_def)
  show "tables_ok ?g" unfolding tables_ok_def v by (simp add: single_graph_def new_graph_def)
  have "{(p, q). valid_ref ?g p \<and> q \<in> set (succs ?g p)} = {}"
    unfolding v by (auto simp: d)
  then show "acyclic {(p, q). valid_ref ?g p \<and> q \<in> set (succs ?g p)}" by (simp only: acyclic_def trancl_empty empty_iff not_False_eq_True simp_thms)
qed

definition cyclic_graph :: graph where
  "cyclic_graph = new_graph\<lparr>g_name := ''g'', g_vertex :=
     [new_vertex\<lparr>v_id := ''s'', v_processor := ''expr'', v_successor := [''a'']\<rparr>,
      new_vertex\<lparr>v_id := ''a'', v_processor := ''expr'', v_successor := [''b'']\<rparr>,
      new_vertex\<lparr>v_id := ''b'', v_processor := ''expr'', v_successor := [''a'']\<rparr>]\<rparr>"

lemma search_diverges:
  assumes "succ a = [b]" "succ b = [a]" "v \<noteq> a" "v \<noteq> b"
  shows "search_successors succ [a] v = None"
proof -
  have "search_successors succ ws v \<noteq> Some r" if "ws = [a] \<or> ws = [b]" for ws r
  proof
    assume ret: "search_successors succ ws v = Some r"
    have "\<not> (succ' = succ \<and> (ws' = [a] \<or> ws' = [b]) \<and> v' = v)"
      if "search_successors succ' ws' v' = Some r'" for succ' ws' v' r'
      by (rule search_successors.raw_induct [where
            P = "\<lambda>succ' ws' v' r'. \<not> (succ' = succ \<and> (ws' = [a] \<or> ws' = [b]) \<and> v' = v)", OF _ that])
         (use assms in \<open>fastforce simp: bind_eq_Some_conv\<close>)
    with ret that show False by blast
  qed
  then show ?thesis by (cases "search_successors succ [a] v") auto
qed

text \<open>
  The test does not return on every graph. In a graph \<open>s\<close> \<open>\<rightarrow>\<close> \<open>a\<close>, \<open>a\<close> \<open>\<rightarrow>\<close> \<open>b\<close>, \<open>b\<close> \<open>\<rightarrow>\<close> \<open>a\<close> the search
  for \<open>s\<close> in the successors of \<open>s\<close> runs around the cycle for ever, so that \<open>Graph::Build\<close> overflows
  the stack when the table of vertices is visited from \<open>s\<close>, instead of reporting the cycle.
\<close>
theorem TestCircle_diverges:
  "GraphBuild example_cluster example_factory cyclic_graph = Crash"
proof -
  let ?s = "VertexRef 0" and ?a = "VertexRef 1" and ?b = "VertexRef 2"
  have "(case build_edges example_cluster example_factory cyclic_graph of
      Ok h \<Rightarrow> map snd (g_nodes h) = [?s, ?a, ?b] \<and> succs h ?s = [?a] \<and> succs h ?a = [?b] \<and> succs h ?b = [?a]
    | _ \<Rightarrow> False)"
    by code_simp
  then obtain h where h: "build_edges example_cluster example_factory cyclic_graph = Ok h"
    "map snd (g_nodes h) = [?s, ?a, ?b]" "succs h ?s = [?a]" "succs h ?a = [?b]" "succs h ?b = [?a]"
    by (cases "build_edges example_cluster example_factory cyclic_graph") simp_all
  have "search_successors (succs h) [?a] ?s = None"
    by (rule search_diverges[OF h(4,5)]) simp_all
  then have "TestCircle h = None" by (simp add: TestCircle_def h FindVertexInSuccessors_def)
  with h(1) show ?thesis by (simp add: GraphBuild_def finish_build_def)
qed

section \<open>Names\<close>

text \<open>
  When \<open>Graph::Build\<close> returns 0, every configured vertex is found under its identifier unless
  a generated condition vertex has the same identifier, and every data item is entered for the
  only vertex that writes it.
\<close>

theorem GraphBuild_names:
  assumes "fresh_graph g" and "GraphBuild c F g = Ok g'" and "i < length (g_vertex g')"
    and "d \<in> set (v_output (g_vertex g' ! i))"
  shows "(FindVertexById g' (v_id (g_vertex g' ! i)) = Some (VertexRef i)
      \<or> v_id (g_vertex g' ! i) \<in> v_id ` set (g_gen_vertex g'))
    \<and> FindVertexByData g' (d_id d) = Some (VertexRef i)
    \<and> (j < length (g_vertex g') \<and> d' \<in> set (v_output (g_vertex g' ! j)) \<and> d_id d' = d_id d \<longrightarrow> j = i)"
proof -
  have named: "named_ok g' (VertexRef k)" if "k < length (g_vertex g')" for k
    using GraphBuild_phases(6,7)[OF assms(1,2)] that by simp
  have "\<exists>k < length (g_gen_vertex g'). v_id (g_gen_vertex g' ! k) = m \<Longrightarrow> m \<in> v_id ` set (g_gen_vertex g')" for m
    by auto
  moreover have "FindVertexByData g' (d_id e) = Some (VertexRef k)"
    if "k < length (g_vertex g')" "e \<in> set (v_output (g_vertex g' ! k))" for k e
    using named[OF that(1)] that(2) by (simp add: named_ok_def outputs_registered_def deref_def)
  ultimately have id: "FindVertexById g' (v_id (g_vertex g' ! i)) = Some (VertexRef i)
      \<or> v_id (g_vertex g' ! i) \<in> v_id ` set (g_gen_vertex g')"
    and data: "\<And>k e. k < length (g_vertex g') \<Longrightarrow> e \<in> set (v_output (g_vertex g' ! k)) \<Longrightarrow>
      FindVertexByData g' (d_id e) = Some (VertexRef k)"
    using named[OF assms(3)] by (auto simp: named_ok_def owns_id_def deref_def)
  show ?thesis using id data[OF assms(3,4)] data[of j d'] by auto
qed

lemma example_outputs:
  "(case GraphBuild example_cluster example_factory example_graph of
      Ok g \<Rightarrow> length (g_vertex g) = 2 \<and> map d_id (v_output (g_vertex g ! 0)) = [''out'']
    | _ \<Rightarrow> False)"
  by code_simp

theorem GraphBuild_names_witness:
  "\<exists>g'. GraphBuild example_cluster example_factory example_graph = Ok g'
     \<and> FindVertexByData g' ''out'' = Some (VertexRef 0)"
proof -
  obtain g' where g': "GraphBuild example_cluster example_factory example_graph = Ok g'"
    by (rule example_builds)
  with example_outputs have "length (g_vertex g') = 2" and out: "map d_id (v_output (g_vertex g' ! 0)) = [''out'']"
    by simp_all
  then have len: "0 < length (g_vertex g')" by simp
  from out obtain d where d: "d \<in> set (v_output (g_vertex g' ! 0))" "d_id d = ''out''" by auto
  from GraphBuild_names[OF example_fresh g' len d(1)] d(2) g' show ?thesis by auto
qed

definition shadowed_graph :: graph where
  "shadowed_graph = new_graph\<lparr>g_name := ''g'', g_vertex :=
     [new_vertex\<lparr>v_id := ''a'', v_processor := ''expr'', v_is_start := True\<rparr>,
      new_vertex\<lparr>v_id := ''g_0'', v_processor := ''op'', v_is_start := True\<rparr>,
      new_vertex\<lparr>v_id := ''b'', v_processor := ''sink'', v_expect := ''x>1'', v_expect_deps := [''a'']\<rparr>]\<rparr>"

text \<open>
  A generated condition vertex can take the place of a configured one. Here the second vertex
  is called \<open>g_0\<close>, the name generated for the first condition of graph \<open>g\<close>, which the third
  vertex has: \<open>Graph::Build\<close> returns 0, but the configured vertex is in no table, while its data
  is still read by the third vertex.
\<close>
theorem GraphBuild_loses_vertex:
  "(case GraphBuild example_cluster example_factory shadowed_graph of
      Ok g \<Rightarrow> VertexRef 1 \<notin> snd ` set (g_nodes g) \<and> FindVertexById g ''g_0'' = Some (GenRef 0)
        \<and> succs g (VertexRef 1) = [VertexRef 2] \<and> map fst (deps_idx g (VertexRef 2)) = [GenRef 0, VertexRef 1]
    | _ \<Rightarrow> False)"
  by code_simp

text \<open>
  The first edge between two vertices decides the expected result. Adding the edge again, for
  a data item or from the other vertex's \<open>successor\<close> lists, changes nothing but the order of
  calls, so that an input marked \<open>required\<close> does not make the vertex wait for success once a
  plain dependency on the same vertex exists.
\<close>

theorem Depend_first_wins:
  assumes "edges_ok g" and "valid_ref g this" and "valid_ref g v" and "v \<in> fst ` set (deps_idx g this)"
  shows "Depend this v e g = g"
proof -
  have dep: "this \<in> set (succs g v)"
    using edges_okD(4)[OF assms(1,3,2)] assms(4) by (simp add: depends_def)
  then have same: "modify v (\<lambda>w. w\<lparr>v_successor_vertex := unordered_insert this (v_successor_vertex w)\<rparr>) g = g"
    by (cases v) (auto simp: modify_def unordered_insert_def deref_def)
  have "map_of (deps_idx g this) v \<noteq> None" using assms(4) by (simp add: map_of_eq_None_iff)
  then show ?thesis unfolding Depend_def Let_def same by (simp only: if_False)
qed

theorem Depend_first_wins_witness:
  "\<exists>g'. GraphBuild example_cluster example_factory example_graph = Ok g'
     \<and> Depend (VertexRef 1) (VertexRef 0) V_RESULT_OK g' = g'
     \<and> v_deps_expected_results (deref g' (VertexRef 1)) = [V_RESULT_ALL, V_RESULT_OK]"
proof -
  have ex: "(case GraphBuild example_cluster example_factory example_graph of
      Ok g \<Rightarrow> length (g_vertex g) = 2 \<and> VertexRef 0 \<in> fst ` set (deps_idx g (VertexRef 1))
        \<and> v_deps_expected_results (deref g (VertexRef 1)) = [V_RESULT_ALL, V_RESULT_OK]
    | _ \<Rightarrow> False)"
    by code_simp
  obtain g' where g': "GraphBuild example_cluster example_factory example_graph = Ok g'"
    by (rule example_builds)
  with ex have "length (g_vertex g') = 2" and d: "VertexRef 0 \<in> fst ` set (deps_idx g' (VertexRef 1))"
    "v_deps_expected_results (deref g' (VertexRef 1)) = [V_RESULT_ALL, V_RESULT_OK]"
    by simp_all
  then have v: "valid_ref g' (VertexRef 0)" "valid_ref g' (VertexRef 1)" by (simp_all add: valid_ref_def)
  from Depend_first_wins[OF GraphBuild_phases(1)[OF example_fresh g'] v(2,1) d(1)] g' d(2)
  show ?thesis by blast
qed

end
