(* ===== verification/Engine.thy ===== *)
theory Engine
  imports Graph "HOL-Library.Multiset"
begin

text \<open>
  The executor of one graph (\<open>store/graph_context.{h,cpp}\<close>, \<open>store/vertex_context.{h,cpp}\<close>).

  A \<open>VertexContext*\<close> is named by its vertex. Every call or closure that is still to run is a
  task; the executor given by the client runs each closure it is handed exactly once, at any
  time and on any thread, so that a state holds a multiset of tasks and any of them may be the
  next. One task is one piece of code between two accesses to shared counters:

  \<^item> \<open>TExecute v\<close>: \<open>VertexContext::Execute\<close> of \<open>v\<close>, up to the call of its operator or to the end;
  \<^item> \<open>TProcess v\<close>: the operator or subgraph of \<open>v\<close> runs; then \<open>FinishVertexProcess\<close>;
  \<^item> \<open>TDone v\<close>: \<open>GraphContext::OnVertexDone\<close> of \<open>v\<close>, up to the decrement of \<open>_join_vertex_num\<close>;
  \<^item> \<open>TNotify v i ready\<close>: iteration \<open>i\<close> of its loop over the successors, with the successors
    found ready so far; the last iteration runs \<open>ExecuteReadyVertexs\<close>;
  \<^item> \<open>TLost v\<close>: the future of \<open>v\<close>'s operator completed with an exception, so that the
    continuation given to \<open>thenValue\<close> is never called.

  A step is atomic. The counters are atomic in the code, and a slot of \<open>_deps_results\<close> is written
  by one task only (\<open>EngineInv\<close> shows both); the unsynchronised accesses to \<open>early_exist_rc_\<close> are
  taken to be atomic.
\<close>

section \<open>Contexts\<close>

datatype exec_mode = EXEC_SYNC | EXEC_ASYNC_FUTURE | EXEC_STD_COROUTINE | EXEC_ADAPTIVE

record processor_info =
  pi_mode :: exec_mode
  pi_is_io :: bool

record vertex_ctx =
  vx_waiting_num :: nat
  vx_deps_results :: "vresult list"
  vx_result :: vresult
  vx_code :: int
  vx_exec_rc :: int
  vx_processor :: "processor_info option"
  vx_subgraph_cluster :: bool
  vx_subgraph_ctx :: bool
  vx_child_idx :: "nat option"
  vx_successor_ctxs :: "vref list"
  vx_successor_dep_idxs :: "int list"

record graph_ctx =
  gc_vertexs :: "vref list"
  gc_ctx :: "vref \<Rightarrow> vertex_ctx"
  gc_join_vertex_num :: nat
  gc_start_ctxs :: "vref list"
  gc_while_ctx :: "vref option"
  gc_early_exist_rc :: int

definition INT_MAX :: int where "INT_MAX = 2147483647"

definition modify_ctx :: "vref \<Rightarrow> (vertex_ctx \<Rightarrow> vertex_ctx) \<Rightarrow> graph_ctx \<Rightarrow> graph_ctx" where
  "modify_ctx v f gc = gc\<lparr>gc_ctx := (gc_ctx gc)(v := f (gc_ctx gc v))\<rparr>"

definition FindVertexContext :: "graph_ctx \<Rightarrow> vref \<Rightarrow> vref option" where
  "FindVertexContext gc v = (if v \<in> set (gc_vertexs gc) then Some v else None)"

definition SetEarlyExitCode :: "int \<Rightarrow> graph_ctx \<Rightarrow> graph_ctx" where
  "SetEarlyExitCode rc gc =
    (if gc_early_exist_rc gc = 0 then gc\<lparr>gc_early_exist_rc := rc\<rparr> else gc)"

section \<open>Operations on one vertex context\<close>

text \<open>The returned number is the value of \<open>_waiting_num\<close> before the decrement.\<close>

definition SetDependencyResult :: "nat \<Rightarrow> vresult \<Rightarrow> vertex_ctx \<Rightarrow> nat \<times> vertex_ctx" where
  "SetDependencyResult i r c =
    (let last = vx_deps_results c ! i;
         c' = c\<lparr>vx_deps_results := (vx_deps_results c)[i := r]\<rparr>
     in if last = V_RESULT_INVALID
        then let (old, new) = fetch_sub (vx_waiting_num c) in (old, c'\<lparr>vx_waiting_num := new\<rparr>)
        else (vx_waiting_num c, c'))"

definition Ready :: "vertex_ctx \<Rightarrow> bool" where
  "Ready c = (vx_waiting_num c = 0)"

text \<open>
  \<open>ResetState\<close>. That of the context of a subgraph, which it also calls, resets a state of its own.
\<close>

definition ResetState :: "vertex \<Rightarrow> vertex_ctx \<Rightarrow> vertex_ctx" where
  "ResetState n c = c\<lparr>vx_result := V_RESULT_INVALID, vx_code := V_CODE_INVALID, vx_exec_rc := INT_MAX,
     vx_deps_results := replicate (length (v_deps_idx n)) V_RESULT_INVALID,
     vx_waiting_num := u32 (length (v_deps_idx n))\<rparr>"

definition ResetVertex :: "vertex \<Rightarrow> vertex_ctx \<Rightarrow> vertex_ctx" where
  "ResetVertex n c = (ResetState n c)\<lparr>vx_subgraph_ctx := False, vx_subgraph_cluster := False\<rparr>"

definition new_vertex_ctx :: vertex_ctx where
  "new_vertex_ctx = \<lparr>vx_waiting_num = 0, vx_deps_results = [], vx_result = V_RESULT_INVALID,
     vx_code = V_CODE_INVALID, vx_exec_rc = INT_MAX, vx_processor = None,
     vx_subgraph_cluster = False, vx_subgraph_ctx = False, vx_child_idx = None,
     vx_successor_ctxs = [], vx_successor_dep_idxs = []\<rparr>"

section \<open>Setting up\<close>

text \<open>
  The part of \<open>GraphContext::Setup\<close> that prepares the state of the executor; \<open>procs\<close> is what
  \<open>VertexContext::Setup\<close> got from the operator factory. \<open>None\<close> is \<open>abort()\<close>, or the first element of an empty vector.
\<close>

definition SetupVertex :: "graph \<Rightarrow> processor_info option \<Rightarrow> vref \<Rightarrow> vertex_ctx" where
  "SetupVertex g p v = ResetVertex (deref g v) (new_vertex_ctx\<lparr>vx_processor := p\<rparr>)"

fun number_children :: "graph \<Rightarrow> vref list \<Rightarrow> nat \<Rightarrow> (vref \<times> nat) list" where
  "number_children g [] k = []"
| "number_children g (v # vs) k =
    (if v_cluster (deref g v) \<noteq> [] then (v, k) # number_children g vs (k + 1)
     else number_children g vs k)"

definition SetupSuccessors :: "graph \<Rightarrow> vref \<Rightarrow> graph_ctx \<Rightarrow> graph_ctx option" where
  "SetupSuccessors g v gc =
    (if list_all (\<lambda>w. FindVertexContext gc w \<noteq> None) (succs g v)
     then Some (modify_ctx v (\<lambda>c. c\<lparr>vx_successor_ctxs := succs g v,
            vx_successor_dep_idxs := map (\<lambda>w. GetDependencyIndex (deref g w) v) (succs g v)\<rparr>) gc)
     else None)"

fun SetupAllSuccessors :: "graph \<Rightarrow> vref list \<Rightarrow> graph_ctx \<Rightarrow> graph_ctx option" where
  "SetupAllSuccessors g [] gc = Some gc"
| "SetupAllSuccessors g (v # vs) gc = Option.bind (SetupSuccessors g v gc) (SetupAllSuccessors g vs)"

definition ResetGraph :: "graph \<Rightarrow> graph_ctx \<Rightarrow> graph_ctx" where
  "ResetGraph g gc = gc\<lparr>gc_join_vertex_num := u32 (length (gc_vertexs gc)),
     gc_ctx := (\<lambda>v. if v \<in> set (gc_vertexs gc) then ResetVertex (deref g v) (gc_ctx gc v) else gc_ctx gc v),
     gc_early_exist_rc := 0\<rparr>"

definition ResetStateGraph :: "graph \<Rightarrow> graph_ctx \<Rightarrow> graph_ctx" where
  "ResetStateGraph g gc = gc\<lparr>gc_join_vertex_num := u32 (length (gc_vertexs gc)),
     gc_ctx := (\<lambda>v. if v \<in> set (gc_vertexs gc) then ResetState (deref g v) (gc_ctx gc v) else gc_ctx gc v)\<rparr>"

definition SetupContexts :: "graph \<Rightarrow> (vref \<Rightarrow> processor_info option) \<Rightarrow> graph_ctx option" where
  "SetupContexts g procs =
    (let vs = remdups (map snd (g_nodes g));
         children = number_children g vs 0;
         gc = \<lparr>gc_vertexs = vs,
           gc_ctx = (\<lambda>v. (SetupVertex g (procs v) v)\<lparr>vx_child_idx := map_of children v\<rparr>),
           gc_join_vertex_num = 0, gc_start_ctxs = [], gc_while_ctx = None, gc_early_exist_rc = 0\<rparr>
     in Option.bind (SetupAllSuccessors g vs gc) (\<lambda>gc.
          let starts = filter (\<lambda>v. Ready (gc_ctx gc v)) vs
          in if g_is_gen_while_graph g \<and> starts = [] then None
             else Some (ResetGraph g (gc\<lparr>gc_start_ctxs := starts,
                    gc_while_ctx := (if g_is_gen_while_graph g then Some (hd starts) else None)\<rparr>))))"

section \<open>Tasks\<close>

datatype task =
    TExecute vref
  | TProcess vref
  | TDone vref
  | TNotify vref nat "vref list"
  | TLost vref

text \<open>
  What a step shows of itself: a run of an operator or subgraph begins; the outputs are
  collected, or the inputs marked so are moved instead; the data of the subgraph becomes a
  child; a code that ends the graph early; a vertex is done, with its result and code; another
  round of a while graph; the call of the closure given to \<open>Execute\<close>.
\<close>

datatype event =
    EvStart vref
  | EvCollect vref
  | EvMove vref
  | EvChild vref
  | EvEarly int
  | EvFinish vref vresult int
  | EvLoop
  | EvDone int

text \<open>
  What the rest of the program decides in a step: whether the store finds the cluster and the
  cluster the graph of a subgraph, the values of the boolean variables, whether the time is up,
  the code of \<open>InjectInputs\<close>, and how the operator ends.
\<close>

datatype op_outcome = Returned int | Threw | FutureFailed

record choice =
  ch_cluster_found :: bool
  ch_graph_found :: bool
  ch_bool :: "string \<Rightarrow> bool option"
  ch_timeout :: bool
  ch_inject_rc :: int
  ch_outcome :: op_outcome

section \<open>Handlers\<close>

definition match_deps :: "vresult list \<Rightarrow> vresult list \<Rightarrow> bool" where
  "match_deps rs es =
    list_all (\<lambda>i. rs ! i \<noteq> V_RESULT_INVALID \<and> result_matches (rs ! i) (es ! i)) [0..<length rs]"

definition match_expect_config :: "(string \<Rightarrow> bool option) \<Rightarrow> string \<Rightarrow> bool" where
  "match_expect_config vars e =
    (if e = [] then True
     else if hd e = CHR ''!'' then vars (tl e) \<noteq> Some True
     else vars e = Some True)"

text \<open>
  \<open>ExecuteReadyVertexs\<close>: all but one of the vertices go to the executor; the first that has no
  operator or an operator without I/O, or else the first, runs in place.
\<close>

definition local_vertex :: "graph_ctx \<Rightarrow> vref list \<Rightarrow> vref" where
  "local_vertex gc ready =
    (case List.find (\<lambda>v. case vx_processor (gc_ctx gc v) of None \<Rightarrow> True | Some p \<Rightarrow> \<not> pi_is_io p) ready of
       Some v \<Rightarrow> v | None \<Rightarrow> hd ready)"

definition ExecuteReadyVertexs :: "graph_ctx \<Rightarrow> vref list \<Rightarrow> task list" where
  "ExecuteReadyVertexs gc ready =
    (if ready = [] then []
     else if length ready = 1 then [TExecute (ready ! 0)]
     else map TExecute (filter (\<lambda>v. v \<noteq> local_vertex gc ready) ready) @ [TExecute (local_vertex gc ready)])"

definition FinishVertexProcess ::
  "graph \<Rightarrow> vref \<Rightarrow> int \<Rightarrow> bool \<Rightarrow> graph_ctx \<Rightarrow> graph_ctx \<times> event list" where
  "FinishVertexProcess g v code adjust_code gc =
    (let n = deref g v;
         early = (adjust_code \<and> code \<noteq> 0
                  \<and> (v_early_exit_graph_if_failed n \<or> g_early_exit_graph_if_failed g));
         gc1 = (if early then SetEarlyExitCode code gc else gc);
         code1 = (if adjust_code \<and> \<not> early
                  then (if v_ignore_processor_execute_error n \<and> \<not> IsCondVertex n then 0 else code)
                  else code);
         gc2 = modify_ctx v (\<lambda>c. c\<lparr>vx_code := code1,
                  vx_exec_rc := (if vx_exec_rc c = INT_MAX then code1 else vx_exec_rc c),
                  vx_result := (if code1 \<noteq> 0
                     then (if vx_result c = V_RESULT_INVALID then V_RESULT_ERR else vx_result c)
                     else V_RESULT_OK)\<rparr>) gc1;
         c = gc_ctx gc v
     in (gc2, (if early then [EvEarly code] else [])
              @ (if vx_processor c \<noteq> None then [if code1 \<noteq> 0 then EvMove v else EvCollect v] else [])
              @ (if vx_subgraph_ctx c then [EvChild v] else [])))"

definition skip_vertex :: "graph \<Rightarrow> vref \<Rightarrow> graph_ctx \<Rightarrow> graph_ctx \<times> task list \<times> event list" where
  "skip_vertex g v gc =
    (let gc1 = modify_ctx v (\<lambda>c. c\<lparr>vx_result :=
                  (if g_vertex_skip_as_error g then V_RESULT_ERR else V_RESULT_SKIP),
                  vx_code := V_CODE_SKIP\<rparr>) gc;
         (gc2, evs) = FinishVertexProcess g v V_CODE_SKIP False gc1
     in (gc2, [TDone v], evs))"

definition ExecuteProcessor ::
  "graph \<Rightarrow> choice \<Rightarrow> vref \<Rightarrow> graph_ctx \<Rightarrow> graph_ctx \<times> task list \<times> event list" where
  "ExecuteProcessor g ch v gc =
    (if ch_inject_rc ch \<noteq> 0
     then (let (gc1, evs) = FinishVertexProcess g v V_CODE_SKIP False gc in (gc1, [TDone v], evs))
     else (gc, [TProcess v], [EvStart v]))"

definition ExecuteSubGraph ::
  "graph \<Rightarrow> choice \<Rightarrow> vref \<Rightarrow> graph_ctx \<Rightarrow> graph_ctx \<times> task list \<times> event list" where
  "ExecuteSubGraph g ch v gc =
    (if vx_subgraph_ctx (gc_ctx gc v) \<or> ch_graph_found ch
     then (modify_ctx v (\<lambda>c. c\<lparr>vx_subgraph_ctx := True\<rparr>) gc, [TProcess v], [EvStart v])
     else (let (gc1, evs) = FinishVertexProcess g v (-1) True gc in (gc1, [TDone v], EvStart v # evs)))"

definition Execute ::
  "graph \<Rightarrow> choice \<Rightarrow> vref \<Rightarrow> graph_ctx \<Rightarrow> graph_ctx \<times> task list \<times> event list" where
  "Execute g ch v gc0 =
    (let n = deref g v;
         gc = (if v_cluster n \<noteq> [] \<and> \<not> vx_subgraph_cluster (gc_ctx gc0 v)
               then modify_ctx v (\<lambda>c. c\<lparr>vx_subgraph_cluster := ch_cluster_found ch\<rparr>) gc0 else gc0);
         c = gc_ctx gc v;
         match = ((vx_processor c \<noteq> None \<or> vx_subgraph_cluster c)
                  \<and> match_deps (vx_deps_results c) (v_deps_expected_results n)
                  \<and> match_expect_config (ch_bool ch) (v_expect_config n))
     in if \<not> match \<or> ch_timeout ch \<or> gc_early_exist_rc gc \<noteq> 0 then skip_vertex g v gc
        else if vx_processor c \<noteq> None then ExecuteProcessor g ch v gc
        else ExecuteSubGraph g ch v gc)"

text \<open>
  The operator or subgraph ends. \<open>Threw\<close> is an exception out of a direct call; an operator of
  mode \<open>EXEC_ASYNC_FUTURE\<close> may also return a future that fails. In a build without
  \<open>ISPINE_HAS_COROUTINES\<close>, a macro that no file of the repository defines, coroutine operators
  run through the default branch.
\<close>

definition allowed_outcome :: "vertex_ctx \<Rightarrow> op_outcome \<Rightarrow> bool" where
  "allowed_outcome c out =
    (case out of Returned rc \<Rightarrow> True
     | Threw \<Rightarrow> vx_processor c \<noteq> None
     | FutureFailed \<Rightarrow> (case vx_processor c of None \<Rightarrow> False | Some p \<Rightarrow> pi_mode p = EXEC_ASYNC_FUTURE))"

definition EndProcess ::
  "graph \<Rightarrow> op_outcome \<Rightarrow> vref \<Rightarrow> graph_ctx \<Rightarrow> graph_ctx \<times> task list \<times> event list" where
  "EndProcess g out v gc =
    (case out of
       FutureFailed \<Rightarrow> (gc, [TLost v], [])
     | _ \<Rightarrow>
       let rc = (case out of Returned rc \<Rightarrow> rc | _ \<Rightarrow> V_CODE_ERR);
           gc1 = (if vx_processor (gc_ctx gc v) \<noteq> None
                  then modify_ctx v (\<lambda>c. c\<lparr>vx_exec_rc := rc\<rparr>) gc else gc);
           (gc2, evs) = FinishVertexProcess g v rc True gc1
       in (gc2, [TDone v], evs))"

definition while_again :: "graph_ctx \<Rightarrow> bool" where
  "while_again gc = (case gc_while_ctx gc of None \<Rightarrow> False | Some w \<Rightarrow> vx_code (gc_ctx gc w) = 0)"

definition OnVertexDone :: "graph \<Rightarrow> vref \<Rightarrow> graph_ctx \<Rightarrow> graph_ctx \<times> task list \<times> event list" where
  "OnVertexDone g v gc =
    (let (old, new) = fetch_sub (gc_join_vertex_num gc);
         gc1 = gc\<lparr>gc_join_vertex_num := new\<rparr>;
         ev = EvFinish v (vx_result (gc_ctx gc v)) (vx_code (gc_ctx gc v))
     in if old = 1
        then (if while_again gc1
              then (let gc2 = ResetStateGraph g gc1
                    in (gc2, ExecuteReadyVertexs gc2 (gc_start_ctxs gc2), [ev, EvLoop]))
              else (gc1, [], [ev, EvDone (gc_early_exist_rc gc1)]))
        else (gc1, if vx_successor_ctxs (gc_ctx gc1 v) = [] then [] else [TNotify v 0 []], [ev]))"

definition Notify :: "vref \<Rightarrow> nat \<Rightarrow> vref list \<Rightarrow> graph_ctx \<Rightarrow> graph_ctx \<times> task list \<times> event list" where
  "Notify v i ready gc =
    (let c = gc_ctx gc v;
         w = vx_successor_ctxs c ! i;
         (wait_num, cw) = SetDependencyResult (nat (vx_successor_dep_idxs c ! i)) (vx_result c) (gc_ctx gc w);
         gc1 = modify_ctx w (\<lambda>_. cw) gc;
         last = (i + 1 = length (vx_successor_ctxs c))
     in if wait_num = 1 \<and> last \<and> ready = [] then (gc1, [TExecute w], [])
        else let ready' = (if wait_num = 1 then ready @ [w] else ready)
             in (gc1, if last then ExecuteReadyVertexs gc1 ready' else [TNotify v (i + 1) ready'], []))"

fun handle :: "graph \<Rightarrow> choice \<Rightarrow> task \<Rightarrow> graph_ctx \<Rightarrow> graph_ctx \<times> task list \<times> event list" where
  "handle g ch (TExecute v) gc = Execute g ch v gc"
| "handle g ch (TProcess v) gc = EndProcess g (ch_outcome ch) v gc"
| "handle g ch (TDone v) gc = OnVertexDone g v gc"
| "handle g ch (TNotify v i ready) gc = Notify v i ready gc"
| "handle g ch (TLost v) gc = (gc, [TLost v], [])"

section \<open>Runs\<close>

text \<open>The log has the newest event first.\<close>

record engine =
  en_ctx :: graph_ctx
  en_tasks :: "task multiset"
  en_log :: "event list"

fun enabled :: "choice \<Rightarrow> task \<Rightarrow> graph_ctx \<Rightarrow> bool" where
  "enabled ch (TLost v) gc = False"
| "enabled ch (TProcess v) gc = allowed_outcome (gc_ctx gc v) (ch_outcome ch)"
| "enabled ch _ gc = True"

definition after :: "graph \<Rightarrow> choice \<Rightarrow> task \<Rightarrow> engine \<Rightarrow> engine" where
  "after g ch t s =
    (let (gc, ts, evs) = handle g ch t (en_ctx s)
     in \<lparr>en_ctx = gc, en_tasks = (en_tasks s - {#t#}) + mset ts, en_log = rev evs @ en_log s\<rparr>)"

inductive step :: "graph \<Rightarrow> engine \<Rightarrow> engine \<Rightarrow> bool" for g where
  task_step: "t \<in># en_tasks s \<Longrightarrow> enabled ch t (en_ctx s) \<Longrightarrow> step g s (after g ch t s)"

text \<open>\<open>GraphContext::Execute\<close>.\<close>

definition start :: "graph_ctx \<Rightarrow> engine" where
  "start gc = \<lparr>en_ctx = gc, en_tasks = mset (ExecuteReadyVertexs gc (gc_start_ctxs gc)), en_log = []\<rparr>"

inductive reachable :: "graph \<Rightarrow> (vref \<Rightarrow> processor_info option) \<Rightarrow> engine \<Rightarrow> bool" for g procs where
  reachable_start: "SetupContexts g procs = Some gc \<Longrightarrow> reachable g procs (start gc)"
| reachable_step: "reachable g procs s \<Longrightarrow> step g s s' \<Longrightarrow> reachable g procs s'"

text \<open>A run given by the task and the decisions of each step.\<close>

fun run :: "graph \<Rightarrow> (task \<times> choice) list \<Rightarrow> engine \<Rightarrow> engine option" where
  "run g [] s = Some s"
| "run g ((t, ch) # ms) s =
    (if t \<in># en_tasks s \<and> enabled ch t (en_ctx s) then run g ms (after g ch t s) else None)"

lemma run_reachable: "reachable g procs s \<Longrightarrow> run g ms s = Some s' \<Longrightarrow> reachable g procs s'"
proof (induction ms arbitrary: s)
  case (Cons m ms)
  obtain t ch where m: "m = (t, ch)" by fastforce
  with Cons.prems have "step g s (after g ch t s)" "run g ms (after g ch t s) = Some s'"
    by (auto intro: step.intros split: if_splits)
  with Cons show ?case by (blast intro: reachable_step)
qed simp

end
