(* ===== verification/EngineInv.thy ===== *)
theory EngineInv
  imports Engine GraphCircle
begin

text \<open>
  The invariant of the executor. It says, for every vertex, how many closures are about to run
  it, what its counters and slots hold, and which predecessors have reported; the theorems about
  counters, order and completion follow from it.
\<close>

section \<open>Graphs the executor is made for\<close>

text \<open>
  What \<open>Graph::Build\<close> leaves when no generated identifier collides with a configured one
  (theory \<open>Builder\<close>): well-formed edges without a cycle, and every vertex in the table. The
  counters have 32 bits.
\<close>

definition runnable :: "graph \<Rightarrow> bool" where
  "runnable g = (edges_ok g \<and> (\<forall>p. valid_ref g p \<longleftrightarrow> p \<in> snd ` set (g_nodes g))
     \<and> acyclic (edge_rel g) \<and> length (g_vertex g) + length (g_gen_vertex g) < 2 ^ 32 \<and> g_nodes g \<noteq> [])"

abbreviation vertices :: "graph \<Rightarrow> vref set" where
  "vertices g \<equiv> {p. valid_ref g p}"

lemma runnable_edges: "runnable g \<Longrightarrow> edges_ok g"
  by (simp add: runnable_def)

lemma runnable_vertices: "runnable g \<Longrightarrow> vertices g = snd ` set (g_nodes g)"
  by (auto simp: runnable_def)

lemma card_vertices: "card (vertices g) = length (g_vertex g) + length (g_gen_vertex g)"
proof -
  have "vertices g = VertexRef ` {..<length (g_vertex g)} \<union> GenRef ` {..<length (g_gen_vertex g)}"
    (is "?A = ?B \<union> ?C")
    by (rule set_eqI, case_tac x) (auto simp: valid_ref_def)
  moreover have "card (?B \<union> ?C) = card ?B + card ?C" by (rule card_Un_disjoint) auto
  moreover have "card ?B = length (g_vertex g)" "card ?C = length (g_gen_vertex g)"
    by (simp_all add: card_image inj_on_def)
  ultimately show ?thesis by simp
qed

text \<open>The \<open>k\<close>-th dependency of a vertex.\<close>

definition dep :: "graph \<Rightarrow> vref \<Rightarrow> nat \<Rightarrow> vref" where
  "dep g v k = fst (deps_idx g v ! k)"

lemma deps_idx_nth:
  assumes "edges_ok g" "valid_ref g v" "k < length (deps_idx g v)"
  shows "deps_idx g v ! k = (dep g v k, k)"
proof -
  have "map snd (deps_idx g v) = [0..<length (deps_idx g v)]"
    using edges_okD(1)[OF assms(1,2)] by (simp add: vertex_edges_ok_def)
  then have "snd (deps_idx g v ! k) = k" using assms(3) by (metis nth_map nth_upt add_0)
  then show ?thesis by (simp add: dep_def prod_eq_iff)
qed

lemma dep_inj:
  assumes "edges_ok g" "valid_ref g v" "j < length (deps_idx g v)" "k < length (deps_idx g v)"
  shows "dep g v j = dep g v k \<longleftrightarrow> j = k"
proof -
  have "distinct (map fst (deps_idx g v))"
    using edges_okD(1)[OF assms(1,2)] by (simp add: vertex_edges_ok_def)
  then show ?thesis using assms(3,4) by (simp add: dep_def distinct_conv_nth) (metis nth_map)
qed

lemma depends_iff_dep: "depends g v u \<longleftrightarrow> (\<exists>k < length (deps_idx g v). dep g v k = u)"
  unfolding depends_def dep_def set_map[symmetric] in_set_conv_nth by auto

lemma succs_iff_dep:
  assumes "edges_ok g" "valid_ref g u" "valid_ref g v"
  shows "v \<in> set (succs g u) \<longleftrightarrow> (\<exists>k < length (deps_idx g v). dep g v k = u)"
  using edges_okD(4)[OF assms] depends_iff_dep by simp

lemma GetDependencyIndex_dep:
  assumes "edges_ok g" "valid_ref g v" "k < length (deps_idx g v)"
  shows "GetDependencyIndex (deref g v) (dep g v k) = int k"
proof -
  have "distinct (map fst (deps_idx g v))"
    using edges_okD(1)[OF assms(1,2)] by (simp add: vertex_edges_ok_def)
  moreover have "(dep g v k, k) \<in> set (deps_idx g v)"
    using deps_idx_nth[OF assms] assms(3) nth_mem by metis
  ultimately have "map_of (deps_idx g v) (dep g v k) = Some k" by (simp add: map_of_eq_Some_iff)
  then show ?thesis by (simp add: GetDependencyIndex_def)
qed

lemma length_deps_small:
  assumes "runnable g" "valid_ref g v"
  shows "length (deps_idx g v) < 2 ^ 32"
proof -
  note e = runnable_edges[OF assms(1)]
  have d: "distinct (map fst (deps_idx g v))" using edges_okD(1)[OF e assms(2)] by (simp add: vertex_edges_ok_def)
  have "set (map fst (deps_idx g v)) \<subseteq> vertices g"
    using edges_okD(3)[OF e assms(2)] by (auto simp: depends_def image_iff)
  then have "card (set (map fst (deps_idx g v))) \<le> card (vertices g)"
    using finite_valid by (rule card_mono[rotated])
  then have "length (deps_idx g v) \<le> length (g_vertex g) + length (g_gen_vertex g)"
    unfolding distinct_card[OF d] card_vertices by simp
  then show ?thesis using assms(1) unfolding runnable_def by (meson le_less_trans)
qed

section \<open>What the log says\<close>

text \<open>The vertices that are done in the current round, with their results and codes.\<close>

fun finished :: "event list \<Rightarrow> vref \<Rightarrow> (vresult \<times> int) option" where
  "finished [] = Map.empty"
| "finished (EvLoop # l) = Map.empty"
| "finished (EvFinish v r c # l) = (finished l)(v \<mapsto> (r, c))"
| "finished (_ # l) = finished l"

fun started :: "event list \<Rightarrow> vref set" where
  "started [] = {}"
| "started (EvLoop # l) = {}"
| "started (EvStart v # l) = insert v (started l)"
| "started (_ # l) = started l"

fun early_code :: "event list \<Rightarrow> int" where
  "early_code [] = 0"
| "early_code (EvEarly c # l) = (if early_code l = 0 then c else early_code l)"
| "early_code (_ # l) = early_code l"

fun closed :: "event list \<Rightarrow> bool" where
  "closed [] = False"
| "closed (EvDone rc # l) = True"
| "closed (_ # l) = closed l"

section \<open>Counting closures\<close>

fun tok :: "vref \<Rightarrow> task \<Rightarrow> nat" where
  "tok v (TExecute u) = (if u = v then 1 else 0)"
| "tok v (TProcess u) = (if u = v then 1 else 0)"
| "tok v (TDone u) = (if u = v then 1 else 0)"
| "tok v (TNotify u i ready) = count_list ready v"
| "tok v (TLost u) = (if u = v then 1 else 0)"

definition tokens :: "vref \<Rightarrow> task multiset \<Rightarrow> nat" where
  "tokens v ts = sum_mset (image_mset (tok v) ts)"

lemma tokens_simps [simp]:
  "tokens v {#} = 0" "tokens v (add_mset t ts) = tok v t + tokens v ts"
  "tokens v (A + B) = tokens v A + tokens v B"
  by (simp_all add: tokens_def)

lemma tokens_mset: "tokens v (mset ts) = sum_list (map (tok v) ts)"
  by (induction ts) simp_all

lemma tok_le_tokens: "t \<in># ts \<Longrightarrow> tok v t \<le> tokens v ts"
  by (metis insert_DiffM le_add1 tokens_simps(2))

text \<open>\<open>u\<close>'s report to its successor \<open>v\<close> is still to come.\<close>

definition pending :: "graph \<Rightarrow> task multiset \<Rightarrow> vref \<Rightarrow> vref \<Rightarrow> bool" where
  "pending g ts u v = (\<exists>i ready. TNotify u i ready \<in># ts \<and> v \<in> set (drop i (succs g u)))"

fun notifies :: "vref \<Rightarrow> task \<Rightarrow> nat" where
  "notifies u (TNotify w i ready) = (if w = u then 1 else 0)"
| "notifies u _ = 0"

definition notifying :: "vref \<Rightarrow> task multiset \<Rightarrow> nat" where
  "notifying u ts = sum_mset (image_mset (notifies u) ts)"

lemma notifying_simps [simp]:
  "notifying v {#} = 0" "notifying v (add_mset t ts) = notifies v t + notifying v ts"
  "notifying v (A + B) = notifying v A + notifying v B"
  by (simp_all add: notifying_def)

lemma notifying_mset: "notifying v (mset ts) = sum_list (map (notifies v) ts)"
  by (induction ts) simp_all

lemma notifies_le: "t \<in># ts \<Longrightarrow> notifies v t \<le> notifying v ts"
  by (metis insert_DiffM le_add1 notifying_simps(2))

lemma pending_add: "pending g (add_mset t ts) u v \<longleftrightarrow> pending g {#t#} u v \<or> pending g ts u v"
  by (auto simp: pending_def)

lemma pending_simps:
  "\<not> pending g {#} u v"
  "pending g {#TNotify w i ready#} u v \<longleftrightarrow> u = w \<and> v \<in> set (drop i (succs g u))"
  "\<not> pending g {#TExecute w#} u v" "\<not> pending g {#TProcess w#} u v" "\<not> pending g {#TDone w#} u v"
  "\<not> pending g {#TLost w#} u v"
  by (auto simp: pending_def)

lemma pending_plus: "pending g (A + B) u v \<longleftrightarrow> pending g A u v \<or> pending g B u v"
  by (auto simp: pending_def)

lemma count_list_distinct: "distinct xs \<Longrightarrow> count_list xs v = (if v \<in> set xs then 1 else 0)"
  by (induction xs) (auto simp: count_list_0_iff)

lemma tokens_map_TExecute: "tokens v (mset (map TExecute ws)) = count_list ws v"
  by (induction ws) auto

lemma pending_map_TExecute: "\<not> pending g (mset (map TExecute ws)) u v"
  by (auto simp: pending_def)

lemma notifying_map_TExecute: "notifying u (mset (map TExecute ws)) = 0"
  by (induction ws) auto

text \<open>\<open>ExecuteReadyVertexs\<close> runs each of its vertices once.\<close>

lemma local_vertex_in: "ready \<noteq> [] \<Longrightarrow> local_vertex gc ready \<in> set ready"
  by (auto simp: local_vertex_def find_Some_iff split: option.splits)

lemma mset_pick: "distinct xs \<Longrightarrow> x \<in> set xs \<Longrightarrow> mset xs = add_mset x (mset (filter (\<lambda>v. v \<noteq> x) xs))"
proof (induction xs)
  case (Cons y ys)
  have "y \<notin> set ys \<Longrightarrow> filter (\<lambda>v. v \<noteq> y) ys = ys" by (rule filter_True) blast
  with Cons show ?case by (cases "x = y") (auto simp del: mset_filter)
qed simp

lemma mset_ExecuteReadyVertexs:
  assumes "distinct ready"
  shows "mset (ExecuteReadyVertexs gc ready) = mset (map TExecute ready)"
proof (cases "ready = [] \<or> length ready = 1")
  case True
  then show ?thesis by (auto simp: ExecuteReadyVertexs_def length_Suc_conv)
next
  case False
  define x where "x = local_vertex gc ready"
  have "x \<in> set ready" using False by (simp add: x_def local_vertex_in)
  then have "mset ready = add_mset x (mset (filter (\<lambda>v. v \<noteq> x) ready))"
    using assms by (intro mset_pick)
  from arg_cong[OF this, of "image_mset TExecute"]
  have "mset (map TExecute ready) = add_mset (TExecute x) (mset (map TExecute (filter (\<lambda>v. v \<noteq> x) ready)))"
    by simp
  then show ?thesis using False unfolding ExecuteReadyVertexs_def x_def by (simp del: mset_filter)
qed

section \<open>The invariant\<close>

definition static_ok :: "graph \<Rightarrow> (vref \<Rightarrow> processor_info option) \<Rightarrow> graph_ctx \<Rightarrow> bool" where
  "static_ok g procs gc =
    (set (gc_vertexs gc) = vertices g \<and> distinct (gc_vertexs gc)
     \<and> (\<forall>v. valid_ref g v \<longrightarrow> vx_successor_ctxs (gc_ctx gc v) = succs g v
          \<and> vx_successor_dep_idxs (gc_ctx gc v) = map (\<lambda>w. GetDependencyIndex (deref g w) v) (succs g v)
          \<and> vx_processor (gc_ctx gc v) = procs v)
     \<and> gc_start_ctxs gc = filter (\<lambda>v. deps_idx g v = []) (gc_vertexs gc)
     \<and> (\<forall>w. gc_while_ctx gc = Some w \<longrightarrow> valid_ref g w))"

definition counters_ok :: "graph \<Rightarrow> graph_ctx \<Rightarrow> bool" where
  "counters_ok g gc = (\<forall>v. valid_ref g v \<longrightarrow>
     length (vx_deps_results (gc_ctx gc v)) = length (deps_idx g v)
     \<and> vx_waiting_num (gc_ctx gc v)
       = length (filter (\<lambda>r. r = V_RESULT_INVALID) (vx_deps_results (gc_ctx gc v))))"

definition reported :: "graph \<Rightarrow> task multiset \<Rightarrow> event list \<Rightarrow> vref \<Rightarrow> vref \<Rightarrow> bool" where
  "reported g ts l u v = (finished l u \<noteq> None \<and> \<not> pending g ts u v)"

definition slots_ok :: "graph \<Rightarrow> graph_ctx \<Rightarrow> task multiset \<Rightarrow> event list \<Rightarrow> bool" where
  "slots_ok g gc ts l = (\<forall>v k. valid_ref g v \<longrightarrow> k < length (deps_idx g v) \<longrightarrow>
     vx_deps_results (gc_ctx gc v) ! k =
       (if reported g ts l (dep g v k) v then vx_result (gc_ctx gc (dep g v k)) else V_RESULT_INVALID))"

definition token_ok :: "nat \<Rightarrow> (vresult \<times> int) option \<Rightarrow> nat \<Rightarrow> bool" where
  "token_ok waiting fin n =
     (case fin of Some _ \<Rightarrow> n = 0 \<and> waiting = 0 | None \<Rightarrow> n = (if waiting = 0 then 1 else 0))"

definition tokens_ok :: "graph \<Rightarrow> graph_ctx \<Rightarrow> task multiset \<Rightarrow> event list \<Rightarrow> bool" where
  "tokens_ok g gc ts l = (\<forall>v. valid_ref g v \<longrightarrow>
     token_ok (vx_waiting_num (gc_ctx gc v)) (finished l v) (tokens v ts))"

fun task_ok :: "graph \<Rightarrow> event list \<Rightarrow> task \<Rightarrow> bool" where
  "task_ok g l (TExecute v) = valid_ref g v"
| "task_ok g l (TProcess v) = valid_ref g v"
| "task_ok g l (TDone v) = valid_ref g v"
| "task_ok g l (TLost v) = valid_ref g v"
| "task_ok g l (TNotify u i ready) = (valid_ref g u \<and> finished l u \<noteq> None \<and> i < length (succs g u)
     \<and> (\<forall>w \<in> set ready. valid_ref g w))"

definition tasks_ok :: "graph \<Rightarrow> task multiset \<Rightarrow> event list \<Rightarrow> bool" where
  "tasks_ok g ts l = ((\<forall>t \<in># ts. task_ok g l t) \<and> (\<forall>u. notifying u ts \<le> 1))"

definition good_result :: "vertex_ctx \<Rightarrow> bool" where
  "good_result c = (vx_result c \<in> {V_RESULT_OK, V_RESULT_ERR, V_RESULT_SKIP}
     \<and> (vx_result c = V_RESULT_OK \<longleftrightarrow> vx_code c = 0))"

definition result_ok :: "vertex_ctx \<Rightarrow> (vresult \<times> int) option \<Rightarrow> bool \<Rightarrow> bool" where
  "result_ok cx fin done =
     (case fin of
        Some (r, c) \<Rightarrow> r = vx_result cx \<and> c = vx_code cx \<and> good_result cx
      | None \<Rightarrow> if done then good_result cx else vx_result cx = V_RESULT_INVALID)"

definition results_ok :: "graph \<Rightarrow> graph_ctx \<Rightarrow> task multiset \<Rightarrow> event list \<Rightarrow> bool" where
  "results_ok g gc ts l =
    (\<forall>v. valid_ref g v \<longrightarrow> result_ok (gc_ctx gc v) (finished l v) (TDone v \<in># ts))"

definition join_ok :: "graph \<Rightarrow> graph_ctx \<Rightarrow> event list \<Rightarrow> bool" where
  "join_ok g gc l = (dom (finished l) \<subseteq> vertices g
     \<and> gc_join_vertex_num gc = card (vertices g - dom (finished l)))"

definition log_ok :: "graph_ctx \<Rightarrow> task multiset \<Rightarrow> event list \<Rightarrow> bool" where
  "log_ok gc ts l = ((\<forall>v \<in> started l. finished l v \<noteq> None \<or> TProcess v \<in># ts \<or> TDone v \<in># ts \<or> TLost v \<in># ts)
     \<and> gc_early_exist_rc gc = early_code l \<and> (closed l \<longrightarrow> ts = {#}))"

definition engine_inv :: "graph \<Rightarrow> (vref \<Rightarrow> processor_info option) \<Rightarrow> graph_ctx \<Rightarrow> task multiset \<Rightarrow> event list \<Rightarrow> bool" where
  "engine_inv g procs gc ts l = (static_ok g procs gc \<and> counters_ok g gc \<and> slots_ok g gc ts l
     \<and> tokens_ok g gc ts l \<and> tasks_ok g ts l \<and> results_ok g gc ts l \<and> join_ok g gc l \<and> log_ok gc ts l)"

lemma engine_invD:
  assumes "engine_inv g procs gc ts l"
  shows "static_ok g procs gc" "counters_ok g gc" "slots_ok g gc ts l" "tokens_ok g gc ts l"
    "tasks_ok g ts l" "results_ok g gc ts l" "join_ok g gc l" "log_ok gc ts l"
  using assms by (simp_all add: engine_inv_def)

section \<open>The start of a round\<close>

text \<open>
  The state of the contexts after \<open>Setup\<close> and after the \<open>ResetState\<close> of a while graph: nothing is
  reported, and exactly the vertices without dependencies are about to run.
\<close>

definition reset_ok :: "graph \<Rightarrow> graph_ctx \<Rightarrow> bool" where
  "reset_ok g gc = (gc_join_vertex_num gc = card (vertices g)
     \<and> (\<forall>v. valid_ref g v \<longrightarrow> vx_result (gc_ctx gc v) = V_RESULT_INVALID
          \<and> vx_deps_results (gc_ctx gc v) = replicate (length (deps_idx g v)) V_RESULT_INVALID
          \<and> vx_waiting_num (gc_ctx gc v) = length (deps_idx g v)))"

lemma distinct_starts: "static_ok g procs gc \<Longrightarrow> distinct (gc_start_ctxs gc)"
  by (auto simp: static_ok_def)

lemma start_tasks:
  assumes "static_ok g procs gc"
  shows "mset (ExecuteReadyVertexs gc (gc_start_ctxs gc)) = mset (map TExecute (gc_start_ctxs gc))"
  using distinct_starts[OF assms] by (rule mset_ExecuteReadyVertexs)

lemma round_inv:
  assumes "static_ok g procs gc" "reset_ok g gc" "finished l = Map.empty" "started l = {}"
    "gc_early_exist_rc gc = early_code l" "\<not> closed l"
  shows "engine_inv g procs gc (mset (map TExecute (gc_start_ctxs gc))) l"
proof -
  let ?ts = "mset (map TExecute (gc_start_ctxs gc))"
  have starts: "set (gc_start_ctxs gc) = {v. valid_ref g v \<and> deps_idx g v = []}"
    using assms(1) by (auto simp: static_ok_def)
  have "tokens v ?ts = (if vx_waiting_num (gc_ctx gc v) = 0 then 1 else 0)" if "valid_ref g v" for v
    using that assms(2) starts distinct_starts[OF assms(1)]
    by (simp add: tokens_map_TExecute reset_ok_def count_list_distinct del: mset_map)
  then have "tokens_ok g gc ?ts l" using assms(3) by (simp add: tokens_ok_def token_ok_def del: mset_map)
  moreover have "counters_ok g gc" using assms(2) by (simp add: counters_ok_def reset_ok_def)
  moreover have "slots_ok g gc ?ts l"
    using assms(2,3) by (simp add: slots_ok_def reset_ok_def reported_def)
  moreover have "tasks_ok g ?ts l"
    using starts notifying_map_TExecute[of _ "gc_start_ctxs gc"] by (auto simp: tasks_ok_def simp del: mset_map)
  moreover have "results_ok g gc ?ts l"
    using assms(2,3) by (auto simp: results_ok_def result_ok_def reset_ok_def)
  moreover have "join_ok g gc l" using assms(2,3) by (simp add: join_ok_def reset_ok_def)
  moreover have "log_ok gc ?ts l" using assms(4-6) by (simp add: log_ok_def)
  ultimately show ?thesis using assms(1) by (simp add: engine_inv_def)
qed

text \<open>\<open>Setup\<close>.\<close>

lemma SetupSuccessors_effect:
  assumes "SetupSuccessors g v gc = Some gc'"
  shows "gc_vertexs gc' = gc_vertexs gc" "set (succs g v) \<subseteq> set (gc_vertexs gc)"
    "gc' = modify_ctx v (\<lambda>c. c\<lparr>vx_successor_ctxs := succs g v,
            vx_successor_dep_idxs := map (\<lambda>w. GetDependencyIndex (deref g w) v) (succs g v)\<rparr>) gc"
  using assms
  by (auto simp: SetupSuccessors_def modify_ctx_def FindVertexContext_def list_all_iff split: if_splits)

lemma SetupAllSuccessors_effect:
  assumes "SetupAllSuccessors g vs gc = Some gc'"
  shows "gc' = gc\<lparr>gc_ctx := (\<lambda>v. if v \<in> set vs then (gc_ctx gc v)\<lparr>vx_successor_ctxs := succs g v,
            vx_successor_dep_idxs := map (\<lambda>w. GetDependencyIndex (deref g w) v) (succs g v)\<rparr>
      else gc_ctx gc v)\<rparr>"
  using assms
proof (induction vs arbitrary: gc)
  case (Cons v vs)
  then obtain gc1 where gc1: "SetupSuccessors g v gc = Some gc1" "SetupAllSuccessors g vs gc1 = Some gc'"
    by (auto simp: bind_eq_Some_conv)
  show ?case
    unfolding Cons.IH[OF gc1(2)] SetupSuccessors_effect(3)[OF gc1(1)]
    by (auto simp: modify_ctx_def fun_eq_iff)
qed simp

lemma SetupContexts_ok:
  assumes "runnable g" "SetupContexts g procs = Some gc"
  shows "static_ok g procs gc" "reset_ok g gc" "gc_early_exist_rc gc = 0"
proof -
  let ?vs = "remdups (map snd (g_nodes g))"
  define gc0 where "gc0 = \<lparr>gc_vertexs = ?vs,
           gc_ctx = (\<lambda>v. (SetupVertex g (procs v) v)\<lparr>vx_child_idx := map_of (number_children g ?vs 0) v\<rparr>),
           gc_join_vertex_num = 0, gc_start_ctxs = [], gc_while_ctx = None, gc_early_exist_rc = 0\<rparr>"
  obtain gc1 where gc1: "SetupAllSuccessors g ?vs gc0 = Some gc1"
    and gc: "gc = ResetGraph g (gc1\<lparr>gc_start_ctxs := filter (\<lambda>v. Ready (gc_ctx gc1 v)) ?vs,
                    gc_while_ctx := (if g_is_gen_while_graph g
                      then Some (hd (filter (\<lambda>v. Ready (gc_ctx gc1 v)) ?vs)) else None)\<rparr>)"
    and ne: "g_is_gen_while_graph g \<Longrightarrow> filter (\<lambda>v. Ready (gc_ctx gc1 v)) ?vs \<noteq> []"
    using assms(2) unfolding SetupContexts_def Let_def gc0_def[symmetric]
    by (auto simp: bind_eq_Some_conv split: if_splits)
  note e = SetupAllSuccessors_effect[OF gc1]
  have vs: "set ?vs = vertices g" using runnable_vertices[OF assms(1)] by simp
  have small: "u32 (length (deps_idx g v)) = length (deps_idx g v)" if "valid_ref g v" for v
    using length_deps_small[OF assms(1) that] by (simp add: u32_small)
  have ready: "Ready (gc_ctx gc1 v) \<longleftrightarrow> deps_idx g v = []" if "valid_ref g v" for v
    using that vs small by (simp add: e gc0_def SetupVertex_def ResetVertex_def ResetState_def Ready_def)
  have starts: "filter (\<lambda>v. Ready (gc_ctx gc1 v)) ?vs = filter (\<lambda>v. deps_idx g v = []) ?vs"
    using vs ready by (intro filter_cong) auto
  have "hd (filter (\<lambda>v. Ready (gc_ctx gc1 v)) ?vs) \<in> set ?vs" if "g_is_gen_while_graph g"
    using ne[OF that] hd_in_set by fastforce
  with vs have w: "g_is_gen_while_graph g \<Longrightarrow> valid_ref g (hd (filter (\<lambda>v. Ready (gc_ctx gc1 v)) ?vs))"
    by blast
  have gcv: "gc_vertexs gc = ?vs" by (simp add: gc ResetGraph_def e gc0_def)
  have ctx: "gc_ctx gc v = ResetVertex (deref g v) ((SetupVertex g (procs v) v)\<lparr>
        vx_child_idx := map_of (number_children g ?vs 0) v, vx_successor_ctxs := succs g v,
        vx_successor_dep_idxs := map (\<lambda>w. GetDependencyIndex (deref g w) v) (succs g v)\<rparr>)"
    if "valid_ref g v" for v
    using that vs by (simp add: gc ResetGraph_def e gc0_def)
  show "static_ok g procs gc"
    unfolding static_ok_def gcv
    using vs w by (simp add: ctx ResetVertex_def ResetState_def SetupVertex_def new_vertex_ctx_def)
      (simp add: gc ResetGraph_def starts)
  have "length ?vs = card (vertices g)" unfolding vs[symmetric] by (rule distinct_card[symmetric]) simp
  moreover have "card (vertices g) < 2 ^ 32" using assms(1) unfolding card_vertices runnable_def by blast
  ultimately have "gc_join_vertex_num gc = card (vertices g)"
    by (simp add: gc ResetGraph_def e gc0_def u32_def)
  then show "reset_ok g gc" using small by (simp add: reset_ok_def ctx ResetVertex_def ResetState_def)
  show "gc_early_exist_rc gc = 0" by (simp add: gc ResetGraph_def)
qed

lemma start_inv:
  assumes "runnable g" "SetupContexts g procs = Some gc"
  shows "engine_inv g procs (en_ctx (start gc)) (en_tasks (start gc)) (en_log (start gc))"
  using round_inv[of g procs gc "[]"] SetupContexts_ok[OF assms] start_tasks[of g procs gc]
  by (simp add: start_def)

end
