(* ===== verification/EngineSteps.thy ===== *)
theory EngineSteps
  imports EngineInv
begin

text \<open>
  Every step of the executor keeps the invariant: one lemma per kind of task.
\<close>

section \<open>Running a vertex\<close>

text \<open>
  \<open>Execute\<close> and the end of an operator write the result fields of their own vertex and nothing
  that another vertex can see.
\<close>

definition local_effect :: "vref \<Rightarrow> graph_ctx \<Rightarrow> graph_ctx \<Rightarrow> bool" where
  "local_effect v gc gc' =
    (gc_vertexs gc' = gc_vertexs gc \<and> gc_join_vertex_num gc' = gc_join_vertex_num gc
     \<and> gc_start_ctxs gc' = gc_start_ctxs gc \<and> gc_while_ctx gc' = gc_while_ctx gc
     \<and> (\<forall>u. u \<noteq> v \<longrightarrow> gc_ctx gc' u = gc_ctx gc u)
     \<and> vx_waiting_num (gc_ctx gc' v) = vx_waiting_num (gc_ctx gc v)
     \<and> vx_deps_results (gc_ctx gc' v) = vx_deps_results (gc_ctx gc v)
     \<and> vx_successor_ctxs (gc_ctx gc' v) = vx_successor_ctxs (gc_ctx gc v)
     \<and> vx_successor_dep_idxs (gc_ctx gc' v) = vx_successor_dep_idxs (gc_ctx gc v)
     \<and> vx_processor (gc_ctx gc' v) = vx_processor (gc_ctx gc v))"

lemma local_effect_refl [simp]: "local_effect v gc gc"
  by (simp add: local_effect_def)

lemma local_effect_trans: "local_effect v gc gc' \<Longrightarrow> local_effect v gc' gc'' \<Longrightarrow> local_effect v gc gc''"
  by (simp add: local_effect_def)

lemma local_effect_modify:
  assumes "\<And>c. vx_waiting_num (f c) = vx_waiting_num c" "\<And>c. vx_deps_results (f c) = vx_deps_results c"
    "\<And>c. vx_successor_ctxs (f c) = vx_successor_ctxs c"
    "\<And>c. vx_successor_dep_idxs (f c) = vx_successor_dep_idxs c"
    "\<And>c. vx_processor (f c) = vx_processor c"
  shows "local_effect v gc (modify_ctx v f gc)"
  using assms by (simp add: local_effect_def modify_ctx_def)

lemma local_effect_early: "local_effect v gc (SetEarlyExitCode rc gc)"
  by (simp add: local_effect_def SetEarlyExitCode_def)

lemma local_effect_other:
  "local_effect v gc gc' \<Longrightarrow> vx_waiting_num (gc_ctx gc' u) = vx_waiting_num (gc_ctx gc u)
     \<and> vx_deps_results (gc_ctx gc' u) = vx_deps_results (gc_ctx gc u)
     \<and> vx_successor_ctxs (gc_ctx gc' u) = vx_successor_ctxs (gc_ctx gc u)
     \<and> vx_successor_dep_idxs (gc_ctx gc' u) = vx_successor_dep_idxs (gc_ctx gc u)
     \<and> vx_processor (gc_ctx gc' u) = vx_processor (gc_ctx gc u)"
  by (cases "u = v") (simp_all add: local_effect_def)

text \<open>The events of such a step.\<close>

definition quiet :: "vref \<Rightarrow> event list \<Rightarrow> bool" where
  "quiet v evs = (set evs \<subseteq> {EvStart v, EvCollect v, EvMove v, EvChild v} \<union> range EvEarly)"

lemma quiet_log:
  assumes "quiet v evs"
  shows "finished (rev evs @ l) = finished l \<and> closed (rev evs @ l) = closed l
    \<and> started (rev evs @ l) = (if EvStart v \<in> set evs then insert v (started l) else started l)"
  using assms
proof (induction evs rule: rev_induct)
  case (snoc e evs)
  then have "quiet v evs" and e: "e \<in> {EvStart v, EvCollect v, EvMove v, EvChild v} \<union> range EvEarly"
    by (simp_all add: quiet_def)
  note IH = snoc.IH[OF this(1)]
  from e consider "e = EvStart v" | "e \<in> {EvCollect v, EvMove v, EvChild v}" | c where "e = EvEarly c" by auto
  then show ?case
  proof cases
    case 2
    then show ?thesis using IH by (elim insertE) simp_all
  qed (use IH in \<open>simp_all split: if_split\<close>)
qed simp

definition early_tracks :: "graph_ctx \<Rightarrow> graph_ctx \<Rightarrow> event list \<Rightarrow> bool" where
  "early_tracks gc gc' evs =
    (\<forall>l. gc_early_exist_rc gc = early_code l \<longrightarrow> gc_early_exist_rc gc' = early_code (rev evs @ l))"

lemma FinishVertexProcess_effect:
  assumes "FinishVertexProcess g v code adj gc = (gc', evs)"
    and "vx_result (gc_ctx gc v) \<in> {V_RESULT_INVALID, V_RESULT_ERR, V_RESULT_SKIP}"
  shows "local_effect v gc gc'" "quiet v evs" "EvStart v \<notin> set evs" "early_tracks gc gc' evs"
    "good_result (gc_ctx gc' v)"
proof -
  define n where "n = deref g v"
  define early where "early = (adj \<and> code \<noteq> 0
                  \<and> (v_early_exit_graph_if_failed n \<or> g_early_exit_graph_if_failed g))"
  define gc1 where "gc1 = (if early then SetEarlyExitCode code gc else gc)"
  define code1 where "code1 = (if adj \<and> \<not> early
                  then (if v_ignore_processor_execute_error n \<and> \<not> IsCondVertex n then 0 else code)
                  else code)"
  have gc': "gc' = modify_ctx v (\<lambda>c. c\<lparr>vx_code := code1,
                  vx_exec_rc := (if vx_exec_rc c = INT_MAX then code1 else vx_exec_rc c),
                  vx_result := (if code1 \<noteq> 0
                     then (if vx_result c = V_RESULT_INVALID then V_RESULT_ERR else vx_result c)
                     else V_RESULT_OK)\<rparr>) gc1"
    and evs: "evs = (if early then [EvEarly code] else [])
              @ (if vx_processor (gc_ctx gc v) \<noteq> None then [if code1 \<noteq> 0 then EvMove v else EvCollect v] else [])
              @ (if vx_subgraph_ctx (gc_ctx gc v) then [EvChild v] else [])"
    using assms(1) unfolding FinishVertexProcess_def Let_def n_def early_def gc1_def code1_def by simp_all
  have "local_effect v gc gc1" by (simp add: gc1_def local_effect_early)
  moreover have "local_effect v gc1 gc'" unfolding gc' by (rule local_effect_modify) simp_all
  ultimately show "local_effect v gc gc'" by (rule local_effect_trans)
  show "quiet v evs" by (auto simp: quiet_def evs)
  show "EvStart v \<notin> set evs" by (simp add: evs)
  have "gc_early_exist_rc gc' = gc_early_exist_rc gc1" by (simp add: gc' modify_ctx_def)
  then show "early_tracks gc gc' evs"
    by (simp add: early_tracks_def evs gc1_def SetEarlyExitCode_def)
  have "gc_ctx gc1 v = gc_ctx gc v" by (simp add: gc1_def SetEarlyExitCode_def)
  then show "good_result (gc_ctx gc' v)" using assms(2) by (auto simp: gc' modify_ctx_def good_result_def)
qed

lemma early_tracks_refl [simp]: "early_tracks gc gc []"
  by (simp add: early_tracks_def)

text \<open>The tasks of a running vertex: \<open>next_task\<close> is where \<open>t\<close> can lead.\<close>

definition next_task :: "vref \<Rightarrow> task \<Rightarrow> bool" where
  "next_task v t = (t \<in> {TProcess v, TDone v, TLost v})"

definition run_effect :: "vref \<Rightarrow> graph_ctx \<Rightarrow> graph_ctx \<Rightarrow> task \<Rightarrow> event list \<Rightarrow> bool" where
  "run_effect v gc gc' t' evs =
    (local_effect v gc gc' \<and> quiet v evs \<and> early_tracks gc gc' evs \<and> next_task v t'
     \<and> (if t' = TDone v then good_result (gc_ctx gc' v) else vx_result (gc_ctx gc' v) = V_RESULT_INVALID))"

lemma run_effect_Finish:
  assumes "FinishVertexProcess g v code adj gc1 = (gc', evs)" "local_effect v gc gc1"
    "gc_early_exist_rc gc1 = gc_early_exist_rc gc"
    "vx_result (gc_ctx gc1 v) \<in> {V_RESULT_INVALID, V_RESULT_ERR, V_RESULT_SKIP}"
  shows "run_effect v gc gc' (TDone v) evs" "run_effect v gc gc' (TDone v) (EvStart v # evs)"
proof -
  note f = FinishVertexProcess_effect[OF assms(1,4)]
  have l: "local_effect v gc gc'" using assms(2) f(1) by (rule local_effect_trans)
  have q: "quiet v (EvStart v # evs)" using f(2) by (simp add: quiet_def)
  have e: "early_tracks gc gc' evs" using f(4) assms(3) by (simp add: early_tracks_def)
  have "early_tracks gc gc' (EvStart v # evs)"
    unfolding early_tracks_def
  proof (intro allI impI)
    fix l assume "gc_early_exist_rc gc = early_code l"
    then show "gc_early_exist_rc gc' = early_code (rev (EvStart v # evs) @ l)"
      using e[unfolded early_tracks_def, rule_format, of "EvStart v # l"] by simp
  qed
  with l q e f(2,5) show "run_effect v gc gc' (TDone v) evs" "run_effect v gc gc' (TDone v) (EvStart v # evs)"
    by (simp_all add: run_effect_def next_task_def)
qed

lemma run_effect_begin:
  assumes "local_effect v gc gc'" "gc_early_exist_rc gc' = gc_early_exist_rc gc"
    "vx_result (gc_ctx gc' v) = V_RESULT_INVALID"
  shows "run_effect v gc gc' (TProcess v) [EvStart v]"
  using assms by (simp add: run_effect_def next_task_def quiet_def early_tracks_def)

lemma Execute_effect:
  assumes "Execute g ch v gc = (gc', ts, evs)" "vx_result (gc_ctx gc v) = V_RESULT_INVALID"
  shows "\<exists>t'. ts = [t'] \<and> run_effect v gc gc' t' evs \<and> (t' = TProcess v \<longrightarrow> evs = [EvStart v])"
proof -
  define gc1 where "gc1 = (if v_cluster (deref g v) \<noteq> [] \<and> \<not> vx_subgraph_cluster (gc_ctx gc v)
               then modify_ctx v (\<lambda>c. c\<lparr>vx_subgraph_cluster := ch_cluster_found ch\<rparr>) gc else gc)"
  have l1: "local_effect v gc gc1" by (auto simp: gc1_def intro: local_effect_modify)
  have e1: "gc_early_exist_rc gc1 = gc_early_exist_rc gc" "vx_result (gc_ctx gc1 v) = V_RESULT_INVALID"
    using assms(2) by (simp_all add: gc1_def modify_ctx_def)
  from assms(1) consider
    "skip_vertex g v gc1 = (gc', ts, evs)" | "ExecuteProcessor g ch v gc1 = (gc', ts, evs)"
    | "ExecuteSubGraph g ch v gc1 = (gc', ts, evs)"
    unfolding Execute_def Let_def gc1_def[symmetric] by (auto split: if_splits)
  then show ?thesis
  proof cases
    case 1
    define gc2 where "gc2 = modify_ctx v (\<lambda>c. c\<lparr>vx_result :=
                  (if g_vertex_skip_as_error g then V_RESULT_ERR else V_RESULT_SKIP),
                  vx_code := V_CODE_SKIP\<rparr>) gc1"
    have f: "FinishVertexProcess g v V_CODE_SKIP False gc2 = (gc', evs)" "ts = [TDone v]"
      using 1 by (simp_all add: skip_vertex_def gc2_def case_prod_unfold Let_def prod_eq_iff)
    have "local_effect v gc1 gc2" unfolding gc2_def by (rule local_effect_modify) simp_all
    then have "local_effect v gc gc2" using l1 local_effect_trans by blast
    moreover have "gc_early_exist_rc gc2 = gc_early_exist_rc gc"
      "vx_result (gc_ctx gc2 v) \<in> {V_RESULT_INVALID, V_RESULT_ERR, V_RESULT_SKIP}"
      using e1 by (simp_all add: gc2_def modify_ctx_def)
    ultimately show ?thesis using run_effect_Finish(1)[OF f(1)] f(2) by simp
  next
    case 2
    show ?thesis
    proof (cases "ch_inject_rc ch = 0")
      case True
      with 2 have "gc' = gc1" "ts = [TProcess v]" "evs = [EvStart v]" by (simp_all add: ExecuteProcessor_def)
      then show ?thesis using run_effect_begin[OF l1 e1] by simp
    next
      case False
      then have "FinishVertexProcess g v V_CODE_SKIP False gc1 = (gc', evs)" "ts = [TDone v]"
        using 2 by (simp_all add: ExecuteProcessor_def case_prod_unfold Let_def prod_eq_iff)
      with run_effect_Finish(1)[OF this(1) l1 e1(1)] e1(2) show ?thesis by simp
    qed
  next
    case 3
    show ?thesis
    proof (cases "vx_subgraph_ctx (gc_ctx gc1 v) \<or> ch_graph_found ch")
      case True
      define gc2 where "gc2 = modify_ctx v (\<lambda>c. c\<lparr>vx_subgraph_ctx := True\<rparr>) gc1"
      have "local_effect v gc1 gc2" unfolding gc2_def by (rule local_effect_modify) simp_all
      then have "local_effect v gc gc2" using l1 local_effect_trans by blast
      moreover have "gc' = gc2" "ts = [TProcess v]" "evs = [EvStart v]"
        using 3 True by (auto simp: ExecuteSubGraph_def gc2_def)
      moreover have "gc_early_exist_rc gc2 = gc_early_exist_rc gc" "vx_result (gc_ctx gc2 v) = V_RESULT_INVALID"
        using e1 by (simp_all add: gc2_def modify_ctx_def)
      ultimately show ?thesis using run_effect_begin[of v gc gc2] by simp
    next
      case False
      then obtain evs' where "FinishVertexProcess g v (-1) True gc1 = (gc', evs')" "ts = [TDone v]"
        "evs = EvStart v # evs'"
        using 3 by (auto simp: ExecuteSubGraph_def split: prod.splits)
      with run_effect_Finish(2)[OF this(1) l1 e1(1)] e1(2) show ?thesis by simp
    qed
  qed
qed

lemma EndProcess_effect:
  assumes "EndProcess g out v gc = (gc', ts, evs)" "vx_result (gc_ctx gc v) = V_RESULT_INVALID"
  shows "\<exists>t'. ts = [t'] \<and> run_effect v gc gc' t' evs \<and> t' = (if out = FutureFailed then TLost v else TDone v)
    \<and> EvStart v \<notin> set evs"
proof (cases "out = FutureFailed")
  case True
  with assms show ?thesis
    by (simp add: EndProcess_def run_effect_def next_task_def quiet_def)
next
  case False
  define rc where "rc = (case out of Returned rc \<Rightarrow> rc | _ \<Rightarrow> V_CODE_ERR)"
  define gc1 where "gc1 = (if vx_processor (gc_ctx gc v) \<noteq> None
                  then modify_ctx v (\<lambda>c. c\<lparr>vx_exec_rc := rc\<rparr>) gc else gc)"
  have f: "FinishVertexProcess g v rc True gc1 = (gc', evs)" "ts = [TDone v]"
    using assms(1) False unfolding EndProcess_def Let_def rc_def[symmetric] gc1_def[symmetric]
    by (cases out; simp add: case_prod_unfold Let_def prod_eq_iff)+
  have l1: "local_effect v gc gc1" by (auto simp: gc1_def intro: local_effect_modify)
  have e1: "gc_early_exist_rc gc1 = gc_early_exist_rc gc" "vx_result (gc_ctx gc1 v) = V_RESULT_INVALID"
    using assms(2) by (simp_all add: gc1_def modify_ctx_def)
  from run_effect_Finish(1)[OF f(1) l1 e1(1)] FinishVertexProcess_effect(3)[OF f(1)] e1(2) f(2) False
  show ?thesis by simp
qed

lemma tok_run:
  assumes "t \<in> {TExecute v, TProcess v}" "next_task v t'"
  shows "tok u t' = tok u t" "notifies u t' = notifies u t" "pending g {#t'#} w u = pending g {#t#} w u"
    "tok v t = 1" "u \<noteq> v \<Longrightarrow> t \<noteq> TDone u" "u \<noteq> v \<Longrightarrow> t' \<noteq> TDone u"
  using assms by (auto simp: next_task_def pending_simps)

text \<open>A vertex with a closure is not done, waits for nothing, and has no other closure.\<close>

lemma tokens_okD:
  "tokens_ok g gc ts l \<Longrightarrow> valid_ref g v \<Longrightarrow>
     token_ok (vx_waiting_num (gc_ctx gc v)) (finished l v) (tokens v ts)"
  unfolding tokens_ok_def by blast

lemma single_token:
  assumes "engine_inv g procs gc (add_mset t rest) l" "valid_ref g v" "0 < tok v t"
  shows "finished l v = None" "vx_waiting_num (gc_ctx gc v) = 0" "tok v t = 1" "tokens v rest = 0"
  using tokens_okD[OF engine_invD(4)[OF assms(1)] assms(2)] assms(3)
  by (auto simp: token_ok_def split: if_splits option.splits)

lemma no_token:
  assumes "tokens v ts = 0" "0 < tok v t"
  shows "t \<notin># ts"
proof
  assume "t \<in># ts"
  then have "tok v t \<le> tokens v ts" by (rule tok_le_tokens)
  with assms show False by simp
qed

lemma run_inv:
  assumes inv: "engine_inv g procs gc (add_mset t rest) l"
    and t: "t \<in> {TExecute v, TProcess v}" and run: "run_effect v gc gc' t' evs"
  shows "engine_inv g procs gc' (add_mset t' rest) (rev evs @ l)"
proof -
  note parts = engine_invD[OF inv]
  have eff: "local_effect v gc gc'" and q: "quiet v evs" and et: "early_tracks gc gc' evs" and nt: "next_task v t'"
    and res: "if t' = TDone v then good_result (gc_ctx gc' v) else vx_result (gc_ctx gc' v) = V_RESULT_INVALID"
    using run by (simp_all add: run_effect_def)
  note other = local_effect_other[OF eff] and log = quiet_log[OF q, of l] and tr = tok_run[OF t nt]
  have v: "valid_ref g v" using parts(5) t by (auto simp: tasks_ok_def)
  have "0 < tok v t" using tr(4) by simp
  note single = single_token[OF inv v this]
  note fin = single(1) and rest = single(4)
  have pend: "pending g (add_mset t' rest) u w \<longleftrightarrow> pending g (add_mset t rest) u w" for u w
    by (simp add: pending_add[of g _ rest] tr(3))
  have "static_ok g procs gc'" using parts(1) eff other by (simp add: static_ok_def local_effect_def)
  moreover have "counters_ok g gc'" using parts(2) other by (simp add: counters_ok_def)
  moreover have "slots_ok g gc' (add_mset t' rest) (rev evs @ l)"
    unfolding slots_ok_def
  proof (intro allI impI)
    fix u k assume u: "valid_ref g u" "k < length (deps_idx g u)"
    have "reported g (add_mset t' rest) (rev evs @ l) (dep g u k) u \<longleftrightarrow> reported g (add_mset t rest) l (dep g u k) u"
      by (simp add: reported_def log pend)
    moreover have "vx_result (gc_ctx gc' (dep g u k)) = vx_result (gc_ctx gc (dep g u k))"
      if "reported g (add_mset t rest) l (dep g u k) u"
      using that fin eff by (cases "dep g u k = v") (auto simp: reported_def local_effect_def)
    ultimately show "vx_deps_results (gc_ctx gc' u) ! k =
        (if reported g (add_mset t' rest) (rev evs @ l) (dep g u k) u
         then vx_result (gc_ctx gc' (dep g u k)) else V_RESULT_INVALID)"
      using parts(3) u other by (simp add: slots_ok_def)
  qed
  moreover have "tokens_ok g gc' (add_mset t' rest) (rev evs @ l)"
  proof -
    have tk: "tokens u (add_mset t' rest) = tokens u (add_mset t rest)" for u by (simp add: tr(1))
    have wt: "vx_waiting_num (gc_ctx gc' u) = vx_waiting_num (gc_ctx gc u)" for u using other by simp
    show ?thesis using parts(4) by (simp only: tokens_ok_def tk wt conjunct1[OF log])
  qed
  moreover have "tasks_ok g (add_mset t' rest) (rev evs @ l)"
  proof -
    have "task_ok g (rev evs @ l) x = task_ok g l x" for x by (cases x) (simp_all add: log)
    moreover have "task_ok g l t'" using nt v by (auto simp: next_task_def)
    ultimately show ?thesis using parts(5) tr(2) by (simp add: tasks_ok_def)
  qed
  moreover have "results_ok g gc' (add_mset t' rest) (rev evs @ l)"
    unfolding results_ok_def
  proof (intro allI impI)
    fix u assume u: "valid_ref g u"
    show "result_ok (gc_ctx gc' u) (finished (rev evs @ l) u) (TDone u \<in># add_mset t' rest)"
    proof (cases "u = v")
      case True
      have "TDone v \<notin># rest" using no_token[OF rest, of "TDone v"] by simp
      then show ?thesis using True fin log res by (auto simp: result_ok_def split: if_splits)
    next
      case False
      then have "gc_ctx gc' u = gc_ctx gc u" using eff by (simp add: local_effect_def)
      then show ?thesis using parts(6)[unfolded results_ok_def, rule_format, OF u] tr(5,6)[OF False] conjunct1[OF log]
        by simp
    qed
  qed
  moreover have "join_ok g gc' (rev evs @ l)"
    using parts(7) eff log by (simp add: join_ok_def local_effect_def)
  moreover have "log_ok gc' (add_mset t' rest) (rev evs @ l)"
  proof -
    have "\<not> closed l" using parts(8) by (auto simp: log_ok_def)
    moreover have "gc_early_exist_rc gc' = early_code (rev evs @ l)"
      using et parts(8) by (simp add: early_tracks_def log_ok_def)
    moreover have "finished l u \<noteq> None \<or> TProcess u \<in># add_mset t' rest \<or> TDone u \<in># add_mset t' rest
        \<or> TLost u \<in># add_mset t' rest" if "u \<in> insert v (started l)" for u
    proof (cases "u = v")
      case True
      with nt show ?thesis by (auto simp: next_task_def)
    next
      case False
      with that parts(8) t show ?thesis by (auto simp: log_ok_def)
    qed
    ultimately show ?thesis using log by (auto simp: log_ok_def split: if_splits)
  qed
  ultimately show ?thesis by (simp add: engine_inv_def)
qed

section \<open>A vertex is done\<close>

definition reports :: "graph \<Rightarrow> vref \<Rightarrow> task multiset" where
  "reports g v = (if succs g v = [] then {#} else {#TNotify v 0 []#})"

lemma reports_simps [simp]:
  "tokens u (reports g v) = 0" "TDone u \<notin># reports g v" "TProcess u \<notin># reports g v" "TLost u \<notin># reports g v"
  "notifying u (reports g v) = (if u = v \<and> succs g v \<noteq> [] then 1 else 0)"
  "pending g (reports g v) u w \<longleftrightarrow> u = v \<and> w \<in> set (succs g v)"
  by (auto simp: reports_def pending_simps)

lemma not_notifying:
  assumes "tasks_ok g ts l" "finished l v = None"
  shows "notifying v ts = 0"
proof -
  have "notifies v t = 0" if "t \<in># ts" for t
    using assms that by (cases t) (auto simp: tasks_ok_def)
  then show ?thesis by (simp add: notifying_def)
qed

lemma done_inv:
  assumes inv: "engine_inv g procs gc (add_mset (TDone v) rest) l" and e: "edges_ok g"
  defines "gc' \<equiv> gc\<lparr>gc_join_vertex_num := gc_join_vertex_num gc - 1\<rparr>"
    and "l' \<equiv> EvFinish v (vx_result (gc_ctx gc v)) (vx_code (gc_ctx gc v)) # l"
  shows "engine_inv g procs gc' (rest + reports g v) l'" "0 < gc_join_vertex_num gc"
    "gc_join_vertex_num gc = 1 \<longleftrightarrow> dom (finished l') = vertices g"
proof -
  note parts = engine_invD[OF inv]
  have v: "valid_ref g v" using parts(5) by (simp add: tasks_ok_def)
  note single = single_token[OF inv v]
  have fin: "finished l v = None" and w0: "vx_waiting_num (gc_ctx gc v) = 0" and rest: "tokens v rest = 0"
    using single by simp_all
  have ctx: "gc_ctx gc' = gc_ctx gc" by (simp add: gc'_def)
  have fin': "finished l' u = (if u = v then Some (vx_result (gc_ctx gc v), vx_code (gc_ctx gc v)) else finished l u)"
    for u by (simp add: l'_def)
  have "v \<in> vertices g - dom (finished l)" using v fin by auto
  moreover have "vertices g - dom (finished l') = (vertices g - dom (finished l)) - {v}"
    using fin' by (auto simp: dom_def)
  ultimately have card: "card (vertices g - dom (finished l)) = Suc (card (vertices g - dom (finished l')))"
    using card.remove[of "vertices g - dom (finished l)" v] finite_valid[of g] by simp
  have join: "gc_join_vertex_num gc = card (vertices g - dom (finished l))"
    and sub: "dom (finished l) \<subseteq> vertices g"
    using parts(7) by (simp_all add: join_ok_def)
  have sub': "dom (finished l') \<subseteq> vertices g" using sub fin' v by (auto simp: dom_def split: if_splits)
  show "0 < gc_join_vertex_num gc" using card join by simp
  have "card (vertices g - dom (finished l')) = 0 \<longleftrightarrow> dom (finished l') = vertices g"
    using sub' finite_valid[of g] by (auto simp: card_eq_0_iff)
  then show "gc_join_vertex_num gc = 1 \<longleftrightarrow> dom (finished l') = vertices g" using card join by simp
  have j: "join_ok g gc' l'" using sub' card join by (simp add: join_ok_def gc'_def)
  have "static_ok g procs gc'" using parts(1) by (simp add: static_ok_def gc'_def)
  moreover have "counters_ok g gc'" using parts(2) by (simp add: counters_ok_def ctx)
  moreover have "slots_ok g gc' (rest + reports g v) l'"
    unfolding slots_ok_def ctx
  proof (intro allI impI)
    fix u k assume u: "valid_ref g u" "k < length (deps_idx g u)"
    let ?d = "dep g u k"
    have "reported g (rest + reports g v) l' ?d u \<longleftrightarrow> reported g (add_mset (TDone v) rest) l ?d u"
    proof (cases "?d = v")
      case True
      then have "u \<in> set (succs g v)" using succs_iff_dep[OF e v u(1)] u(2) by blast
      then show ?thesis using True fin by (simp add: reported_def pending_plus)
    next
      case False
      then show ?thesis
        by (simp add: reported_def pending_plus fin' pending_add[of g _ rest] pending_simps)
    qed
    then show "vx_deps_results (gc_ctx gc u) ! k =
        (if reported g (rest + reports g v) l' ?d u then vx_result (gc_ctx gc ?d) else V_RESULT_INVALID)"
      using parts(3) u by (simp add: slots_ok_def)
  qed
  moreover have "tokens_ok g gc' (rest + reports g v) l'"
    unfolding tokens_ok_def ctx
  proof (intro allI impI)
    fix u assume u: "valid_ref g u"
    show "token_ok (vx_waiting_num (gc_ctx gc u)) (finished l' u) (tokens u (rest + reports g v))"
      using tokens_okD[OF parts(4) u] rest w0 fin by (cases "u = v") (simp_all add: fin' token_ok_def)
  qed
  moreover have "tasks_ok g (rest + reports g v) l'"
  proof -
    have "task_ok g l' t" if "task_ok g l t" for t using that by (cases t) (auto simp: fin')
    moreover have "task_ok g l' t" if "t \<in># reports g v" for t
      using that v fin' by (auto simp: reports_def split: if_splits)
    moreover have "notifying u (rest + reports g v) \<le> 1" for u
      using parts(5) not_notifying[OF parts(5) fin] by (simp add: tasks_ok_def)
    ultimately show ?thesis using parts(5) by (auto simp: tasks_ok_def)
  qed
  moreover have "results_ok g gc' (rest + reports g v) l'"
    unfolding results_ok_def ctx
  proof (intro allI impI)
    fix u assume u: "valid_ref g u"
    note r = parts(6)[unfolded results_ok_def, rule_format, OF u]
    show "result_ok (gc_ctx gc u) (finished l' u) (TDone u \<in># rest + reports g v)"
      using r fin by (cases "u = v") (simp_all add: fin' result_ok_def)
  qed
  moreover have "log_ok gc' (rest + reports g v) l'"
  proof -
    have "\<not> closed l" using parts(8) by (auto simp: log_ok_def)
    moreover have "finished l' u \<noteq> None \<or> TProcess u \<in># rest + reports g v \<or> TDone u \<in># rest + reports g v
        \<or> TLost u \<in># rest + reports g v" if "u \<in> started l" for u
      using that parts(8) by (cases "u = v") (auto simp: log_ok_def fin')
    ultimately show ?thesis using parts(8) by (simp add: log_ok_def l'_def gc'_def)
  qed
  ultimately show "engine_inv g procs gc' (rest + reports g v) l'" using j by (simp add: engine_inv_def)
qed

text \<open>When every vertex is done, nothing is left to run.\<close>

lemma in_drop_nth: "i < length xs \<Longrightarrow> xs ! i \<in> set (drop i xs)"
  by (metis Cons_nth_drop_Suc list.set_intros(1))

lemma all_done_no_tasks:
  assumes inv: "engine_inv g procs gc ts l" and e: "edges_ok g" and all: "dom (finished l) = vertices g"
  shows "ts = {#}"
proof (rule ccontr)
  note parts = engine_invD[OF inv]
  assume "ts \<noteq> {#}"
  then obtain t where t: "t \<in># ts" by auto
  have none: "tokens v ts = 0 \<and> vx_waiting_num (gc_ctx gc v) = 0" if "valid_ref g v" for v
  proof -
    have "v \<in> dom (finished l)" using all that by simp
    then obtain x where "finished l v = Some x" unfolding dom_def by blast
    with tokens_okD[OF parts(4) that] show ?thesis by (simp add: token_ok_def)
  qed
  have ok: "task_ok g l t" using parts(5) t by (simp add: tasks_ok_def)
  have contra: False if "valid_ref g v" "tok v t = 1" for v
    using none[OF that(1)] tok_le_tokens[OF t, of v] that(2) by simp
  show False
  proof (cases t)
    case (TNotify u i ready)
    define w where "w = succs g u ! i"
    have u: "valid_ref g u" "i < length (succs g u)" using ok TNotify by auto
    then have w: "w \<in> set (succs g u)" "valid_ref g w" using edges_okD(2)[OF e u(1)] by (auto simp: w_def)
    then obtain k where k: "k < length (deps_idx g w)" "dep g w k = u"
      using succs_iff_dep[OF e u(1)] by auto
    have "pending g ts u w" using t TNotify u(2) w_def using in_drop_nth by (auto simp: pending_def)
    then have "vx_deps_results (gc_ctx gc w) ! k = V_RESULT_INVALID"
      using parts(3) w(2) k by (simp add: slots_ok_def reported_def)
    moreover have "k < length (vx_deps_results (gc_ctx gc w))" "vx_waiting_num (gc_ctx gc w) =
        length (filter (\<lambda>r. r = V_RESULT_INVALID) (vx_deps_results (gc_ctx gc w)))"
      using parts(2) w(2) k(1) by (simp_all add: counters_ok_def)
    ultimately show False
      using none[OF w(2)] length_filter_eq_0_iff[of "\<lambda>r. r = V_RESULT_INVALID" "vx_deps_results (gc_ctx gc w)"]
      by simp
  next
    case (TExecute u) then show False using ok contra[of u] by simp
  next
    case (TProcess u) then show False using ok contra[of u] by simp
  next
    case (TDone u) then show False using ok contra[of u] by simp
  next
    case (TLost u) then show False using ok contra[of u] by simp
  qed
qed

lemma ResetStateGraph_ok:
  assumes "runnable g" "static_ok g procs gc"
  shows "static_ok g procs (ResetStateGraph g gc)" "reset_ok g (ResetStateGraph g gc)"
    "gc_early_exist_rc (ResetStateGraph g gc) = gc_early_exist_rc gc"
    "gc_start_ctxs (ResetStateGraph g gc) = gc_start_ctxs gc"
proof -
  have vs: "set (gc_vertexs gc) = vertices g" "distinct (gc_vertexs gc)"
    using assms(2) by (simp_all add: static_ok_def)
  have ctx: "gc_ctx (ResetStateGraph g gc) v = ResetState (deref g v) (gc_ctx gc v)" if "valid_ref g v" for v
    using that vs by (simp add: ResetStateGraph_def)
  have small: "u32 (length (deps_idx g v)) = length (deps_idx g v)" if "valid_ref g v" for v
    using length_deps_small[OF assms(1) that] by (simp add: u32_small)
  have "length (gc_vertexs gc) = card (vertices g)" unfolding vs(1)[symmetric] using vs(2) by (rule distinct_card[symmetric])
  moreover have "card (vertices g) < 2 ^ 32" using assms(1) unfolding card_vertices runnable_def by blast
  ultimately have "gc_join_vertex_num (ResetStateGraph g gc) = card (vertices g)"
    by (simp add: ResetStateGraph_def u32_def)
  then show "reset_ok g (ResetStateGraph g gc)" using small by (simp add: reset_ok_def ctx ResetState_def)
  have same: "gc_vertexs (ResetStateGraph g gc) = gc_vertexs gc" "gc_while_ctx (ResetStateGraph g gc) = gc_while_ctx gc"
    by (simp_all add: ResetStateGraph_def)
  show start: "gc_start_ctxs (ResetStateGraph g gc) = gc_start_ctxs gc"
    "gc_early_exist_rc (ResetStateGraph g gc) = gc_early_exist_rc gc" by (simp_all add: ResetStateGraph_def)
  show "static_ok g procs (ResetStateGraph g gc)"
    using assms(2) unfolding static_ok_def same start(1) by (simp add: ctx ResetState_def)
qed

text \<open>
  The three ways in which \<open>OnVertexDone\<close> goes on: the successors are told; another round of a
  while graph begins; the closure given to \<open>Execute\<close> is called.
\<close>

lemma OnVertexDone_cases:
  assumes inv: "engine_inv g procs gc (add_mset (TDone v) rest) l" and g: "runnable g"
    and run: "OnVertexDone g v gc = (gc', ts, evs)"
  defines "l' \<equiv> EvFinish v (vx_result (gc_ctx gc v)) (vx_code (gc_ctx gc v)) # l"
    and "gc1 \<equiv> gc\<lparr>gc_join_vertex_num := gc_join_vertex_num gc - 1\<rparr>"
  obtains "dom (finished l') \<noteq> vertices g" "gc' = gc1" "mset ts = reports g v" "rev evs @ l = l'"
    | "dom (finished l') = vertices g" "while_again gc1" "gc' = ResetStateGraph g gc1" "rest = {#}"
      "mset ts = mset (map TExecute (gc_start_ctxs gc'))" "rev evs @ l = EvLoop # l'"
    | "dom (finished l') = vertices g" "\<not> while_again gc1" "gc' = gc1" "rest = {#}" "ts = []"
      "rev evs @ l = EvDone (gc_early_exist_rc gc) # l'"
proof -
  note e = runnable_edges[OF g]
  note d = done_inv[OF inv e, folded l'_def gc1_def]
  have sub: "fetch_sub (gc_join_vertex_num gc) = (gc_join_vertex_num gc, gc_join_vertex_num gc - 1)"
    using d(2) by (rule fetch_sub_pos)
  have v: "valid_ref g v" using engine_invD(5)[OF inv] by (simp add: tasks_ok_def)
  then have succ: "vx_successor_ctxs (gc_ctx gc v) = succs g v"
    using engine_invD(1)[OF inv] by (simp add: static_ok_def)
  show thesis
  proof (cases "dom (finished l') = vertices g")
    case False
    then have "gc_join_vertex_num gc \<noteq> 1" using d(3) by blast
    then have "gc' = gc1" "mset ts = reports g v" "rev evs @ l = l'"
      using run sub succ by (auto simp: OnVertexDone_def Let_def gc1_def l'_def reports_def)
    with False show thesis by (rule that(1))
  next
    case True
    then have one: "gc_join_vertex_num gc = 1" using d(3) by blast
    have none: "rest = {#}" using all_done_no_tasks[OF d(1) e True] by simp
    show thesis
    proof (cases "while_again gc1")
      case again: True
      have s: "static_ok g procs gc1" using engine_invD(1)[OF d(1)] .
      have "gc' = ResetStateGraph g gc1" "ts = ExecuteReadyVertexs gc' (gc_start_ctxs gc')" "rev evs @ l = EvLoop # l'"
        using run sub again one by (auto simp: OnVertexDone_def Let_def gc1_def l'_def)
      with start_tasks[OF ResetStateGraph_ok(1)[OF g s]] that(2)[OF True again _ none] show thesis by simp
    next
      case stop: False
      have "gc' = gc1" "ts = []" "rev evs @ l = EvDone (gc_early_exist_rc gc) # l'"
        using run sub stop one by (auto simp: OnVertexDone_def Let_def gc1_def l'_def)
      with that(3)[OF True stop _ none] show thesis by simp
    qed
  qed
qed

lemma OnVertexDone_inv:
  assumes inv: "engine_inv g procs gc (add_mset (TDone v) rest) l" and g: "runnable g"
    and run: "OnVertexDone g v gc = (gc', ts, evs)"
  shows "engine_inv g procs gc' (rest + mset ts) (rev evs @ l)"
  using inv g run
proof (cases rule: OnVertexDone_cases)
  note d = done_inv(1)[OF inv runnable_edges[OF g]]
  case 1
  then show ?thesis using d by simp
next
  note d = done_inv(1)[OF inv runnable_edges[OF g]]
  case 2
  have s: "static_ok g procs (gc\<lparr>gc_join_vertex_num := gc_join_vertex_num gc - 1\<rparr>)" using engine_invD(1)[OF d] .
  note r = ResetStateGraph_ok[OF g s, folded 2(3)]
  have "\<not> closed l" using engine_invD(8)[OF inv] by (auto simp: log_ok_def)
  moreover have "gc_early_exist_rc gc = early_code l" using engine_invD(8)[OF inv] by (simp add: log_ok_def)
  ultimately have "engine_inv g procs gc' (mset (map TExecute (gc_start_ctxs gc'))) (rev evs @ l)"
    using r by (intro round_inv) (simp_all add: 2(6))
  then show ?thesis using 2(4,5) by simp
next
  note d = done_inv(1)[OF inv runnable_edges[OF g]]
  case 3
  let ?l = "EvFinish v (vx_result (gc_ctx gc v)) (vx_code (gc_ctx gc v)) # l"
  have "reports g v = {#}"
    using all_done_no_tasks[OF d runnable_edges[OF g] 3(1)] by simp
  then have d': "engine_inv g procs gc' {#} ?l" using d 3(3,4) by simp
  have "engine_inv g procs gc' {#} (EvDone (gc_early_exist_rc gc) # ?l)"
    using engine_invD[OF d'] unfolding engine_inv_def
    by (simp add: slots_ok_def reported_def tokens_ok_def tasks_ok_def results_ok_def join_ok_def log_ok_def)
  then show ?thesis using 3(4,5,6) by simp
qed

section \<open>A successor is told\<close>

lemma set_drop_step:
  "distinct xs \<Longrightarrow> i < length xs \<Longrightarrow>
    set (drop i xs) = insert (xs ! i) (set (drop (i + 1) xs)) \<and> xs ! i \<notin> set (drop (i + 1) xs)"
  by (metis Cons_nth_drop_Suc Suc_eq_plus1 distinct.simps(2) distinct_drop list.simps(15))

lemma distinct_if_count: "(\<And>x. count_list xs x \<le> 1) \<Longrightarrow> distinct xs"
proof (induction xs)
  case (Cons y ys)
  have "count_list ys x \<le> 1" for x using Cons.prems[of x] by (auto split: if_splits)
  moreover have "y \<notin> set ys" using Cons.prems[of y] by (simp add: count_list_0_iff)
  ultimately show ?case using Cons.IH by simp
qed simp

text \<open>What is known when a successor is about to be told: its slot is empty, it still waits.\<close>

lemma notify_pre:
  assumes inv: "engine_inv g procs gc (add_mset (TNotify v i ready) rest) l" and e: "edges_ok g"
  defines "w \<equiv> succs g v ! i"
  shows "valid_ref g v" "valid_ref g w" "finished l v \<noteq> None" "finished l w = None" "i < length (succs g v)"
    "v \<noteq> w" "notifying v rest = 0" "tokens w rest = 0" "w \<notin> set ready" "distinct ready"
    "0 < vx_waiting_num (gc_ctx gc w)" "\<forall>x \<in> set ready. valid_ref g x"
    "good_result (gc_ctx gc v)"
    "\<exists>k < length (deps_idx g w). dep g w k = v \<and> vx_deps_results (gc_ctx gc w) ! k = V_RESULT_INVALID
       \<and> nat (vx_successor_dep_idxs (gc_ctx gc v) ! i) = k"
proof -
  note parts = engine_invD[OF inv]
  have ok: "task_ok g l (TNotify v i ready)" using parts(5) by (simp add: tasks_ok_def)
  then show v: "valid_ref g v" and fv: "finished l v \<noteq> None" and i: "i < length (succs g v)"
    and rv: "\<forall>x \<in> set ready. valid_ref g x" by simp_all
  have "w \<in> set (succs g v)" using i by (simp add: w_def)
  then show w: "valid_ref g w" using edges_okD(2)[OF e v] by simp
  obtain k where k: "k < length (deps_idx g w)" "dep g w k = v"
    using \<open>w \<in> set (succs g v)\<close> succs_iff_dep[OF e v w] by auto
  have "pending g {#TNotify v i ready#} v w"
    using in_drop_nth[OF i] by (simp add: pending_simps w_def)
  then have "pending g (add_mset (TNotify v i ready) rest) v w" by (simp add: pending_add[of g _ rest])
  then have slot: "vx_deps_results (gc_ctx gc w) ! k = V_RESULT_INVALID"
    using parts(3) w k by (simp add: slots_ok_def reported_def)
  have idx: "nat (vx_successor_dep_idxs (gc_ctx gc v) ! i) = k"
  proof -
    have "vx_successor_dep_idxs (gc_ctx gc v) ! i = GetDependencyIndex (deref g w) v"
      using parts(1) v i by (simp add: static_ok_def w_def)
    with GetDependencyIndex_dep[OF e w k(1)] k(2) show ?thesis by simp
  qed
  show "\<exists>k < length (deps_idx g w). dep g w k = v \<and> vx_deps_results (gc_ctx gc w) ! k = V_RESULT_INVALID
       \<and> nat (vx_successor_dep_idxs (gc_ctx gc v) ! i) = k"
    using k slot idx by blast
  have cnt: "k < length (vx_deps_results (gc_ctx gc w))" "vx_waiting_num (gc_ctx gc w) =
        length (filter (\<lambda>r. r = V_RESULT_INVALID) (vx_deps_results (gc_ctx gc w)))"
    using parts(2) w k(1) by (simp_all add: counters_ok_def)
  show wait: "0 < vx_waiting_num (gc_ctx gc w)"
    using slot cnt length_filter_eq_0_iff[of "\<lambda>r. r = V_RESULT_INVALID" "vx_deps_results (gc_ctx gc w)"]
    by auto
  then show fw: "finished l w = None"
    using tokens_okD[OF parts(4) w] by (auto simp: token_ok_def split: option.splits)
  with fv show "v \<noteq> w" by auto
  have "tokens w (add_mset (TNotify v i ready) rest) = 0"
    using tokens_okD[OF parts(4) w] fw wait by (simp add: token_ok_def)
  then show "tokens w rest = 0" "w \<notin> set ready" by (simp_all add: count_list_0_iff)
  have "count_list ready x \<le> 1" for x
  proof (cases "x \<in> set ready")
    case True
    then have "valid_ref g x" using rv by simp
    from tokens_okD[OF parts(4) this] show ?thesis by (auto simp: token_ok_def split: option.splits if_splits)
  qed (simp add: count_list_0_iff)
  then show "distinct ready" by (rule distinct_if_count)
  show "notifying v rest = 0" using parts(5) by (auto simp: tasks_ok_def dest: spec[of _ v])
  obtain r c where "finished l v = Some (r, c)" using fv by auto
  then show "good_result (gc_ctx gc v)"
    using parts(6) v by (auto simp: results_ok_def result_ok_def dest: spec[of _ v])
qed

text \<open>The tasks after a successor was told, as far as the invariant looks at them.\<close>

definition told_tasks :: "graph \<Rightarrow> vref \<Rightarrow> nat \<Rightarrow> vref list \<Rightarrow> task multiset" where
  "told_tasks g v i ready = (if i + 1 = length (succs g v) then mset (map TExecute ready)
     else {#TNotify v (i + 1) ready#})"

lemma told_tasks_simps:
  assumes "i < length (succs g v)"
  shows "tokens u (told_tasks g v i ready) = count_list ready u"
    "notifying u (told_tasks g v i ready) \<le> (if u = v then 1 else 0)"
    "pending g (told_tasks g v i ready) u x \<longleftrightarrow> u = v \<and> x \<in> set (drop (i + 1) (succs g v))"
    "TDone u \<notin># told_tasks g v i ready" "TProcess u \<notin># told_tasks g v i ready"
    "TLost u \<notin># told_tasks g v i ready"
  using assms by (auto simp: told_tasks_def tokens_map_TExecute notifying_map_TExecute pending_map_TExecute
      pending_simps simp del: mset_map)

lemma Notify_effect:
  assumes inv: "engine_inv g procs gc (add_mset (TNotify v i ready) rest) l" and e: "edges_ok g"
    and run: "Notify v i ready gc = (gc', ts, evs)"
  defines "w \<equiv> succs g v ! i"
  defines "ready' \<equiv> (if vx_waiting_num (gc_ctx gc w) = 1 then ready @ [w] else ready)"
  shows "\<exists>k < length (deps_idx g w). dep g w k = v
      \<and> gc' = modify_ctx w (\<lambda>c. c\<lparr>vx_deps_results := (vx_deps_results c)[k := vx_result (gc_ctx gc v)],
                vx_waiting_num := vx_waiting_num c - 1\<rparr>) gc
      \<and> vx_deps_results (gc_ctx gc w) ! k = V_RESULT_INVALID
      \<and> mset ts = told_tasks g v i ready' \<and> evs = [] \<and> distinct ready'"
proof -
  note pre = notify_pre[OF inv e, folded w_def]
  obtain k where k: "k < length (deps_idx g w)" "dep g w k = v" "vx_deps_results (gc_ctx gc w) ! k = V_RESULT_INVALID"
    "nat (vx_successor_dep_idxs (gc_ctx gc v) ! i) = k" using pre(14) by blast
  have succ: "vx_successor_ctxs (gc_ctx gc v) = succs g v"
    using engine_invD(1)[OF inv] pre(1) by (simp add: static_ok_def)
  define gc1 where "gc1 = modify_ctx w (\<lambda>c. c\<lparr>vx_deps_results := (vx_deps_results c)[k := vx_result (gc_ctx gc v)],
                vx_waiting_num := vx_waiting_num c - 1\<rparr>) gc"
  have set: "SetDependencyResult k (vx_result (gc_ctx gc v)) (gc_ctx gc w) =
      (vx_waiting_num (gc_ctx gc w), (gc_ctx gc w)\<lparr>vx_deps_results := (vx_deps_results (gc_ctx gc w))[k := vx_result (gc_ctx gc v)],
                vx_waiting_num := vx_waiting_num (gc_ctx gc w) - 1\<rparr>)"
    using k(3) fetch_sub_pos[OF pre(11)] by (simp add: SetDependencyResult_def)
  have gc1': "modify_ctx w (\<lambda>_. (gc_ctx gc w)\<lparr>vx_deps_results := (vx_deps_results (gc_ctx gc w))[k := vx_result (gc_ctx gc v)],
                vx_waiting_num := vx_waiting_num (gc_ctx gc w) - 1\<rparr>) gc = gc1"
    by (simp add: gc1_def modify_ctx_def)
  have distinct: "distinct ready'" using pre(9,10) by (simp add: ready'_def)
  have "gc' = gc1 \<and> mset ts = told_tasks g v i ready' \<and> evs = []"
  proof (cases "vx_waiting_num (gc_ctx gc w) = 1 \<and> i + 1 = length (succs g v) \<and> ready = []")
    case True
    then show ?thesis
      using run unfolding Notify_def Let_def succ w_def[symmetric] k(4) set prod.case gc1'
      by (simp add: told_tasks_def ready'_def)
  next
    case False
    then have "gc' = gc1 \<and> ts = (if i + 1 = length (succs g v) then ExecuteReadyVertexs gc1 ready'
        else [TNotify v (i + 1) ready']) \<and> evs = []"
      using run unfolding Notify_def Let_def succ w_def[symmetric] k(4) set prod.case gc1' ready'_def
      by (auto split: if_splits)
    then show ?thesis
      using mset_ExecuteReadyVertexs[OF distinct, of gc1] by (simp add: told_tasks_def)
  qed
  with k(1-3) distinct show ?thesis unfolding gc1_def by blast
qed

lemma Notify_inv:
  assumes inv: "engine_inv g procs gc (add_mset (TNotify v i ready) rest) l" and e: "edges_ok g"
    and run: "Notify v i ready gc = (gc', ts, evs)"
  shows "engine_inv g procs gc' (rest + mset ts) (rev evs @ l)"
proof -
  define w where "w = succs g v ! i"
  define ready' where "ready' = (if vx_waiting_num (gc_ctx gc w) = 1 then ready @ [w] else ready)"
  note parts = engine_invD[OF inv]
  note pre = notify_pre[OF inv e, folded w_def]
  obtain k where k: "k < length (deps_idx g w)" "dep g w k = v"
    and gc': "gc' = modify_ctx w (\<lambda>c. c\<lparr>vx_deps_results := (vx_deps_results c)[k := vx_result (gc_ctx gc v)],
                vx_waiting_num := vx_waiting_num c - 1\<rparr>) gc"
    and slot: "vx_deps_results (gc_ctx gc w) ! k = V_RESULT_INVALID"
    and ts: "mset ts = told_tasks g v i ready'" "evs = []" "distinct ready'"
    using Notify_effect[OF inv e run, folded w_def, folded ready'_def] by blast
  note told = told_tasks_simps[OF pre(5)]
  have other: "gc_ctx gc' u = gc_ctx gc u" if "u \<noteq> w" for u using that by (simp add: gc' modify_ctx_def)
  have cw: "gc_ctx gc' w = (gc_ctx gc w)\<lparr>vx_deps_results := (vx_deps_results (gc_ctx gc w))[k := vx_result (gc_ctx gc v)],
                vx_waiting_num := vx_waiting_num (gc_ctx gc w) - 1\<rparr>"
    by (simp add: gc' modify_ctx_def)
  have res: "vx_result (gc_ctx gc' u) = vx_result (gc_ctx gc u)" "vx_code (gc_ctx gc' u) = vx_code (gc_ctx gc u)"
    "vx_successor_ctxs (gc_ctx gc' u) = vx_successor_ctxs (gc_ctx gc u)"
    "vx_successor_dep_idxs (gc_ctx gc' u) = vx_successor_dep_idxs (gc_ctx gc u)"
    "vx_processor (gc_ctx gc' u) = vx_processor (gc_ctx gc u)" for u
    by (simp_all add: gc' modify_ctx_def)
  have same: "gc_vertexs gc' = gc_vertexs gc" "gc_join_vertex_num gc' = gc_join_vertex_num gc"
    "gc_start_ctxs gc' = gc_start_ctxs gc" "gc_while_ctx gc' = gc_while_ctx gc"
    "gc_early_exist_rc gc' = gc_early_exist_rc gc"
    by (simp_all add: gc' modify_ctx_def)
  have lw: "k < length (vx_deps_results (gc_ctx gc w))"
    "length (vx_deps_results (gc_ctx gc w)) = length (deps_idx g w)"
    "vx_waiting_num (gc_ctx gc w) = length (filter (\<lambda>r. r = V_RESULT_INVALID) (vx_deps_results (gc_ctx gc w)))"
    using parts(2) pre(2) k(1) by (simp_all add: counters_ok_def)
  have valid_result: "vx_result (gc_ctx gc v) \<noteq> V_RESULT_INVALID"
    using pre(13) by (auto simp: good_result_def)
  have "static_ok g procs gc'" using parts(1) by (simp add: static_ok_def same res)
  moreover have "counters_ok g gc'"
    unfolding counters_ok_def
  proof (intro allI impI)
    fix u assume u: "valid_ref g u"
    show "length (vx_deps_results (gc_ctx gc' u)) = length (deps_idx g u) \<and> vx_waiting_num (gc_ctx gc' u)
        = length (filter (\<lambda>r. r = V_RESULT_INVALID) (vx_deps_results (gc_ctx gc' u)))"
    proof (cases "u = w")
      case True
      then show ?thesis
        using length_filter_update[of k "vx_deps_results (gc_ctx gc w)" "\<lambda>r. r = V_RESULT_INVALID"
            "vx_result (gc_ctx gc v)"] lw slot valid_result by (simp add: cw)
    qed (use parts(2) u other in \<open>simp add: counters_ok_def\<close>)
  qed
  moreover have "slots_ok g gc' (rest + mset ts) (rev evs @ l)"
    unfolding slots_ok_def res
  proof (intro allI impI)
    fix u j assume u: "valid_ref g u" "j < length (deps_idx g u)"
    let ?d = "dep g u j"
    let ?old = "reported g (add_mset (TNotify v i ready) rest) l ?d u"
    have old: "vx_deps_results (gc_ctx gc u) ! j = (if ?old then vx_result (gc_ctx gc ?d) else V_RESULT_INVALID)"
      using parts(3) u by (simp add: slots_ok_def)
    have dist: "distinct (succs g v)" using edges_okD(1)[OF e pre(1)] by (simp add: vertex_edges_ok_def)
    have norest: "\<not> pending g rest v x" for x
    proof
      assume "pending g rest v x"
      then obtain i' r where "TNotify v i' r \<in># rest" by (auto simp: pending_def)
      from notifies_le[OF this, of v] pre(7) show False by simp
    qed
    show "vx_deps_results (gc_ctx gc' u) ! j = (if reported g (rest + mset ts) (rev evs @ l) ?d u
        then vx_result (gc_ctx gc ?d) else V_RESULT_INVALID)"
    proof (cases "u = w \<and> j = k")
      case True
      have "w \<notin> set (drop (i + 1) (succs g v))" using set_drop_step[OF dist pre(5)] by (simp add: w_def)
      then have "reported g (rest + mset ts) (rev evs @ l) v w"
        using pre(3) norest by (simp add: reported_def ts pending_plus told)
      then show ?thesis using True lw(1) k(2) by (simp add: cw)
    next
      case False
      have "vx_deps_results (gc_ctx gc' u) ! j = vx_deps_results (gc_ctx gc u) ! j"
        using False other by (cases "u = w") (simp_all add: cw)
      moreover have "reported g (rest + mset ts) (rev evs @ l) ?d u \<longleftrightarrow> ?old"
      proof (cases "?d = v")
        case d: True
        have "u \<noteq> w" using False d k dep_inj[OF e pre(2)] u(2) by metis
        then have "u \<in> set (drop (i + 1) (succs g v)) \<longleftrightarrow> u \<in> set (drop i (succs g v))"
          using set_drop_step[OF dist pre(5)] by (simp add: w_def)
        then show ?thesis
          using d norest by (simp add: reported_def ts pending_plus told pending_add[of g _ rest] pending_simps)
      next
        case False
        then show ?thesis
          by (simp add: reported_def ts pending_plus told pending_add[of g _ rest] pending_simps)
      qed
      ultimately show ?thesis using old by simp
    qed
  qed
  moreover have "tokens_ok g gc' (rest + mset ts) (rev evs @ l)"
    unfolding tokens_ok_def
  proof (intro allI impI)
    fix u assume u: "valid_ref g u"
    have tk: "tokens u (rest + mset ts) = tokens u rest + count_list ready' u" by (simp add: ts told)
    note old = tokens_okD[OF parts(4) u]
    show "token_ok (vx_waiting_num (gc_ctx gc' u)) (finished (rev evs @ l) u) (tokens u (rest + mset ts))"
    proof (cases "u = w")
      case True
      then show ?thesis
        using pre(4,8,9,11) unfolding tk by (auto simp: token_ok_def ts(2) cw ready'_def count_list_0_iff)
    next
      case False
      then have "count_list ready' u = count_list ready u" by (simp add: ready'_def)
      then show ?thesis using old False unfolding tk by (simp add: other ts(2) add.commute)
    qed
  qed
  moreover have "tasks_ok g (rest + mset ts) (rev evs @ l)"
  proof -
    have "task_ok g l t" if "t \<in># told_tasks g v i ready'" for t
      using that pre(1,2,3,5,12) by (auto simp: told_tasks_def ready'_def split: if_splits)
    moreover have "notifying u (rest + mset ts) \<le> 1" for u
      using parts(5) pre(7) told(2)[of u ready'] by (cases "u = v") (auto simp: tasks_ok_def ts dest: spec[of _ u])
    ultimately show ?thesis using parts(5) by (auto simp: tasks_ok_def ts)
  qed
  moreover have "results_ok g gc' (rest + mset ts) (rev evs @ l)"
  proof -
    have "result_ok (gc_ctx gc' u) a b = result_ok (gc_ctx gc u) a b" for u a b
      by (simp only: result_ok_def good_result_def res)
    then show ?thesis using parts(6) by (simp add: results_ok_def ts told)
  qed
  moreover have "join_ok g gc' (rev evs @ l)" using parts(7) by (simp add: join_ok_def same ts)
  moreover have "log_ok gc' (rest + mset ts) (rev evs @ l)"
    using parts(8) by (auto simp: log_ok_def same ts)
  ultimately show ?thesis by (simp add: engine_inv_def)
qed

end
