(* ===== verification/Execution.thy ===== *)
theory Execution
  imports EngineSteps
begin

text \<open>
  The executor as a whole: its invariant holds in every reachable state, whatever the order of
  the tasks and the results of the operators; its log is a legal schedule of the graph.
\<close>

section \<open>Every reachable state\<close>

lemma valid_token: "engine_inv g procs gc (add_mset t rest) l \<Longrightarrow> t \<in> {TExecute v, TProcess v, TDone v} \<Longrightarrow> valid_ref g v"
  by (auto simp: engine_inv_def tasks_ok_def)

lemma running_invalid:
  assumes inv: "engine_inv g procs gc (add_mset t rest) l" and t: "t \<in> {TExecute v, TProcess v}"
  shows "vx_result (gc_ctx gc v) = V_RESULT_INVALID"
proof -
  have v: "valid_ref g v" using inv by (rule valid_token) (use t in auto)
  have "0 < tok v t" using t by auto
  note single = single_token[OF inv v this]
  have "TDone v \<notin># add_mset t rest" using t no_token[OF single(4), of "TDone v"] by auto
  with engine_invD(6)[OF inv] v single(1) show ?thesis by (auto simp: results_ok_def result_ok_def)
qed

text \<open>A task that runs a vertex is followed by one task of the same vertex.\<close>

lemma handle_run:
  assumes inv: "engine_inv g procs gc (add_mset t rest) l" and t: "t \<in> {TExecute v, TProcess v}"
    and run: "handle g ch t gc = (gc', ts, evs)"
  shows "\<exists>t'. ts = [t'] \<and> run_effect v gc gc' t' evs \<and> (t = TProcess v \<longrightarrow> t' \<noteq> TProcess v \<and> EvStart v \<notin> set evs)"
proof (cases "t = TExecute v")
  case True
  with Execute_effect[of g ch v gc gc' ts evs] running_invalid[OF inv t] run show ?thesis by auto
next
  case False
  with t have "t = TProcess v" by simp
  with EndProcess_effect[of g "ch_outcome ch" v gc gc' ts evs] running_invalid[OF inv t] run
  show ?thesis by auto
qed

lemma handle_inv:
  assumes inv: "engine_inv g procs gc (add_mset t rest) l" and g: "runnable g"
    and run: "handle g ch t gc = (gc', ts, evs)" and en: "enabled ch t gc"
  shows "engine_inv g procs gc' (rest + mset ts) (rev evs @ l)"
proof -
  have r: ?thesis if "t \<in> {TExecute v, TProcess v}" for v
    using handle_run[OF inv that run] run_inv[OF inv that] by auto
  show ?thesis
  proof (cases t)
    case (TDone v)
    with run have "OnVertexDone g v gc = (gc', ts, evs)" by simp
    with OnVertexDone_inv[OF _ g this] inv TDone show ?thesis by simp
  next
    case (TNotify v i ready)
    with run have "Notify v i ready gc = (gc', ts, evs)" by simp
    with Notify_inv[OF _ runnable_edges[OF g] this] inv TNotify show ?thesis by simp
  next
    case (TLost v)
    with en show ?thesis by simp
  qed (use r in blast)+
qed

text \<open>Only the end of a vertex changes what is finished.\<close>

lemma handle_finished:
  assumes inv: "engine_inv g procs gc (add_mset t rest) l"
    and run: "handle g ch t gc = (gc', ts, evs)" and en: "enabled ch t gc" and t: "\<And>v. t \<noteq> TDone v"
  shows "finished (rev evs @ l) = finished l"
proof -
  have r: ?thesis if "t \<in> {TExecute v, TProcess v}" for v
    using handle_run[OF inv that run] quiet_log by (auto simp: run_effect_def)
  show ?thesis
  proof (cases t)
    case (TExecute v)
    then show ?thesis using r[of v] by simp
  next
    case (TProcess v)
    then show ?thesis using r[of v] by simp
  next
    case (TDone v)
    with t show ?thesis by blast
  next
    case (TNotify v i ready)
    with run have "evs = []" by (auto simp: Notify_def Let_def split: prod.splits if_splits)
    then show ?thesis by simp
  next
    case (TLost v)
    with en show ?thesis by simp
  qed
qed

abbreviation inv_of :: "graph \<Rightarrow> (vref \<Rightarrow> processor_info option) \<Rightarrow> engine \<Rightarrow> bool" where
  "inv_of g procs s \<equiv> engine_inv g procs (en_ctx s) (en_tasks s) (en_log s)"

inductive_cases stepE: "step g s s'"

text \<open>A step, taken apart.\<close>

lemma step_handle:
  assumes "step g s s'"
  obtains t ch rest gc ts evs where "en_tasks s = add_mset t rest" "enabled ch t (en_ctx s)"
    "handle g ch t (en_ctx s) = (gc, ts, evs)" "en_ctx s' = gc" "en_tasks s' = rest + mset ts"
    "en_log s' = rev evs @ en_log s"
proof -
  from assms obtain t ch where t: "t \<in># en_tasks s" "enabled ch t (en_ctx s)" and s': "s' = after g ch t s"
    by (auto elim: stepE)
  obtain rest where rest: "en_tasks s = add_mset t rest" using t(1) by (meson multi_member_split)
  obtain gc ts evs where h: "handle g ch t (en_ctx s) = (gc, ts, evs)" by (metis prod_cases3)
  show thesis using that[OF rest t(2) h] rest h by (simp add: s' after_def)
qed

lemma step_inv: "inv_of g procs s \<Longrightarrow> runnable g \<Longrightarrow> step g s s' \<Longrightarrow> inv_of g procs s'"
  by (erule step_handle) (simp add: handle_inv)

lemma reachable_inv: "reachable g procs s \<Longrightarrow> runnable g \<Longrightarrow> inv_of g procs s"
  by (induction rule: reachable.induct) (use start_inv step_inv in blast)+

section \<open>Legal schedules\<close>

text \<open>
  The contract of the executor, without counters, tasks or threads: which event may follow a
  log. A vertex starts once a round, after all its dependencies are done with a result that
  matches, and not after an early exit; it is done once a round; the closure is called once,
  when every vertex is done and the condition of a while graph, if there is one, is not 0.
\<close>

definition may_start :: "graph \<Rightarrow> event list \<Rightarrow> vref \<Rightarrow> bool" where
  "may_start g l v = (valid_ref g v \<and> finished l v = None \<and> v \<notin> started l \<and> early_code l = 0
     \<and> list_all (\<lambda>(u, i). case finished l u of None \<Rightarrow> False
          | Some (r, c) \<Rightarrow> result_matches r (v_deps_expected_results (deref g v) ! i)) (deps_idx g v))"

definition may_finish :: "graph \<Rightarrow> event list \<Rightarrow> vref \<Rightarrow> vresult \<Rightarrow> int \<Rightarrow> bool" where
  "may_finish g l v r c = (valid_ref g v \<and> finished l v = None
     \<and> list_all (\<lambda>(u, i). finished l u \<noteq> None) (deps_idx g v)
     \<and> r \<in> {V_RESULT_OK, V_RESULT_ERR, V_RESULT_SKIP} \<and> (r = V_RESULT_OK \<longleftrightarrow> c = 0))"

definition round_done :: "graph \<Rightarrow> event list \<Rightarrow> bool" where
  "round_done g l = list_all (\<lambda>v. finished l v \<noteq> None) (vertex_refs g @ gen_refs g)"

definition again :: "vref option \<Rightarrow> event list \<Rightarrow> bool" where
  "again wh l = (case wh of None \<Rightarrow> False
     | Some w \<Rightarrow> (case finished l w of None \<Rightarrow> False | Some (r, c) \<Rightarrow> c = 0))"

fun legal :: "graph \<Rightarrow> vref option \<Rightarrow> event list \<Rightarrow> bool" where
  "legal g wh [] = True"
| "legal g wh (e # l) = (legal g wh l \<and> \<not> closed l \<and>
     (case e of
        EvStart v \<Rightarrow> may_start g l v
      | EvFinish v r c \<Rightarrow> may_finish g l v r c
      | EvLoop \<Rightarrow> round_done g l \<and> again wh l
      | EvDone rc \<Rightarrow> round_done g l \<and> \<not> again wh l \<and> rc = early_code l
      | _ \<Rightarrow> True))"

lemma round_done_iff: "dom (finished l) \<subseteq> vertices g \<Longrightarrow> round_done g l \<longleftrightarrow> dom (finished l) = vertices g"
  unfolding round_done_def list_all_iff domIff[symmetric] set_append valid_ref_cases by blast

lemma legal_quiet:
  assumes "legal g wh l" "\<not> closed l" "quiet v evs" "EvStart v \<notin> set evs"
  shows "legal g wh (rev evs @ l)"
  using assms(3,4)
proof (induction evs rule: rev_induct)
  case (snoc e evs)
  then have q: "quiet v evs" and IH: "legal g wh (rev evs @ l)"
    and e: "e \<in> {EvCollect v, EvMove v, EvChild v} \<union> range EvEarly"
    by (auto simp: quiet_def)
  have "\<not> closed (rev evs @ l)" using quiet_log[OF q] assms(2) by simp
  with IH e show ?case by auto
qed (use assms(1) in simp)

text \<open>\<open>Execute\<close> begins to run its vertex first, and only when its guards hold.\<close>

lemma Execute_start:
  assumes "Execute g ch v gc = (gc', ts, evs)" "vx_result (gc_ctx gc v) = V_RESULT_INVALID" "EvStart v \<in> set evs"
  shows "\<exists>evs'. evs = EvStart v # evs' \<and> EvStart v \<notin> set evs'"
    "match_deps (vx_deps_results (gc_ctx gc v)) (v_deps_expected_results (deref g v))"
    "gc_early_exist_rc gc = 0"
proof -
  define gc1 where "gc1 = (if v_cluster (deref g v) \<noteq> [] \<and> \<not> vx_subgraph_cluster (gc_ctx gc v)
               then modify_ctx v (\<lambda>c. c\<lparr>vx_subgraph_cluster := ch_cluster_found ch\<rparr>) gc else gc)"
  have same: "vx_deps_results (gc_ctx gc1 v) = vx_deps_results (gc_ctx gc v)"
    "gc_early_exist_rc gc1 = gc_early_exist_rc gc" "vx_result (gc_ctx gc1 v) = V_RESULT_INVALID"
    using assms(2) by (simp_all add: gc1_def modify_ctx_def)
  have noskip: "skip_vertex g v gc1 \<noteq> (gc', ts, evs)"
  proof
    let ?gc2 = "modify_ctx v (\<lambda>c. c\<lparr>vx_result :=
                  (if g_vertex_skip_as_error g then V_RESULT_ERR else V_RESULT_SKIP),
                  vx_code := V_CODE_SKIP\<rparr>) gc1"
    assume "skip_vertex g v gc1 = (gc', ts, evs)"
    then have "FinishVertexProcess g v V_CODE_SKIP False ?gc2 = (gc', evs)"
      by (simp add: skip_vertex_def case_prod_unfold Let_def prod_eq_iff)
    moreover have "vx_result (gc_ctx ?gc2 v) \<in> {V_RESULT_INVALID, V_RESULT_ERR, V_RESULT_SKIP}"
      by (simp add: modify_ctx_def)
    ultimately show False using FinishVertexProcess_effect(3) assms(3) by blast
  qed
  then have guards: "match_deps (vx_deps_results (gc_ctx gc1 v)) (v_deps_expected_results (deref g v))"
    "gc_early_exist_rc gc1 = 0"
    and rest: "ExecuteProcessor g ch v gc1 = (gc', ts, evs) \<or> ExecuteSubGraph g ch v gc1 = (gc', ts, evs)"
    using assms(1) unfolding Execute_def Let_def gc1_def[symmetric] by (auto split: if_splits)
  then show "match_deps (vx_deps_results (gc_ctx gc v)) (v_deps_expected_results (deref g v))"
    "gc_early_exist_rc gc = 0" using same by simp_all
  show "\<exists>evs'. evs = EvStart v # evs' \<and> EvStart v \<notin> set evs'"
    using rest
  proof
    assume r: "ExecuteProcessor g ch v gc1 = (gc', ts, evs)"
    have "ch_inject_rc ch = 0"
    proof (rule ccontr)
      assume "ch_inject_rc ch \<noteq> 0"
      then have "FinishVertexProcess g v V_CODE_SKIP False gc1 = (gc', evs)"
        using r by (simp add: ExecuteProcessor_def case_prod_unfold Let_def prod_eq_iff)
      from FinishVertexProcess_effect(3)[OF this] same(3) assms(3) show False by simp
    qed
    with r show ?thesis by (auto simp: ExecuteProcessor_def)
  next
    assume r: "ExecuteSubGraph g ch v gc1 = (gc', ts, evs)"
    show ?thesis
    proof (cases "vx_subgraph_ctx (gc_ctx gc1 v) \<or> ch_graph_found ch")
      case True
      with r show ?thesis by (auto simp: ExecuteSubGraph_def)
    next
      case False
      then obtain evs' where e: "FinishVertexProcess g v (-1) True gc1 = (gc', evs')" "evs = EvStart v # evs'"
        using r by (auto simp: ExecuteSubGraph_def split: prod.splits)
      from FinishVertexProcess_effect(3)[OF e(1)] same(3) e(2) show ?thesis by simp
    qed
  qed
qed

text \<open>A vertex that waits for nothing has the results of all its dependencies.\<close>

lemma deps_reported:
  assumes "engine_inv g procs gc ts l" "edges_ok g" "valid_ref g v" "vx_waiting_num (gc_ctx gc v) = 0"
    and "(u, i) \<in> set (deps_idx g v)"
  shows "i < length (vx_deps_results (gc_ctx gc v))"
    "finished l u = Some (vx_deps_results (gc_ctx gc v) ! i, vx_code (gc_ctx gc u))"
proof -
  note parts = engine_invD[OF assms(1)]
  obtain k where k: "k < length (deps_idx g v)" "deps_idx g v ! k = (u, i)"
    using assms(5) by (auto simp: in_set_conv_nth)
  with deps_idx_nth[OF assms(2,3) k(1)] have ik: "i = k" "dep g v k = u" by auto
  have c: "length (vx_deps_results (gc_ctx gc v)) = length (deps_idx g v)"
    "length (filter (\<lambda>r. r = V_RESULT_INVALID) (vx_deps_results (gc_ctx gc v))) = 0"
    using parts(2) assms(3,4) by (simp_all add: counters_ok_def)
  show i: "i < length (vx_deps_results (gc_ctx gc v))" using k(1) ik c by simp
  have ne: "vx_deps_results (gc_ctx gc v) ! i \<noteq> V_RESULT_INVALID"
    using c(2) i length_filter_eq_0_iff[of "\<lambda>r. r = V_RESULT_INVALID" "vx_deps_results (gc_ctx gc v)"] by simp
  have slot: "vx_deps_results (gc_ctx gc v) ! i =
      (if reported g ts l u v then vx_result (gc_ctx gc u) else V_RESULT_INVALID)"
    using parts(3) assms(3) k(1) ik by (auto simp: slots_ok_def)
  then have r: "reported g ts l u v" using ne by (auto split: if_splits)
  then obtain r c where f: "finished l u = Some (r, c)" by (auto simp: reported_def)
  moreover have "valid_ref g u"
    using edges_okD(3)[OF assms(2,3)] assms(5) by (force simp: depends_def)
  ultimately have "r = vx_result (gc_ctx gc u) \<and> c = vx_code (gc_ctx gc u)"
    using parts(6) by (auto simp: results_ok_def result_ok_def dest: spec[of _ u])
  with f slot r show "finished l u = Some (vx_deps_results (gc_ctx gc v) ! i, vx_code (gc_ctx gc u))" by simp
qed

lemma start_allowed:
  assumes inv: "engine_inv g procs gc (add_mset (TExecute v) rest) l" and e: "edges_ok g"
    and m: "match_deps (vx_deps_results (gc_ctx gc v)) (v_deps_expected_results (deref g v))"
    and early: "gc_early_exist_rc gc = 0"
  shows "may_start g l v"
proof -
  note parts = engine_invD[OF inv]
  have v: "valid_ref g v" using inv by (rule valid_token) simp
  note single = single_token[OF inv v]
  have gone: "finished l v = None" "tokens v rest = 0" "vx_waiting_num (gc_ctx gc v) = 0" using single by simp_all
  have "t \<notin># add_mset (TExecute v) rest" if "t \<in> {TProcess v, TDone v, TLost v}" for t
    using that no_token[OF gone(2), of t] by auto
  with gone(1) parts(8) have "v \<notin> started l" by (auto simp: log_ok_def)
  moreover have "early_code l = 0" using parts(8) early by (simp add: log_ok_def)
  moreover have "list_all (\<lambda>(u, i). case finished l u of None \<Rightarrow> False
          | Some (r, c) \<Rightarrow> result_matches r (v_deps_expected_results (deref g v) ! i)) (deps_idx g v)"
    unfolding list_all_iff
  proof (intro ballI, clarify)
    fix u i assume u: "(u, i) \<in> set (deps_idx g v)"
    note d = deps_reported[OF inv e v gone(3) u]
    then have "result_matches (vx_deps_results (gc_ctx gc v) ! i) (v_deps_expected_results (deref g v) ! i)"
      using m by (auto simp: match_deps_def list_all_iff)
    with d(2) show "case finished l u of None \<Rightarrow> False
          | Some (r, c) \<Rightarrow> result_matches r (v_deps_expected_results (deref g v) ! i)" by simp
  qed
  ultimately show ?thesis using v gone(1) by (simp add: may_start_def)
qed

lemma finish_allowed:
  assumes inv: "engine_inv g procs gc (add_mset (TDone v) rest) l" and e: "edges_ok g"
  shows "may_finish g l v (vx_result (gc_ctx gc v)) (vx_code (gc_ctx gc v))"
proof -
  note parts = engine_invD[OF inv]
  have v: "valid_ref g v" using inv by (rule valid_token) simp
  note single = single_token[OF inv v]
  have gone: "finished l v = None" "vx_waiting_num (gc_ctx gc v) = 0" using single by simp_all
  have "list_all (\<lambda>(u, i). finished l u \<noteq> None) (deps_idx g v)"
    using deps_reported(2)[OF inv e v gone(2)] by (auto simp: list_all_iff)
  moreover have "good_result (gc_ctx gc v)"
    using parts(6) v gone(1) by (auto simp: results_ok_def result_ok_def dest: spec[of _ v])
  ultimately show ?thesis using v gone(1) unfolding may_finish_def good_result_def by blast
qed

lemma again_while:
  assumes "engine_inv g procs gc ts l" "dom (finished l) = vertices g"
  shows "again (gc_while_ctx gc) l \<longleftrightarrow> while_again gc"
proof (cases "gc_while_ctx gc")
  case (Some w)
  then have w: "valid_ref g w" using engine_invD(1)[OF assms(1)] by (simp add: static_ok_def)
  then have "w \<in> dom (finished l)" using assms(2) by simp
  then obtain r c where f: "finished l w = Some (r, c)" by auto
  moreover from f have "c = vx_code (gc_ctx gc w)"
    using engine_invD(6)[OF assms(1)] w by (auto simp: results_ok_def result_ok_def dest: spec[of _ w])
  ultimately show ?thesis using Some by (simp add: again_def while_again_def)
qed (simp add: again_def while_again_def)

lemma handle_while:
  assumes "handle g ch t gc = (gc', ts, evs)"
  shows "gc_while_ctx gc' = gc_while_ctx gc"
proof -
  have m: "gc_while_ctx (modify_ctx v f gc) = gc_while_ctx gc" for v f gc by (simp add: modify_ctx_def)
  have se: "gc_while_ctx (SetEarlyExitCode c gc) = gc_while_ctx gc" for c gc by (simp add: SetEarlyExitCode_def)
  have f: "gc_while_ctx (fst (FinishVertexProcess g v c a gc)) = gc_while_ctx gc" for v c a gc
    by (simp add: FinishVertexProcess_def Let_def m se)
  have skip: "gc_while_ctx (fst (skip_vertex g v gc)) = gc_while_ctx gc" for v gc
    by (simp add: skip_vertex_def Let_def case_prod_unfold f m)
  have p: "gc_while_ctx (fst (ExecuteProcessor g ch v gc)) = gc_while_ctx gc" for v gc
    by (simp add: ExecuteProcessor_def Let_def case_prod_unfold f)
  have sg: "gc_while_ctx (fst (ExecuteSubGraph g ch v gc)) = gc_while_ctx gc" for v gc
    by (simp add: ExecuteSubGraph_def Let_def case_prod_unfold f m)
  have "gc_while_ctx (fst (handle g ch t gc)) = gc_while_ctx gc"
  proof (cases t)
    case (TExecute v)
    then show ?thesis by (simp add: Execute_def Let_def skip p sg m)
  next
    case (TProcess v)
    then show ?thesis by (simp add: EndProcess_def Let_def case_prod_unfold f m split: op_outcome.split)
  next
    case (TDone v)
    then show ?thesis by (simp add: OnVertexDone_def Let_def case_prod_unfold ResetStateGraph_def)
  next
    case (TNotify v i ready)
    then show ?thesis by (simp add: Notify_def Let_def case_prod_unfold m)
  qed simp
  with assms show ?thesis by simp
qed

lemma handle_legal:
  assumes inv: "engine_inv g procs gc (add_mset t rest) l" and g: "runnable g"
    and run: "handle g ch t gc = (gc', ts, evs)" and en: "enabled ch t gc"
    and legal: "legal g (gc_while_ctx gc) l"
  shows "legal g (gc_while_ctx gc) (rev evs @ l)"
proof -
  note e = runnable_edges[OF g]
  have open_log: "\<not> closed l" using engine_invD(8)[OF inv] by (auto simp: log_ok_def)
  show ?thesis
  proof (cases t)
    case (TExecute v)
    with run have x: "Execute g ch v gc = (gc', ts, evs)" by simp
    have invalid: "vx_result (gc_ctx gc v) = V_RESULT_INVALID"
      using running_invalid[OF inv] TExecute by simp
    have q: "quiet v evs" using handle_run[OF inv _ run, of v] TExecute by (auto simp: run_effect_def)
    show ?thesis
    proof (cases "EvStart v \<in> set evs")
      case True
      note st = Execute_start[OF x invalid True]
      obtain evs' where evs': "evs = EvStart v # evs'" "EvStart v \<notin> set evs'" using st(1) by auto
      have "may_start g l v" using start_allowed[OF _ e] inv st(2,3) TExecute by simp
      then have "legal g (gc_while_ctx gc) (EvStart v # l)" using legal open_log by simp
      moreover have "quiet v evs'" using q evs' by (simp add: quiet_def)
      ultimately have "legal g (gc_while_ctx gc) (rev evs' @ EvStart v # l)"
        using evs'(2) open_log by (intro legal_quiet) simp_all
      then show ?thesis using evs'(1) by simp
    qed (use legal_quiet[OF legal open_log q] in simp)
  next
    case (TProcess v)
    then have "quiet v evs" "EvStart v \<notin> set evs"
      using handle_run[OF inv _ run, of v] by (auto simp: run_effect_def)
    then show ?thesis by (rule legal_quiet[OF legal open_log])
  next
    case (TDone v)
    with run have x: "OnVertexDone g v gc = (gc', ts, evs)" by simp
    have inv': "engine_inv g procs gc (add_mset (TDone v) rest) l" using inv TDone by simp
    let ?l = "EvFinish v (vx_result (gc_ctx gc v)) (vx_code (gc_ctx gc v)) # l"
    let ?gc = "gc\<lparr>gc_join_vertex_num := gc_join_vertex_num gc - 1\<rparr>"
    note d = done_inv(1)[OF inv' e]
    have fin: "legal g (gc_while_ctx gc) ?l" using legal open_log finish_allowed[OF inv' e] by simp
    have early: "gc_early_exist_rc gc = early_code ?l" using engine_invD(8)[OF inv] by (simp add: log_ok_def)
    have rd: "round_done g ?l \<longleftrightarrow> dom (finished ?l) = vertices g"
      using engine_invD(7)[OF d] by (intro round_done_iff) (simp add: join_ok_def)
    have ag: "dom (finished ?l) = vertices g \<Longrightarrow> again (gc_while_ctx gc) ?l \<longleftrightarrow> while_again ?gc"
      using again_while[OF d] by simp
    show ?thesis using inv' g x
    proof (cases rule: OnVertexDone_cases)
      case 1
      then show ?thesis using fin by simp
    next
      case 2
      then have "again (gc_while_ctx gc) ?l" using ag by blast
      then show ?thesis using fin 2(1) rd open_log unfolding 2(6) by simp
    next
      case 3
      then have "\<not> again (gc_while_ctx gc) ?l" using ag by blast
      then show ?thesis using fin 3(1) rd open_log early unfolding 3(6) by simp
    qed
  next
    case (TNotify v i ready)
    with run have "evs = []" by (auto simp: Notify_def Let_def split: prod.splits if_splits)
    with legal show ?thesis by simp
  next
    case (TLost v)
    with en show ?thesis by simp
  qed
qed

lemma step_legal:
  assumes "inv_of g procs s" "runnable g" "step g s s'" "legal g (gc_while_ctx (en_ctx s)) (en_log s)"
  shows "legal g (gc_while_ctx (en_ctx s')) (en_log s')"
  using assms(3)
proof (rule step_handle)
  fix t ch rest gc ts evs
  assume h: "en_tasks s = add_mset t rest" "enabled ch t (en_ctx s)" "handle g ch t (en_ctx s) = (gc, ts, evs)"
    "en_ctx s' = gc" "en_log s' = rev evs @ en_log s"
  then show ?thesis
    using handle_legal[OF assms(1)[unfolded h(1)] assms(2) h(3,2) assms(4)] handle_while[OF h(3)] by simp
qed

lemma reachable_legal: "reachable g procs s \<Longrightarrow> runnable g \<Longrightarrow> legal g (gc_while_ctx (en_ctx s)) (en_log s)"
proof (induction rule: reachable.induct)
  case (reachable_step s s')
  then show ?case using step_legal[OF reachable_inv] by blast
qed (simp add: start_def)

end
