(* ===== verification/Progress.thy ===== *)
theory Progress
  imports Execution
begin

text \<open>
  The executor never stops half-way: as long as no future is lost and a vertex is left, something
  can run, and every round ends within a number of steps that the graph fixes.
\<close>

section \<open>Setting up succeeds\<close>

lemma SetupAllSuccessors_total:
  assumes "edges_ok g" "set vs \<subseteq> vertices g" "vertices g \<subseteq> set (gc_vertexs gc)"
  shows "\<exists>gc'. SetupAllSuccessors g vs gc = Some gc'"
  using assms(2,3)
proof (induction vs arbitrary: gc)
  case (Cons v vs)
  then have v: "valid_ref g v" by simp
  have "list_all (\<lambda>w. FindVertexContext gc w \<noteq> None) (succs g v)"
    using edges_okD(2)[OF assms(1) v] Cons.prems(2) by (auto simp: list_all_iff FindVertexContext_def)
  then obtain gc1 where gc1: "SetupSuccessors g v gc = Some gc1" by (simp add: SetupSuccessors_def)
  obtain gc' where "SetupAllSuccessors g vs gc1 = Some gc'"
    using Cons.IH[of gc1] Cons.prems SetupSuccessors_effect(1)[OF gc1] by auto
  with gc1 show ?case by simp
qed simp

text \<open>Some vertex of a graph without a cycle has all its dependencies in a given set.\<close>

lemma minimal_vertex:
  assumes "runnable g" "D \<subseteq> vertices g" "D \<noteq> vertices g"
  obtains v where "valid_ref g v" "v \<notin> D" "\<And>u. depends g v u \<Longrightarrow> u \<in> D"
proof -
  note e = runnable_edges[OF assms(1)]
  have "wf (edge_rel g)"
    using finite_acyclic_wf[OF finite_edge_rel[OF e]] assms(1) by (simp add: runnable_def)
  moreover obtain x where "x \<in> vertices g - D" using assms(2,3) by blast
  ultimately obtain v where v: "v \<in> vertices g - D" "\<And>u. (u, v) \<in> edge_rel g \<Longrightarrow> u \<notin> vertices g - D"
    by (rule wfE_min) blast
  have "u \<in> D" if "depends g v u" for u
  proof -
    have u: "valid_ref g u" using edges_okD(3)[OF e _ that] v(1) by simp
    then have "(u, v) \<in> edge_rel g" using edge_rel_depends[OF e u] v(1) that by simp
    with v(2) u show ?thesis by blast
  qed
  with v(1) that show thesis by blast
qed

lemma SetupContexts_total:
  assumes "runnable g"
  shows "\<exists>gc. SetupContexts g procs = Some gc"
proof -
  note e = runnable_edges[OF assms]
  let ?vs = "remdups (map snd (g_nodes g))"
  define gc0 where "gc0 = \<lparr>gc_vertexs = ?vs,
           gc_ctx = (\<lambda>v. (SetupVertex g (procs v) v)\<lparr>vx_child_idx := map_of (number_children g ?vs 0) v\<rparr>),
           gc_join_vertex_num = 0, gc_start_ctxs = [], gc_while_ctx = None, gc_early_exist_rc = 0\<rparr>"
  have vs: "set ?vs = vertices g" using runnable_vertices[OF assms] by simp
  obtain gc1 where gc1: "SetupAllSuccessors g ?vs gc0 = Some gc1"
    using SetupAllSuccessors_total[OF e, of ?vs gc0] vs by (auto simp: gc0_def)
  have ne: "{} \<noteq> vertices g" using assms vs by (auto simp: runnable_def)
  obtain v where v: "valid_ref g v" "\<And>u. \<not> depends g v u"
  proof (rule minimal_vertex[OF assms, of "{}"])
    show "{} \<subseteq> vertices g" by simp
    show "{} \<noteq> vertices g" by (rule ne)
  qed (use that in blast)
  then have "fst ` set (deps_idx g v) \<subseteq> {}" unfolding depends_def by blast
  then have "deps_idx g v = []" by simp
  with v(1) vs have "Ready (gc_ctx gc1 v)"
    by (simp add: SetupAllSuccessors_effect[OF gc1] gc0_def SetupVertex_def ResetVertex_def ResetState_def
        Ready_def u32_def)
  with v(1) vs have "filter (\<lambda>v. Ready (gc_ctx gc1 v)) ?vs \<noteq> []" by (auto simp: filter_empty_conv)
  with gc1 show ?thesis unfolding SetupContexts_def Let_def gc0_def[symmetric] by simp
qed

section \<open>Nothing is forgotten\<close>

lemma unreported_blocks:
  assumes inv: "engine_inv g procs gc ts l" and e: "edges_ok g" and v: "valid_ref g v"
    and none: "\<And>u i ready. TNotify u i ready \<notin># ts" and deps: "\<And>u. depends g v u \<Longrightarrow> u \<in> dom (finished l)"
  shows "vx_waiting_num (gc_ctx gc v) = 0"
proof -
  note parts = engine_invD[OF inv]
  have "vx_deps_results (gc_ctx gc v) ! k \<noteq> V_RESULT_INVALID" if k: "k < length (deps_idx g v)" for k
  proof -
    have d: "depends g v (dep g v k)" using k depends_iff_dep by blast
    then obtain r c where f: "finished l (dep g v k) = Some (r, c)" using deps by fastforce
    have "valid_ref g (dep g v k)" using edges_okD(3)[OF e v d] .
    with parts(6) f have "good_result (gc_ctx gc (dep g v k))"
      by (auto simp: results_ok_def result_ok_def dest: spec[of _ "dep g v k"])
    moreover have "reported g ts l (dep g v k) v" using f none by (simp add: reported_def pending_def)
    ultimately show ?thesis using parts(3) v k by (auto simp: slots_ok_def good_result_def)
  qed
  then show ?thesis
    using parts(2) v length_filter_eq_0_iff[of "\<lambda>r. r = V_RESULT_INVALID" "vx_deps_results (gc_ctx gc v)"]
    by (simp add: counters_ok_def)
qed

lemma no_tasks_all_done:
  assumes inv: "engine_inv g procs gc {#} l" and g: "runnable g"
  shows "dom (finished l) = vertices g"
proof (rule ccontr)
  assume ne: "dom (finished l) \<noteq> vertices g"
  have sub: "dom (finished l) \<subseteq> vertices g" using engine_invD(7)[OF inv] by (simp add: join_ok_def)
  obtain v where v: "valid_ref g v" "v \<notin> dom (finished l)" "\<And>u. depends g v u \<Longrightarrow> u \<in> dom (finished l)"
    by (rule minimal_vertex[OF g sub ne]) blast
  have "vx_waiting_num (gc_ctx gc v) = 0"
    using unreported_blocks[OF inv runnable_edges[OF g] v(1) _ v(3)] by simp
  moreover have "finished l v = None" using v(2) by auto
  ultimately show False using tokens_okD[OF engine_invD(4)[OF inv] v(1)] by (simp add: token_ok_def)
qed

text \<open>A graph whose vertices are all done has called its closure; a step keeps that.\<close>

lemma step_all_done:
  assumes inv: "inv_of g procs s" and g: "runnable g" and st: "step g s s'"
    and before: "dom (finished (en_log s)) = vertices g \<Longrightarrow> closed (en_log s)"
    and d: "dom (finished (en_log s')) = vertices g"
  shows "closed (en_log s')"
  using st
proof (rule step_handle)
  fix t ch rest gc ts evs
  assume h: "en_tasks s = add_mset t rest" "enabled ch t (en_ctx s)" "handle g ch t (en_ctx s) = (gc, ts, evs)"
    "en_log s' = rev evs @ en_log s"
  have inv': "engine_inv g procs (en_ctx s) (add_mset t rest) (en_log s)" using inv h(1) by simp
  have "\<not> closed (en_log s)" using engine_invD(8)[OF inv'] by (auto simp: log_ok_def)
  then have open_s: "dom (finished (en_log s)) \<noteq> vertices g" using before by blast
  show ?thesis
  proof (cases "\<exists>v. t = TDone v")
    case True
    then obtain v where t: "t = TDone v" by blast
    from h(3) t have x: "OnVertexDone g v (en_ctx s) = (gc, ts, evs)" by simp
    have i: "engine_inv g procs (en_ctx s) (add_mset (TDone v) rest) (en_log s)" using inv' t by simp
    show ?thesis using i g x
    proof (cases rule: OnVertexDone_cases)
      case 1
      then show ?thesis using d by (simp only: h(4))
    next
      case 2
      have "vertices g \<noteq> {}" using engine_invD(5)[OF i] by (auto simp: tasks_ok_def)
      with d show ?thesis by (simp add: h(4) 2(6))
    next
      case 3
      then show ?thesis by (simp add: h(4))
    qed
  next
    case False
    have same: "finished (rev evs @ en_log s) = finished (en_log s)"
      by (rule handle_finished[OF inv' h(3,2)]) (use False in blast)
    show ?thesis using d open_s same h(4) by simp
  qed
qed

lemma vertices_nonempty: "runnable g \<Longrightarrow> vertices g \<noteq> {}"
  using runnable_vertices by (simp add: runnable_def)

lemma all_done_closed:
  assumes "reachable g procs s" "runnable g" "dom (finished (en_log s)) = vertices g"
  shows "closed (en_log s)"
  using assms
proof (induction rule: reachable.induct)
  case (reachable_start gc)
  then show ?case using vertices_nonempty[of g] by (auto simp: start_def)
next
  case (reachable_step s s')
  then show ?case using step_all_done[OF reachable_inv] by blast
qed

end
