(* ===== verification/Bounds.thy ===== *)
theory Bounds
  imports Progress
begin

text \<open>
  How long a round can be. Every task costs what can still come of it: a vertex costs three steps
  and one for each successor, paid when it runs; a report to a successor costs one step. A step
  lowers what is left, unless it begins another round of a while graph.
\<close>

definition cost :: "graph \<Rightarrow> vref \<Rightarrow> nat" where
  "cost g v = 3 + length (succs g v)"

fun weight :: "graph \<Rightarrow> task \<Rightarrow> nat" where
  "weight g (TExecute v) = cost g v"
| "weight g (TProcess v) = cost g v - 1"
| "weight g (TDone v) = cost g v - 2"
| "weight g (TLost v) = cost g v - 2"
| "weight g (TNotify v i ready) = (length (succs g v) - i) + sum_list (map (cost g) ready)"

definition work :: "graph \<Rightarrow> task multiset \<Rightarrow> nat" where
  "work g ts = sum_mset (image_mset (weight g) ts)"

definition waiting :: "graph \<Rightarrow> graph_ctx \<Rightarrow> nat" where
  "waiting g gc = sum (cost g) {v \<in> vertices g. vx_waiting_num (gc_ctx gc v) \<noteq> 0}"

definition round_cost :: "graph \<Rightarrow> nat" where
  "round_cost g = sum (cost g) (vertices g)"

fun loops :: "event list \<Rightarrow> nat" where
  "loops [] = 0"
| "loops (EvLoop # l) = Suc (loops l)"
| "loops (_ # l) = loops l"

lemma work_simps [simp]:
  "work g {#} = 0" "work g (add_mset t ts) = weight g t + work g ts" "work g (A + B) = work g A + work g B"
  by (simp_all add: work_def)

lemma work_executes [simp]: "work g (mset (map TExecute vs)) = sum_list (map (cost g) vs)"
  by (induction vs) simp_all

lemma work_image_executes [simp]: "work g (image_mset TExecute (mset vs)) = sum_list (map (cost g) vs)"
  by (induction vs) simp_all

lemma loops_quiet: "quiet v evs \<Longrightarrow> loops (rev evs @ l) = loops l"
proof (induction evs rule: rev_induct)
  case (snoc e evs)
  then have "quiet v evs" "e \<in> {EvStart v, EvCollect v, EvMove v, EvChild v} \<union> range EvEarly"
    by (auto simp: quiet_def)
  with snoc.IH show ?case by auto
qed simp

lemma round_cost_edges: "round_cost g = 3 * (length (g_vertex g) + length (g_gen_vertex g))
    + sum (\<lambda>v. length (succs g v)) (vertices g)"
  by (simp add: round_cost_def cost_def sum.distrib card_vertices)

lemma waiting_cong:
  "(\<And>v. valid_ref g v \<Longrightarrow> vx_waiting_num (gc_ctx gc' v) = vx_waiting_num (gc_ctx gc v)) \<Longrightarrow>
    waiting g gc' = waiting g gc"
  unfolding waiting_def by (rule sum.cong) auto

lemma finite_vertices: "finite (vertices g)"
  by (simp add: finite_valid)

text \<open>The start of a round costs one round.\<close>

lemma start_cost:
  assumes "static_ok g procs gc" "reset_ok g gc"
  shows "sum_list (map (cost g) (gc_start_ctxs gc)) + waiting g gc = round_cost g"
proof -
  have s: "distinct (gc_start_ctxs gc)"
    "set (gc_start_ctxs gc) = {v \<in> vertices g. vx_waiting_num (gc_ctx gc v) = 0}"
    using assms by (auto simp: static_ok_def reset_ok_def)
  then have "sum_list (map (cost g) (gc_start_ctxs gc))
      = sum (cost g) {v \<in> vertices g. vx_waiting_num (gc_ctx gc v) = 0}"
    by (simp add: sum_list_distinct_conv_sum_set)
  moreover have "round_cost g = sum (cost g) {v \<in> vertices g. vx_waiting_num (gc_ctx gc v) = 0}
      + sum (cost g) {v \<in> vertices g. vx_waiting_num (gc_ctx gc v) \<noteq> 0}"
    unfolding round_cost_def using finite_vertices[of g]
    by (subst sum.union_disjoint[symmetric]) (auto intro: sum.cong)
  ultimately show ?thesis by (simp add: waiting_def)
qed

text \<open>What each handler takes.\<close>

lemma run_work:
  assumes "t \<in> {TExecute v, TProcess v}" "next_task v t'" "t = TProcess v \<longrightarrow> t' \<noteq> TProcess v"
  shows "weight g t' + 1 \<le> weight g t"
  using assms by (auto simp: next_task_def cost_def)

lemma reports_work: "work g (reports g v) + 1 = weight g (TDone v)"
  by (simp add: reports_def cost_def)

lemma told_work:
  assumes "i < length (succs g v)"
  shows "work g (told_tasks g v i ready) + 1 = (length (succs g v) - i) + sum_list (map (cost g) ready)"
  using assms by (auto simp: told_tasks_def)

lemma Notify_work:
  assumes inv: "engine_inv g procs gc (add_mset (TNotify v i ready) rest) l" and e: "edges_ok g"
    and run: "Notify v i ready gc = (gc', ts, evs)"
  shows "work g (mset ts) + waiting g gc' + 1 = weight g (TNotify v i ready) + waiting g gc" "evs = []"
proof -
  define w where "w = succs g v ! i"
  note pre = notify_pre[OF inv e, folded w_def]
  obtain k where gc': "gc' = modify_ctx w (\<lambda>c. c\<lparr>vx_deps_results := (vx_deps_results c)[k := vx_result (gc_ctx gc v)],
                vx_waiting_num := vx_waiting_num c - 1\<rparr>) gc"
    and ts: "mset ts = told_tasks g v i (if vx_waiting_num (gc_ctx gc w) = 1 then ready @ [w] else ready)"
    and evs: "evs = []"
    using Notify_effect[OF inv e run, folded w_def] by blast
  show "evs = []" by (rule evs)
  have new: "{u \<in> vertices g. vx_waiting_num (gc_ctx gc' u) \<noteq> 0} =
      {u \<in> vertices g. vx_waiting_num (gc_ctx gc u) \<noteq> 0} - (if vx_waiting_num (gc_ctx gc w) = 1 then {w} else {})"
    using pre(11) by (auto simp: gc' modify_ctx_def)
  have "waiting g gc = waiting g gc' + (if vx_waiting_num (gc_ctx gc w) = 1 then cost g w else 0)"
    unfolding waiting_def new using pre(2) finite_vertices[of g] by (simp add: sum.remove[of _ w])
  then show "work g (mset ts) + waiting g gc' + 1 = weight g (TNotify v i ready) + waiting g gc"
    using told_work[OF pre(5)] by (simp add: ts)
qed

lemma OnVertexDone_work:
  assumes inv: "engine_inv g procs gc (add_mset (TDone v) rest) l" and g: "runnable g"
    and run: "OnVertexDone g v gc = (gc', ts, evs)"
  shows "work g (mset ts) + waiting g gc' + 1 + round_cost g * loops l
      \<le> weight g (TDone v) + waiting g gc + round_cost g * loops (rev evs @ l)"
  using inv g run
proof (cases rule: OnVertexDone_cases)
  case 1
  then have "waiting g gc' = waiting g gc" by (simp add: waiting_def)
  with 1 reports_work[of g v] show ?thesis by simp
next
  case 2
  have st: "static_ok g procs (gc\<lparr>gc_join_vertex_num := gc_join_vertex_num gc - 1\<rparr>)"
    using engine_invD(1)[OF inv] by (simp add: static_ok_def)
  note r = ResetStateGraph_ok(1,2)[OF g st, folded 2(3)]
  have "work g (mset ts) + waiting g gc' = round_cost g"
    using start_cost[OF r] by (simp only: 2(5) work_executes)
  moreover have "1 \<le> weight g (TDone v)" by (simp add: cost_def)
  ultimately show ?thesis by (simp add: 2(6))
next
  case 3
  then have "waiting g gc' = waiting g gc" "1 \<le> weight g (TDone v)" by (simp_all add: waiting_def cost_def)
  with 3 show ?thesis by simp
qed

definition left :: "graph \<Rightarrow> engine \<Rightarrow> nat" where
  "left g s = work g (en_tasks s) + waiting g (en_ctx s)"

lemma step_left:
  assumes inv: "inv_of g procs s" and g: "runnable g" and st: "step g s s'"
  shows "left g s' + 1 + round_cost g * loops (en_log s) \<le> left g s + round_cost g * loops (en_log s')"
  using st
proof (rule step_handle)
  fix t ch rest gc ts evs
  assume h: "en_tasks s = add_mset t rest" "enabled ch t (en_ctx s)" "handle g ch t (en_ctx s) = (gc, ts, evs)"
      "en_ctx s' = gc" "en_tasks s' = rest + mset ts" "en_log s' = rev evs @ en_log s"
  have inv': "engine_inv g procs (en_ctx s) (add_mset t rest) (en_log s)" using inv h(1) by simp
  have r: ?thesis if t: "t \<in> {TExecute v, TProcess v}" for v
  proof -
    obtain t' where t': "ts = [t']" "run_effect v (en_ctx s) gc t' evs" "t = TProcess v \<longrightarrow> t' \<noteq> TProcess v"
      using handle_run[OF inv' t h(3)] by blast
    then have e: "local_effect v (en_ctx s) gc" "quiet v evs" "next_task v t'" by (simp_all add: run_effect_def)
    have "waiting g gc = waiting g (en_ctx s)" by (rule waiting_cong) (simp add: local_effect_other[OF e(1)])
    with run_work[OF t e(3) t'(3)] loops_quiet[OF e(2)] t'(1) show ?thesis by (simp add: left_def h)
  qed
  show ?thesis
  proof (cases t)
    case (TDone v)
    with h(3) have x: "OnVertexDone g v (en_ctx s) = (gc, ts, evs)" by simp
    show ?thesis using OnVertexDone_work[OF inv'[unfolded TDone] g x] by (simp add: left_def h TDone)
  next
    case (TNotify v i ready)
    with h(3) have x: "Notify v i ready (en_ctx s) = (gc, ts, evs)" by simp
    show ?thesis using Notify_work[OF inv'[unfolded TNotify] runnable_edges[OF g] x]
      by (simp add: left_def h TNotify)
  next
    case (TLost v)
    with h(2) show ?thesis by simp
  qed (use r in blast)+
qed

lemma run_left:
  assumes "run g ms s = Some s'" "inv_of g procs s" "runnable g"
  shows "left g s' + length ms + round_cost g * loops (en_log s) \<le> left g s + round_cost g * loops (en_log s')"
  using assms(1,2)
proof (induction ms arbitrary: s)
  case (Cons m ms)
  obtain t ch where m: "m = (t, ch)" by fastforce
  with Cons.prems have st: "step g s (after g ch t s)" "run g ms (after g ch t s) = Some s'"
    by (auto intro: step.intros split: if_splits)
  note step_left[OF Cons.prems(2) assms(3) st(1)]
  with Cons.IH[OF st(2) step_inv[OF Cons.prems(2) assms(3) st(1)]] show ?case by simp
qed simp

lemma start_left:
  assumes "runnable g" "SetupContexts g procs = Some gc"
  shows "left g (start gc) = round_cost g"
  using start_cost[OF SetupContexts_ok(1,2)[OF assms]] start_tasks[OF SetupContexts_ok(1)[OF assms]]
  by (simp add: left_def start_def)

lemma run_bound:
  assumes "runnable g" "SetupContexts g procs = Some gc" "run g ms (start gc) = Some s"
  shows "length ms \<le> (loops (en_log s) + 1) * round_cost g"
  using run_left[OF assms(3) start_inv[OF assms(1,2)] assms(1)] start_left[OF assms(1,2)]
  by (simp add: start_def algebra_simps)

end
