(* ===== verification/Determinism.thy ===== *)
theory Determinism
  imports Bounds
begin

text \<open>
  The results of a round do not depend on the order in which the executor runs its tasks. When
  what the operators and the store answer is fixed for each vertex, no code ends the graph early
  and the graph is no while graph, every vertex finishes with the result and code that a
  sequential evaluation of its dependencies gives.
\<close>

section \<open>A sequential evaluator\<close>

definition outcome_code :: "op_outcome \<Rightarrow> int" where
  "outcome_code out = (case out of Returned rc \<Rightarrow> rc | _ \<Rightarrow> V_CODE_ERR)"

definition adjusted :: "vertex \<Rightarrow> int \<Rightarrow> int" where
  "adjusted n code = (if v_ignore_processor_execute_error n \<and> \<not> IsCondVertex n then 0 else code)"

definition with_result :: "int \<Rightarrow> vresult \<times> int" where
  "with_result code = (if code \<noteq> 0 then V_RESULT_ERR else V_RESULT_OK, code)"

definition guards_pass :: "vertex \<Rightarrow> processor_info option \<Rightarrow> choice \<Rightarrow> vresult list \<Rightarrow> bool" where
  "guards_pass n p ch rs = ((p \<noteq> None \<or> (v_cluster n \<noteq> [] \<and> ch_cluster_found ch))
     \<and> match_deps rs (v_deps_expected_results n) \<and> match_expect_config (ch_bool ch) (v_expect_config n)
     \<and> \<not> ch_timeout ch)"

definition runs :: "vertex \<Rightarrow> processor_info option \<Rightarrow> choice \<Rightarrow> vresult list \<Rightarrow> bool" where
  "runs n p ch rs = (guards_pass n p ch rs
     \<and> (if p \<noteq> None then ch_inject_rc ch = 0 else ch_graph_found ch))"

definition vertex_outcome ::
  "graph \<Rightarrow> vref \<Rightarrow> processor_info option \<Rightarrow> choice \<Rightarrow> vresult list \<Rightarrow> vresult \<times> int" where
  "vertex_outcome g v p ch rs =
    (let n = deref g v in
     if runs n p ch rs then with_result (adjusted n (outcome_code (ch_outcome ch)))
     else if \<not> guards_pass n p ch rs
     then (if g_vertex_skip_as_error g then V_RESULT_ERR else V_RESULT_SKIP, V_CODE_SKIP)
     else if p \<noteq> None then with_result V_CODE_SKIP
     else with_result (adjusted n (-1)))"

fun eval_vertex ::
  "graph \<Rightarrow> (vref \<Rightarrow> processor_info option) \<Rightarrow> (vref \<Rightarrow> choice) \<Rightarrow> nat \<Rightarrow> vref \<Rightarrow> vresult \<times> int" where
  "eval_vertex g procs orc 0 v = (V_RESULT_INVALID, V_CODE_INVALID)"
| "eval_vertex g procs orc (Suc n) v =
    vertex_outcome g v (procs v) (orc v)
      (map (\<lambda>(u, i). fst (eval_vertex g procs orc n u)) (deps_idx g v))"

text \<open>A run whose decisions are those of the oracle.\<close>

fun decided :: "(vref \<Rightarrow> choice) \<Rightarrow> task \<times> choice \<Rightarrow> bool" where
  "decided orc (TExecute v, ch) = (ch = orc v)"
| "decided orc (TProcess v, ch) = (ch = orc v)"
| "decided orc _ = True"

section \<open>What the contexts hold\<close>

definition ctx_follows ::
  "graph \<Rightarrow> (vref \<Rightarrow> processor_info option) \<Rightarrow> (vref \<Rightarrow> choice) \<Rightarrow> vref \<Rightarrow> vertex_ctx \<Rightarrow> task multiset
   \<Rightarrow> (vresult \<times> int) option \<Rightarrow> bool" where
  "ctx_follows g procs orc v cx ts fin =
    (case fin of
       Some x \<Rightarrow> x = vertex_outcome g v (procs v) (orc v) (vx_deps_results cx)
     | None \<Rightarrow>
         if TDone v \<in># ts then (vx_result cx, vx_code cx) = vertex_outcome g v (procs v) (orc v) (vx_deps_results cx)
         else if TProcess v \<in># ts then runs (deref g v) (procs v) (orc v) (vx_deps_results cx)
         else if TLost v \<in># ts then True
         else \<not> vx_subgraph_cluster cx \<and> \<not> vx_subgraph_ctx cx)"

definition follows ::
  "graph \<Rightarrow> (vref \<Rightarrow> processor_info option) \<Rightarrow> (vref \<Rightarrow> choice) \<Rightarrow> graph_ctx \<Rightarrow> task multiset \<Rightarrow> event list \<Rightarrow> bool" where
  "follows g procs orc gc ts l =
    (\<forall>v. valid_ref g v \<longrightarrow> ctx_follows g procs orc v (gc_ctx gc v) ts (finished l v))"

text \<open>\<open>FinishVertexProcess\<close> when nothing ends the graph early.\<close>

lemma FinishVertexProcess_code:
  assumes "FinishVertexProcess g v code adj gc = (gc', evs)" "gc_early_exist_rc gc' = 0"
  shows "vx_code (gc_ctx gc' v) = (if adj then adjusted (deref g v) code else code)"
    "vx_result (gc_ctx gc' v) =
      (if vx_code (gc_ctx gc' v) \<noteq> 0
       then (if vx_result (gc_ctx gc v) = V_RESULT_INVALID then V_RESULT_ERR else vx_result (gc_ctx gc v))
       else V_RESULT_OK)"
    "vx_deps_results (gc_ctx gc' v) = vx_deps_results (gc_ctx gc v)"
    "gc_early_exist_rc gc = 0"
proof -
  let ?early = "adj \<and> code \<noteq> 0 \<and> (v_early_exit_graph_if_failed (deref g v) \<or> g_early_exit_graph_if_failed g)"
  have no: "\<not> ?early"
  proof
    assume early: ?early
    then have "gc_early_exist_rc (SetEarlyExitCode code gc) \<noteq> 0" by (simp add: SetEarlyExitCode_def)
    with early assms show False by (auto simp: FinishVertexProcess_def Let_def modify_ctx_def)
  qed
  define code1 where "code1 = (if adj then adjusted (deref g v) code else code)"
  have gc': "gc' = modify_ctx v (\<lambda>c. c\<lparr>vx_code := code1,
                  vx_exec_rc := (if vx_exec_rc c = INT_MAX then code1 else vx_exec_rc c),
                  vx_result := (if code1 \<noteq> 0
                     then (if vx_result c = V_RESULT_INVALID then V_RESULT_ERR else vx_result c)
                     else V_RESULT_OK)\<rparr>) gc"
    using assms(1) no unfolding FinishVertexProcess_def Let_def code1_def adjusted_def if_not_P[OF no]
    by (simp only: prod.inject if_False simp_thms split: if_split_asm)
  show "vx_code (gc_ctx gc' v) = (if adj then adjusted (deref g v) code else code)"
    "vx_result (gc_ctx gc' v) =
      (if vx_code (gc_ctx gc' v) \<noteq> 0
       then (if vx_result (gc_ctx gc v) = V_RESULT_INVALID then V_RESULT_ERR else vx_result (gc_ctx gc v))
       else V_RESULT_OK)"
    "vx_deps_results (gc_ctx gc' v) = vx_deps_results (gc_ctx gc v)"
    using code1_def by (simp_all add: gc' modify_ctx_def)
  show "gc_early_exist_rc gc = 0" using assms(2) by (simp add: gc' modify_ctx_def)
qed

lemma skip_vertex_outcome:
  assumes "skip_vertex g v gc = (gc', ts, evs)" "gc_early_exist_rc gc' = 0"
  shows "ts = [TDone v]" "vx_code (gc_ctx gc' v) = V_CODE_SKIP"
    "vx_result (gc_ctx gc' v) = (if g_vertex_skip_as_error g then V_RESULT_ERR else V_RESULT_SKIP)"
    "gc_early_exist_rc gc = 0"
proof -
  let ?gc2 = "modify_ctx v (\<lambda>c. c\<lparr>vx_result :=
                  (if g_vertex_skip_as_error g then V_RESULT_ERR else V_RESULT_SKIP),
                  vx_code := V_CODE_SKIP\<rparr>) gc"
  have f: "FinishVertexProcess g v V_CODE_SKIP False ?gc2 = (gc', evs)" and "ts = [TDone v]"
    using assms(1) by (auto simp: skip_vertex_def case_prod_unfold Let_def prod_eq_iff)
  then show "ts = [TDone v]" by simp
  note c = FinishVertexProcess_code[OF f assms(2)]
  have ne: "V_CODE_SKIP \<noteq> 0" by (simp add: V_CODE_SKIP_def)
  show "vx_code (gc_ctx gc' v) = V_CODE_SKIP" using c(1) by simp
  show "vx_result (gc_ctx gc' v) = (if g_vertex_skip_as_error g then V_RESULT_ERR else V_RESULT_SKIP)"
    using c(1,2) ne by (simp add: modify_ctx_def)
  show "gc_early_exist_rc gc = 0" using c(4) by (simp add: modify_ctx_def)
qed

text \<open>A vertex that was not done finishes with the result of its code.\<close>

lemma finish_outcome:
  assumes "FinishVertexProcess g v code adj gc = (gc', evs)" "gc_early_exist_rc gc' = 0"
    and "vx_result (gc_ctx gc v) = V_RESULT_INVALID"
  shows "(vx_result (gc_ctx gc' v), vx_code (gc_ctx gc' v))
      = with_result (if adj then adjusted (deref g v) code else code)"
  using FinishVertexProcess_code(1,2)[OF assms(1,2)] assms(3) by (simp add: with_result_def)

lemma Execute_outcome:
  assumes ex: "Execute g ch v gc = (gc', ts, evs)" and early: "gc_early_exist_rc gc' = 0"
    and r: "vx_result (gc_ctx gc v) = V_RESULT_INVALID"
    and fresh: "\<not> vx_subgraph_cluster (gc_ctx gc v)" "\<not> vx_subgraph_ctx (gc_ctx gc v)"
  defines "rs \<equiv> vx_deps_results (gc_ctx gc v)" and "p \<equiv> vx_processor (gc_ctx gc v)"
  shows "ts = [TProcess v] \<and> runs (deref g v) p ch rs
    \<or> ts = [TDone v] \<and> (vx_result (gc_ctx gc' v), vx_code (gc_ctx gc' v)) = vertex_outcome g v p ch rs"
proof -
  define gc1 where "gc1 = (if v_cluster (deref g v) \<noteq> [] \<and> \<not> vx_subgraph_cluster (gc_ctx gc v)
               then modify_ctx v (\<lambda>c. c\<lparr>vx_subgraph_cluster := ch_cluster_found ch\<rparr>) gc else gc)"
  have s: "vx_deps_results (gc_ctx gc1 v) = rs" "vx_processor (gc_ctx gc1 v) = p"
    "vx_result (gc_ctx gc1 v) = V_RESULT_INVALID" "\<not> vx_subgraph_ctx (gc_ctx gc1 v)"
    "vx_subgraph_cluster (gc_ctx gc1 v) \<longleftrightarrow> v_cluster (deref g v) \<noteq> [] \<and> ch_cluster_found ch"
    using r fresh by (auto simp: gc1_def modify_ctx_def rs_def p_def)
  have ex1: "(if \<not> guards_pass (deref g v) p ch rs \<or> gc_early_exist_rc gc1 \<noteq> 0 then skip_vertex g v gc1
        else if p \<noteq> None then ExecuteProcessor g ch v gc1 else ExecuteSubGraph g ch v gc1) = (gc', ts, evs)"
    using ex unfolding Execute_def Let_def gc1_def[symmetric] s(1,2,5) guards_pass_def
    by (simp split: if_split_asm) blast
  show ?thesis
  proof (cases "guards_pass (deref g v) p ch rs \<and> gc_early_exist_rc gc1 = 0")
    case False
    then have "skip_vertex g v gc1 = (gc', ts, evs)" using ex1 by auto
    note k = skip_vertex_outcome[OF this early]
    with False have "\<not> guards_pass (deref g v) p ch rs" by simp
    with k show ?thesis by (simp add: vertex_outcome_def runs_def)
  next
    case g: True
    show ?thesis
    proof (cases "p = None")
      case False
      with ex1 g have x: "ExecuteProcessor g ch v gc1 = (gc', ts, evs)" by simp
      show ?thesis
      proof (cases "ch_inject_rc ch = 0")
        case True
        with x g False show ?thesis by (auto simp: ExecuteProcessor_def runs_def)
      next
        case inj: False
        with x have "FinishVertexProcess g v V_CODE_SKIP False gc1 = (gc', evs)" "ts = [TDone v]"
          by (auto simp: ExecuteProcessor_def case_prod_unfold Let_def prod_eq_iff)
        with finish_outcome[OF this(1) early s(3)] g False inj show ?thesis
          by (simp add: vertex_outcome_def runs_def Let_def)
      qed
    next
      case none: True
      with ex1 g have x: "ExecuteSubGraph g ch v gc1 = (gc', ts, evs)" by simp
      show ?thesis
      proof (cases "ch_graph_found ch")
        case True
        with x g none show ?thesis by (auto simp: ExecuteSubGraph_def runs_def)
      next
        case nog: False
        with x s(4) obtain evs' where "FinishVertexProcess g v (-1) True gc1 = (gc', evs')" "ts = [TDone v]"
          by (auto simp: ExecuteSubGraph_def split: prod.splits)
        with finish_outcome[OF this(1) early s(3)] g none nog show ?thesis
          by (simp add: vertex_outcome_def runs_def Let_def)
      qed
    qed
  qed
qed

lemma EndProcess_outcome:
  assumes "EndProcess g out v gc = (gc', ts, evs)" "gc_early_exist_rc gc' = 0"
    and "vx_result (gc_ctx gc v) = V_RESULT_INVALID"
  shows "ts = [TLost v] \<or> ts = [TDone v] \<and>
    (vx_result (gc_ctx gc' v), vx_code (gc_ctx gc' v)) = with_result (adjusted (deref g v) (outcome_code out))"
proof (cases "out = FutureFailed")
  case True
  with assms(1) show ?thesis by (simp add: EndProcess_def)
next
  case False
  define gc1 where "gc1 = (if vx_processor (gc_ctx gc v) \<noteq> None
                  then modify_ctx v (\<lambda>c. c\<lparr>vx_exec_rc := outcome_code out\<rparr>) gc else gc)"
  have f: "FinishVertexProcess g v (outcome_code out) True gc1 = (gc', evs)" and ts: "ts = [TDone v]"
    using assms(1) False
    by (auto simp: EndProcess_def outcome_code_def gc1_def Let_def split: op_outcome.splits prod.splits)
  have "vx_result (gc_ctx gc1 v) = V_RESULT_INVALID" using assms(3) by (simp add: gc1_def modify_ctx_def)
  with finish_outcome[OF f assms(2)] ts show ?thesis by simp
qed

section \<open>Every step follows the oracle\<close>

lemma ctx_follows_same:
  assumes "TDone v \<in># ts' \<longleftrightarrow> TDone v \<in># ts" "TProcess v \<in># ts' \<longleftrightarrow> TProcess v \<in># ts"
    "TLost v \<in># ts' \<longleftrightarrow> TLost v \<in># ts"
  shows "ctx_follows g procs orc v cx ts' fin = ctx_follows g procs orc v cx ts fin"
  using assms by (simp add: ctx_follows_def split: option.split)

lemma follows_run:
  assumes inv: "engine_inv g procs gc (add_mset t rest) l" and t: "t \<in> {TExecute v, TProcess v}"
    and run: "handle g (orc v) t gc = (gc', ts, evs)" and early: "gc_early_exist_rc gc' = 0"
    and fol: "follows g procs orc gc (add_mset t rest) l"
  shows "follows g procs orc gc' (rest + mset ts) (rev evs @ l)"
proof -
  have v: "valid_ref g v" using inv by (rule valid_token) (use t in auto)
  have "0 < tok v t" using t by auto
  note single = single_token[OF inv v this]
  have gone: "TDone v \<notin># rest" "TProcess v \<notin># rest" "TLost v \<notin># rest"
    using no_token[OF single(4)] by auto
  obtain t' where t': "ts = [t']" "run_effect v gc gc' t' evs" using handle_run[OF inv t run] by blast
  then have e: "local_effect v gc gc'" "quiet v evs" "next_task v t'" by (simp_all add: run_effect_def)
  note r = running_invalid[OF inv t]
  have p: "vx_processor (gc_ctx gc v) = procs v" using engine_invD(1)[OF inv] v by (simp add: static_ok_def)
  have deps: "vx_deps_results (gc_ctx gc' v) = vx_deps_results (gc_ctx gc v)" using e(1) by (simp add: local_effect_def)
  have fin: "finished (rev evs @ l) = finished l" using quiet_log[OF e(2)] by simp
  have here: "ctx_follows g procs orc v (gc_ctx gc v) (add_mset t rest) (finished l v)"
    using fol v by (simp add: follows_def)
  have new: "ctx_follows g procs orc v (gc_ctx gc' v) (rest + mset ts) (finished (rev evs @ l) v)"
  proof (cases "t = TExecute v")
    case True
    have "\<not> vx_subgraph_cluster (gc_ctx gc v)" "\<not> vx_subgraph_ctx (gc_ctx gc v)"
      using here gone single(1) True by (simp_all add: ctx_follows_def)
    with Execute_outcome[of g "orc v" v gc gc' ts evs] run True early r t'(1)
    have "t' = TProcess v \<and> runs (deref g v) (procs v) (orc v) (vx_deps_results (gc_ctx gc v))
      \<or> t' = TDone v \<and> (vx_result (gc_ctx gc' v), vx_code (gc_ctx gc' v))
           = vertex_outcome g v (procs v) (orc v) (vx_deps_results (gc_ctx gc v))"
      by (simp add: p)
    with gone single(1) show ?thesis by (auto simp: ctx_follows_def fin deps t'(1))
  next
    case False
    with t have tp: "t = TProcess v" by simp
    then have runs: "runs (deref g v) (procs v) (orc v) (vx_deps_results (gc_ctx gc v))"
      using here gone single(1) by (simp add: ctx_follows_def)
    with EndProcess_outcome[of g "ch_outcome (orc v)" v gc gc' ts evs] run tp early r t'(1)
    have "t' = TLost v \<or> t' = TDone v \<and> (vx_result (gc_ctx gc' v), vx_code (gc_ctx gc' v))
           = vertex_outcome g v (procs v) (orc v) (vx_deps_results (gc_ctx gc v))"
      by (simp add: vertex_outcome_def)
    with gone single(1) show ?thesis by (auto simp: ctx_follows_def fin deps t'(1))
  qed
  have "ctx_follows g procs orc u (gc_ctx gc' u) (rest + mset ts) (finished (rev evs @ l) u)"
    if u: "valid_ref g u" "u \<noteq> v" for u
  proof -
    have same: "gc_ctx gc' u = gc_ctx gc u" using e(1) u(2) by (simp add: local_effect_def)
    have "ctx_follows g procs orc u (gc_ctx gc u) (add_mset t rest) (finished l u)"
      using fol u(1) by (simp add: follows_def)
    moreover have "ctx_follows g procs orc u (gc_ctx gc u) (rest + mset ts) (finished l u)
        = ctx_follows g procs orc u (gc_ctx gc u) (add_mset t rest) (finished l u)"
      using u(2) t e(3) t'(1) by (intro ctx_follows_same) (auto simp: next_task_def)
    ultimately show ?thesis by (simp only: same fin)
  qed
  with new show ?thesis unfolding follows_def by blast
qed

lemma follows_Notify:
  assumes inv: "engine_inv g procs gc (add_mset (TNotify v i ready) rest) l" and e: "edges_ok g"
    and run: "Notify v i ready gc = (gc', ts, evs)"
    and fol: "follows g procs orc gc (add_mset (TNotify v i ready) rest) l"
  shows "follows g procs orc gc' (rest + mset ts) (rev evs @ l)"
proof -
  define w where "w = succs g v ! i"
  note pre = notify_pre[OF inv e, folded w_def]
  let ?ready' = "if vx_waiting_num (gc_ctx gc w) = 1 then ready @ [w] else ready"
  obtain k where gc': "gc' = modify_ctx w (\<lambda>c. c\<lparr>vx_deps_results := (vx_deps_results c)[k := vx_result (gc_ctx gc v)],
                vx_waiting_num := vx_waiting_num c - 1\<rparr>) gc"
    and ts: "mset ts = told_tasks g v i ?ready'" and evs: "evs = []"
    using Notify_effect[OF inv e run, folded w_def] by blast
  note told = told_tasks_simps(4-6)[OF pre(5), of _ ?ready', folded ts]
  have gone: "TDone w \<notin># rest" "TProcess w \<notin># rest" "TLost w \<notin># rest"
    using no_token[OF pre(8)] by auto
  have "ctx_follows g procs orc u (gc_ctx gc' u) (rest + mset ts) (finished (rev evs @ l) u)"
    if u: "valid_ref g u" for u
  proof -
    have old: "ctx_follows g procs orc u (gc_ctx gc u) (rest + mset ts) (finished l u)"
      using fol u ctx_follows_same[of u "rest + mset ts" "add_mset (TNotify v i ready) rest"] told
      by (simp add: follows_def)
    show ?thesis
    proof (cases "u = w")
      case True
      with old pre(4) gone told show ?thesis by (simp add: ctx_follows_def gc' modify_ctx_def evs)
    next
      case False
      with old show ?thesis by (simp add: gc' modify_ctx_def evs)
    qed
  qed
  then show ?thesis unfolding follows_def by blast
qed

lemma follows_OnVertexDone:
  assumes inv: "engine_inv g procs gc (add_mset (TDone v) rest) l" and g: "runnable g"
    and run: "OnVertexDone g v gc = (gc', ts, evs)" and noloop: "loops (rev evs @ l) = 0"
    and fol: "follows g procs orc gc (add_mset (TDone v) rest) l"
  shows "follows g procs orc gc' (rest + mset ts) (rev evs @ l)"
proof -
  have v: "valid_ref g v" using inv by (rule valid_token) simp
  note single = single_token[OF inv v]
  have f: "finished l v = None" using single(1) by simp
  define fin where "fin = (finished l)(v \<mapsto> (vx_result (gc_ctx gc v), vx_code (gc_ctx gc v)))"
  obtain c: "gc_ctx gc' = gc_ctx gc" "finished (rev evs @ l) = fin"
    and none: "\<And>u. TDone u \<notin># mset ts \<and> TProcess u \<notin># mset ts \<and> TLost u \<notin># mset ts"
    using inv g run
  proof (cases rule: OnVertexDone_cases)
    case 1
    with that show ?thesis by (simp add: fin_def)
  next
    case 2
    have "loops (rev evs @ l) \<noteq> 0" by (simp add: 2(6))
    with noloop show ?thesis by blast
  next
    case 3
    with that show ?thesis by (simp add: fin_def)
  qed
  have "ctx_follows g procs orc u (gc_ctx gc u) (rest + mset ts) (fin u)" if u: "valid_ref g u" for u
  proof -
    have old: "ctx_follows g procs orc u (gc_ctx gc u) (add_mset (TDone v) rest) (finished l u)"
      using fol u by (simp add: follows_def)
    show ?thesis
    proof (cases "u = v")
      case True
      with old f show ?thesis by (simp add: ctx_follows_def fin_def)
    next
      case False
      have "ctx_follows g procs orc u (gc_ctx gc u) (rest + mset ts) (finished l u)
          = ctx_follows g procs orc u (gc_ctx gc u) (add_mset (TDone v) rest) (finished l u)"
        using False none[of u] by (intro ctx_follows_same) auto
      with old False show ?thesis by (simp add: fin_def)
    qed
  qed
  then show ?thesis unfolding follows_def c by blast
qed

lemma follows_handle:
  assumes inv: "engine_inv g procs gc (add_mset t rest) l" and g: "runnable g"
    and run: "handle g ch t gc = (gc', ts, evs)" and en: "enabled ch t gc" and dec: "decided orc (t, ch)"
    and early: "gc_early_exist_rc gc' = 0" and noloop: "loops (rev evs @ l) = 0"
    and fol: "follows g procs orc gc (add_mset t rest) l"
  shows "follows g procs orc gc' (rest + mset ts) (rev evs @ l)"
proof (cases t)
  case (TExecute v)
  with follows_run[OF inv _ _ early fol, of v] run dec show ?thesis by simp
next
  case (TProcess v)
  with follows_run[OF inv _ _ early fol, of v] run dec show ?thesis by simp
next
  case (TDone v)
  show ?thesis using run by (intro follows_OnVertexDone[OF inv[unfolded TDone] g _ noloop fol[unfolded TDone]])
      (simp add: TDone)
next
  case (TNotify v i ready)
  show ?thesis using run by (intro follows_Notify[OF inv[unfolded TNotify] runnable_edges[OF g] _ fol[unfolded TNotify]])
      (simp add: TNotify)
next
  case (TLost v)
  with en show ?thesis by simp
qed

section \<open>Finished vertices have the result of the evaluator\<close>

definition evaluated ::
  "graph \<Rightarrow> (vref \<Rightarrow> processor_info option) \<Rightarrow> (vref \<Rightarrow> choice) \<Rightarrow> event list \<Rightarrow> bool" where
  "evaluated g procs orc l = (\<forall>v x n. finished l v = Some x \<longrightarrow> card (dom (finished l)) \<le> n
     \<longrightarrow> eval_vertex g procs orc n v = x)"

lemma map_deps_idx:
  assumes e: "edges_ok g" "valid_ref g v" and len: "length rs = length (deps_idx g v)"
    and deps: "\<And>u i. (u, i) \<in> set (deps_idx g v) \<Longrightarrow> f u = rs ! i"
  shows "map (\<lambda>(u, i). f u) (deps_idx g v) = rs"
proof (rule nth_equalityI)
  fix k assume "k < length (map (\<lambda>(u, i). f u) (deps_idx g v))"
  then have k: "k < length (deps_idx g v)" by simp
  note d = deps_idx_nth[OF e k]
  then have "(dep g v k, k) \<in> set (deps_idx g v)" using k by (metis nth_mem)
  with deps d k show "map (\<lambda>(u, i). f u) (deps_idx g v) ! k = rs ! k" by simp
qed (simp add: len)

lemma evaluated_finish:
  assumes inv: "engine_inv g procs gc (add_mset (TDone v) rest) l" and e: "edges_ok g"
    and fol: "follows g procs orc gc (add_mset (TDone v) rest) l" and ev: "evaluated g procs orc l"
  shows "evaluated g procs orc (EvFinish v (vx_result (gc_ctx gc v)) (vx_code (gc_ctx gc v)) # l)"
proof -
  note parts = engine_invD[OF inv]
  have v: "valid_ref g v" using inv by (rule valid_token) simp
  note single = single_token[OF inv v]
  have f: "finished l v = None" and w: "vx_waiting_num (gc_ctx gc v) = 0" using single by simp_all
  let ?rs = "vx_deps_results (gc_ctx gc v)"
  let ?l = "EvFinish v (vx_result (gc_ctx gc v)) (vx_code (gc_ctx gc v)) # l"
  have out: "(vx_result (gc_ctx gc v), vx_code (gc_ctx gc v)) = vertex_outcome g v (procs v) (orc v) ?rs"
  proof -
    have "ctx_follows g procs orc v (gc_ctx gc v) (add_mset (TDone v) rest) (finished l v)"
      using fol v unfolding follows_def by blast
    then show ?thesis using f by (simp add: ctx_follows_def)
  qed
  have fin: "finite (dom (finished l))"
    using parts(7) finite_vertices[of g] by (auto simp: join_ok_def intro: finite_subset)
  have card: "card (dom (finished ?l)) = Suc (card (dom (finished l)))"
    using fin f by (simp add: domIff)
  have len: "length ?rs = length (deps_idx g v)" using parts(2) v by (simp add: counters_ok_def)
  have "eval_vertex g procs orc n u = x"
    if u: "finished ?l u = Some x" and n: "card (dom (finished ?l)) \<le> n" for u x n
  proof (cases "u = v")
    case False
    with u have "finished l u = Some x" by simp
    moreover have "card (dom (finished l)) \<le> n" using n card by linarith
    ultimately show ?thesis using ev unfolding evaluated_def by blast
  next
    case True
    obtain m where m: "n = Suc m" "card (dom (finished l)) \<le> m" using n card by (cases n) auto
    have "map (\<lambda>(u, i). fst (eval_vertex g procs orc m u)) (deps_idx g v) = ?rs"
    proof (rule map_deps_idx[OF e v len])
      fix u i assume "(u, i) \<in> set (deps_idx g v)"
      then have "finished l u = Some (?rs ! i, vx_code (gc_ctx gc u))" using deps_reported(2)[OF inv e v w] by blast
      with ev m(2) show "fst (eval_vertex g procs orc m u) = ?rs ! i" by (simp add: evaluated_def)
    qed
    with True u out m(1) show ?thesis by simp
  qed
  then show ?thesis unfolding evaluated_def by blast
qed

lemma evaluated_same: "finished l' = finished l \<Longrightarrow> evaluated g procs orc l \<Longrightarrow> evaluated g procs orc l'"
  by (simp add: evaluated_def)

lemma evaluated_handle:
  assumes inv: "engine_inv g procs gc (add_mset t rest) l" and g: "runnable g"
    and run: "handle g ch t gc = (gc', ts, evs)" and en: "enabled ch t gc"
    and noloop: "loops (rev evs @ l) = 0"
    and fol: "follows g procs orc gc (add_mset t rest) l" and ev: "evaluated g procs orc l"
  shows "evaluated g procs orc (rev evs @ l)"
proof (cases "\<exists>v. t = TDone v")
  case False
  have "finished (rev evs @ l) = finished l"
    by (rule handle_finished[OF inv run en]) (use False in blast)
  then show ?thesis using ev by (rule evaluated_same)
next
  case True
  then obtain v where t: "t = TDone v" by blast
  have x: "OnVertexDone g v gc = (gc', ts, evs)" using run t by simp
  note new = evaluated_finish[OF inv[unfolded t] runnable_edges[OF g] fol[unfolded t] ev]
  from inv[unfolded t] g x show ?thesis
  proof (cases rule: OnVertexDone_cases)
    case 1
    with new show ?thesis by simp
  next
    case 2
    have "loops (rev evs @ l) \<noteq> 0" by (simp add: 2(6))
    with noloop show ?thesis by blast
  next
    case 3
    have "finished (rev evs @ l) = finished (EvFinish v (vx_result (gc_ctx gc v)) (vx_code (gc_ctx gc v)) # l)"
      by (simp add: 3)
    then show ?thesis using new by (rule evaluated_same)
  qed
qed

section \<open>Runs of an oracle\<close>

lemma early_code_mono: "early_code (evs @ l) = 0 \<Longrightarrow> early_code l = 0"
proof (induction evs)
  case (Cons e evs)
  then show ?case by (cases e) (auto split: if_splits)
qed simp

lemma loops_mono: "loops l \<le> loops (evs @ l)"
proof (induction evs)
  case (Cons e evs)
  then show ?case by (cases e) auto
qed simp

lemma run_extends: "run g ms s = Some s' \<Longrightarrow> \<exists>evs. en_log s' = evs @ en_log s"
proof (induction ms arbitrary: s)
  case (Cons m ms)
  obtain t ch where m: "m = (t, ch)" by fastforce
  obtain gc ts es where h: "handle g ch t (en_ctx s) = (gc, ts, es)" by (metis prod_cases3)
  have "run g ms (after g ch t s) = Some s'" using Cons.prems m by (auto split: if_splits)
  then obtain evs where "en_log s' = evs @ en_log (after g ch t s)" using Cons.IH by blast
  then have "en_log s' = (evs @ rev es) @ en_log s" using h by (simp add: after_def)
  then show ?case by blast
qed simp

lemma run_evaluated:
  assumes "run g ms s = Some s'" "list_all (decided orc) ms" "inv_of g procs s" "runnable g"
    "follows g procs orc (en_ctx s) (en_tasks s) (en_log s)" "evaluated g procs orc (en_log s)"
    "early_code (en_log s') = 0" "loops (en_log s') = 0"
  shows "evaluated g procs orc (en_log s')"
  using assms(1-3,5,6)
proof (induction ms arbitrary: s)
  case (Cons m ms)
  obtain t ch where m: "m = (t, ch)" by fastforce
  obtain gc ts es where h: "handle g ch t (en_ctx s) = (gc, ts, es)" by (metis prod_cases3)
  let ?s = "after g ch t s"
  from Cons.prems(1) m have en: "t \<in># en_tasks s" "enabled ch t (en_ctx s)" and r: "run g ms ?s = Some s'"
    by (auto split: if_splits)
  obtain rest where rest: "en_tasks s = add_mset t rest" using en(1) by (meson multi_member_split)
  have s1: "en_ctx ?s = gc" "en_tasks ?s = rest + mset ts" "en_log ?s = rev es @ en_log s"
    using h rest by (simp_all add: after_def)
  have inv': "inv_of g procs ?s"
    using step_inv[OF Cons.prems(3) assms(4)] en by (blast intro: step.intros)
  obtain evs where "en_log s' = evs @ en_log ?s" using run_extends[OF r] by blast
  then have quiet: "early_code (rev es @ en_log s) = 0" "loops (rev es @ en_log s) = 0"
    using assms(7,8) early_code_mono[of evs "en_log ?s"] loops_mono[of "en_log ?s" evs] s1(3) by simp_all
  have early: "gc_early_exist_rc gc = 0"
    using engine_invD(8)[OF inv'] quiet(1) s1 by (simp add: log_ok_def)
  have inv: "engine_inv g procs (en_ctx s) (add_mset t rest) (en_log s)" using Cons.prems(3) rest by simp
  have dec: "decided orc (t, ch)" "list_all (decided orc) ms" using Cons.prems(2) m by simp_all
  have fol: "follows g procs orc (en_ctx s) (add_mset t rest) (en_log s)" using Cons.prems(4) rest by simp
  have "follows g procs orc (en_ctx ?s) (en_tasks ?s) (en_log ?s)"
    unfolding s1 by (rule follows_handle[OF inv assms(4) h en(2) dec(1) early quiet(2) fol])
  moreover have "evaluated g procs orc (en_log ?s)"
    unfolding s1 by (rule evaluated_handle[OF inv assms(4) h en(2) quiet(2) fol Cons.prems(5)])
  ultimately show ?case using Cons.IH[OF r dec(2) inv'] by blast
qed simp

lemma start_follows:
  assumes "runnable g" "SetupContexts g procs = Some gc"
  shows "follows g procs orc (en_ctx (start gc)) (en_tasks (start gc)) (en_log (start gc))"
    "evaluated g procs orc (en_log (start gc))"
proof -
  have fresh: "\<not> vx_subgraph_cluster (gc_ctx gc v)" "\<not> vx_subgraph_ctx (gc_ctx gc v)" if "valid_ref g v" for v
  proof -
    from assms(2) obtain gc1 where "gc = ResetGraph g gc1"
      unfolding SetupContexts_def Let_def by (auto simp: bind_eq_Some_conv split: if_splits)
    moreover have "v \<in> set (gc_vertexs gc)"
      using SetupContexts_ok(1)[OF assms] that by (simp add: static_ok_def)
    ultimately show "\<not> vx_subgraph_cluster (gc_ctx gc v)" "\<not> vx_subgraph_ctx (gc_ctx gc v)"
      by (auto simp: ResetGraph_def ResetVertex_def)
  qed
  have "mset (ExecuteReadyVertexs gc (gc_start_ctxs gc)) = mset (map TExecute (gc_start_ctxs gc))"
    by (rule start_tasks[OF SetupContexts_ok(1)[OF assms]])
  with fresh show "follows g procs orc (en_ctx (start gc)) (en_tasks (start gc)) (en_log (start gc))"
    by (auto simp: follows_def start_def ctx_follows_def)
qed (simp add: start_def evaluated_def)

end
