(* ===== verification/Liveness.thy ===== *)
theory Liveness
  imports Determinism
begin

text \<open>
  Every schedule comes to its end: when each operator returns and the graph is no while graph, any
  order of the tasks leads to the call of the closure.
\<close>

definition lossless :: "task multiset \<Rightarrow> bool" where
  "lossless ts = (\<forall>v. TLost v \<notin># ts)"

text \<open>A future is lost only where an operator says so.\<close>

lemma lossless_executes: "lossless (mset (map TExecute vs))"
  by (auto simp: lossless_def)

lemma handle_lossless:
  assumes inv: "engine_inv g procs gc (add_mset t rest) l" and run: "handle g ch t gc = (gc', ts, evs)"
    and g: "runnable g" and en: "enabled ch t gc" and out: "ch_outcome ch \<noteq> FutureFailed"
    and rest: "lossless (add_mset t rest)"
  shows "lossless (rest + mset ts)"
proof -
  have old: "lossless rest" using rest by (auto simp: lossless_def)
  have new: "lossless (mset ts)"
  proof (cases t)
    case (TExecute v)
    then have "\<exists>t'. ts = [t'] \<and> t' \<in> {TProcess v, TDone v}"
      using run by (auto simp: Execute_def skip_vertex_def ExecuteProcessor_def ExecuteSubGraph_def Let_def
          case_prod_unfold split: if_splits)
    then show ?thesis by (auto simp: lossless_def)
  next
    case (TProcess v)
    with EndProcess_effect[of g "ch_outcome ch" v gc gc' ts evs] running_invalid[OF inv, of v] run out
    have "ts = [TDone v]" by auto
    then show ?thesis by (simp add: lossless_def)
  next
    case (TDone v)
    have x: "OnVertexDone g v gc = (gc', ts, evs)" using run TDone by simp
    from inv[unfolded TDone] g x show ?thesis
      by (cases rule: OnVertexDone_cases) (auto simp: lossless_def reports_def)
  next
    case (TNotify v i ready)
    have x: "Notify v i ready gc = (gc', ts, evs)" using run TNotify by simp
    note pre = notify_pre[OF inv[unfolded TNotify] runnable_edges[OF g]]
    from Notify_effect[OF inv[unfolded TNotify] runnable_edges[OF g] x]
    obtain ready' where "mset ts = told_tasks g v i ready'" by blast
    then show ?thesis using told_tasks_simps(6)[OF pre(5)] by (simp add: lossless_def)
  next
    case (TLost v)
    with en show ?thesis by simp
  qed
  with old show ?thesis by (auto simp: lossless_def)
qed

lemma no_again: "gc_while_ctx gc = None \<Longrightarrow> \<not> while_again gc"
  by (simp add: while_again_def)

lemma handle_loops:
  assumes inv: "engine_inv g procs gc (add_mset t rest) l" and run: "handle g ch t gc = (gc', ts, evs)"
    and g: "runnable g" and en: "enabled ch t gc" and none: "gc_while_ctx gc = None"
  shows "loops (rev evs @ l) = loops l"
proof -
  have r: ?thesis if "t \<in> {TExecute v, TProcess v}" for v
    using handle_run[OF inv that run] loops_quiet by (auto simp: run_effect_def)
  show ?thesis
  proof (cases t)
    case (TExecute v)
    then show ?thesis using r[of v] by simp
  next
    case (TProcess v)
    then show ?thesis using r[of v] by simp
  next
    case (TDone v)
    have x: "OnVertexDone g v gc = (gc', ts, evs)" using run TDone by simp
    from inv[unfolded TDone] g x show ?thesis
    proof (cases rule: OnVertexDone_cases)
      case 2
      with no_again[of "gc\<lparr>gc_join_vertex_num := gc_join_vertex_num gc - 1\<rparr>"] none show ?thesis by simp
    qed simp_all
  next
    case (TNotify v i ready)
    have "Notify v i ready gc = (gc', ts, evs)" using run TNotify by simp
    from Notify_work(2)[OF inv[unfolded TNotify] runnable_edges[OF g] this] show ?thesis by simp
  next
    case (TLost v)
    with en show ?thesis by simp
  qed
qed

definition answers :: "(vref \<Rightarrow> choice) \<Rightarrow> bool" where
  "answers orc = (\<forall>v. case ch_outcome (orc v) of Returned rc \<Rightarrow> True | _ \<Rightarrow> False)"

fun subject :: "task \<Rightarrow> vref" where
  "subject (TExecute v) = v" | "subject (TProcess v) = v" | "subject (TDone v) = v"
| "subject (TNotify v i ready) = v" | "subject (TLost v) = v"

lemma run_to_end:
  assumes "inv_of g procs s" "runnable g" "lossless (en_tasks s)" "gc_while_ctx (en_ctx s) = None" "answers orc"
  shows "\<exists>ms s'. run g ms s = Some s' \<and> list_all (decided orc) ms \<and> en_tasks s' = {#}
    \<and> loops (en_log s') = loops (en_log s)"
  using assms(1,3,4)
proof (induction "left g s" arbitrary: s rule: less_induct)
  case less
  show ?case
  proof (cases "en_tasks s = {#}")
    case True
    then show ?thesis by (intro exI[of _ "[]"]) simp
  next
    case False
    then obtain t where t: "t \<in># en_tasks s" by auto
    then obtain rest where rest: "en_tasks s = add_mset t rest" by (meson multi_member_split)
    let ?ch = "orc (subject t)"
    obtain rc where rc: "ch_outcome ?ch = Returned rc"
      using assms(5) by (cases "ch_outcome ?ch") (auto simp: answers_def dest: spec[of _ "subject t"])
    have lost: "t \<noteq> TLost v" for v using less.prems(2) t by (auto simp: lossless_def)
    have en: "enabled ?ch t (en_ctx s)" using rc lost by (cases t) (auto simp: allowed_outcome_def)
    have dec: "decided orc (t, ?ch)" by (cases t) simp_all
    obtain gc ts evs where h: "handle g ?ch t (en_ctx s) = (gc, ts, evs)" by (metis prod_cases3)
    let ?s = "after g ?ch t s"
    have s1: "en_ctx ?s = gc" "en_tasks ?s = rest + mset ts" "en_log ?s = rev evs @ en_log s"
      using h rest by (simp_all add: after_def)
    have st: "step g s ?s" using t en by (rule step.intros)
    have inv: "engine_inv g procs (en_ctx s) (add_mset t rest) (en_log s)" using less.prems(1) rest by simp
    have same: "loops (en_log ?s) = loops (en_log s)"
      unfolding s1 by (rule handle_loops[OF inv h assms(2) en less.prems(3)])
    have "left g ?s < left g s" using step_left[OF less.prems(1) assms(2) st] same by simp
    moreover have "inv_of g procs ?s" using step_inv[OF less.prems(1) assms(2) st] .
    moreover have "lossless (en_tasks ?s)"
      unfolding s1 using handle_lossless[OF inv h assms(2) en] rc less.prems(2) rest by simp
    moreover have "gc_while_ctx (en_ctx ?s) = None"
      unfolding s1 using handle_while[OF h] less.prems(3) by simp
    ultimately obtain ms s' where r: "run g ms ?s = Some s'" "list_all (decided orc) ms" "en_tasks s' = {#}"
      "loops (en_log s') = loops (en_log ?s)"
      using less.hyps by blast
    have "run g ((t, ?ch) # ms) s = Some s'" using t en r(1) by simp
    moreover have "list_all (decided orc) ((t, ?ch) # ms)" using dec r(2) by simp
    ultimately show ?thesis using r(3,4) same by metis
  qed
qed

lemma SetupContexts_while:
  "SetupContexts g procs = Some gc \<Longrightarrow> \<not> g_is_gen_while_graph g \<Longrightarrow> gc_while_ctx gc = None"
  unfolding SetupContexts_def Let_def by (auto simp: bind_eq_Some_conv ResetGraph_def split: if_splits)

lemma start_to_end:
  assumes "runnable g" "SetupContexts g procs = Some gc" "\<not> g_is_gen_while_graph g" "answers orc"
  obtains ms s where "run g ms (start gc) = Some s" "list_all (decided orc) ms" "en_tasks s = {#}"
    "loops (en_log s) = 0"
proof -
  have "lossless (en_tasks (start gc))"
    using start_tasks[OF SetupContexts_ok(1)[OF assms(1,2)]] lossless_executes by (simp add: start_def)
  moreover have "gc_while_ctx (en_ctx (start gc)) = None"
    using SetupContexts_while[OF assms(2,3)] by (simp add: start_def)
  ultimately obtain ms s where "run g ms (start gc) = Some s" "list_all (decided orc) ms" "en_tasks s = {#}"
    "loops (en_log s) = loops (en_log (start gc))"
    using run_to_end[OF start_inv[OF assms(1,2)] assms(1) _ _ assms(4)] by blast
  then show thesis using that by (simp add: start_def)
qed

end
