(* ===== verification/Pipeline.thy ===== *)
theory Pipeline
  imports Builder Liveness
begin

text \<open>
  From the builder to the executor: the graph that \<open>Graph::Build\<close> returns is one that the executor
  is made for, unless a generated condition vertex has the identifier of a configured vertex.
\<close>

definition no_collision :: "graph \<Rightarrow> bool" where
  "no_collision g = list_all (\<lambda>v. v_id v \<notin> v_id ` set (g_gen_vertex g)) (g_vertex g)"

lemma gen_ids_nodes:
  assumes "gen_ids_ok h" "grows h g" "valid_ref g (GenRef j)"
  shows "GenRef j \<in> snd ` set (g_nodes g)"
proof -
  have "j < length (g_gen_vertex h)" using assms(2,3) by (simp add: grows_def valid_ref_def)
  with assms(1) have "map_of (g_nodes h) (v_id (g_gen_vertex h ! j)) = Some (GenRef j)"
    by (simp add: gen_ids_ok_def FindVertexById_def)
  then have "(v_id (g_gen_vertex h ! j), GenRef j) \<in> set (g_nodes h)" by (rule map_of_SomeD)
  with assms(2) show ?thesis by (force simp: grows_def)
qed

lemma built_runnable:
  assumes "fresh_graph g" "GraphBuild c F g = Ok g'" "no_collision g'"
    and "length (g_vertex g') + length (g_gen_vertex g') < 2 ^ 32"
  shows "runnable g'"
proof -
  note b = GraphBuild_phases[OF assms(1,2)]
  obtain h where h: "gen_ids_ok h" "grows h g'" using b(8) by blast
  have in_table: "p \<in> snd ` set (g_nodes g')" if v: "valid_ref g' p" for p
  proof (cases p)
    case (GenRef j)
    with gen_ids_nodes[OF h] v show ?thesis by blast
  next
    case (VertexRef i)
    then have i: "i < length (g_vertex g')" using v by (simp add: valid_ref_def)
    then have "named_ok g' (VertexRef i)" using b(6,7) by simp
    moreover have "v_id (g_vertex g' ! i) \<notin> v_id ` set (g_gen_vertex g')"
      using assms(3) i by (simp add: no_collision_def list_all_length)
    then have "v_id (g_gen_vertex g' ! j) \<noteq> v_id (g_vertex g' ! i)" if "j < length (g_gen_vertex g')" for j
      using nth_mem[OF that] by (metis imageI)
    ultimately have "FindVertexById g' (v_id (g_vertex g' ! i)) = Some (VertexRef i)"
      by (auto simp: named_ok_def owns_id_def deref_def)
    then have "(v_id (g_vertex g' ! i), VertexRef i) \<in> set (g_nodes g')"
      by (simp add: FindVertexById_def map_of_SomeD)
    with VertexRef show ?thesis by force
  qed
  have valid: "valid_ref g' p" if "p \<in> snd ` set (g_nodes g')" for p
    using that b(2) by (auto simp: tables_ok_def)
  have "(p, p) \<notin> (edge_rel g')\<^sup>+" for p
  proof
    assume cycle: "(p, p) \<in> (edge_rel g')\<^sup>+"
    then have p: "valid_ref g' p" by (auto simp: edge_rel_def dest: tranclD)
    then have "p \<in> set (map snd (g_nodes g'))" using in_table by simp
    with test_nodes_answer[OF b(4)[unfolded TestCircle_def]]
    have "(p, p) \<notin> (successor_rel (succs g'))\<^sup>+" by auto
    with successor_path[OF b(1) p] cycle show False by simp
  qed
  then have "acyclic (edge_rel g')" by (simp add: acyclic_def)
  moreover have "g_nodes g' \<noteq> []"
  proof
    assume none: "g_nodes g' = []"
    with b(5) have "valid_ref g' (GenRef 0)" by (simp add: valid_ref_def)
    from in_table[OF this] none show False by simp
  qed
  ultimately show ?thesis
    using b(1) in_table valid assms(4) unfolding runnable_def by blast
qed

section \<open>A run of the example\<close>

text \<open>Vertex \<open>b\<close> of the example graph waits for \<open>a\<close> and for the generated condition.\<close>

definition example_built :: graph where
  "example_built = (case GraphBuild example_cluster example_factory example_graph of Ok g \<Rightarrow> g | _ \<Rightarrow> new_graph)"

definition example_procs :: "vref \<Rightarrow> processor_info option" where
  "example_procs v = Some \<lparr>pi_mode = EXEC_SYNC, pi_is_io = False\<rparr>"

lemma example_built: "GraphBuild example_cluster example_factory example_graph = Ok example_built"
  by (rule example_builds) (simp add: example_built_def)

lemma example_size:
  "length (g_vertex example_built) = 2 \<and> length (g_gen_vertex example_built) = 1 \<and> no_collision example_built"
  by code_simp

lemma example_runnable: "runnable example_built"
  using example_size by (intro built_runnable[OF example_fresh example_built]) simp_all

definition returns :: "int \<Rightarrow> choice" where
  "returns rc = \<lparr>ch_cluster_found = False, ch_graph_found = False, ch_bool = Map.empty,
     ch_timeout = False, ch_inject_rc = 0, ch_outcome = Returned rc\<rparr>"

definition example_oracle :: "vref \<Rightarrow> choice" where
  "example_oracle v = returns 0"

definition example_gc :: graph_ctx where
  "example_gc = the (SetupContexts example_built example_procs)"

lemma example_gc: "SetupContexts example_built example_procs = Some example_gc"
  using SetupContexts_total[OF example_runnable, of example_procs] by (auto simp: example_gc_def)

definition example_moves :: "(task \<times> choice) list" where
  "example_moves = map (\<lambda>t. (t, returns 0))
    [TExecute (VertexRef 0), TProcess (VertexRef 0), TDone (VertexRef 0), TNotify (VertexRef 0) 0 [],
     TNotify (VertexRef 0) 1 [],
     TExecute (GenRef 0), TProcess (GenRef 0), TDone (GenRef 0), TNotify (GenRef 0) 0 [],
     TExecute (VertexRef 1), TProcess (VertexRef 1), TDone (VertexRef 1)]"

end
