(* ===== verification/Alone.thy ===== *)
theory Alone
  imports Pipeline
begin

text \<open>
  A run of a graph of one vertex, worked out step by step: its operator fails and the failure ends
  the graph early.
\<close>

lemma Execute_plain:
  assumes "v_cluster (deref g v) = []" "v_expect_config (deref g v) = []" "vx_processor (gc_ctx gc v) = Some p"
    "vx_deps_results (gc_ctx gc v) = []" "gc_early_exist_rc gc = 0"
  shows "Execute g (returns rc) v gc = (gc, [TProcess v], [EvStart v])"
  using assms by (simp add: Execute_def match_deps_def match_expect_config_def returns_def ExecuteProcessor_def)

lemma EndProcess_early:
  assumes "vx_processor (gc_ctx gc v) = Some p" "vx_result (gc_ctx gc v) = V_RESULT_INVALID" "rc \<noteq> 0"
    "g_early_exit_graph_if_failed g" "gc_early_exist_rc gc = 0" "\<not> vx_subgraph_ctx (gc_ctx gc v)"
    and "EndProcess g (Returned rc) v gc = (gc', ts, evs)"
  shows "ts = [TDone v]" "evs = [EvEarly rc, EvMove v]" "gc_early_exist_rc gc' = rc"
    "vx_result (gc_ctx gc' v) = V_RESULT_ERR" "vx_code (gc_ctx gc' v) = rc"
    "gc_join_vertex_num gc' = gc_join_vertex_num gc" "gc_while_ctx gc' = gc_while_ctx gc"
  using assms by (auto simp: EndProcess_def FinishVertexProcess_def SetEarlyExitCode_def modify_ctx_def Let_def)

lemma OnVertexDone_last:
  assumes "gc_join_vertex_num gc = 1" "gc_while_ctx gc = None"
  shows "\<exists>gc'. OnVertexDone g v gc = (gc', [], [EvFinish v (vx_result (gc_ctx gc v)) (vx_code (gc_ctx gc v)),
      EvDone (gc_early_exist_rc gc)])"
  using assms by (simp add: OnVertexDone_def fetch_sub_def while_again_def)

definition early_graph :: graph where
  "early_graph = single_graph\<lparr>g_early_exit_graph_if_failed := True\<rparr>"

lemma early_fields: "g_vertex early_graph = [new_vertex]" "g_gen_vertex early_graph = []"
  "g_nodes early_graph = [(''a'', VertexRef 0)]" "g_early_exit_graph_if_failed early_graph"
  "\<not> g_is_gen_while_graph early_graph" "deref early_graph (VertexRef 0) = new_vertex"
  "valid_ref early_graph p \<longleftrightarrow> p = VertexRef 0"
  by (simp_all add: early_graph_def single_graph_def deref_def new_graph_def valid_ref_def split: vref.split)

lemma early_runnable: "runnable early_graph"
proof -
  have d: "succs early_graph (VertexRef 0) = []" "deps_idx early_graph (VertexRef 0) = []" 
      "v_deps_expected_results (deref early_graph (VertexRef 0)) = []"
    by (simp_all add: early_fields new_vertex_def)
  then have "edge_rel early_graph = {}" by (auto simp: edge_rel_def early_fields)
  moreover have "edges_ok early_graph"
    unfolding edges_ok_def early_fields(7) by (simp add: d vertex_edges_ok_def depends_def)
  ultimately show ?thesis by (simp add: runnable_def early_fields acyclic_def)
qed

lemma early_setup:
  obtains gc where "SetupContexts early_graph procs = Some gc" "vx_processor (gc_ctx gc (VertexRef 0)) = procs (VertexRef 0)"
    "vx_result (gc_ctx gc (VertexRef 0)) = V_RESULT_INVALID" "vx_deps_results (gc_ctx gc (VertexRef 0)) = []"
    "\<not> vx_subgraph_ctx (gc_ctx gc (VertexRef 0))" "gc_join_vertex_num gc = 1" "gc_while_ctx gc = None"
    "gc_early_exist_rc gc = 0" "start gc = \<lparr>en_ctx = gc, en_tasks = {#TExecute (VertexRef 0)#}, en_log = []\<rparr>"
proof -
  let ?v = "VertexRef 0"
  obtain gc where gc: "SetupContexts early_graph procs = Some gc"
    using SetupContexts_total[OF early_runnable] by blast
  note ok = SetupContexts_ok[OF early_runnable gc]
  have v: "valid_ref early_graph ?v" by (simp add: early_fields)
  have d: "deps_idx early_graph ?v = []" by (simp add: early_fields new_vertex_def)
  have c: "vx_processor (gc_ctx gc ?v) = procs ?v" "vx_result (gc_ctx gc ?v) = V_RESULT_INVALID"
    "vx_deps_results (gc_ctx gc ?v) = []" "gc_join_vertex_num gc = 1"
    using ok(1,2) v d by (simp_all add: static_ok_def reset_ok_def early_fields)
  have "distinct (gc_vertexs gc)" "set (gc_vertexs gc) = {?v}" using ok(1) by (simp_all add: static_ok_def early_fields)
  then have "gc_vertexs gc = [?v]"
    by (metis distinct.simps(2) list.set_cases list.set_intros set_ConsD singletonI singletonD neq_Nil_conv)
  then have st: "gc_start_ctxs gc = [?v]" using ok(1) d by (simp add: static_ok_def)
  have w: "gc_while_ctx gc = None" using SetupContexts_while[OF gc] by (simp add: early_fields)
  have sub: "\<not> vx_subgraph_ctx (gc_ctx gc ?v)"
  proof -
    from gc obtain gc1 where "gc = ResetGraph early_graph gc1"
      unfolding SetupContexts_def Let_def by (auto simp: bind_eq_Some_conv split: if_splits)
    moreover have "?v \<in> set (gc_vertexs gc)" using ok(1) by (simp add: static_ok_def early_fields)
    ultimately show ?thesis by (auto simp: ResetGraph_def ResetVertex_def)
  qed
  have "start gc = \<lparr>en_ctx = gc, en_tasks = {#TExecute ?v#}, en_log = []\<rparr>"
    by (simp add: start_def ExecuteReadyVertexs_def st)
  from that[OF gc c(1-3) sub c(4) w ok(3) this] show thesis .
qed

definition early_moves :: "(task \<times> choice) list" where
  "early_moves = map (\<lambda>t. (t, returns 7)) [TExecute (VertexRef 0), TProcess (VertexRef 0), TDone (VertexRef 0)]"

lemma early_moves_run:
  obtains gc s where "SetupContexts early_graph example_procs = Some gc" "run early_graph early_moves (start gc) = Some s"
    "en_log s = [EvDone 7, EvFinish (VertexRef 0) V_RESULT_ERR 7, EvMove (VertexRef 0), EvEarly 7, EvStart (VertexRef 0)]"
proof -
  let ?v = "VertexRef 0"
  obtain gc where gc: "SetupContexts early_graph example_procs = Some gc"
    and pr: "vx_processor (gc_ctx gc ?v) = example_procs ?v" and r: "vx_result (gc_ctx gc ?v) = V_RESULT_INVALID"
    and ds: "vx_deps_results (gc_ctx gc ?v) = []" and sub: "\<not> vx_subgraph_ctx (gc_ctx gc ?v)"
    and j: "gc_join_vertex_num gc = 1" and w: "gc_while_ctx gc = None" and ec: "gc_early_exist_rc gc = 0"
    and st: "start gc = \<lparr>en_ctx = gc, en_tasks = {#TExecute ?v#}, en_log = []\<rparr>"
    by (rule early_setup)
  have p: "vx_processor (gc_ctx gc ?v) = Some \<lparr>pi_mode = EXEC_SYNC, pi_is_io = False\<rparr>"
    using pr by (simp add: example_procs_def)
  have x: "Execute early_graph (returns 7) ?v gc = (gc, [TProcess ?v], [EvStart ?v])"
    by (rule Execute_plain[OF _ _ p ds ec]) (simp_all add: early_fields new_vertex_def)
  obtain gc2 ts evs where y: "EndProcess early_graph (Returned 7) ?v gc = (gc2, ts, evs)" by (metis prod_cases3)
  have "(7::int) \<noteq> 0" by simp
  note e = EndProcess_early[OF p r this early_fields(4) ec sub y]
  obtain gc3 where z: "OnVertexDone early_graph ?v gc2 = (gc3, [], [EvFinish ?v V_RESULT_ERR 7, EvDone 7])"
    using OnVertexDone_last[of gc2 early_graph ?v] j w by (auto simp: e)
  have "\<exists>s. run early_graph early_moves (start gc) = Some s
      \<and> en_log s = [EvDone 7, EvFinish ?v V_RESULT_ERR 7, EvMove ?v, EvEarly 7, EvStart ?v]"
    using y e(1,2)
    by (simp add: early_moves_def st after_def x z allowed_outcome_def returns_def[of 7, THEN arg_cong[of _ _ ch_outcome]])
  then show thesis using that[OF gc] by blast
qed

lemma early_run:
  obtains gc ms s where "SetupContexts early_graph example_procs = Some gc" "run early_graph ms (start gc) = Some s"
    "en_log s = [EvDone 7, EvFinish (VertexRef 0) V_RESULT_ERR 7, EvMove (VertexRef 0), EvEarly 7, EvStart (VertexRef 0)]"
  using early_moves_run that by blast

text \<open>The operator of the vertex returns a future, which fails.\<close>

definition future_procs :: "vref \<Rightarrow> processor_info option" where
  "future_procs v = Some \<lparr>pi_mode = EXEC_ASYNC_FUTURE, pi_is_io = True\<rparr>"

lemma lost_run:
  obtains gc ms s where "SetupContexts early_graph future_procs = Some gc" "run early_graph ms (start gc) = Some s"
    "TLost (VertexRef 0) \<in># en_tasks s"
proof -
  let ?v = "VertexRef 0"
  obtain gc where gc: "SetupContexts early_graph future_procs = Some gc"
    and pr: "vx_processor (gc_ctx gc ?v) = future_procs ?v"
    and ds: "vx_deps_results (gc_ctx gc ?v) = []" and ec: "gc_early_exist_rc gc = 0"
    and st: "start gc = \<lparr>en_ctx = gc, en_tasks = {#TExecute ?v#}, en_log = []\<rparr>"
    by (rule early_setup)
  have p: "vx_processor (gc_ctx gc ?v) = Some \<lparr>pi_mode = EXEC_ASYNC_FUTURE, pi_is_io = True\<rparr>"
    using pr by (simp add: future_procs_def)
  have x: "Execute early_graph (returns 0) ?v gc = (gc, [TProcess ?v], [EvStart ?v])"
    by (rule Execute_plain[OF _ _ p ds ec]) (simp_all add: early_fields new_vertex_def)
  have "\<exists>s. run early_graph [(TExecute ?v, returns 0), (TProcess ?v, (returns 0)\<lparr>ch_outcome := FutureFailed\<rparr>)] (start gc) = Some s
      \<and> TLost ?v \<in># en_tasks s"
    by (simp add: st after_def x allowed_outcome_def p EndProcess_def)
  then show thesis using that[OF gc] by blast
qed

end
