(* ===== verification/Executor.thy ===== *)
theory Executor
  imports Alone
begin

text \<open>
  The properties of the executor, for any graph it is made for and any schedule: safety, progress,
  termination, and the result.
\<close>

section \<open>Runs\<close>

lemma run_state:
  assumes "runnable g" "SetupContexts g procs = Some gc" "run g ms (start gc) = Some s"
  shows "reachable g procs s" "inv_of g procs s"
proof -
  show "reachable g procs s" using run_reachable[OF reachable_start[OF assms(2)] assms(3)] .
  with assms(1) show "inv_of g procs s" by (simp add: reachable_inv)
qed

lemma run_while: "run g ms s = Some s' \<Longrightarrow> gc_while_ctx (en_ctx s') = gc_while_ctx (en_ctx s)"
proof (induction ms arbitrary: s)
  case (Cons m ms)
  obtain t ch where m: "m = (t, ch)" by fastforce
  obtain gc ts evs where h: "handle g ch t (en_ctx s) = (gc, ts, evs)" by (metis prod_cases3)
  from Cons.prems m have "run g ms (after g ch t s) = Some s'" by (auto split: if_splits)
  then have "gc_while_ctx (en_ctx s') = gc_while_ctx (en_ctx (after g ch t s))" by (rule Cons.IH)
  then show ?case using h handle_while[OF h] by (simp add: after_def)
qed simp

lemma run_legal:
  assumes "runnable g" "SetupContexts g procs = Some gc" "run g ms (start gc) = Some s"
  shows "legal g (gc_while_ctx gc) (en_log s)"
  using reachable_legal[OF run_state(1)[OF assms] assms(1)] run_while[OF assms(3)] by (simp add: start_def)

lemma legal_suffix: "legal g wh (l2 @ l1) \<Longrightarrow> legal g wh l1"
  by (induction l2) auto

lemma example_not_while: "\<not> g_is_gen_while_graph example_built"
  by code_simp

lemma example_answers: "answers example_oracle"
  by (simp add: answers_def example_oracle_def returns_def)

lemma example_run:
  obtains ms s where "run example_built ms (start example_gc) = Some s" "list_all (decided example_oracle) ms"
    "en_tasks s = {#}" "loops (en_log s) = 0"
  by (rule start_to_end[OF example_runnable example_gc example_not_while example_answers])

section \<open>Safety\<close>

text \<open>
  C1: every run of the executor is a legal schedule of its graph, whatever the order of the
  closures and the results of the operators. A vertex starts at most once a round, after all its
  dependencies are done with results that match what the edges expect, and not after an early
  exit; it is done at most once a round, after its dependencies; the closure of the caller is
  called when all vertices are done, and nothing happens after it.
\<close>

theorem executor_legal:
  assumes "runnable g" and "SetupContexts g procs = Some gc" and "run g ms (start gc) = Some s"
  shows "legal g (gc_while_ctx gc) (en_log s)"
  by (rule run_legal[OF assms])

theorem executor_legal_witness:
  "\<exists>ms s. run example_built ms (start example_gc) = Some s \<and> en_tasks s = {#}
     \<and> legal example_built (gc_while_ctx example_gc) (en_log s)"
proof (rule example_run)
  fix ms s
  assume r: "run example_built ms (start example_gc) = Some s" and e: "en_tasks s = {#}"
  from executor_legal[OF example_runnable example_gc r] r e show ?thesis by blast
qed

text \<open>
  C22: the counters of type \<open>uint32_t\<close> never wrap around and no index is out of range: when a
  vertex is done \<open>_join_vertex_num\<close> is positive, and when it reports to a successor the slot it
  writes exists and is still empty, and the successor still waits.
\<close>

theorem counters_never_wrap:
  assumes "runnable g" and "SetupContexts g procs = Some gc" and "run g ms (start gc) = Some s"
    and "t \<in># en_tasks s"
  shows "case t of
      TDone v \<Rightarrow> 0 < gc_join_vertex_num (en_ctx s)
    | TNotify v i ready \<Rightarrow>
        i < length (vx_successor_ctxs (gc_ctx (en_ctx s) v))
        \<and> (let w = gc_ctx (en_ctx s) (vx_successor_ctxs (gc_ctx (en_ctx s) v) ! i);
              k = nat (vx_successor_dep_idxs (gc_ctx (en_ctx s) v) ! i)
           in k < length (vx_deps_results w) \<and> vx_deps_results w ! k = V_RESULT_INVALID \<and> 0 < vx_waiting_num w)
    | _ \<Rightarrow> True"
proof -
  obtain rest where rest: "en_tasks s = add_mset t rest" using assms(4) by (meson multi_member_split)
  have inv: "engine_inv g procs (en_ctx s) (add_mset t rest) (en_log s)"
    using run_state(2)[OF assms(1-3)] rest by simp
  show ?thesis
  proof (cases t)
    case (TDone v)
    with done_inv(2)[OF inv[unfolded TDone] runnable_edges[OF assms(1)]] show ?thesis by simp
  next
    case (TNotify v i ready)
    note pre = notify_pre[OF inv[unfolded TNotify] runnable_edges[OF assms(1)]]
    have st: "vx_successor_ctxs (gc_ctx (en_ctx s) v) = succs g v"
      using engine_invD(1)[OF inv] pre(1) by (simp add: static_ok_def)
    have len: "length (vx_deps_results (gc_ctx (en_ctx s) (succs g v ! i))) = length (deps_idx g (succs g v ! i))"
      using engine_invD(2)[OF inv] pre(2) by (simp add: counters_ok_def)
    show ?thesis using pre(5,11,14) by (auto simp: TNotify st len Let_def)
  qed simp_all
qed

theorem counters_never_wrap_witness:
  "\<exists>t \<in># en_tasks (start example_gc). case t of TDone v \<Rightarrow> 0 < gc_join_vertex_num example_gc | _ \<Rightarrow> True"
proof -
  have "\<not> closed (en_log (start example_gc))" by (simp add: start_def)
  have r: "run example_built [] (start example_gc) = Some (start example_gc)" by simp
  have "en_tasks (start example_gc) \<noteq> {#}"
  proof
    assume "en_tasks (start example_gc) = {#}"
    then have "dom (finished (en_log (start example_gc))) = vertices example_built"
      using no_tasks_all_done[of example_built example_procs "en_ctx (start example_gc)"]
        run_state(2)[OF example_runnable example_gc r] example_runnable by simp
    moreover have "valid_ref example_built (VertexRef 0)" using example_size by (simp add: valid_ref_def)
    ultimately show False by (auto simp: start_def)
  qed
  then obtain t where t: "t \<in># en_tasks (start example_gc)" by auto
  from counters_never_wrap[OF example_runnable example_gc r t] t show ?thesis
    by (auto simp: start_def split: task.splits)
qed

text \<open>
  At any time at most one closure is responsible for a vertex, and none once it is done; the
  number a vertex waits for is the number of its empty slots.
\<close>

theorem single_closure:
  assumes "runnable g" and "SetupContexts g procs = Some gc" and "run g ms (start gc) = Some s"
    and "valid_ref g v"
  shows "tokens v (en_tasks s) \<le> 1
    \<and> (finished (en_log s) v \<noteq> None \<longrightarrow> tokens v (en_tasks s) = 0)
    \<and> vx_waiting_num (gc_ctx (en_ctx s) v)
      = length (filter (\<lambda>r. r = V_RESULT_INVALID) (vx_deps_results (gc_ctx (en_ctx s) v)))
    \<and> (vx_waiting_num (gc_ctx (en_ctx s) v) = 0 \<longleftrightarrow> finished (en_log s) v \<noteq> None \<or> tokens v (en_tasks s) = 1)"
proof -
  note inv = run_state(2)[OF assms(1-3)]
  have "token_ok (vx_waiting_num (gc_ctx (en_ctx s) v)) (finished (en_log s) v) (tokens v (en_tasks s))"
    using tokens_okD[OF engine_invD(4)[OF inv] assms(4)] .
  moreover have "vx_waiting_num (gc_ctx (en_ctx s) v)
      = length (filter (\<lambda>r. r = V_RESULT_INVALID) (vx_deps_results (gc_ctx (en_ctx s) v)))"
    using engine_invD(2)[OF inv] assms(4) by (simp add: counters_ok_def)
  ultimately show ?thesis
    by (cases "finished (en_log s) v"; cases "vx_waiting_num (gc_ctx (en_ctx s) v) = 0")
      (simp_all add: token_ok_def)
qed

theorem single_closure_witness:
  "\<exists>ms s. run example_built ms (start example_gc) = Some s \<and> tokens (VertexRef 1) (en_tasks s) \<le> 1"
proof -
  have r: "run example_built [] (start example_gc) = Some (start example_gc)" by simp
  have "valid_ref example_built (VertexRef 1)" using example_size by (simp add: valid_ref_def)
  from single_closure[OF example_runnable example_gc r this] r show ?thesis by blast
qed

text \<open>
  Once a code ends the graph early, no vertex starts any more: what follows \<open>EvEarly c\<close> in a
  run holds no \<open>EvStart\<close>.
\<close>

theorem early_exit_stops:
  assumes "runnable g" and "SetupContexts g procs = Some gc" and "run g ms (start gc) = Some s"
    and "en_log s = l2 @ EvEarly c # l1" and "c \<noteq> 0"
  shows "EvStart v \<notin> set l2"
proof
  assume "EvStart v \<in> set l2"
  then obtain k3 k2 where l2: "l2 = k3 @ EvStart v # k2" by (auto dest: split_list)
  have "legal g (gc_while_ctx gc) (k3 @ EvStart v # k2 @ EvEarly c # l1)"
    using run_legal[OF assms(1-3)] assms(4) l2 by simp
  from legal_suffix[OF this] have "early_code (k2 @ EvEarly c # l1) = 0" by (simp add: may_start_def)
  then have "early_code (EvEarly c # l1) = 0" by (rule early_code_mono)
  with assms(5) show False by (simp split: if_splits)
qed

theorem early_exit_stops_witness:
  "\<exists>ms gc s. run early_graph ms (start gc) = Some s
     \<and> EvStart (VertexRef 0) \<notin> set [EvDone 7, EvFinish (VertexRef 0) V_RESULT_ERR 7, EvMove (VertexRef 0)]"
proof (rule early_run)
  fix gc ms s
  assume r: "SetupContexts early_graph example_procs = Some gc" "run early_graph ms (start gc) = Some s"
    and l: "en_log s = [EvDone 7, EvFinish (VertexRef 0) V_RESULT_ERR 7, EvMove (VertexRef 0), EvEarly 7, EvStart (VertexRef 0)]"
  have log: "en_log s = [EvDone 7, EvFinish (VertexRef 0) V_RESULT_ERR 7, EvMove (VertexRef 0)]
      @ EvEarly 7 # [EvStart (VertexRef 0)]" by (simp add: l)
  have "(7::int) \<noteq> 0" by simp
  from early_exit_stops[OF early_runnable r log this, of "VertexRef 0"] r(2) show ?thesis by blast
qed

text \<open>The codes that end the graph early, in the order in which they appear.\<close>

definition early_codes :: "event list \<Rightarrow> int list" where
  "early_codes l = concat (map (\<lambda>e. case e of EvEarly c \<Rightarrow> if c \<noteq> 0 then [c] else [] | _ \<Rightarrow> []) (rev l))"

lemma early_codes_Cons:
  "early_codes (e # l) = early_codes l @ (case e of EvEarly c \<Rightarrow> if c \<noteq> 0 then [c] else [] | _ \<Rightarrow> [])"
  by (simp add: early_codes_def)

lemma early_code_first: "early_code l = (case early_codes l of [] \<Rightarrow> 0 | c # _ \<Rightarrow> c)
    \<and> (early_codes l = [] \<longleftrightarrow> early_code l = 0)"
proof (induction l)
  case (Cons e l)
  then show ?case
    by (cases e; cases "early_codes l") (auto simp: early_codes_Cons)
qed (simp add: early_codes_def)

text \<open>
  What the caller's closure is called with: 0 if no code ended the graph early, and otherwise
  the code of an operator that did, the first one to do so.
\<close>

theorem done_code:
  assumes "runnable g" and "SetupContexts g procs = Some gc" and "run g ms (start gc) = Some s"
    and "en_log s = EvDone rc # l"
  shows "rc = (case early_codes l of [] \<Rightarrow> 0 | c # _ \<Rightarrow> c)"
  using run_legal[OF assms(1-3)] assms(4) early_code_first by simp

theorem done_code_witness:
  "\<exists>ms gc s rc l. run early_graph ms (start gc) = Some s \<and> en_log s = EvDone rc # l \<and> rc = 7
     \<and> rc = (case early_codes l of [] \<Rightarrow> 0 | c # _ \<Rightarrow> c)"
proof (rule early_run)
  fix gc ms s
  assume r: "SetupContexts early_graph example_procs = Some gc" "run early_graph ms (start gc) = Some s"
    and l: "en_log s = [EvDone 7, EvFinish (VertexRef 0) V_RESULT_ERR 7, EvMove (VertexRef 0), EvEarly 7, EvStart (VertexRef 0)]"
  from done_code[OF early_runnable r l] r(2) l show ?thesis by blast
qed

section \<open>Progress and termination\<close>

text \<open>
  The executor is never stuck: as long as the closure has not been called, no future was lost
  and the graph is one that the builder can return, some task can run.
\<close>

theorem executor_progress:
  assumes "runnable g" and "SetupContexts g procs = Some gc" and "run g ms (start gc) = Some s"
    and "\<forall>v. TLost v \<notin># en_tasks s" and "\<not> closed (en_log s)"
  shows "\<exists>s'. step g s s'"
proof -
  note r = run_state[OF assms(1-3)]
  have "en_tasks s \<noteq> {#}"
    using no_tasks_all_done[of g procs "en_ctx s" "en_log s"] all_done_closed[OF r(1) assms(1)] r(2) assms(1,5)
    by auto
  then obtain t where t: "t \<in># en_tasks s" by auto
  then have lost: "t \<noteq> TLost v" for v using assms(4) by auto
  have "enabled (returns 0) t (en_ctx s)"
    using lost by (cases t) (auto simp: allowed_outcome_def returns_def)
  with t show ?thesis by (blast intro: step.intros)
qed

theorem executor_progress_witness: "\<exists>s'. step example_built (start example_gc) s'"
proof -
  have r: "run example_built [] (start example_gc) = Some (start example_gc)" by simp
  have "lossless (en_tasks (start example_gc))"
    using start_tasks[OF SetupContexts_ok(1)[OF example_runnable example_gc]] lossless_executes
    by (simp add: start_def)
  then have l: "\<forall>v. TLost v \<notin># en_tasks (start example_gc)" by (simp add: lossless_def)
  have "\<not> closed (en_log (start example_gc))" by (simp add: start_def)
  from executor_progress[OF example_runnable example_gc r l this] show ?thesis .
qed

text \<open>
  When nothing is left to run, every vertex is done, and the closure has been called exactly
  once.
\<close>

theorem executor_finishes:
  assumes "runnable g" and "SetupContexts g procs = Some gc" and "run g ms (start gc) = Some s"
    and "en_tasks s = {#}"
  shows "(\<forall>v. valid_ref g v \<longrightarrow> finished (en_log s) v \<noteq> None)
    \<and> length (filter (\<lambda>e. case e of EvDone rc \<Rightarrow> True | _ \<Rightarrow> False) (en_log s)) = 1"
proof -
  let ?dones = "\<lambda>l. length (filter (\<lambda>e. case e of EvDone rc \<Rightarrow> True | _ \<Rightarrow> False) l)"
  note r = run_state[OF assms(1-3)]
  have all: "dom (finished (en_log s)) = vertices g"
    using no_tasks_all_done[of g procs "en_ctx s" "en_log s"] r(2) assms(1,4) by simp
  then have fin: "\<forall>v. valid_ref g v \<longrightarrow> finished (en_log s) v \<noteq> None" unfolding dom_def by blast
  have "closed (en_log s)" by (rule all_done_closed[OF r(1) assms(1) all])
  moreover have "?dones l = (if closed l then 1 else 0)" if "legal g wh l" for l wh
    using that
  proof (induction l)
    case (Cons e l)
    then show ?case by (cases e) auto
  qed simp
  ultimately show ?thesis using fin run_legal[OF assms(1-3)] by simp
qed

theorem executor_finishes_witness:
  "\<exists>ms s. run example_built ms (start example_gc) = Some s
     \<and> (\<forall>v. valid_ref example_built v \<longrightarrow> finished (en_log s) v \<noteq> None)"
proof (rule example_run)
  fix ms s
  assume r: "run example_built ms (start example_gc) = Some s" and e: "en_tasks s = {#}"
  from executor_finishes[OF example_runnable example_gc r e] r show ?thesis by blast
qed

text \<open>
  A round takes at most three steps for each vertex and one for each edge, whatever the
  schedule; with a while graph every further round takes as many again.
\<close>

theorem round_bound:
  assumes "runnable g" and "SetupContexts g procs = Some gc" and "run g ms (start gc) = Some s"
  shows "length ms \<le> (length (filter (\<lambda>e. case e of EvLoop \<Rightarrow> True | _ \<Rightarrow> False) (en_log s)) + 1)
    * (3 * (length (g_vertex g) + length (g_gen_vertex g)) + sum (\<lambda>v. length (succs g v)) {v. valid_ref g v})"
proof -
  have "loops l = length (filter (\<lambda>e. case e of EvLoop \<Rightarrow> True | _ \<Rightarrow> False) l)" for l
    by (induction l rule: loops.induct) simp_all
  with run_bound[OF assms] show ?thesis by (simp add: round_cost_edges)
qed

theorem round_bound_witness:
  "\<exists>ms s. run example_built ms (start example_gc) = Some s \<and> en_tasks s = {#}
     \<and> length ms \<le> (length (filter (\<lambda>e. case e of EvLoop \<Rightarrow> True | _ \<Rightarrow> False) (en_log s)) + 1)
    * (3 * (length (g_vertex example_built) + length (g_gen_vertex example_built))
       + sum (\<lambda>v. length (succs example_built v)) {v. valid_ref example_built v})"
proof (rule example_run)
  fix ms s
  assume r: "run example_built ms (start example_gc) = Some s" and e: "en_tasks s = {#}"
  from round_bound[OF example_runnable example_gc r] r e show ?thesis by blast
qed

text \<open>
  A graph whose operators all return runs to its end, from the set-up of its contexts to the
  call of the closure: the set-up succeeds, the bound of the round is met, and the answers may be
  any.
\<close>

theorem executor_completes:
  assumes "runnable g" and "\<not> g_is_gen_while_graph g" and "answers orc"
  shows "\<exists>gc ms s rc l. SetupContexts g procs = Some gc \<and> run g ms (start gc) = Some s
    \<and> list_all (decided orc) ms \<and> en_tasks s = {#} \<and> en_log s = EvDone rc # l"
proof -
  obtain gc where gc: "SetupContexts g procs = Some gc" using SetupContexts_total[OF assms(1)] by blast
  obtain ms s where r: "run g ms (start gc) = Some s" "list_all (decided orc) ms" "en_tasks s = {#}"
    using start_to_end[OF assms(1) gc assms(2,3)] by blast
  note st = run_state[OF assms(1) gc r(1)]
  have "dom (finished (en_log s)) = vertices g"
    using no_tasks_all_done[of g procs "en_ctx s" "en_log s"] st(2) assms(1) r(3) by simp
  then have c: "closed (en_log s)" by (rule all_done_closed[OF st(1) assms(1)])
  have "legal g wh l \<Longrightarrow> closed l \<Longrightarrow> \<exists>rc l'. l = EvDone rc # l'" for wh l
  proof (cases l)
    case (Cons e l')
    assume "legal g wh l" "closed l"
    with Cons show ?thesis by (cases e) auto
  qed simp
  with run_legal[OF assms(1) gc r(1)] c have "\<exists>rc l. en_log s = EvDone rc # l" by blast
  with gc r show ?thesis by blast
qed

theorem executor_completes_witness:
  "\<exists>gc ms s rc l. SetupContexts example_built example_procs = Some gc \<and> run example_built ms (start gc) = Some s
    \<and> list_all (decided example_oracle) ms \<and> en_tasks s = {#} \<and> en_log s = EvDone rc # l"
  using executor_completes[OF example_runnable example_not_while example_answers] by blast

text \<open>
  C2: the result of a round does not depend on the schedule. When the operators and the store
  answer as the oracle says, nothing ends the graph early and no round is repeated, every vertex
  that is done has the result and code that evaluating its dependencies in any order gives.
\<close>

theorem schedule_independent:
  assumes "runnable g" and "SetupContexts g procs = Some gc" and "run g ms (start gc) = Some s"
    and "list_all (decided orc) ms" and "early_codes (en_log s) = []" and "loops (en_log s) = 0"
    and "finished (en_log s) v = Some x" and "length (g_vertex g) + length (g_gen_vertex g) \<le> n"
  shows "x = eval_vertex g procs orc n v"
proof -
  have "evaluated g procs orc (en_log s)"
    using run_evaluated[OF assms(3,4) start_inv[OF assms(1,2)] assms(1) start_follows[OF assms(1,2)]]
      assms(5,6) early_code_first[of "en_log s"] by simp
  moreover have "card (dom (finished (en_log s))) \<le> n"
  proof -
    have "dom (finished (en_log s)) \<subseteq> vertices g"
      using engine_invD(7)[OF run_state(2)[OF assms(1-3)]] by (simp add: join_ok_def)
    then have "card (dom (finished (en_log s))) \<le> card (vertices g)" using finite_vertices by (rule card_mono[rotated])
    with assms(8) show ?thesis by (simp add: card_vertices)
  qed
  ultimately show ?thesis using assms(7) unfolding evaluated_def by metis
qed

text \<open>Without the flags of the configuration nothing ends a graph early.\<close>

definition no_early_flags :: "graph \<Rightarrow> bool" where
  "no_early_flags g = (\<not> g_early_exit_graph_if_failed g
     \<and> (\<forall>v \<in> set (vertex_refs g @ gen_refs g). \<not> v_early_exit_graph_if_failed (deref g v)))"

lemma handle_no_early:
  assumes flags: "\<not> g_early_exit_graph_if_failed g" "\<not> v_early_exit_graph_if_failed (deref g (subject t))"
  shows "EvEarly c \<notin> set (snd (snd (handle g ch t gc)))"
proof -
  have f: "EvEarly c \<notin> set (snd (FinishVertexProcess g (subject t) code a gc))" for code a gc
    using flags by (auto simp: FinishVertexProcess_def Let_def)
  have skip: "EvEarly c \<notin> set (snd (snd (skip_vertex g (subject t) gc)))" for gc
    using f by (simp add: skip_vertex_def Let_def case_prod_unfold)
  have p: "EvEarly c \<notin> set (snd (snd (ExecuteProcessor g ch (subject t) gc)))" for gc
    using f by (simp add: ExecuteProcessor_def Let_def case_prod_unfold)
  have sg: "EvEarly c \<notin> set (snd (snd (ExecuteSubGraph g ch (subject t) gc)))" for gc
    using f by (simp add: ExecuteSubGraph_def Let_def case_prod_unfold)
  show ?thesis
  proof (cases t)
    case (TExecute v)
    then show ?thesis using skip p sg by (simp add: Execute_def Let_def)
  next
    case (TProcess v)
    then show ?thesis using f by (simp add: EndProcess_def Let_def case_prod_unfold split: op_outcome.split)
  next
    case (TDone v)
    then show ?thesis by (simp add: OnVertexDone_def Let_def case_prod_unfold)
  next
    case (TNotify v i ready)
    then show ?thesis by (simp add: Notify_def Let_def case_prod_unfold)
  qed simp
qed

lemma run_no_early:
  assumes "run g ms s = Some s'" "inv_of g procs s" "runnable g" "no_early_flags g" "early_codes (en_log s) = []"
  shows "early_codes (en_log s') = []"
  using assms(1,2,5)
proof (induction ms arbitrary: s)
  case (Cons m ms)
  obtain t ch where m: "m = (t, ch)" by fastforce
  obtain gc ts evs where h: "handle g ch t (en_ctx s) = (gc, ts, evs)" by (metis prod_cases3)
  from Cons.prems(1) m have en: "t \<in># en_tasks s" "enabled ch t (en_ctx s)" and r: "run g ms (after g ch t s) = Some s'"
    by (auto split: if_splits)
  have "task_ok g (en_log s) t" using engine_invD(5)[OF Cons.prems(2)] en(1) by (simp add: tasks_ok_def)
  then have "valid_ref g (subject t)" by (cases t) simp_all
  then have flags: "\<not> g_early_exit_graph_if_failed g" "\<not> v_early_exit_graph_if_failed (deref g (subject t))"
    using assms(4) by (auto simp: no_early_flags_def valid_ref_cases)
  have "EvEarly c \<notin> set evs" for c using handle_no_early[OF flags, of c ch "en_ctx s"] h by simp
  then have "early_codes (rev evs @ en_log s) = []"
    using Cons.prems(3) by (auto simp: early_codes_def split: event.splits if_splits)
  moreover have "en_log (after g ch t s) = rev evs @ en_log s" using h by (simp add: after_def)
  moreover have "inv_of g procs (after g ch t s)"
    using step_inv[OF Cons.prems(2) assms(3)] en by (blast intro: step.intros)
  ultimately show ?case using Cons.IH[OF r] by simp
qed simp

lemma example_no_early:
  assumes "run example_built ms (start example_gc) = Some s"
  shows "early_codes (en_log s) = []"
proof (rule run_no_early[OF assms start_inv[OF example_runnable example_gc] example_runnable])
  show "no_early_flags example_built" by code_simp
qed (simp add: start_def early_codes_def)

theorem schedule_independent_witness:
  "\<exists>ms s. run example_built ms (start example_gc) = Some s
     \<and> finished (en_log s) (VertexRef 1) = Some (eval_vertex example_built example_procs example_oracle 3 (VertexRef 1))"
proof (rule example_run)
  fix ms s
  assume r: "run example_built ms (start example_gc) = Some s" "list_all (decided example_oracle) ms"
    and e: "en_tasks s = {#}" "loops (en_log s) = 0"
  have v: "valid_ref example_built (VertexRef 1)" using example_size by (simp add: valid_ref_def)
  obtain x where x: "finished (en_log s) (VertexRef 1) = Some x"
    using executor_finishes[OF example_runnable example_gc r(1) e(1)] v by blast
  have "length (g_vertex example_built) + length (g_gen_vertex example_built) \<le> 3" using example_size by simp
  from schedule_independent[OF example_runnable example_gc r example_no_early[OF r(1)] e(2) x this] r(1) x
  show ?thesis by blast
qed

text \<open>
  From the builder to the end of a run: a graph that \<open>Graph::Build\<close> accepted, in which no
  generated condition has the identifier of a configured vertex, is set up, and a run of it that
  has nothing left to do has finished every configured vertex and called the closure.
\<close>

theorem built_graph_runs:
  assumes "fresh_graph g" and "GraphBuild c F g = Ok g'" and "no_collision g'"
    and "length (g_vertex g') + length (g_gen_vertex g') < 2 ^ 32"
  shows "\<exists>gc. SetupContexts g' procs = Some gc
    \<and> (\<forall>ms s. run g' ms (start gc) = Some s \<and> en_tasks s = {#} \<longrightarrow>
        closed (en_log s) \<and> (\<forall>i < length (g_vertex g). finished (en_log s) (VertexRef i) \<noteq> None))"
proof -
  note r = built_runnable[OF assms]
  obtain gc where gc: "SetupContexts g' procs = Some gc" using SetupContexts_total[OF r] by blast
  have "closed (en_log s) \<and> (\<forall>i < length (g_vertex g). finished (en_log s) (VertexRef i) \<noteq> None)"
    if run: "run g' ms (start gc) = Some s" and e: "en_tasks s = {#}" for ms s
  proof -
    note st = run_state[OF r gc run]
    have all: "dom (finished (en_log s)) = vertices g'"
      using no_tasks_all_done[of g' procs "en_ctx s" "en_log s"] st(2) r e by simp
    have "valid_ref g' (VertexRef i)" if "i < length (g_vertex g)" for i
      using that GraphBuild_phases(6)[OF assms(1,2)] by (simp add: valid_ref_def)
    with all have "\<forall>i < length (g_vertex g). finished (en_log s) (VertexRef i) \<noteq> None" unfolding dom_def by blast
    with all_done_closed[OF st(1) r all] show ?thesis by blast
  qed
  with gc show ?thesis by blast
qed

theorem built_graph_runs_witness:
  "\<exists>gc. SetupContexts example_built example_procs = Some gc
    \<and> (\<forall>ms s. run example_built ms (start gc) = Some s \<and> en_tasks s = {#} \<longrightarrow> closed (en_log s))"
proof -
  have "length (g_vertex example_built) + length (g_gen_vertex example_built) < 2 ^ 32" "no_collision example_built"
    using example_size by simp_all
  from built_graph_runs[OF example_fresh example_built this(2,1), of example_procs] show ?thesis by blast
qed

section \<open>Errors\<close>

text \<open>
  A future that completes with an exception stops its graph for ever. The continuation given
  to \<open>thenValue\<close> is not called, so that the vertex is never done and the closure of the caller is
  never called, whatever else runs.
\<close>

theorem lost_future_hangs:
  assumes "runnable g" and "SetupContexts g procs = Some gc" and "run g ms (start gc) = Some s"
    and "TLost v \<in># en_tasks s" and "run g ms' s = Some s'"
  shows "\<not> closed (en_log s') \<and> finished (en_log s') v = None \<and> TLost v \<in># en_tasks s'"
proof -
  have lost: "TLost v \<in># en_tasks s'"
    using assms(5,4)
  proof (induction ms' arbitrary: s)
    case (Cons m ms')
    obtain t ch where m: "m = (t, ch)" by fastforce
    from Cons.prems(1) m have en: "enabled ch t (en_ctx s)" and r: "run g ms' (after g ch t s) = Some s'"
      by (auto split: if_splits)
    have "t \<noteq> TLost v" using en by auto
    then have "TLost v \<in># en_tasks s - {#t#}" using Cons.prems(2) by (simp add: in_diff_count)
    then have "TLost v \<in># en_tasks (after g ch t s)" by (simp add: after_def Let_def split: prod.split)
    with Cons.IH[OF r] show ?case by blast
  qed simp
  have inv: "inv_of g procs s'"
    using reachable_inv[OF run_reachable[OF run_state(1)[OF assms(1-3)] assms(5)] assms(1)] .
  obtain rest where rest: "en_tasks s' = add_mset (TLost v) rest" using lost by (meson multi_member_split)
  have inv': "engine_inv g procs (en_ctx s') (add_mset (TLost v) rest) (en_log s')" using inv rest by simp
  have "valid_ref g v" using engine_invD(5)[OF inv'] by (simp add: tasks_ok_def)
  from single_token(1)[OF inv' this] have "finished (en_log s') v = None" by simp
  moreover have "\<not> closed (en_log s')" using engine_invD(8)[OF inv'] by (auto simp: log_ok_def)
  ultimately show ?thesis using lost by blast
qed

theorem lost_future_hangs_witness:
  "\<exists>gc ms s. SetupContexts early_graph future_procs = Some gc \<and> run early_graph ms (start gc) = Some s
     \<and> (\<forall>ms' s'. run early_graph ms' s = Some s' \<longrightarrow> \<not> closed (en_log s'))"
proof (rule lost_run)
  fix gc ms s
  assume r: "SetupContexts early_graph future_procs = Some gc" "run early_graph ms (start gc) = Some s"
    and l: "TLost (VertexRef 0) \<in># en_tasks s"
  from lost_future_hangs[OF early_runnable r l] r show ?thesis by blast
qed

text \<open>Everything \<open>FinishVertexProcess\<close> does for an operator that has run.\<close>

definition finish_spec :: "graph \<Rightarrow> vref \<Rightarrow> int \<Rightarrow> graph_ctx \<Rightarrow> graph_ctx \<Rightarrow> event list \<Rightarrow> bool" where
  "finish_spec g v rc gc gc' evs =
    (let n = deref g v;
       early = (rc \<noteq> 0 \<and> (v_early_exit_graph_if_failed n \<or> g_early_exit_graph_if_failed g));
       code = (if \<not> early \<and> v_ignore_processor_execute_error n \<and> v_cond n = [] \<and> v_consequent n = []
               \<and> v_alternative n = [] then 0 else rc)
     in vx_code (gc_ctx gc' v) = code
       \<and> vx_result (gc_ctx gc' v) = (if code = 0 then V_RESULT_OK else V_RESULT_ERR)
       \<and> gc_early_exist_rc gc' = (if early \<and> gc_early_exist_rc gc = 0 then rc else gc_early_exist_rc gc)
       \<and> (EvCollect v \<in> set evs \<longleftrightarrow> vx_processor (gc_ctx gc v) \<noteq> None \<and> code = 0)
       \<and> (EvMove v \<in> set evs \<longleftrightarrow> vx_processor (gc_ctx gc v) \<noteq> None \<and> code \<noteq> 0))"

lemma FinishVertexProcess_spec:
  assumes "FinishVertexProcess g v rc True gc = (gc', evs)" "vx_result (gc_ctx gc v) = V_RESULT_INVALID"
  shows "finish_spec g v rc gc gc' evs"
proof -
  define early where "early = (rc \<noteq> 0 \<and> (v_early_exit_graph_if_failed (deref g v) \<or> g_early_exit_graph_if_failed g))"
  show ?thesis
  proof (cases early)
    case True
    then have "rc \<noteq> 0" by (simp add: early_def)
    with assms True show ?thesis
      unfolding FinishVertexProcess_def finish_spec_def Let_def early_def
      by (cases "gc_early_exist_rc gc = 0") (auto simp: modify_ctx_def SetEarlyExitCode_def)
  next
    case False
    define code where "code = (if v_ignore_processor_execute_error (deref g v) \<and> \<not> IsCondVertex (deref g v) then 0 else rc)"
    have no: "\<not> (True \<and> rc \<noteq> 0 \<and> (v_early_exit_graph_if_failed (deref g v) \<or> g_early_exit_graph_if_failed g))"
      using False by (simp add: early_def)
    have "gc' = modify_ctx v (\<lambda>c. c\<lparr>vx_code := code,
                  vx_exec_rc := (if vx_exec_rc c = INT_MAX then code else vx_exec_rc c),
                  vx_result := (if code \<noteq> 0
                     then (if vx_result c = V_RESULT_INVALID then V_RESULT_ERR else vx_result c)
                     else V_RESULT_OK)\<rparr>) gc"
      "evs = (if vx_processor (gc_ctx gc v) \<noteq> None then [if code \<noteq> 0 then EvMove v else EvCollect v] else [])
              @ (if vx_subgraph_ctx (gc_ctx gc v) then [EvChild v] else [])"
      using assms(1)[symmetric] no unfolding FinishVertexProcess_def Let_def code_def if_not_P[OF no]
      by (simp_all only: prod.inject if_False if_True simp_thms append_Nil)
    moreover have "(if \<not> early \<and> v_ignore_processor_execute_error (deref g v) \<and> v_cond (deref g v) = []
        \<and> v_consequent (deref g v) = [] \<and> v_alternative (deref g v) = [] then 0 else rc) = code"
      using False by (simp add: code_def IsCondVertex_def)
    ultimately show ?thesis
      unfolding finish_spec_def Let_def early_def[symmetric] using False assms(2) by (auto simp: modify_ctx_def)
  qed
qed

text \<open>
  How an operator ends, on every branch: an exception counts as \<open>V_CODE_ERR\<close>; a code other
  than 0 ends the graph early when the vertex or the graph says so, and then stays, and is
  otherwise forgotten when errors are ignored, except for a condition; the result is \<open>OK\<close> exactly
  for code 0; outputs are collected on success and inputs are moved on failure.
\<close>

theorem operator_ends:
  assumes "EndProcess g out v gc = (gc', ts, evs)" and "vx_result (gc_ctx gc v) = V_RESULT_INVALID"
    and "out \<noteq> FutureFailed"
  shows "ts = [TDone v] \<and> finish_spec g v (case out of Returned rc \<Rightarrow> rc | _ \<Rightarrow> V_CODE_ERR) gc gc' evs"
proof -
  define rc where "rc = (case out of Returned rc \<Rightarrow> rc | _ \<Rightarrow> V_CODE_ERR)"
  define gc1 where "gc1 = (if vx_processor (gc_ctx gc v) \<noteq> None
                  then modify_ctx v (\<lambda>c. c\<lparr>vx_exec_rc := rc\<rparr>) gc else gc)"
  have "FinishVertexProcess g v rc True gc1 = (gc', evs) \<and> ts = [TDone v]"
    using assms(1,3) unfolding EndProcess_def gc1_def rc_def by (cases out) (auto simp: Let_def split: prod.splits)
  moreover have same: "vx_result (gc_ctx gc1 v) = V_RESULT_INVALID" "gc_early_exist_rc gc1 = gc_early_exist_rc gc"
    "vx_processor (gc_ctx gc1 v) = vx_processor (gc_ctx gc v)"
    using assms(2) by (simp_all add: gc1_def modify_ctx_def)
  ultimately have "finish_spec g v rc gc1 gc' evs \<and> ts = [TDone v]" using FinishVertexProcess_spec by blast
  then show ?thesis unfolding finish_spec_def same rc_def[symmetric] by blast
qed

theorem operator_ends_witness:
  "\<exists>gc gc' evs. finish_spec early_graph (VertexRef 0) 7 gc gc' evs \<and> vx_result (gc_ctx gc' (VertexRef 0)) = V_RESULT_ERR
     \<and> EndProcess early_graph (Returned 7) (VertexRef 0) gc = (gc', [TDone (VertexRef 0)], evs)"
proof (rule early_setup[of example_procs])
  fix gc :: graph_ctx
  assume r: "vx_result (gc_ctx gc (VertexRef 0)) = V_RESULT_INVALID"
  obtain gc' ts evs where e: "EndProcess early_graph (Returned 7) (VertexRef 0) gc = (gc', ts, evs)"
    by (metis prod_cases3)
  have "ts = [TDone (VertexRef 0)] \<and> finish_spec early_graph (VertexRef 0) 7 gc gc' evs"
    using operator_ends[OF e r] by simp
  then have f: "ts = [TDone (VertexRef 0)]" "finish_spec early_graph (VertexRef 0) 7 gc gc' evs" by blast+
  then have "vx_result (gc_ctx gc' (VertexRef 0)) = V_RESULT_ERR" by (simp add: finish_spec_def early_fields)
  with e f show ?thesis by blast
qed

text \<open>
  \<open>ExecuteReadyVertexs\<close> runs each vertex it is given exactly once, the last of them in
  place, and keeps a vertex without I/O for itself when there is one.
\<close>

theorem ready_once:
  assumes "distinct ready" and "ready \<noteq> []"
  shows "mset (ExecuteReadyVertexs gc ready) = mset (map TExecute ready)
    \<and> last (ExecuteReadyVertexs gc ready) = TExecute (local_vertex gc ready)
    \<and> ((\<exists>v \<in> set ready. case vx_processor (gc_ctx gc v) of None \<Rightarrow> True | Some p \<Rightarrow> \<not> pi_is_io p)
        \<longrightarrow> (case vx_processor (gc_ctx gc (local_vertex gc ready)) of None \<Rightarrow> True | Some p \<Rightarrow> \<not> pi_is_io p))"
proof (intro conjI impI)
  show "mset (ExecuteReadyVertexs gc ready) = mset (map TExecute ready)"
    by (rule mset_ExecuteReadyVertexs[OF assms(1)])
  show "last (ExecuteReadyVertexs gc ready) = TExecute (local_vertex gc ready)"
  proof (cases "length ready = 1")
    case True
    then obtain v where "ready = [v]" by (auto simp: length_Suc_conv)
    then show ?thesis by (simp add: ExecuteReadyVertexs_def local_vertex_def)
  next
    case False
    with assms(2) show ?thesis by (simp add: ExecuteReadyVertexs_def)
  qed
  let ?cheap = "\<lambda>v. case vx_processor (gc_ctx gc v) of None \<Rightarrow> True | Some p \<Rightarrow> \<not> pi_is_io p"
  assume "\<exists>v \<in> set ready. ?cheap v"
  then obtain v where "List.find ?cheap ready = Some v" by (metis find_None_iff not_Some_eq)
  moreover from this have "?cheap v" by (simp add: find_Some_iff) blast
  ultimately show "?cheap (local_vertex gc ready)" by (simp add: local_vertex_def)
qed

theorem ready_once_witness:
  "mset (ExecuteReadyVertexs example_gc [VertexRef 0, GenRef 0]) = {#TExecute (VertexRef 0), TExecute (GenRef 0)#}"
proof -
  have "distinct [VertexRef 0, GenRef 0]" "[VertexRef 0, GenRef 0] \<noteq> []" by simp_all
  from ready_once[OF this, of example_gc] show ?thesis by simp
qed

text \<open>
  A vertex whose subgraph does not exist succeeds. The store finds the cluster but not the
  graph, so that the vertex is told -1; with the default flags the code becomes 0 and the result
  \<open>OK\<close>, as if the subgraph had run.
\<close>

theorem missing_subgraph_succeeds:
  assumes "Execute g ch v gc = (gc', ts, evs)" and "vx_result (gc_ctx gc v) = V_RESULT_INVALID"
    and "vx_processor (gc_ctx gc v) = None" and "\<not> vx_subgraph_ctx (gc_ctx gc v)"
    and "v_cluster (deref g v) \<noteq> []" and "ch_cluster_found ch" and "\<not> ch_graph_found ch"
    and "match_deps (vx_deps_results (gc_ctx gc v)) (v_deps_expected_results (deref g v))"
    and "match_expect_config (ch_bool ch) (v_expect_config (deref g v))"
    and "\<not> ch_timeout ch" and "gc_early_exist_rc gc = 0"
    and "v_ignore_processor_execute_error (deref g v)" and "\<not> IsCondVertex (deref g v)"
    and "\<not> v_early_exit_graph_if_failed (deref g v)" and "\<not> g_early_exit_graph_if_failed g"
  shows "ts = [TDone v] \<and> vx_result (gc_ctx gc' v) = V_RESULT_OK \<and> vx_code (gc_ctx gc' v) = 0"
proof -
  define gc1 where "gc1 = (if v_cluster (deref g v) \<noteq> [] \<and> \<not> vx_subgraph_cluster (gc_ctx gc v)
               then modify_ctx v (\<lambda>c. c\<lparr>vx_subgraph_cluster := ch_cluster_found ch\<rparr>) gc else gc)"
  have s: "vx_deps_results (gc_ctx gc1 v) = vx_deps_results (gc_ctx gc v)" "vx_processor (gc_ctx gc1 v) = None"
    "vx_result (gc_ctx gc1 v) = V_RESULT_INVALID" "\<not> vx_subgraph_ctx (gc_ctx gc1 v)"
    "vx_subgraph_cluster (gc_ctx gc1 v)" "gc_early_exist_rc gc1 = 0"
    using assms(2-6,11) by (auto simp: gc1_def modify_ctx_def)
  have "ExecuteSubGraph g ch v gc1 = (gc', ts, evs)"
    using assms(1,8-10) s unfolding Execute_def Let_def gc1_def[symmetric] by simp
  then obtain evs' where f: "FinishVertexProcess g v (-1) True gc1 = (gc', evs')" and ts: "ts = [TDone v]"
    using s(4) assms(7) by (auto simp: ExecuteSubGraph_def split: prod.splits)
  from FinishVertexProcess_spec[OF f s(3)] assms(12-15) ts show ?thesis
    by (simp add: finish_spec_def Let_def IsCondVertex_def)
qed

text \<open>A graph whose only vertex names a subgraph that does not exist.\<close>

definition sub_graph :: graph where
  "sub_graph = single_graph\<lparr>g_vertex := [new_vertex\<lparr>v_cluster := ''c'', v_graph := ''missing''\<rparr>]\<rparr>"

theorem missing_subgraph_succeeds_witness:
  "\<exists>gc' evs. Execute sub_graph ((returns 0)\<lparr>ch_cluster_found := True\<rparr>) (VertexRef 0)
      \<lparr>gc_vertexs = [VertexRef 0], gc_ctx = (\<lambda>_. new_vertex_ctx), gc_join_vertex_num = 1,
       gc_start_ctxs = [VertexRef 0], gc_while_ctx = None, gc_early_exist_rc = 0\<rparr> = (gc', [TDone (VertexRef 0)], evs)
    \<and> vx_result (gc_ctx gc' (VertexRef 0)) = V_RESULT_OK"
proof -
  let ?gc = "\<lparr>gc_vertexs = [VertexRef 0], gc_ctx = (\<lambda>_. new_vertex_ctx), gc_join_vertex_num = 1,
       gc_start_ctxs = [VertexRef 0], gc_while_ctx = None, gc_early_exist_rc = 0\<rparr>"
  let ?ch = "(returns 0)\<lparr>ch_cluster_found := True\<rparr>"
  obtain gc' ts evs where e: "Execute sub_graph ?ch (VertexRef 0) ?gc = (gc', ts, evs)" by (metis prod_cases3)
  have d: "deref sub_graph (VertexRef 0) = new_vertex\<lparr>v_cluster := ''c'', v_graph := ''missing''\<rparr>"
    "\<not> g_early_exit_graph_if_failed sub_graph"
    by (simp_all add: sub_graph_def single_graph_def deref_def new_graph_def)
  have "ts = [TDone (VertexRef 0)] \<and> vx_result (gc_ctx gc' (VertexRef 0)) = V_RESULT_OK
      \<and> vx_code (gc_ctx gc' (VertexRef 0)) = 0"
    by (rule missing_subgraph_succeeds[OF e])
      (simp_all add: d new_vertex_ctx_def new_vertex_def returns_def match_deps_def match_expect_config_def IsCondVertex_def)
  with e show ?thesis by blast
qed

end
