(* ===== verification/DataContext.thy ===== *)
theory DataContext
  imports Vertex
begin

text \<open>
  The data of a running graph (\<open>GraphDataContext\<close> of \<open>processor/api.h\<close> and
  \<open>processor/processor.cpp\<close>): a table from names and types to values, an array of the registered
  entries, a parent and the contexts of the subgraphs that ran.

  A context is an index of the list of all contexts; a \<open>DataValue\<close>, which never moves and is
  never removed while its context lives, is named by its key. Objects of the operators are numbers
  (\<open>None\<close> is the null pointer).
\<close>

type_synonym caddr = nat
type_synonym data_key = "string \<times> nat"

record data_value =
  dv_val :: "nat option"
  dv_sval :: "nat option"
  dv_idx :: nat

definition new_data_value :: data_value where
  "new_data_value = \<lparr>dv_val = None, dv_sval = None, dv_idx = 0\<rparr>"

definition ResetDataValue :: "data_value \<Rightarrow> data_value" where
  "ResetDataValue d = d\<lparr>dv_val := None, dv_sval := None\<rparr>"

record data_ctx =
  dc_table :: "(data_key \<times> data_value) list"
  dc_array :: "data_key list"
  dc_parent :: "caddr option"
  dc_children :: "caddr option list"
  dc_disable_entry_creation :: bool

definition new_data_ctx :: data_ctx where
  "new_data_ctx = \<lparr>dc_table = [], dc_array = [], dc_parent = None, dc_children = [],
     dc_disable_entry_creation = False\<rparr>"

text \<open>How a value is held: by pointer or by \<open>std::shared_ptr\<close>.\<close>

datatype hold = ByPointer | ByShared

fun held :: "hold \<Rightarrow> data_value \<Rightarrow> nat option" where
  "held ByPointer d = dv_val d"
| "held ByShared d = dv_sval d"

record get_options =
  with_parent :: bool
  with_di_container :: bool
  with_children :: bool

definition default_options :: get_options where
  "default_options = \<lparr>with_parent = True, with_di_container = True, with_children = True\<rparr>"

section \<open>One context\<close>

definition GetDataValue :: "data_ctx \<Rightarrow> data_key \<Rightarrow> int \<Rightarrow> data_key option" where
  "GetDataValue c key idx =
    (if 0 \<le> idx \<and> nat idx < length (dc_array c) then Some (dc_array c ! nat idx)
     else if map_of (dc_table c) key \<noteq> None then Some key else None)"

definition value_at :: "data_ctx \<Rightarrow> data_key \<Rightarrow> data_value" where
  "value_at c key = the (map_of (dc_table c) key)"

definition put_value :: "data_key \<Rightarrow> data_value \<Rightarrow> data_ctx \<Rightarrow> data_ctx" where
  "put_value key d c = c\<lparr>dc_table := AList.update key d (dc_table c)\<rparr>"

definition RegisterData :: "data_key \<Rightarrow> data_ctx \<Rightarrow> nat \<times> data_ctx" where
  "RegisterData key c =
    (case map_of (dc_table c) key of
       None \<Rightarrow> let idx = length (dc_array c)
                in (idx, put_value key (new_data_value\<lparr>dv_idx := idx\<rparr>) (c\<lparr>dc_array := dc_array c @ [key]\<rparr>))
     | Some d \<Rightarrow> (dv_idx d, c))"

definition store_value :: "hold \<Rightarrow> nat option \<Rightarrow> data_value \<Rightarrow> data_value" where
  "store_value h v d = (case h of ByPointer \<Rightarrow> d\<lparr>dv_val := v\<rparr>
                  | ByShared \<Rightarrow> d\<lparr>dv_sval := v, dv_val := v\<rparr>)"

definition SetData :: "hold \<Rightarrow> data_key \<Rightarrow> nat option \<Rightarrow> int \<Rightarrow> data_ctx \<Rightarrow> bool \<times> data_ctx" where
  "SetData h key v idx c =
    (case GetDataValue c key idx of
       Some k \<Rightarrow> (True, put_value k (store_value h v (value_at c k)) c)
     | None \<Rightarrow>
         if dc_disable_entry_creation c then (False, c)
         else (True, put_value key (store_value h v new_data_value) c))"

definition DisableEntryCreation :: "data_ctx \<Rightarrow> data_ctx" where
  "DisableEntryCreation c = c\<lparr>dc_disable_entry_creation := True\<rparr>"

definition ReserveChildCapacity :: "nat \<Rightarrow> data_ctx \<Rightarrow> data_ctx" where
  "ReserveChildCapacity n c =
    (if length (dc_children c) < n
     then c\<lparr>dc_children := dc_children c @ replicate (n - length (dc_children c)) None\<rparr> else c)"

definition SetChild :: "caddr option \<Rightarrow> nat \<Rightarrow> data_ctx \<Rightarrow> data_ctx" where
  "SetChild ch idx c =
    (if idx \<ge> length (dc_children c) then c else c\<lparr>dc_children := (dc_children c)[idx := ch]\<rparr>)"

definition ResetData :: "data_ctx \<Rightarrow> data_ctx" where
  "ResetData c =
    (fold (\<lambda>k c. put_value k (ResetDataValue (value_at c k)) c) (dc_array c) c)
      \<lparr>dc_parent := None, dc_children := replicate (length (dc_children c)) None,
       dc_disable_entry_creation := False\<rparr>"

section \<open>Lookup through the contexts\<close>

text \<open>
  The search that \<open>Get\<close>, \<open>Move\<close> and \<open>GetValue\<close> share. The contexts already searched are one set
  for the whole search. \<open>here\<close> is what the context itself answers, \<open>there\<close> what any other context
  answers, \<open>di\<close> the answer of the dependency container. The outer \<open>None\<close> is running out of fuel; as
  every context that is searched is marked, one more than the number of contexts is enough.
\<close>

fun search_children ::
  "(caddr \<Rightarrow> caddr list \<Rightarrow> ('r option \<times> caddr list) option) \<Rightarrow> caddr option list \<Rightarrow> caddr list
   \<Rightarrow> ('r option \<times> caddr list) option" where
  "search_children f [] excl = Some (None, excl)"
| "search_children f (ch # chs) excl =
    (case ch of
       None \<Rightarrow> search_children f chs excl
     | Some a \<Rightarrow>
         if a \<in> set excl then search_children f chs excl
         else Option.bind (f a excl) (\<lambda>(r, excl').
           if r \<noteq> None then Some (r, excl') else search_children f chs excl'))"

primrec search_ctx ::
  "nat \<Rightarrow> 'r option \<Rightarrow> data_ctx list \<Rightarrow> (caddr \<Rightarrow> 'r option) \<Rightarrow> (caddr \<Rightarrow> 'r option) \<Rightarrow> get_options
   \<Rightarrow> caddr \<Rightarrow> caddr list \<Rightarrow> ('r option \<times> caddr list) option" where
  "search_ctx 0 = (\<lambda>di cs there here opt a excl. None)"
| "search_ctx (Suc n) = (\<lambda>di cs there here opt a excl.
    case here a of
      Some v \<Rightarrow> Some (Some v, excl)
    | None \<Rightarrow>
        let excl1 = a # excl in
        Option.bind
          (case dc_parent (cs ! a) of
             Some p \<Rightarrow>
               if with_parent opt \<and> p \<notin> set excl1
               then search_ctx n di cs there there
                 \<lparr>with_parent = True, with_di_container = False, with_children = with_children opt\<rparr> p excl1
               else Some (None, excl1)
           | None \<Rightarrow> Some (None, excl1))
        (\<lambda>(r, excl2).
          if r \<noteq> None then Some (r, excl2)
          else if with_di_container opt \<and> di \<noteq> None then Some (di, excl2)
          else if with_children opt
          then search_children (\<lambda>ch. search_ctx n di cs there there default_options ch) (dc_children (cs ! a)) excl2
          else Some (None, excl2)))"

definition answer :: "('r option \<times> caddr list) option \<Rightarrow> 'r option" where
  "answer r = (case r of None \<Rightarrow> None | Some (v, _) \<Rightarrow> v)"

definition local_value :: "data_ctx list \<Rightarrow> hold \<Rightarrow> data_key \<Rightarrow> int \<Rightarrow> caddr \<Rightarrow> nat option" where
  "local_value cs h key idx a =
    (case GetDataValue (cs ! a) key idx of None \<Rightarrow> None | Some k \<Rightarrow> held h (value_at (cs ! a) k))"

definition DataGet :: "(data_key \<Rightarrow> nat option) \<Rightarrow> data_ctx list \<Rightarrow> hold \<Rightarrow> data_key \<Rightarrow> int \<Rightarrow> get_options \<Rightarrow> caddr
    \<Rightarrow> nat option" where
  "DataGet di cs h key idx opt a =
    answer (search_ctx (length cs + 1) (di key) cs (local_value cs h key (-1)) (local_value cs h key idx) opt a [])"

text \<open>\<open>GetValue\<close> looks for an entry, whatever it holds, and never asks the container.\<close>

definition local_entry :: "data_ctx list \<Rightarrow> data_key \<Rightarrow> caddr \<Rightarrow> (caddr \<times> data_key) option" where
  "local_entry cs key a = (if map_of (dc_table (cs ! a)) key \<noteq> None then Some (a, key) else None)"

definition GetValue :: "data_ctx list \<Rightarrow> data_key \<Rightarrow> caddr \<Rightarrow> (caddr \<times> data_key) option" where
  "GetValue cs key a =
    answer (search_ctx (length cs + 1) None cs (local_entry cs key) (local_entry cs key) default_options a [])"

section \<open>Moving\<close>

definition write_value :: "caddr \<Rightarrow> data_key \<Rightarrow> data_value \<Rightarrow> data_ctx list \<Rightarrow> data_ctx list" where
  "write_value a key d cs = cs[a := put_value key d (cs ! a)]"

text \<open>\<open>Move\<close> of an input: the first pointer found is taken out of its entry; a shared value is never found.\<close>

definition local_owner :: "data_ctx list \<Rightarrow> hold \<Rightarrow> data_key \<Rightarrow> int \<Rightarrow> caddr \<Rightarrow> (caddr \<times> data_key) option" where
  "local_owner cs h key idx a =
    (case GetDataValue (cs ! a) key idx of
       None \<Rightarrow> None
     | Some k \<Rightarrow> if h = ByPointer \<and> dv_val (value_at (cs ! a) k) \<noteq> None then Some (a, k) else None)"

definition DataMove :: "data_ctx list \<Rightarrow> hold \<Rightarrow> data_key \<Rightarrow> int \<Rightarrow> caddr \<Rightarrow> nat option \<times> data_ctx list" where
  "DataMove cs h key idx a =
    (case answer (search_ctx (length cs + 1) None cs (local_owner cs h key (-1)) (local_owner cs h key idx)
                   default_options a []) of
       None \<Rightarrow> (None, cs)
     | Some (b, k) \<Rightarrow>
         let d = value_at (cs ! b) k in (dv_val d, write_value b k (d\<lparr>dv_val := None\<rparr>) cs))"

text \<open>\<open>Move\<close> between two entries, by which a skipped vertex passes an input on.\<close>

definition MoveBetween :: "data_key \<Rightarrow> data_key \<Rightarrow> caddr \<Rightarrow> data_ctx list \<Rightarrow> int \<times> data_ctx list" where
  "MoveBetween from_key to_key a cs =
    (case (GetValue cs from_key a, GetValue cs to_key a) of
       (Some (b, f), Some (d, t)) \<Rightarrow>
         let v = value_at (cs ! b) f;
             cs1 = write_value d t ((value_at (cs ! d) t)\<lparr>dv_val := dv_val v, dv_sval := dv_sval v\<rparr>) cs
         in (0, write_value b f ((value_at (cs1 ! b) f)\<lparr>dv_val := None, dv_sval := None\<rparr>) cs1)
     | _ \<Rightarrow> (-1, cs))"

end
