(* ===== verification/Processor.thy ===== *)
theory Processor
  imports DataContext
begin

text \<open>
  Operator objects (\<open>Processor\<close> and the declaration macros of \<open>processor/api.h\<close>, the member
  functions of \<open>processor/processor.cpp\<close>). An operator is the list of its declared inputs, outputs
  and parameters; its state is the value of every declared member. Objects are numbers as in
  \<open>DataContext\<close>, their contents are the operator's own.
\<close>

section \<open>Declarations\<close>

datatype input_kind = OpInput | OpMapInput | OpInOut

text \<open>
  What an output hands out: the address of a member object, or what a pointer or shared pointer
  member points to (\<open>GRAPH_OP_ARENA_OUTPUT\<close>, \<open>GRAPH_OP_IN_OUT\<close>, a \<open>GRAPH_OP_OUTPUT\<close> of a shared type).
\<close>

datatype output_kind = OwnObject nat | FromMember

record input_info = field_info +
  fi_member :: string
  fi_hold :: hold
  fi_kind :: input_kind

record output_info = field_info +
  fo_member :: string
  fo_hold :: hold
  fo_kind :: output_kind
  fo_arena :: bool

datatype param_value =
  StringValue string | IntValue int | BoolValue bool | DoubleValue "64 word"
| StringList "string list" | IntList "int list" | BoolList "bool list" | DoubleList "64 word list"

record param_decl =
  pd_name :: string
  pd_default :: param_value

record processor =
  pr_inputs :: "input_info list"
  pr_outputs :: "output_info list"
  pr_params :: "param_decl list"

record op_state =
  op_member :: "string \<Rightarrow> nat option"
  op_map :: "string \<Rightarrow> (string \<times> nat) list"
  op_param :: "string \<Rightarrow> param_value"

definition set_member :: "string \<Rightarrow> nat option \<Rightarrow> op_state \<Rightarrow> op_state" where
  "set_member n v st = st\<lparr>op_member := (op_member st)(n := v)\<rparr>"

definition set_op_param :: "string \<Rightarrow> param_value \<Rightarrow> op_state \<Rightarrow> op_state" where
  "set_op_param n v st = st\<lparr>op_param := (op_param st)(n := v)\<rparr>"

section \<open>Parameters\<close>

text \<open>
  The setter of a parameter. A scalar is taken over when the argument has exactly its type, a vector
  when the name is there at all, element by element whatever the elements are.
\<close>

definition elements :: "(params \<Rightarrow> 'a) \<Rightarrow> params \<Rightarrow> 'a list" where
  "elements f m = map (\<lambda>i. f (index_const m i)) [0..<Size m]"

fun scalar_arg :: "param_value \<Rightarrow> params \<Rightarrow> param_value option" where
  "scalar_arg (StringValue _) p = (if IsString p then Some (StringValue (str p)) else None)"
| "scalar_arg (IntValue _) p = (if IsInt p then Some (IntValue (iv p)) else None)"
| "scalar_arg (BoolValue _) p = (if IsBool p then Some (BoolValue (bv p)) else None)"
| "scalar_arg (DoubleValue _) p = (if IsDouble p then Some (DoubleValue (dv p)) else None)"
| "scalar_arg _ p = None"

fun vector_arg :: "param_value \<Rightarrow> params \<Rightarrow> param_value option" where
  "vector_arg (StringList _) p = Some (StringList (elements str p))"
| "vector_arg (IntList _) p = Some (IntList (elements iv p))"
| "vector_arg (BoolList _) p = Some (BoolList (elements bv p))"
| "vector_arg (DoubleList _) p = Some (DoubleList (elements dv p))"
| "vector_arg _ p = None"

fun is_vector :: "param_value \<Rightarrow> bool" where
  "is_vector (StringList _) = True" | "is_vector (IntList _) = True"
| "is_vector (BoolList _) = True" | "is_vector (DoubleList _) = True"
| "is_vector _ = False"

definition keep_or :: "string \<Rightarrow> param_value option \<Rightarrow> op_state \<Rightarrow> op_state" where
  "keep_or n v st = (case v of None \<Rightarrow> st | Some w \<Rightarrow> set_op_param n w st)"

definition set_param :: "pheap \<Rightarrow> params \<Rightarrow> param_decl \<Rightarrow> op_state \<Rightarrow> op_state option" where
  "set_param h args d st =
    (let n = pd_name d in
     if is_vector (pd_default d)
     then Option.bind (Contains h args n) (\<lambda>c.
            if c then map_option (\<lambda>m. keep_or n (vector_arg (pd_default d) m) st) (Get h args n) else Some st)
     else map_option (\<lambda>arg. keep_or n (scalar_arg (pd_default d) arg) st) (Get h args n))"

fun set_params :: "pheap \<Rightarrow> params \<Rightarrow> param_decl list \<Rightarrow> op_state \<Rightarrow> op_state option" where
  "set_params h args [] st = Some st"
| "set_params h args (d # ds) st = Option.bind (set_param h args d st) (set_params h args ds)"

text \<open>A member vector starts empty: only \<open>Reset\<close> gives it its default value.\<close>

fun initial_param :: "param_value \<Rightarrow> param_value" where
  "initial_param (StringList _) = StringList []" | "initial_param (IntList _) = IntList []"
| "initial_param (BoolList _) = BoolList []" | "initial_param (DoubleList _) = DoubleList []"
| "initial_param v = v"

section \<open>The life of an operator\<close>

definition new_op :: "processor \<Rightarrow> op_state" where
  "new_op p = fold (\<lambda>d. set_op_param (pd_name d) (initial_param (pd_default d))) (pr_params p)
     \<lparr>op_member = (\<lambda>_. None), op_map = (\<lambda>_. []), op_param = (\<lambda>_. BoolValue False)\<rparr>"

text \<open>
  The user's \<open>OnSetup\<close>, \<open>OnPrepare\<close>, \<open>OnReset\<close> and \<open>OnExecute\<close> are arguments: they may change the
  members in any way. \<open>arena\<close> gives the object that \<open>Prepare\<close> creates for an arena output.
\<close>

definition PrepareOp :: "processor \<Rightarrow> (string \<Rightarrow> nat) \<Rightarrow> (op_state \<Rightarrow> int \<times> op_state) \<Rightarrow> op_state \<Rightarrow> int \<times> op_state" where
  "PrepareOp p arena OnPrepare st =
    OnPrepare (fold (\<lambda>i st. if fo_arena i then set_member (fo_member i) (Some (arena (fo_member i))) st else st)
                 (pr_outputs p) st)"

fun reset_input :: "input_info \<Rightarrow> op_state \<Rightarrow> op_state" where
  "reset_input i st =
    (if fi_kind i = OpMapInput then st\<lparr>op_map := (op_map st)(fi_member i := [])\<rparr>
     else set_member (fi_member i) None st)"

definition reset_output :: "output_info \<Rightarrow> op_state \<Rightarrow> op_state" where
  "reset_output i st = (case fo_kind i of OwnObject _ \<Rightarrow> st | FromMember \<Rightarrow> set_member (fo_member i) None st)"

definition ResetOp :: "processor \<Rightarrow> (op_state \<Rightarrow> op_state) \<Rightarrow> op_state \<Rightarrow> op_state" where
  "ResetOp p OnReset st =
    fold (\<lambda>d. set_op_param (pd_name d) (pd_default d)) (pr_params p)
      (fold reset_output (pr_outputs p) (fold reset_input (pr_inputs p) (OnReset st)))"

definition ExecuteOp :: "processor \<Rightarrow> pheap \<Rightarrow> params \<Rightarrow> (params \<Rightarrow> op_state \<Rightarrow> int \<times> op_state) \<Rightarrow> op_state
    \<Rightarrow> (int \<times> op_state) option" where
  "ExecuteOp p h args OnExecute st = map_option (OnExecute args) (set_params h args (pr_params p) st)"

section \<open>Injecting and emitting\<close>

definition read_input :: "(data_key \<Rightarrow> nat option) \<Rightarrow> caddr \<Rightarrow> input_info \<Rightarrow> int \<Rightarrow> string \<Rightarrow> bool \<Rightarrow> data_ctx list
    \<Rightarrow> nat option \<times> data_ctx list" where
  "read_input di a i idx name mv cs =
    (let key = (name, fi_id i) in
     if mv then DataMove cs (fi_hold i) key idx a
     else (DataGet di cs (fi_hold i) key idx default_options a, cs))"

definition inject :: "(data_key \<Rightarrow> nat option) \<Rightarrow> caddr \<Rightarrow> input_info \<Rightarrow> int \<Rightarrow> bool \<Rightarrow> string
    \<Rightarrow> op_state \<times> data_ctx list \<Rightarrow> int \<times> op_state \<times> data_ctx list" where
  "inject di a i idx mv name s =
    (let (st, cs) = s; m = fi_member i in
     case fi_kind i of
       OpInput \<Rightarrow> (let (v, cs') = read_input di a i idx name mv cs
                   in (if v = None then -1 else 0, set_member m v st, cs'))
     | OpMapInput \<Rightarrow> (let (v, cs') = read_input di a i idx name mv cs
                   in case v of
                        None \<Rightarrow> (-1, st, cs')
                      | Some w \<Rightarrow> (0, st\<lparr>op_map := (op_map st)(m := AList.update name w (op_map st m))\<rparr>, cs'))
     | OpInOut \<Rightarrow> (if \<not> mv then (-1, st, cs)
                   else let (v, cs') = DataMove cs (fi_hold i) (name, fi_id i) idx a
                        in (if v = None then -1 else 0, set_member m v st, cs')))"

definition emitted :: "op_state \<Rightarrow> output_info \<Rightarrow> nat option" where
  "emitted st i = (case fo_kind i of OwnObject x \<Rightarrow> Some x | FromMember \<Rightarrow> op_member st (fo_member i))"

text \<open>The result of \<open>Set\<close> is ignored: emitting always succeeds.\<close>

definition emit :: "output_info \<Rightarrow> int \<Rightarrow> string \<Rightarrow> op_state \<Rightarrow> data_ctx \<Rightarrow> int \<times> data_ctx" where
  "emit i idx name st c = (0, snd (SetData (fo_hold i) (name, fi_id i) (emitted st i) idx c))"

end
