(* ===== verification/DataSearch.thy ===== *)
theory DataSearch
  imports DataContext
begin

text \<open>
  The search through the contexts returns, finds only values that are there, and finds one
  whenever a context within reach has one.
\<close>

definition neighbours :: "data_ctx list \<Rightarrow> caddr \<Rightarrow> caddr set" where
  "neighbours cs x = {y. dc_parent (cs ! x) = Some y \<or> Some y \<in> set (dc_children (cs ! x))}"

definition ctxs_ok :: "data_ctx list \<Rightarrow> bool" where
  "ctxs_ok cs = (\<forall>x < length cs. \<forall>y \<in> neighbours cs x. y < length cs)"

definition within_reach :: "data_ctx list \<Rightarrow> caddr \<Rightarrow> caddr \<Rightarrow> bool" where
  "within_reach cs a x = ((a, x) \<in> {(u, w). w \<in> neighbours cs u}\<^sup>*)"

lemma reach_refl [simp]: "within_reach cs a a"
  by (simp add: within_reach_def)

lemma reach_step: "y \<in> neighbours cs a \<Longrightarrow> within_reach cs y x \<Longrightarrow> within_reach cs a x"
  unfolding within_reach_def by (rule converse_rtrancl_into_rtrancl) auto

text \<open>The marks of a search: \<open>marks\<close> without repetition and in range, and growing.\<close>

definition marks :: "data_ctx list \<Rightarrow> caddr list \<Rightarrow> bool" where
  "marks cs excl = (distinct excl \<and> set excl \<subseteq> {..<length cs})"

definition marks_grow :: "data_ctx list \<Rightarrow> caddr list \<Rightarrow> caddr list \<Rightarrow> bool" where
  "marks_grow cs excl excl' = (marks cs excl' \<and> set excl \<subseteq> set excl' \<and> length excl \<le> length excl')"

text \<open>Everything marked since \<open>S\<close> had no value, and its neighbours are marked.\<close>

definition exhausted :: "data_ctx list \<Rightarrow> (caddr \<Rightarrow> 'r option) \<Rightarrow> caddr set \<Rightarrow> caddr set \<Rightarrow> bool" where
  "exhausted cs there S S' = (\<forall>x \<in> S' - S. there x = None \<and> neighbours cs x \<subseteq> S')"

lemma marks_grow_refl: "marks cs excl \<Longrightarrow> marks_grow cs excl excl"
  by (simp add: marks_grow_def)

lemma marks_grow_trans: "marks_grow cs e1 e2 \<Longrightarrow> marks_grow cs e2 e3 \<Longrightarrow> marks_grow cs e1 e3"
  by (auto simp: marks_grow_def)

lemma exhausted_refl [simp]: "exhausted cs there S S"
  by (simp add: exhausted_def)

lemma exhausted_trans:
  "exhausted cs there S S' \<Longrightarrow> exhausted cs there S' S'' \<Longrightarrow> S' \<subseteq> S'' \<Longrightarrow> exhausted cs there S S''"
  unfolding exhausted_def by blast

definition result_good :: "data_ctx list \<Rightarrow> (caddr \<Rightarrow> 'r option) \<Rightarrow> 'r option \<Rightarrow> caddr \<Rightarrow> 'r \<Rightarrow> bool" where
  "result_good cs there di a v = (di = Some v \<or> (\<exists>x. within_reach cs a x \<and> there x = Some v))"

lemma result_good_step: "y \<in> neighbours cs a \<Longrightarrow> result_good cs there di y v \<Longrightarrow> result_good cs there di a v"
  unfolding result_good_def using reach_step by blast

text \<open>What one search is shown to do, when it has fuel for the contexts that are left.\<close>

definition search_spec :: "data_ctx list \<Rightarrow> (caddr \<Rightarrow> 'r option) \<Rightarrow> 'r option \<Rightarrow> caddr \<Rightarrow> caddr list
    \<Rightarrow> ('r option \<times> caddr list) option \<Rightarrow> bool" where
  "search_spec cs there di a excl res =
    (\<exists>r excl'. res = Some (r, excl') \<and> marks_grow cs excl excl'
      \<and> (case r of None \<Rightarrow> a \<in> set excl' \<and> exhausted cs there (set excl) (set excl')
         | Some v \<Rightarrow> result_good cs there di a v))"

lemma search_children_spec:
  assumes f: "\<And>c excl. Some c \<in> set chs \<Longrightarrow> marks cs excl \<Longrightarrow> c \<notin> set excl \<Longrightarrow> length cs < length excl + n \<Longrightarrow>
      search_spec cs there di c excl (f c excl)"
    and m: "marks cs excl" "length cs < length excl + n"
    and chs: "\<And>c. Some c \<in> set chs \<Longrightarrow> c \<in> neighbours cs a"
  shows "\<exists>r excl'. search_children f chs excl = Some (r, excl') \<and> marks_grow cs excl excl'
      \<and> (case r of None \<Rightarrow> (\<forall>c. Some c \<in> set chs \<longrightarrow> c \<in> set excl') \<and> exhausted cs there (set excl) (set excl')
         | Some v \<Rightarrow> result_good cs there di a v)"
  using assms
proof (induction chs arbitrary: excl)
  case Nil
  then show ?case by (simp add: marks_grow_refl)
next
  case (Cons ch chs)
  note f = Cons.prems(1) and m = Cons.prems(2,3) and nb = Cons.prems(4)
  have IH: "\<exists>r excl''. search_children f chs excl' = Some (r, excl'') \<and> marks_grow cs excl' excl''
      \<and> (case r of None \<Rightarrow> (\<forall>c. Some c \<in> set chs \<longrightarrow> c \<in> set excl'') \<and> exhausted cs there (set excl') (set excl'')
         | Some v \<Rightarrow> result_good cs there di a v)"
    if "marks cs excl'" "length cs < length excl' + n" for excl'
    by (rule Cons.IH) (use f nb that in auto)
  show ?case
  proof (cases "ch = None \<or> (\<exists>c. ch = Some c \<and> c \<in> set excl)")
    case True
    then have "search_children f (ch # chs) excl = search_children f chs excl" by auto
    moreover obtain r excl' where r: "search_children f chs excl = Some (r, excl')" "marks_grow cs excl excl'"
      "case r of None \<Rightarrow> (\<forall>c. Some c \<in> set chs \<longrightarrow> c \<in> set excl') \<and> exhausted cs there (set excl) (set excl')
         | Some v \<Rightarrow> result_good cs there di a v"
      using IH[OF m] by blast
    ultimately show ?thesis using True by (cases r) (auto simp: marks_grow_def)
  next
    case False
    then obtain c where c: "ch = Some c" "c \<notin> set excl" by auto
    have "search_spec cs there di c excl (f c excl)" using f c m by simp
    then obtain r excl1 where fc: "f c excl = Some (r, excl1)" "marks_grow cs excl excl1"
      "case r of None \<Rightarrow> c \<in> set excl1 \<and> exhausted cs there (set excl) (set excl1)
         | Some v \<Rightarrow> result_good cs there di c v"
      unfolding search_spec_def by blast
    show ?thesis
    proof (cases r)
      case (Some v)
      with fc c result_good_step[OF nb[of c]] show ?thesis by simp
    next
      case None
      have m1: "marks cs excl1" "length cs < length excl1 + n" using fc(2) m(2) by (auto simp: marks_grow_def)
      obtain r2 excl2 where r2: "search_children f chs excl1 = Some (r2, excl2)" "marks_grow cs excl1 excl2"
        "case r2 of None \<Rightarrow> (\<forall>c. Some c \<in> set chs \<longrightarrow> c \<in> set excl2) \<and> exhausted cs there (set excl1) (set excl2)
         | Some v \<Rightarrow> result_good cs there di a v"
        using IH[OF m1] by blast
      have sub: "set excl1 \<subseteq> set excl2" using r2(2) by (simp add: marks_grow_def)
      have "marks_grow cs excl excl2" using fc(2) r2(2) by (rule marks_grow_trans)
      moreover have "search_children f (ch # chs) excl = Some (r2, excl2)" using c fc(1) None r2(1) by simp
      moreover have "case r2 of None \<Rightarrow> (\<forall>c. Some c \<in> set (ch # chs) \<longrightarrow> c \<in> set excl2)
          \<and> exhausted cs there (set excl) (set excl2) | Some v \<Rightarrow> result_good cs there di a v"
        using r2(3) fc(3) None c(1) sub exhausted_trans[of cs there "set excl" "set excl1" "set excl2"]
        by (auto split: option.splits)
      ultimately show ?thesis by blast
    qed
  qed
qed

lemma neighboursI: "dc_parent (cs ! a) = Some p \<Longrightarrow> p \<in> neighbours cs a" "Some c \<in> set (dc_children (cs ! a)) \<Longrightarrow> c \<in> neighbours cs a"
  by (auto simp: neighbours_def)

lemma search_ctx_spec:
  assumes ok: "ctxs_ok cs"
  shows "a < length cs \<Longrightarrow> a \<notin> set excl \<Longrightarrow> marks cs excl \<Longrightarrow> length cs < length excl + n \<Longrightarrow>
    with_parent opt \<Longrightarrow> with_children opt \<Longrightarrow>
    search_spec cs there di a excl (search_ctx n di cs there there opt a excl)"
proof (induction n arbitrary: a excl opt)
  case 0
  have "length excl \<le> card {..<length cs}"
    using 0(3) card_mono[of "{..<length cs}" "set excl"] by (simp add: marks_def distinct_card)
  with 0(4) show ?case by simp
next
  case (Suc n)
  have lt: "y < length cs" if "y \<in> neighbours cs a" for y using ok Suc.prems(1) that unfolding ctxs_ok_def by blast
  show ?case
  proof (cases "there a")
    case (Some v)
    with Suc.prems(3) show ?thesis
      by (auto simp: search_spec_def marks_grow_refl result_good_def intro!: exI[of _ a])
  next
    case None
    let ?excl1 = "a # excl"
    have m1: "marks cs ?excl1" "length cs < length ?excl1 + n" using Suc.prems by (auto simp: marks_def)
    define up where "up = (case dc_parent (cs ! a) of
             Some p \<Rightarrow>
               if with_parent opt \<and> p \<notin> set ?excl1
               then search_ctx n di cs there there
                 \<lparr>with_parent = True, with_di_container = False, with_children = with_children opt\<rparr> p ?excl1
               else Some (None, ?excl1)
           | None \<Rightarrow> Some (None, ?excl1))"
    have "\<exists>r excl2. up = Some (r, excl2) \<and> marks_grow cs ?excl1 excl2
        \<and> (case r of None \<Rightarrow> (\<forall>p. dc_parent (cs ! a) = Some p \<longrightarrow> p \<in> set excl2) \<and> exhausted cs there (set ?excl1) (set excl2)
           | Some v \<Rightarrow> result_good cs there di a v)"
    proof (cases "\<exists>p. dc_parent (cs ! a) = Some p \<and> p \<notin> set ?excl1")
      case True
      then obtain p where p: "dc_parent (cs ! a) = Some p" "p \<notin> set ?excl1" by blast
      note nb = neighboursI(1)[OF p(1)]
      let ?opt = "\<lparr>with_parent = True, with_di_container = False, with_children = with_children opt\<rparr>"
      have "search_spec cs there di p ?excl1 (search_ctx n di cs there there ?opt p ?excl1)"
        using Suc.IH[OF lt[OF nb] p(2) m1, of ?opt] Suc.prems(6) by simp
      moreover have "up = search_ctx n di cs there there ?opt p ?excl1"
        using p Suc.prems(5) by (simp add: up_def)
      ultimately obtain r excl2 where r: "up = Some (r, excl2)" "marks_grow cs ?excl1 excl2"
        "case r of None \<Rightarrow> p \<in> set excl2 \<and> exhausted cs there (set ?excl1) (set excl2)
           | Some v \<Rightarrow> result_good cs there di p v"
        unfolding search_spec_def by metis
      then show ?thesis using p(1) result_good_step[OF nb] by (cases r) auto
    next
      case False
      then have "up = Some (None, ?excl1)" by (auto simp: up_def split: option.splits)
      with False m1(1) show ?thesis by (auto simp: marks_grow_refl)
    qed
    then obtain r excl2 where up: "up = Some (r, excl2)" "marks_grow cs ?excl1 excl2"
      "case r of None \<Rightarrow> (\<forall>p. dc_parent (cs ! a) = Some p \<longrightarrow> p \<in> set excl2) \<and> exhausted cs there (set ?excl1) (set excl2)
           | Some v \<Rightarrow> result_good cs there di a v"
      by blast
    have g1: "marks_grow cs excl ?excl1" using m1(1) by (auto simp: marks_grow_def)
    have run: "search_ctx (Suc n) di cs there there opt a excl =
        (if r \<noteq> None then Some (r, excl2)
         else if with_di_container opt \<and> di \<noteq> None then Some (di, excl2)
         else search_children (\<lambda>ch. search_ctx n di cs there there default_options ch) (dc_children (cs ! a)) excl2)"
      using None up(1) Suc.prems(6) by (auto simp: up_def[symmetric])
    show ?thesis
    proof (cases "r \<noteq> None \<or> with_di_container opt \<and> di \<noteq> None")
      case True
      have "marks_grow cs excl excl2" using g1 up(2) by (rule marks_grow_trans)
      with True up(3) show ?thesis unfolding run
        by (auto simp: search_spec_def result_good_def split: option.splits if_splits)
    next
      case False
      have m2: "marks cs excl2" "length cs < length excl2 + n" using up(2) m1(2) by (auto simp: marks_grow_def)
      obtain r3 excl3 where c: "search_children (\<lambda>ch. search_ctx n di cs there there default_options ch)
          (dc_children (cs ! a)) excl2 = Some (r3, excl3)" "marks_grow cs excl2 excl3"
        "case r3 of None \<Rightarrow> (\<forall>c. Some c \<in> set (dc_children (cs ! a)) \<longrightarrow> c \<in> set excl3)
            \<and> exhausted cs there (set excl2) (set excl3)
         | Some v \<Rightarrow> result_good cs there di a v"
        using search_children_spec[of "dc_children (cs ! a)" cs n there di
            "\<lambda>ch. search_ctx n di cs there there default_options ch" excl2 a]
          Suc.IH lt neighboursI(2) m2 by (auto simp: default_options_def)
      have res: "search_ctx (Suc n) di cs there there opt a excl = Some (r3, excl3)"
        unfolding run using False c(1) by auto
      have g3: "marks_grow cs excl excl3" by (rule marks_grow_trans[OF g1 marks_grow_trans[OF up(2) c(2)]])
      have "a \<in> set excl3 \<and> exhausted cs there (set excl) (set excl3)" if "r3 = None"
      proof -
        have s23: "set ?excl1 \<subseteq> set excl2" "set excl2 \<subseteq> set excl3" using up(2) c(2) by (auto simp: marks_grow_def)
        have "exhausted cs there (set ?excl1) (set excl3)"
          using up(3) False c(3) that s23(2) by (auto intro: exhausted_trans split: option.splits)
        moreover have "neighbours cs a \<subseteq> set excl3"
          using up(3) False c(3) that s23(2) by (auto simp: neighbours_def split: option.splits)
        moreover have "a \<in> set excl3" using s23 by auto
        ultimately show ?thesis using None unfolding exhausted_def by auto
      qed
      with res g3 c(3) show ?thesis by (cases r3) (auto simp: search_spec_def)
    qed
  qed
qed
section \<open>What a search answers\<close>

lemma exhausted_reach:
  assumes "exhausted cs there {} S" "a \<in> S" "within_reach cs a x"
  shows "x \<in> S \<and> there x = None"
proof -
  have "x \<in> S"
    using assms(3) unfolding within_reach_def
  proof (induction rule: rtrancl_induct)
    case base
    then show ?case using assms(2) .
  next
    case (step y z)
    then show ?case using assms(1) unfolding exhausted_def by blast
  qed
  then show ?thesis using assms(1) unfolding exhausted_def by blast
qed

lemma container_answers:
  assumes "with_di_container opt" "di = Some v"
  shows "answer (search_ctx n di cs there here opt a excl) \<noteq> None \<or> search_ctx n di cs there here opt a excl = None"
proof (cases n)
  case 0
  then show ?thesis by simp
next
  case (Suc m)
  then show ?thesis using assms
    by (auto simp: answer_def Let_def bind_eq_None_conv split: option.splits Option.bind_splits)
qed

definition answered :: "data_ctx list \<Rightarrow> (caddr \<Rightarrow> 'r option) \<Rightarrow> 'r option \<Rightarrow> caddr \<Rightarrow> 'r option \<Rightarrow> bool" where
  "answered cs there di a r =
    (case r of None \<Rightarrow> di = None \<and> (\<forall>x. within_reach cs a x \<longrightarrow> there x = None)
     | Some v \<Rightarrow> (case there a of
          Some w \<Rightarrow> v = w
        | None \<Rightarrow> di = Some v \<or> (\<exists>x. within_reach cs a x \<and> there x = Some v)))"

lemma search_answered:
  assumes ok: "ctxs_ok cs" and a: "a < length cs" and n: "length cs < n"
    and opt: "with_parent opt" "with_children opt" "with_di_container opt \<or> di = None"
  shows "answered cs there di a (answer (search_ctx n di cs there there opt a []))"
proof -
  let ?s = "search_ctx n di cs there there opt a []"
  have "search_spec cs there di a [] ?s"
    by (rule search_ctx_spec[OF ok a]) (use n opt in \<open>auto simp: marks_def\<close>)
  then obtain r S where s: "?s = Some (r, S)"
    "case r of None \<Rightarrow> a \<in> set S \<and> exhausted cs there (set []) (set S) | Some v \<Rightarrow> result_good cs there di a v"
    unfolding search_spec_def by blast
  have r: "answer ?s = r" using s(1) by (simp add: answer_def)
  show ?thesis
  proof (cases r)
    case None
    have "there x = None" if "within_reach cs a x" for x
      using exhausted_reach[of cs there "set S" a x] s(2) None that by simp
    moreover have "di = None"
      using container_answers[of opt di _ n cs there there a "[]"] opt(3) None r s(1) by (cases di) auto
    ultimately show ?thesis using r None by (simp add: answered_def)
  next
    case (Some v)
    have "v = w" if "there a = Some w" for w
      using s(1) Some that n by (cases n) auto
    then show ?thesis using r Some s(2) by (auto simp: answered_def result_good_def split: option.splits)
  qed
qed

text \<open>A search that knows an index starts at the registered entry; elsewhere it goes by name.\<close>

definition index_names :: "data_ctx \<Rightarrow> data_key \<Rightarrow> int \<Rightarrow> bool" where
  "index_names c key idx = (0 \<le> idx \<and> nat idx < length (dc_array c) \<longrightarrow>
     dc_array c ! nat idx = key \<and> map_of (dc_table c) key \<noteq> None)"

lemma GetDataValue_named: "index_names c key idx \<Longrightarrow> GetDataValue c key idx = GetDataValue c key (-1)"
  by (auto simp: index_names_def GetDataValue_def)

lemma search_here: "here a = there a \<Longrightarrow> search_ctx n di cs there here opt a = search_ctx n di cs there there opt a"
  by (cases n) auto

end
