(* ===== verification/DataProps.thy ===== *)
theory DataProps
  imports DataSearch
begin

text \<open>
  The contract of a data context: lookups find what is there, registered entries keep their
  index, a value that was set is read back, a moved value is gone, the registered entries of a reset
  context are empty.
\<close>

named_theorems data_defs

declare GetDataValue_def [data_defs] value_at_def [data_defs] put_value_def [data_defs]
  local_value_def [data_defs] store_value_def [data_defs]

lemma map_of_AList_update [simp]: "map_of (AList.update k v xs) k' = (if k' = k then Some v else map_of xs k')"
  by (simp add: update_conv')

lemma table_put_value [simp]:
  "map_of (dc_table (put_value k d c)) k' = (if k' = k then Some d else map_of (dc_table c) k')"
  by (simp add: put_value_def)

lemma put_value_fields [simp]:
  "dc_array (put_value k d c) = dc_array c" "dc_parent (put_value k d c) = dc_parent c"
  "dc_children (put_value k d c) = dc_children c"
  "dc_disable_entry_creation (put_value k d c) = dc_disable_entry_creation c"
  by (simp_all add: put_value_def)

lemma value_at_put_value [simp]: "value_at (put_value k d c) k' = (if k' = k then d else value_at c k')"
  by (simp add: value_at_def)

lemma local_value_conv:
  "local_value cs h key (-1) a = (case map_of (dc_table (cs ! a)) key of None \<Rightarrow> None | Some d \<Rightarrow> held h d)"
  by (auto simp: data_defs split: option.splits)

section \<open>Registered entries\<close>

definition registered_ok :: "data_ctx \<Rightarrow> bool" where
  "registered_ok c = (distinct (dc_array c) \<and> dom (map_of (dc_table c)) = set (dc_array c)
     \<and> (\<forall>i < length (dc_array c). dv_idx (value_at c (dc_array c ! i)) = i))"

lemma registered_new [simp]: "registered_ok new_data_ctx"
  by (simp add: registered_ok_def new_data_ctx_def)

lemma registered_idx:
  assumes "registered_ok c" "map_of (dc_table c) k = Some d"
  shows "dv_idx d < length (dc_array c) \<and> dc_array c ! dv_idx d = k"
proof -
  have "k \<in> set (dc_array c)" using assms by (auto simp: registered_ok_def)
  then obtain i where "i < length (dc_array c)" "dc_array c ! i = k" by (auto simp: in_set_conv_nth)
  with assms show ?thesis by (auto simp: registered_ok_def value_at_def)
qed

lemma RegisterData_ok:
  assumes ok: "registered_ok c" and r: "RegisterData k c = (i, c')"
  shows "registered_ok c'" "i < length (dc_array c')" "dc_array c' ! i = k"
    "length (dc_array c) \<le> length (dc_array c')" "\<And>j. j < length (dc_array c) \<Longrightarrow> dc_array c' ! j = dc_array c ! j"
    "\<And>k' d. map_of (dc_table c) k' = Some d \<Longrightarrow> map_of (dc_table c') k' = Some d"
proof -
  have "registered_ok c' \<and> i < length (dc_array c') \<and> dc_array c' ! i = k \<and> length (dc_array c) \<le> length (dc_array c')
    \<and> (\<forall>j < length (dc_array c). dc_array c' ! j = dc_array c ! j)
    \<and> (\<forall>k' d. map_of (dc_table c) k' = Some d \<longrightarrow> map_of (dc_table c') k' = Some d)"
  proof (cases "map_of (dc_table c) k")
    case (Some d)
    then show ?thesis using r ok registered_idx[OF ok Some] by (simp add: RegisterData_def)
  next
    case None
    then have nk: "k \<notin> set (dc_array c)" using ok by (auto simp: registered_ok_def domIff)
    have c': "i = length (dc_array c)" "dc_array c' = dc_array c @ [k]"
      "\<And>k'. map_of (dc_table c') k' = (if k' = k then Some (new_data_value\<lparr>dv_idx := i\<rparr>) else map_of (dc_table c) k')"
      using r None by (auto simp: RegisterData_def Let_def put_value_def)
    have "dv_idx (value_at c' (dc_array c' ! j)) = j" if j: "j < length (dc_array c')" for j
    proof (cases "j = i")
      case True
      then show ?thesis using c' by (simp add: value_at_def)
    next
      case False
      then have jl: "j < length (dc_array c)" using j c' by simp
      then have "dc_array c ! j \<noteq> k" using nk nth_mem by metis
      then show ?thesis using c' ok jl by (simp add: value_at_def nth_append registered_ok_def)
    qed
    then show ?thesis using c' ok nk None by (auto simp: registered_ok_def nth_append dom_def)
  qed
  then show "registered_ok c'" "i < length (dc_array c')" "dc_array c' ! i = k"
    "length (dc_array c) \<le> length (dc_array c')" "\<And>j. j < length (dc_array c) \<Longrightarrow> dc_array c' ! j = dc_array c ! j"
    "\<And>k' d. map_of (dc_table c) k' = Some d \<Longrightarrow> map_of (dc_table c') k' = Some d"
    by blast+
qed

primrec register_all :: "data_key list \<Rightarrow> data_ctx \<Rightarrow> nat list \<times> data_ctx" where
  "register_all [] c = ([], c)"
| "register_all (k # ks) c =
    (let (i, c1) = RegisterData k c; (is, c2) = register_all ks c1 in (i # is, c2))"

lemma register_all_ok:
  "registered_ok c \<Longrightarrow> register_all ks c = (is, c') \<Longrightarrow>
    registered_ok c' \<and> length is = length ks \<and> length (dc_array c) \<le> length (dc_array c')
    \<and> (\<forall>j < length (dc_array c). dc_array c' ! j = dc_array c ! j)
    \<and> (\<forall>j < length ks. is ! j < length (dc_array c') \<and> dc_array c' ! (is ! j) = ks ! j)"
proof (induction ks arbitrary: c "is" c')
  case Nil
  then show ?case by simp
next
  case (Cons k ks)
  obtain i c1 where r: "RegisterData k c = (i, c1)" by fastforce
  obtain js c2 where rs: "register_all ks c1 = (js, c2)" by fastforce
  have e: "is = i # js" "c' = c2" using Cons.prems(2) r rs by simp_all
  note 1 = RegisterData_ok[OF Cons.prems(1) r]
  note 2 = Cons.IH[OF 1(1) rs]
  have "dc_array c2 ! i = k" using 1 2 by simp
  moreover have "dc_array c2 ! j = dc_array c ! j" if "j < length (dc_array c)" for j
    using 1(4,5) 2 that by simp
  ultimately show ?case using 1 2 e by (auto simp: less_Suc_eq_0_disj)
qed

section \<open>Values\<close>

lemma index_names_neg [simp]: "index_names c key (-1)"
  by (simp add: index_names_def)

lemma SetData_conv:
  assumes "index_names c key idx"
  shows "SetData h key v idx c =
    (case map_of (dc_table c) key of
       Some d \<Rightarrow> (True, put_value key (store_value h v d) c)
     | None \<Rightarrow> if dc_disable_entry_creation c then (False, c) else (True, put_value key (store_value h v new_data_value) c))"
  using GetDataValue_named[OF assms] by (auto simp: SetData_def GetDataValue_def value_at_def split: option.splits)

lemma held_store [simp]: "held h (store_value h v d) = v" "dv_val (store_value h v d) = v" "dv_idx (store_value h v d) = dv_idx d"
  by (cases h; simp add: store_value_def)+

lemma SetData_registered:
  assumes "registered_ok c" "SetData h key v idx c = (ok, c')" "key \<in> set (dc_array c)" "index_names c key idx"
  shows "registered_ok c'"
proof -
  obtain d where d: "map_of (dc_table c) key = Some d" using assms(1,3) by (auto simp: registered_ok_def dom_def)
  then have "c' = put_value key (store_value h v d) c" using assms(2) SetData_conv[OF assms(4)] by simp
  then show ?thesis using assms(1,3) d by (auto simp: registered_ok_def dom_def value_at_def)
qed

lemma value_at_reset_fold:
  "value_at (fold (\<lambda>k c. put_value k (ResetDataValue (value_at c k)) c) ks c) k =
    (if k \<in> set ks then ResetDataValue (value_at c k) else value_at c k)"
  by (induction ks arbitrary: c) (auto simp: ResetDataValue_def)

lemma reset_fold_fields [simp]:
  "dc_array (fold (\<lambda>k c. put_value k (ResetDataValue (value_at c k)) c) ks c) = dc_array c"
  "dc_children (fold (\<lambda>k c. put_value k (ResetDataValue (value_at c k)) c) ks c) = dc_children c"
  "dom (map_of (dc_table (fold (\<lambda>k c. put_value k (ResetDataValue (value_at c k)) c) ks c))) =
    set ks \<union> dom (map_of (dc_table c))"
  by (induction ks arbitrary: c) (auto simp: dom_def)

lemma ResetData_registered:
  assumes "registered_ok c"
  shows "registered_ok (ResetData c)" "dc_array (ResetData c) = dc_array c"
    "\<And>k. k \<in> set (dc_array c) \<Longrightarrow> value_at (ResetData c) k = ResetDataValue (value_at c k)"
proof -
  have v: "value_at (ResetData c) k = (if k \<in> set (dc_array c) then ResetDataValue (value_at c k) else value_at c k)" for k
    using value_at_reset_fold[of "dc_array c" c k] by (simp add: ResetData_def value_at_def)
  have d: "dom (map_of (dc_table (ResetData c))) = set (dc_array c) \<union> dom (map_of (dc_table c))"
    using reset_fold_fields(3)[of "dc_array c" c] by (simp add: ResetData_def)
  show a: "dc_array (ResetData c) = dc_array c" by (simp add: ResetData_def)
  show "value_at (ResetData c) k = ResetDataValue (value_at c k)" if "k \<in> set (dc_array c)" for k using v that by simp
  show "registered_ok (ResetData c)"
    using assms v d a by (auto simp: registered_ok_def ResetDataValue_def)
qed
section \<open>Properties\<close>

definition demo_data :: "data_ctx list" where
  "demo_data =
    [new_data_ctx\<lparr>dc_parent := Some 1, dc_children := [None, Some 2]\<rparr>,
     new_data_ctx\<lparr>dc_children := [Some 0]\<rparr>,
     new_data_ctx\<lparr>dc_table := [((''x'', 7), new_data_value\<lparr>dv_val := Some 3\<rparr>)], dc_parent := Some 0\<rparr>]"

lemma demo_data_ok: "ctxs_ok demo_data"
  by (auto simp: ctxs_ok_def neighbours_def demo_data_def new_data_ctx_def nth_Cons' split: if_splits)

text \<open>
  C15: A lookup returns, and finds a value exactly when the dependency container or a context within
  reach through parents and children has one; a value of the context itself comes first.
\<close>
theorem DataGet_finds:
  "ctxs_ok cs \<Longrightarrow> a < length cs \<Longrightarrow> index_names (cs ! a) key idx \<Longrightarrow>
    answered cs (local_value cs h key (-1)) (di key) a (DataGet di cs h key idx default_options a)"
proof -
  assume ok: "ctxs_ok cs" and a: "a < length cs" and i: "index_names (cs ! a) key idx"
  have "local_value cs h key idx a = local_value cs h key (-1) a"
    using GetDataValue_named[OF i] by (simp add: local_value_def)
  then show ?thesis
    unfolding DataGet_def search_here[of "local_value cs h key idx" a "local_value cs h key (-1)",
      OF \<open>local_value cs h key idx a = _\<close>]
    by (intro search_answered) (use ok a in \<open>simp_all add: default_options_def\<close>)
qed

theorem DataGet_finds_witness:
  "answered demo_data (local_value demo_data ByPointer (''x'', 7) (-1)) None 1
    (DataGet (\<lambda>_. None) demo_data ByPointer (''x'', 7) (-1) default_options 1)"
  by (rule DataGet_finds[of demo_data 1 _ _ _ "\<lambda>_. None"]) (simp_all add: demo_data_ok, simp add: demo_data_def)

text \<open>
  Registering any names in a context whose entries are registered gives each name the index
  of an entry of that name, repeated names the same one, and keeps every earlier index.
\<close>
theorem register_all_indices:
  "registered_ok c \<Longrightarrow> register_all ks c = (is, c') \<Longrightarrow>
    registered_ok c' \<and> length is = length ks
    \<and> (\<forall>j < length (dc_array c). dc_array c' ! j = dc_array c ! j)
    \<and> (\<forall>j < length ks. is ! j < length (dc_array c') \<and> dc_array c' ! (is ! j) = ks ! j)
    \<and> (\<forall>j < length ks. \<forall>l < length ks. is ! j = is ! l \<longleftrightarrow> ks ! j = ks ! l)"
proof -
  assume ok: "registered_ok c" and r: "register_all ks c = (is, c')"
  note all = register_all_ok[OF ok r]
  have "is ! j = is ! l" if "j < length ks" "l < length ks" "ks ! j = ks ! l" for j l
    using all that nth_eq_iff_index_eq[of "dc_array c'" "is ! j" "is ! l"] by (simp add: registered_ok_def)
  then show ?thesis using all by metis
qed

theorem register_all_indices_witness:
  "registered_ok (snd (register_all [(''x'', 1), (''y'', 1), (''x'', 1)] new_data_ctx))
    \<and> length (fst (register_all [(''x'', 1), (''y'', 1), (''x'', 1)] new_data_ctx)) = 3"
  using register_all_indices[OF registered_new prod.collapse[symmetric], of "[(''x'', 1), (''y'', 1), (''x'', 1)]"]
  by simp

lemma SetData_read:
  "index_names (cs ! a) key idx \<Longrightarrow> a < length cs \<Longrightarrow> SetData h key v idx (cs ! a) = (ok, c') \<Longrightarrow>
    (ok \<longleftrightarrow> map_of (dc_table (cs ! a)) key \<noteq> None \<or> \<not> dc_disable_entry_creation (cs ! a))
    \<and> (\<not> ok \<longrightarrow> c' = cs ! a)
    \<and> (ok \<longrightarrow> local_value (cs[a := c']) h key idx a = v \<and> local_value (cs[a := c']) h key (-1) a = v)
    \<and> (\<forall>key' h' b. (key', b) \<noteq> (key, a) \<longrightarrow>
         local_value (cs[a := c']) h' key' (-1) b = local_value cs h' key' (-1) b)"
proof -
  assume i: "index_names (cs ! a) key idx" and a: "a < length cs" and s: "SetData h key v idx (cs ! a) = (ok, c')"
  note conv = SetData_conv[OF i, of h v] s
  have arr: "dc_array c' = dc_array (cs ! a)" using conv by (auto split: option.splits if_splits)
  have v: "map_of (dc_table c') key \<noteq> None \<and> held h (value_at c' key) = v" if ok
    using conv that by (auto split: option.splits if_splits)
  then have i': "index_names c' key idx" if ok using i that by (auto simp: index_names_def arr)
  have idx: "local_value (cs[a := c']) h key idx a = v" if ok
    using v GetDataValue_named[OF i'] that a by (auto simp: local_value_def GetDataValue_def)
  have same: "map_of (dc_table c') k = map_of (dc_table (cs ! a)) k" if "k \<noteq> key" for k
    using conv that by (auto split: option.splits if_splits)
  have "local_value (cs[a := c']) h key (-1) a = v" if ok
    using v that a by (auto simp: local_value_def GetDataValue_def)
  moreover have "local_value (cs[a := c']) h' key' (-1) b = local_value cs h' key' (-1) b"
    if "(key', b) \<noteq> (key, a)" for key' h' b
    using that same a by (cases "b = a") (auto simp: local_value_conv)
  moreover have "ok \<longleftrightarrow> map_of (dc_table (cs ! a)) key \<noteq> None \<or> \<not> dc_disable_entry_creation (cs ! a)"
    "\<not> ok \<longrightarrow> c' = cs ! a"
    using conv by (auto split: option.splits if_splits)
  ultimately show ?thesis using idx by blast
qed

text \<open>
  C32: A value set through an index or a name is read back through either, other entries keep
  their values; setting fails, and changes nothing, exactly when the entry is missing and the
  creation of entries is disabled.
\<close>
theorem set_then_get:
  "index_names (cs ! a) key idx \<Longrightarrow> a < length cs \<Longrightarrow> SetData h key v idx (cs ! a) = (ok, c') \<Longrightarrow>
    (ok \<longleftrightarrow> map_of (dc_table (cs ! a)) key \<noteq> None \<or> \<not> dc_disable_entry_creation (cs ! a))
    \<and> (\<not> ok \<longrightarrow> c' = cs ! a)
    \<and> (ok \<longrightarrow> local_value (cs[a := c']) h key idx a = v \<and> local_value (cs[a := c']) h key (-1) a = v)
    \<and> (\<forall>key' h' b. (key', b) \<noteq> (key, a) \<longrightarrow>
         local_value (cs[a := c']) h' key' (-1) b = local_value cs h' key' (-1) b)"
  by (rule SetData_read)

theorem set_then_get_witness:
  "local_value [snd (SetData ByPointer (''x'', 1) (Some 5) (-1) new_data_ctx)] ByPointer (''x'', 1) (-1) 0 = Some 5"
  using set_then_get[of "[new_data_ctx]" 0 "(''x'', 1)" "-1" ByPointer "Some 5" True
      "snd (SetData ByPointer (''x'', 1) (Some 5) (-1) new_data_ctx)"]
  by (simp add: SetData_def GetDataValue_def new_data_ctx_def)

section \<open>Moves\<close>

lemma reach_in_range: "ctxs_ok cs \<Longrightarrow> a < length cs \<Longrightarrow> within_reach cs a x \<Longrightarrow> x < length cs"
  unfolding within_reach_def
  by (erule rtrancl_induct) (auto simp: ctxs_ok_def)

lemma local_owner_conv:
  "local_owner cs h key (-1) x = Some (b, k) \<longleftrightarrow>
    h = ByPointer \<and> b = x \<and> k = key \<and> local_value cs ByPointer key (-1) x \<noteq> None"
  by (auto simp: local_owner_def data_defs split: option.splits if_splits)

text \<open>
  C31: Moving an input by pointer takes the value out of the entry of one context within reach, so
  that no other entry changes, and fails only when no context within reach has one; a value held by
  a shared pointer is never found, wherever it is.
\<close>
theorem DataMove_takes:
  "ctxs_ok cs \<Longrightarrow> a < length cs \<Longrightarrow> index_names (cs ! a) key idx \<Longrightarrow> DataMove cs h key idx a = (r, cs') \<Longrightarrow>
    (h = ByShared \<longrightarrow> r = None) \<and>
    (case r of
       None \<Rightarrow> cs' = cs \<and> (h = ByPointer \<longrightarrow> (\<forall>x. within_reach cs a x \<longrightarrow> local_value cs h key (-1) x = None))
     | Some v \<Rightarrow> \<exists>b. within_reach cs a b \<and> local_value cs h key (-1) b = Some v
         \<and> local_value cs' h key (-1) b = None
         \<and> (\<forall>k x. (k, x) \<noteq> (key, b) \<longrightarrow> local_value cs' h k (-1) x = local_value cs h k (-1) x))"
proof -
  assume ok: "ctxs_ok cs" and a: "a < length cs" and i: "index_names (cs ! a) key idx"
    and m: "DataMove cs h key idx a = (r, cs')"
  let ?own = "local_owner cs h key (-1)"
  let ?s = "answer (search_ctx (length cs + 1) None cs ?own (local_owner cs h key idx) default_options a [])"
  have here: "local_owner cs h key idx a = ?own a" using GetDataValue_named[OF i] by (simp add: local_owner_def)
  have ans: "answered cs ?own None a ?s"
    unfolding search_here[of "local_owner cs h key idx" a ?own, OF here] by (rule search_answered) (use ok a in \<open>simp_all add: default_options_def\<close>)
  show ?thesis
  proof (cases ?s)
    case None
    then have "r = None" "cs' = cs" using m by (simp_all add: DataMove_def)
    moreover have "local_value cs h key (-1) x = None" if "h = ByPointer" "within_reach cs a x" for x
      using ans None that local_owner_conv[of cs h key x x key] by (auto simp: answered_def)
    ultimately show ?thesis by simp
  next
    case (Some bk)
    then obtain b k where s: "?s = Some (b, k)" by (cases bk) simp
    obtain x where x: "within_reach cs a x" "?own x = Some (b, k)"
      using ans s by (auto simp: answered_def split: option.splits intro: reach_refl)
    from x(2) have "h = ByPointer \<and> b = x \<and> k = key \<and> local_value cs ByPointer key (-1) x \<noteq> None"
      unfolding local_owner_conv .
    then have own: "h = ByPointer" "b = x" "k = key" "local_value cs h key (-1) b \<noteq> None" by simp_all
    have b: "b < length cs" using reach_in_range[OF ok a x(1)] own(2) by simp
    have r: "r = dv_val (value_at (cs ! b) key)" "cs' = write_value b key ((value_at (cs ! b) key)\<lparr>dv_val := None\<rparr>) cs"
      using m unfolding DataMove_def s own(3) by (simp_all add: Let_def)
    have v: "r = local_value cs h key (-1) b" using r(1) own(1,4) by (simp add: local_value_conv value_at_def split: option.splits)
    moreover have "local_value cs' h key (-1) b = None" using r(2) b own(1) by (simp add: write_value_def local_value_conv)
    moreover have "local_value cs' h k' (-1) y = local_value cs h k' (-1) y" if "(k', y) \<noteq> (key, b)" for k' y
      using that r(2) b by (cases "y = b") (auto simp: write_value_def local_value_conv)
    moreover obtain w where "r = Some w" using v own(4) by auto
    moreover have "h \<noteq> ByShared" using own(1) by simp
    ultimately show ?thesis using x(1) own(2) unfolding \<open>r = Some w\<close> option.case(2) by metis
  qed
qed

theorem DataMove_takes_witness:
  "fst (DataMove [new_data_ctx\<lparr>dc_table := [((''s'', 1), new_data_value\<lparr>dv_sval := Some 4\<rparr>)]\<rparr>] ByShared (''s'', 1) (-1) 0) = None"
proof -
  let ?cs = "[new_data_ctx\<lparr>dc_table := [((''s'', 1), new_data_value\<lparr>dv_sval := Some 4\<rparr>)]\<rparr>]"
  have "ctxs_ok ?cs" by (simp add: ctxs_ok_def neighbours_def new_data_ctx_def)
  from DataMove_takes[OF this _ _ prod.collapse[symmetric], of 0 "(''s'', 1)" "-1" ByShared] show ?thesis by simp
qed

end
