(* ===== verification/ProcessorDI.thy ===== *)
theory ProcessorDI
  imports Processor DataProps
begin

text \<open>
  Between an operator's members and the data of its graph (\<open>ProcessorDI\<close> of
  \<open>processor/processor_di.cpp\<close>): the declared fields are bound to the names of the configuration,
  inputs are injected before a run and outputs collected after it, and a skipped operator passes
  an input on.
\<close>

section \<open>Binding fields to names\<close>

record 'f field_data =
  fl_name :: string
  fl_info :: 'f
  fl_data :: "graph_data option"
  fl_idx :: int

definition FieldData :: "'a field_info_scheme \<Rightarrow> 'a field_info_scheme field_data" where
  "FieldData i = \<lparr>fl_name = fi_name i, fl_info = i, fl_data = None, fl_idx = -1\<rparr>"

definition bind_field :: "graph_data \<Rightarrow> 'a field_info_scheme field_data \<Rightarrow> 'a field_info_scheme field_data" where
  "bind_field d f = f\<lparr>fl_info := (fl_info f)\<lparr>fi_name := d_id d\<rparr>, fl_data := Some d\<rparr>"

fun find_entry :: "string \<Rightarrow> 'f field_data list \<Rightarrow> nat option" where
  "find_entry n [] = None"
| "find_entry n (f # fs) = (if n = fl_name f then Some 0 else map_option Suc (find_entry n fs))"

fun bind_fields :: "bool \<Rightarrow> graph_data list \<Rightarrow> 'a field_info_scheme field_data list
    \<Rightarrow> int \<times> 'a field_info_scheme field_data list" where
  "bind_fields strict [] ids = (0, ids)"
| "bind_fields strict (d # ds) ids =
    (case find_entry (d_field d) ids of
       None \<Rightarrow> if strict then (-1, ids) else bind_fields strict ds ids
     | Some k \<Rightarrow> bind_fields strict ds (ids[k := bind_field d (ids ! k)]))"

definition SetupInputOutputIds :: "bool \<Rightarrow> 'a field_info_scheme list \<Rightarrow> graph_data list
    \<Rightarrow> int \<times> 'a field_info_scheme field_data list" where
  "SetupInputOutputIds strict decls config = bind_fields strict config (map FieldData decls)"

definition is_var :: "string \<Rightarrow> bool" where
  "is_var s = (s \<noteq> [] \<and> hd s = CHR ''$'')"

section \<open>Inputs\<close>

text \<open>
  \<open>injf\<close> is the field's inject function with its index and move flag. The outer \<open>None\<close> is a lookup
  of a variable that does not return.
\<close>

fun inject_aggregate :: "pheap \<Rightarrow> params option \<Rightarrow> bool \<Rightarrow> (string \<Rightarrow> 's \<Rightarrow> int \<times> 's) \<Rightarrow> string list \<Rightarrow> int \<Rightarrow> 's
    \<Rightarrow> (int \<times> 's) option" where
  "inject_aggregate h ps req injf [] rc s = Some (rc, s)"
| "inject_aggregate h ps req injf (aid # ids) rc s =
    Option.bind
      (case ps of
         Some p \<Rightarrow> if is_var aid
           then map_option (\<lambda>v. if str v \<noteq> [] then snd (injf (str v) s) else s) (GetVar h p (tl aid))
           else Some s
       | None \<Rightarrow> Some s)
      (\<lambda>s1. let (rc, s2) = injf aid s1
            in if rc \<noteq> 0 \<and> req then Some (rc, s2) else inject_aggregate h ps req injf ids rc s2)"

definition inject_single :: "pheap \<Rightarrow> params option \<Rightarrow> (string \<Rightarrow> 's \<Rightarrow> int \<times> 's) \<Rightarrow> string \<Rightarrow> 's
    \<Rightarrow> (int \<times> 's) option" where
  "inject_single h ps injf name s =
    (case ps of
       Some p \<Rightarrow> if is_var name
         then map_option (\<lambda>v. if str v \<noteq> [] then injf (str v) s else (-1, s)) (GetVar h p (tl name))
         else Some (injf name s)
     | None \<Rightarrow> Some (injf name s))"

definition entry_required :: "'f field_data \<Rightarrow> bool" where
  "entry_required e = (case fl_data e of None \<Rightarrow> False | Some d \<Rightarrow> required d)"

definition entry_move :: "'a field_info_scheme field_data \<Rightarrow> bool" where
  "entry_move e = (case fl_data e of None \<Rightarrow> fi_is_in_out (fl_info e) | Some d \<Rightarrow> move d)"

definition inject_entry :: "(data_key \<Rightarrow> nat option) \<Rightarrow> pheap \<Rightarrow> params option \<Rightarrow> caddr \<Rightarrow> input_info field_data
    \<Rightarrow> op_state \<times> data_ctx list \<Rightarrow> (int \<times> op_state \<times> data_ctx list) option" where
  "inject_entry di h ps a e s =
    (let injf = inject di a (fl_info e) (fl_idx e) (entry_move e) in
     case fl_data e of
       Some d \<Rightarrow> if aggregate d \<noteq> [] then inject_aggregate h ps (entry_required e) injf (aggregate d) 0 s
                 else inject_single h ps injf (fi_name (fl_info e)) s
     | None \<Rightarrow> inject_single h ps injf (fi_name (fl_info e)) s)"

fun InjectInputs :: "(data_key \<Rightarrow> nat option) \<Rightarrow> pheap \<Rightarrow> params option \<Rightarrow> caddr \<Rightarrow> input_info field_data list
    \<Rightarrow> op_state \<times> data_ctx list \<Rightarrow> (int \<times> op_state \<times> data_ctx list) option" where
  "InjectInputs di h ps a [] s = Some (0, s)"
| "InjectInputs di h ps a (e # es) s =
    Option.bind (inject_entry di h ps a e s) (\<lambda>(rc, s').
      if rc \<noteq> 0 \<and> entry_required e then Some (-1, s') else InjectInputs di h ps a es s')"

section \<open>Outputs\<close>

definition emit_entry :: "pheap \<Rightarrow> params option \<Rightarrow> op_state \<Rightarrow> output_info field_data \<Rightarrow> data_ctx \<Rightarrow> data_ctx option" where
  "emit_entry h ps st e c =
    (let i = fl_info e; name = fi_name i in
     case ps of
       Some p \<Rightarrow> if is_var name
         then map_option (\<lambda>v. if str v \<noteq> [] then snd (emit i (fl_idx e) (str v) st c) else c) (GetVar h p (tl name))
         else Some (snd (emit i (fl_idx e) name st c))
     | None \<Rightarrow> Some (snd (emit i (fl_idx e) name st c)))"

fun CollectOutputs :: "pheap \<Rightarrow> params option \<Rightarrow> op_state \<Rightarrow> output_info field_data list \<Rightarrow> data_ctx \<Rightarrow> data_ctx option" where
  "CollectOutputs h ps st [] c = Some c"
| "CollectOutputs h ps st (e # es) c = Option.bind (emit_entry h ps st e c) (CollectOutputs h ps st es)"

fun MoveDataWhenSkipped :: "caddr \<Rightarrow> 'a field_info_scheme field_data list \<Rightarrow> data_ctx list \<Rightarrow> data_ctx list" where
  "MoveDataWhenSkipped a [] cs = cs"
| "MoveDataWhenSkipped a (e # es) cs =
    MoveDataWhenSkipped a es
      (case fl_data e of
         Some d \<Rightarrow> if move_from_when_skipped d \<noteq> []
           then snd (MoveBetween (move_from_when_skipped d, fi_id (fl_info e)) (fi_name (fl_info e), fi_id (fl_info e)) a cs)
           else cs
       | None \<Rightarrow> cs)"

end
