(* ===== verification/ProcessorProps.thy ===== *)
theory ProcessorProps
  imports ProcessorDI
begin

text \<open>
  What binding, injecting, collecting and skipping guarantee.
\<close>

section \<open>Binding\<close>

definition last_for :: "string \<Rightarrow> graph_data list \<Rightarrow> graph_data option" where
  "last_for n ds = map_of (rev (map (\<lambda>d. (d_field d, d)) ds)) n"

definition bound :: "graph_data list \<Rightarrow> 'a field_info_scheme field_data \<Rightarrow> 'a field_info_scheme field_data" where
  "bound ds f = (case last_for (fl_name f) ds of None \<Rightarrow> f | Some d \<Rightarrow> bind_field d f)"

lemma find_entry_Some: "find_entry n ids = Some k \<Longrightarrow> k < length ids \<and> fl_name (ids ! k) = n"
  by (induction ids arbitrary: k) (auto split: if_splits)

lemma find_entry_None: "find_entry n ids = None \<longleftrightarrow> n \<notin> fl_name ` set ids"
  by (induction ids) auto

lemma bind_field_name [simp]: "fl_name (bind_field d f) = fl_name f"
  by (simp add: bind_field_def)

lemma bind_field_twice [simp]: "bind_field d (bind_field e f) = bind_field d f"
  by (simp add: bind_field_def)

lemma bound_Cons:
  "bound (d # ds) f = bound ds (if fl_name f = d_field d then bind_field d f else f)"
  by (auto simp: bound_def last_for_def map_add_def split: option.splits)

lemma bound_Nil [simp]: "bound [] f = f"
  by (simp add: bound_def last_for_def)

lemma bound_FieldData:
  "bound ds (FieldData i) = (case last_for (fi_name i) ds of None \<Rightarrow> FieldData i | Some d \<Rightarrow> bind_field d (FieldData i))"
proof -
  have "fl_name (FieldData i) = fi_name i" by (simp add: FieldData_def)
  then show ?thesis by (simp add: bound_def)
qed

lemma bind_one:
  assumes "distinct (map fl_name ids)" "find_entry n ids = Some k"
  shows "ids[k := bind_field d (ids ! k)] = map (\<lambda>f. if fl_name f = n then bind_field d f else f) ids"
proof (rule nth_equalityI)
  fix i
  assume i: "i < length (ids[k := bind_field d (ids ! k)])"
  note k = find_entry_Some[OF assms(2)]
  have "fl_name (ids ! i) = n \<longleftrightarrow> i = k"
    using nth_eq_iff_index_eq[OF assms(1), of i k] i k by simp
  with i k show "ids[k := bind_field d (ids ! k)] ! i = map (\<lambda>f. if fl_name f = n then bind_field d f else f) ids ! i"
    by (auto simp: nth_list_update)
qed simp

lemma bind_fields_bound:
  "distinct (map fl_name ids) \<Longrightarrow> strict = False \<or> (\<forall>d \<in> set ds. d_field d \<in> fl_name ` set ids) \<Longrightarrow>
    bind_fields strict ds ids = (0, map (bound ds) ids)"
proof (induction ds arbitrary: ids)
  case Nil
  then show ?case by (simp add: map_idI)
next
  case (Cons d ds)
  let ?f = "\<lambda>f. if fl_name f = d_field d then bind_field d f else f"
  have names: "map fl_name (map ?f ids) = map fl_name ids" by simp
  then have img: "fl_name ` set (map ?f ids) = fl_name ` set ids" by (metis list.set_map)
  have IH: "bind_fields strict ds (map ?f ids) = (0, map (bound ds) (map ?f ids))"
    by (rule Cons.IH) (use Cons.prems names img in \<open>simp_all del: map_map set_map list.set_map\<close>)
  show ?case
  proof (cases "find_entry (d_field d) ids")
    case (Some k)
    then show ?thesis using IH bind_one[OF Cons.prems(1) Some, of d] by (simp add: bound_Cons o_def)
  next
    case None
    then have "map ?f ids = ids" by (intro map_idI) (force simp: find_entry_None)
    moreover have "strict = False" using None Cons.prems(2) by (auto simp: find_entry_None)
    ultimately have "map ?f ids = ids" "strict = False" by simp_all
    moreover have "map (bound (d # ds)) ids = map (bound ds) ids"
      using None by (force simp: bound_Cons find_entry_None)
    ultimately show ?thesis using None IH by simp
  qed
qed

lemma bind_fields_strict_fails:
  "d \<in> set ds \<Longrightarrow> d_field d \<notin> fl_name ` set ids \<Longrightarrow> fst (bind_fields True ds ids) = -1"
proof (induction ds arbitrary: ids)
  case (Cons e ds)
  show ?case
  proof (cases "find_entry (d_field e) ids")
    case (Some k)
    let ?ids = "ids[k := bind_field e (ids ! k)]"
    note k = find_entry_Some[OF Some]
    then have "map fl_name ?ids = map fl_name ids" by (simp add: map_update list_update_same_conv)
    then have "fl_name ` set ?ids = fl_name ` set ids" by (metis list.set_map)
    moreover have "d \<noteq> e" using Cons.prems(2) k nth_mem by (metis image_eqI)
    then have "d \<in> set ds" using Cons.prems(1) by simp
    ultimately show ?thesis using Cons.IH[of ?ids] Cons.prems(2) Some by simp
  qed simp
qed simp

text \<open>
  Binding keeps the declared fields in their order and gives each the name and options of the
  last configuration entry for it; in strict mode it fails exactly when an entry names no field,
  otherwise such an entry is ignored.
\<close>
theorem SetupInputOutputIds_binds:
  "distinct (map fi_name decls) \<Longrightarrow>
    SetupInputOutputIds strict decls config =
      (if strict \<and> \<not> (\<forall>d \<in> set config. d_field d \<in> fi_name ` set decls)
       then (-1, snd (SetupInputOutputIds strict decls config))
       else (0, map (\<lambda>i. case last_for (fi_name i) config of
                       None \<Rightarrow> FieldData i | Some d \<Rightarrow> bind_field d (FieldData i)) decls))"
proof -
  assume d: "distinct (map fi_name decls)"
  have names: "map fl_name (map FieldData decls) = map fi_name decls" by (simp add: FieldData_def)
  then have img: "fl_name ` set (map FieldData decls) = fi_name ` set decls" by (metis list.set_map)
  show ?thesis
  proof (cases "strict \<and> \<not> (\<forall>d \<in> set config. d_field d \<in> fi_name ` set decls)")
    case True
    then obtain e where "e \<in> set config" "d_field e \<notin> fl_name ` set (map FieldData decls)" unfolding img by auto
    from bind_fields_strict_fails[OF this] True show ?thesis
      by (simp add: SetupInputOutputIds_def prod_eq_iff)
  next
    case False
    have "bind_fields strict config (map FieldData decls) = (0, map (bound config) (map FieldData decls))"
      by (rule bind_fields_bound) (use False d names img in \<open>auto simp del: map_map set_map list.set_map\<close>)
    then show ?thesis using False by (simp add: SetupInputOutputIds_def bound_FieldData o_def)
  qed
qed

definition demo_field :: "string \<Rightarrow> field_info" where
  "demo_field n = \<lparr>fi_name = n, fi_id = 1, fi_is_extern = False, fi_is_aggregate = False, fi_is_in_out = False\<rparr>"

theorem SetupInputOutputIds_binds_witness:
  "fst (SetupInputOutputIds True [demo_field ''a'', demo_field ''b''] [new_graph_data\<lparr>d_field := ''c''\<rparr>]) = -1"
  using SetupInputOutputIds_binds[of "[demo_field ''a'', demo_field ''b'']" True "[new_graph_data\<lparr>d_field := ''c''\<rparr>]"]
  by (simp add: demo_field_def prod_eq_iff)
section \<open>Required inputs\<close>

definition filled :: "input_info \<Rightarrow> op_state \<Rightarrow> bool" where
  "filled i st = (if fi_kind i = OpMapInput then op_map st (fi_member i) \<noteq> [] else op_member st (fi_member i) \<noteq> None)"

definition same_but :: "string \<Rightarrow> op_state \<Rightarrow> op_state \<Rightarrow> bool" where
  "same_but m st st' = (\<forall>n. n \<noteq> m \<longrightarrow> op_member st' n = op_member st n \<and> op_map st' n = op_map st n)"

lemma same_but_refl [simp]: "same_but m st st"
  by (simp add: same_but_def)

lemma same_but_trans: "same_but m s1 s2 \<Longrightarrow> same_but m s2 s3 \<Longrightarrow> same_but m s1 s3"
  by (simp add: same_but_def)

lemma same_but_member [simp]: "same_but m st (set_member m v st)" "same_but m st (st\<lparr>op_map := (op_map st)(m := w)\<rparr>)"
  by (simp_all add: same_but_def set_member_def)

lemma update_not_Nil [simp]: "AList.update k v xs \<noteq> []"
  by (cases xs) auto

lemma inject_effect:
  "inject di a i idx mv name s = (rc, s') \<Longrightarrow>
    same_but (fi_member i) (fst s) (fst s') \<and> (rc = 0 \<longrightarrow> filled i (fst s'))"
  unfolding inject_def
  by (cases "fi_kind i")
    (auto simp: filled_def set_member_def same_but_def Let_def split: prod.splits option.splits if_splits)

lemma inject_aggregate_effect:
  assumes "\<And>n s. P (snd (f n s)) s" "\<And>s1 s2 s3. P s2 s1 \<Longrightarrow> P s3 s2 \<Longrightarrow> P s3 s1"
    and "\<And>n s s'. f n s = (0, s') \<Longrightarrow> Q s'"
  shows "inject_aggregate h ps req f ids rc s = Some (rc', s') \<Longrightarrow> ids \<noteq> [] \<Longrightarrow> P s' s \<and> (rc' = 0 \<longrightarrow> Q s')"
proof (induction ids arbitrary: rc s)
  case (Cons aid ids)
  obtain s1 where s1: "s1 = s \<or> P s1 s"
    "(let (rc, s2) = f aid s1 in if rc \<noteq> 0 \<and> req then Some (rc, s2) else inject_aggregate h ps req f ids rc s2) = Some (rc', s')"
    using Cons.prems(1) assms(1) by (auto simp: bind_eq_Some_conv split: option.splits if_splits)
  obtain rc2 s2 where f: "f aid s1 = (rc2, s2)" by fastforce
  have P2: "P s2 s" using assms(1)[of aid s1] assms(2) f s1(1) by auto
  show ?case
  proof (cases "rc2 \<noteq> 0 \<and> req")
    case True
    then show ?thesis using s1(2) f P2 by auto
  next
    case False
    then have rest: "inject_aggregate h ps req f ids rc2 s2 = Some (rc', s')" using s1(2) f by auto
    show ?thesis
    proof (cases "ids = []")
      case True
      then show ?thesis using rest f P2 assms(3)[of aid s1] by auto
    next
      case False
      from Cons.IH[OF rest False] show ?thesis using P2 assms(2) by blast
    qed
  qed
qed simp

lemma inject_single_effect:
  assumes "\<And>n s rc s'. f n s = (rc, s') \<Longrightarrow> P s' s \<and> (rc = 0 \<longrightarrow> Q s')" "\<And>s. P s s"
  shows "inject_single h ps f name s = Some (rc, s') \<Longrightarrow> P s' s \<and> (rc = 0 \<longrightarrow> Q s')"
  using assms by (auto simp: inject_single_def split: option.splits if_splits)

lemma inject_entry_effect:
  assumes "inject_entry di h ps a e s = Some (rc, s')"
  shows "same_but (fi_member (fl_info e)) (fst s) (fst s') \<and> (rc = 0 \<longrightarrow> filled (fl_info e) (fst s'))"
proof -
  let ?f = "inject di a (fl_info e) (fl_idx e) (entry_move e)"
  let ?P = "\<lambda>s' s. same_but (fi_member (fl_info e)) (fst s) (fst s')"
  let ?Q = "\<lambda>s. filled (fl_info e) (fst s)"
  have f: "?P s' s \<and> (rc = 0 \<longrightarrow> ?Q s')" if "?f n s = (rc, s')" for n s rc s'
    using inject_effect[OF that] .
  have 1: "inject_single h ps ?f name s = Some (rc, s') \<Longrightarrow> ?P s' s \<and> (rc = 0 \<longrightarrow> ?Q s')" for name
    by (rule inject_single_effect[where P = ?P and Q = ?Q]) (use f in \<open>blast | simp\<close>)+
  have 2: "inject_aggregate h ps req ?f ids 0 s = Some (rc, s') \<Longrightarrow> ids \<noteq> [] \<Longrightarrow> ?P s' s \<and> (rc = 0 \<longrightarrow> ?Q s')" for req ids
    by (rule inject_aggregate_effect[where P = ?P and Q = ?Q])
      (use f in \<open>auto intro: same_but_trans simp: prod_eq_iff\<close>)
  show ?thesis using assms 1 2 by (auto simp: inject_entry_def Let_def split: option.splits if_splits)
qed

lemma InjectInputs_effect:
  "distinct (map (\<lambda>e. fi_member (fl_info e)) es) \<Longrightarrow> InjectInputs di h ps a es s = Some (rc, s') \<Longrightarrow>
    (rc = 0 \<longrightarrow> (\<forall>e \<in> set es. entry_required e \<longrightarrow> filled (fl_info e) (fst s'))) \<and>
    (rc \<noteq> 0 \<longrightarrow> rc = -1 \<and> (\<exists>e \<in> set es. entry_required e)) \<and>
    (\<forall>m. m \<notin> (\<lambda>e. fi_member (fl_info e)) ` set es \<longrightarrow>
       op_member (fst s') m = op_member (fst s) m \<and> op_map (fst s') m = op_map (fst s) m)"
proof (induction es arbitrary: s)
  case Nil
  then show ?case by simp
next
  case (Cons e es)
  obtain rc1 s1 where 1: "inject_entry di h ps a e s = Some (rc1, s1)"
    and rest: "(if rc1 \<noteq> 0 \<and> entry_required e then Some (-1, s1) else InjectInputs di h ps a es s1) = Some (rc, s')"
    using Cons.prems(2) by (auto simp: bind_eq_Some_conv)
  note eff = inject_entry_effect[OF 1]
  show ?case
  proof (cases "rc1 \<noteq> 0 \<and> entry_required e")
    case True
    then show ?thesis using rest eff by (auto simp: same_but_def)
  next
    case False
    then have "InjectInputs di h ps a es s1 = Some (rc, s')" using rest by (auto split: if_splits)
    from Cons.IH[OF _ this] Cons.prems(1) have IH:
      "rc = 0 \<longrightarrow> (\<forall>e \<in> set es. entry_required e \<longrightarrow> filled (fl_info e) (fst s'))"
      "rc \<noteq> 0 \<longrightarrow> rc = -1 \<and> (\<exists>e \<in> set es. entry_required e)"
      "\<forall>m. m \<notin> (\<lambda>e. fi_member (fl_info e)) ` set es \<longrightarrow>
        op_member (fst s') m = op_member (fst s1) m \<and> op_map (fst s') m = op_map (fst s1) m"
      by simp_all
    have "filled (fl_info e) (fst s') = filled (fl_info e) (fst s1)"
      using IH(3) Cons.prems(1) by (simp add: filled_def)
    with IH False eff show ?thesis by (auto simp: same_but_def)
  qed
qed


definition demo_input :: "string \<Rightarrow> bool \<Rightarrow> input_info field_data" where
  "demo_input n req = \<lparr>fl_name = n,
     fl_info = \<lparr>fi_name = n, fi_id = 7, fi_is_extern = False, fi_is_aggregate = False, fi_is_in_out = False,
                fi_member = n, fi_hold = ByPointer, fi_kind = OpInput\<rparr>,
     fl_data = Some (new_graph_data\<lparr>d_id := n, d_field := n, required := req\<rparr>), fl_idx = -1\<rparr>"

definition no_op :: op_state where
  "no_op = \<lparr>op_member = (\<lambda>_. None), op_map = (\<lambda>_. []), op_param = (\<lambda>_. BoolValue False)\<rparr>"

lemma demo_inject:
  "\<exists>s'. InjectInputs (\<lambda>_. Some 4) Map.empty None 0 [demo_input ''x'' True] (no_op, [new_data_ctx]) = Some (0, s')"
  by (simp add: demo_input_def inject_entry_def inject_single_def inject_def read_input_def entry_move_def
      new_graph_data_def DataGet_def default_options_def local_value_def GetDataValue_def new_data_ctx_def
      answer_def Let_def)

section \<open>From one operator to the next\<close>

definition data_key_of :: "'a field_info_scheme field_data \<Rightarrow> data_key" where
  "data_key_of e = (fi_name (fl_info e), fi_id (fl_info e))"

text \<open>An entry with an index was registered under its own key.\<close>

definition indexed :: "data_ctx \<Rightarrow> 'a field_info_scheme field_data \<Rightarrow> bool" where
  "indexed c e = (0 \<le> fl_idx e \<and> nat (fl_idx e) < length (dc_array c) \<and> dc_array c ! nat (fl_idx e) = data_key_of e)"

lemma indexed_names: "registered_ok c \<Longrightarrow> indexed c e \<Longrightarrow> index_names c (data_key_of e) (fl_idx e)"
  using nth_mem[of "nat (fl_idx e)" "dc_array c"] by (auto simp: indexed_def index_names_def registered_ok_def domIff)

lemma indexed_entry: "registered_ok c \<Longrightarrow> indexed c e \<Longrightarrow> \<exists>d. map_of (dc_table c) (data_key_of e) = Some d"
  using nth_mem[of "nat (fl_idx e)" "dc_array c"] by (auto simp: indexed_def registered_ok_def domIff)

lemma emit_entry_puts:
  assumes ok: "registered_ok c" and i: "indexed c e" and v: "ps = None \<or> \<not> is_var (fi_name (fl_info e))"
  shows "\<exists>d. map_of (dc_table c) (data_key_of e) = Some d \<and>
    emit_entry h ps st e c = Some (put_value (data_key_of e) (store_value (fo_hold (fl_info e)) (emitted st (fl_info e)) d) c)"
proof -
  obtain d where d: "map_of (dc_table c) (data_key_of e) = Some d" using indexed_entry[OF ok i] by blast
  have "SetData (fo_hold (fl_info e)) (data_key_of e) (emitted st (fl_info e)) (fl_idx e) c =
      (True, put_value (data_key_of e) (store_value (fo_hold (fl_info e)) (emitted st (fl_info e)) d) c)"
    using SetData_conv[OF indexed_names[OF ok i]] d by simp
  then show ?thesis using d v by (auto simp: emit_entry_def emit_def data_key_of_def Let_def split: option.splits)
qed

lemma put_registered:
  assumes "registered_ok c" "map_of (dc_table c) k = Some d" "dv_idx d' = dv_idx d"
  shows "registered_ok (put_value k d' c)"
proof -
  have "dom (map_of (dc_table (put_value k d' c))) = dom (map_of (dc_table c))"
    using assms(2) by (auto simp: dom_def split: if_splits)
  moreover have "dv_idx (value_at (put_value k d' c) x) = dv_idx (value_at c x)" for x
    using assms(2,3) by (simp add: value_at_def)
  ultimately show ?thesis using assms(1) by (simp add: registered_ok_def del: value_at_put_value)
qed

lemma CollectOutputs_spec:
  assumes v: "\<And>e. e \<in> set outs \<Longrightarrow> ps = None \<or> \<not> is_var (fi_name (fl_info e))"
  shows "registered_ok c \<Longrightarrow> (\<forall>e \<in> set outs. indexed c e) \<Longrightarrow> distinct (map data_key_of outs) \<Longrightarrow>
    \<exists>c'. CollectOutputs h ps st outs c = Some c' \<and> registered_ok c' \<and> dc_array c' = dc_array c
      \<and> (\<forall>e \<in> set outs. held (fo_hold (fl_info e)) (value_at c' (data_key_of e)) = emitted st (fl_info e))
      \<and> (\<forall>k. k \<notin> data_key_of ` set outs \<longrightarrow> map_of (dc_table c') k = map_of (dc_table c) k)"
  using v
proof (induction outs arbitrary: c)
  case Nil
  then show ?case by simp
next
  case (Cons e outs)
  let ?k = "data_key_of e"
  obtain d where d: "map_of (dc_table c) ?k = Some d"
    and e: "emit_entry h ps st e c = Some (put_value ?k (store_value (fo_hold (fl_info e)) (emitted st (fl_info e)) d) c)"
    using emit_entry_puts[of c e ps h st] Cons.prems by auto
  let ?c1 = "put_value ?k (store_value (fo_hold (fl_info e)) (emitted st (fl_info e)) d) c"
  have ok1: "registered_ok ?c1" by (rule put_registered[OF Cons.prems(1) d]) simp
  have "\<forall>x \<in> set outs. indexed ?c1 x" using Cons.prems(2) by (simp add: indexed_def)
  then obtain c' where c': "CollectOutputs h ps st outs ?c1 = Some c'" "registered_ok c'" "dc_array c' = dc_array ?c1"
    "\<forall>e \<in> set outs. held (fo_hold (fl_info e)) (value_at c' (data_key_of e)) = emitted st (fl_info e)"
    "\<forall>k. k \<notin> data_key_of ` set outs \<longrightarrow> map_of (dc_table c') k = map_of (dc_table ?c1) k"
    using Cons.IH[OF ok1] Cons.prems(3,4) by auto
  have "?k \<notin> data_key_of ` set outs" using Cons.prems(3) by simp
  then have "held (fo_hold (fl_info e)) (value_at c' ?k) = emitted st (fl_info e)"
    using c'(5)[rule_format, of ?k] by (simp add: value_at_def)
  then show ?case using e c' by auto
qed

lemma local_first:
  assumes "local_value cs h key idx a = Some v"
  shows "DataGet di cs h key idx opt a = Some v"
  using assms by (simp add: DataGet_def answer_def)

lemma inject_entry_reads:
  assumes "local_value cs (fi_hold (fl_info e)) (data_key_of e) (fl_idx e) a = Some x" "fi_kind (fl_info e) = OpInput"
    "fl_data e = None \<or> aggregate (the (fl_data e)) = []" "\<not> entry_move e" "\<not> is_var (fi_name (fl_info e))"
  shows "inject_entry di h ps a e (st, cs) = Some (0, set_member (fi_member (fl_info e)) (Some x) st, cs)"
proof -
  from local_first[OF assms(1), of di default_options]
  have read: "read_input di a (fl_info e) (fl_idx e) (fi_name (fl_info e)) False cs = (Some x, cs)"
    by (simp add: read_input_def data_key_of_def)
  have "inject_entry di h ps a e (st, cs) = Some (inject di a (fl_info e) (fl_idx e) False (fi_name (fl_info e)) (st, cs))"
    using assms(3,4,5) by (auto simp: inject_entry_def inject_single_def Let_def split: option.splits)
  also have "\<dots> = Some (0, set_member (fi_member (fl_info e)) (Some x) st, cs)"
    using read assms(2) by (simp add: inject_def)
  finally show ?thesis .
qed

text \<open>
  C14: An operator that reads an input of the name and type of another operator's output gets,
  after the outputs of that operator were collected, the very object that it put out, under these conditions.
  The input is a field declared as an input only (\<open>OpInput\<close>), not one that is an output too; it is configured neither to be
  moved nor as an aggregate; it and all outputs of the other operator are registered, each under its own index, in the data
  context; and it is held in the same way as the output, both plain or both shared. No output has a variable for its name, no
  two of them have the same name and type, and the output was put out, that is, it has an object. (Other kinds of input are not
  covered: an input that is an output too and held by a shared pointer is never injected.)
\<close>
theorem collected_output_is_injected:
  "a < length cs \<Longrightarrow> registered_ok (cs ! a) \<Longrightarrow> distinct (map data_key_of outs) \<Longrightarrow>
    (\<forall>e \<in> set outs. indexed (cs ! a) e \<and> \<not> is_var (fi_name (fl_info e))) \<Longrightarrow>
    out \<in> set outs \<Longrightarrow> emitted st (fl_info out) = Some v \<Longrightarrow>
    data_key_of inp = data_key_of out \<Longrightarrow> indexed (cs ! a) inp \<Longrightarrow>
    fi_hold (fl_info inp) = fo_hold (fl_info out) \<Longrightarrow> fi_kind (fl_info inp) = OpInput \<Longrightarrow>
    fl_data inp = None \<or> aggregate (the (fl_data inp)) = [] \<Longrightarrow> \<not> entry_move inp \<Longrightarrow>
    \<exists>c'. CollectOutputs h ps st outs (cs ! a) = Some c' \<and>
      inject_entry di h ps' a inp (st', cs[a := c']) =
        Some (0, set_member (fi_member (fl_info inp)) (Some v) st', cs[a := c'])"
proof -
  assume a: "a < length cs" and ok: "registered_ok (cs ! a)" and dist: "distinct (map data_key_of outs)"
    and outs: "\<forall>e \<in> set outs. indexed (cs ! a) e \<and> \<not> is_var (fi_name (fl_info e))"
    and out: "out \<in> set outs" "emitted st (fl_info out) = Some v"
    and key: "data_key_of inp = data_key_of out" and ind: "indexed (cs ! a) inp"
    and kind: "fi_hold (fl_info inp) = fo_hold (fl_info out)" "fi_kind (fl_info inp) = OpInput"
      "fl_data inp = None \<or> aggregate (the (fl_data inp)) = []" "\<not> entry_move inp"
  obtain c' where c': "CollectOutputs h ps st outs (cs ! a) = Some c'" "registered_ok c'" "dc_array c' = dc_array (cs ! a)"
    "held (fo_hold (fl_info out)) (value_at c' (data_key_of out)) = Some v"
    using CollectOutputs_spec[of outs ps "cs ! a" h st] ok outs dist out by auto
  have name: "\<not> is_var (fi_name (fl_info inp))" using key outs out(1) by (auto simp: data_key_of_def)
  have "local_value (cs[a := c']) (fi_hold (fl_info inp)) (data_key_of inp) (fl_idx inp) a = Some v"
    using ind c'(3,4) kind(1) key a by (auto simp: local_value_def GetDataValue_def indexed_def)
  from inject_entry_reads[OF this kind(2,3,4), of di h ps' st'] name
  have "inject_entry di h ps' a inp (st', cs[a := c']) = Some (0, set_member (fi_member (fl_info inp)) (Some v) st', cs[a := c'])" .
  then show ?thesis using c'(1) by blast
qed

definition demo_output :: "string \<Rightarrow> nat \<Rightarrow> output_info field_data" where
  "demo_output n x = \<lparr>fl_name = n,
     fl_info = \<lparr>fi_name = n, fi_id = 7, fi_is_extern = False, fi_is_aggregate = False, fi_is_in_out = False,
                fo_member = n, fo_hold = ByPointer, fo_kind = OwnObject x, fo_arena = False\<rparr>,
     fl_data = None, fl_idx = 0\<rparr>"

definition demo_registered :: data_ctx where
  "demo_registered = snd (RegisterData (''x'', 7) new_data_ctx)"

theorem collected_output_is_injected_witness:
  "\<exists>c'. CollectOutputs Map.empty None no_op [demo_output ''x'' 5] demo_registered = Some c' \<and>
     inject_entry (\<lambda>_. None) Map.empty None 0 (demo_input ''x'' True\<lparr>fl_idx := 0\<rparr>) (no_op, [c'])
       = Some (0, set_member ''x'' (Some 5) no_op, [c'])"
proof -
  have reg: "registered_ok demo_registered" "dc_array demo_registered = [(''x'', 7)]"
    using RegisterData_ok(1)[OF registered_new, of "(''x'', 7)" 0 demo_registered]
    by (simp_all add: demo_registered_def RegisterData_def new_data_ctx_def)
  have ind: "indexed demo_registered (demo_output ''x'' 5)" "indexed demo_registered (demo_input ''x'' True\<lparr>fl_idx := 0\<rparr>)"
    using reg by (simp_all add: indexed_def data_key_of_def demo_output_def demo_input_def)
  show ?thesis
    using collected_output_is_injected[of 0 "[demo_registered]" "[demo_output ''x'' 5]" "demo_output ''x'' 5" no_op 5
        "demo_input ''x'' True\<lparr>fl_idx := 0\<rparr>" Map.empty None "\<lambda>_. None" None no_op] reg ind
    by (simp add: demo_output_def demo_input_def data_key_of_def is_var_def emitted_def entry_move_def new_graph_data_def)
qed
section \<open>Names that are variables\<close>

text \<open>
  Once a graph runs, the output of an operator whose configured name is a variable is silently
  lost when no entry of the resulting name was registered: collecting reports success and the
  data are unchanged.
\<close>
theorem variable_output_dropped:
  "is_var (fi_name (fl_info e)) \<Longrightarrow> fl_idx e = -1 \<Longrightarrow> GetVar h p (tl (fi_name (fl_info e))) = Some v \<Longrightarrow>
    map_of (dc_table c) (str v, fi_id (fl_info e)) = None \<Longrightarrow> dc_disable_entry_creation c \<Longrightarrow>
    CollectOutputs h (Some p) st [e] c = Some c"
  by (simp add: emit_entry_def emit_def SetData_def GetDataValue_def Let_def)

definition demo_var_params :: params where
  "demo_var_params = PutString ''n'' ''y'' (new_params False)"

theorem variable_output_dropped_witness:
  "CollectOutputs Map.empty (Some demo_var_params) no_op
     [demo_output ''$n'' 5\<lparr>fl_idx := -1\<rparr>] (DisableEntryCreation new_data_ctx) = Some (DisableEntryCreation new_data_ctx)"
proof -
  have "GetVar Map.empty demo_var_params ''n'' = Some (SetString ''y'' (new_params False))"
    by (simp add: GetVar.simps Get.simps demo_var_params_def PutString_def put_with_def new_params_def table_at_def)
  then show ?thesis
    by (intro variable_output_dropped)
      (simp_all add: demo_output_def is_var_def DisableEntryCreation_def new_data_ctx_def)
qed

section \<open>Skipped operators\<close>

lemma write_value_other: "(b, k) \<noteq> (a, key) \<Longrightarrow> a < length cs \<Longrightarrow> value_at (write_value a key d cs ! b) k = value_at (cs ! b) k"
  by (cases "b = a") (auto simp: write_value_def)

lemma write_value_same: "a < length cs \<Longrightarrow> value_at (write_value a key d cs ! a) key = d"
  by (simp add: write_value_def)

lemma write_value_length [simp]: "length (write_value a key d cs) = length cs"
  by (simp add: write_value_def)

lemma GetValue_range:
  assumes "ctxs_ok cs" "a < length cs" "GetValue cs key a = Some (b, k)"
  shows "b < length cs \<and> k = key \<and> map_of (dc_table (cs ! b)) key \<noteq> None"
proof -
  have "answered cs (local_entry cs key) None a (GetValue cs key a)"
    unfolding GetValue_def by (rule search_answered) (use assms in \<open>simp_all add: default_options_def\<close>)
  then obtain x where "within_reach cs a x" "local_entry cs key x = Some (b, k)"
    using assms(3) by (auto simp: answered_def split: option.splits intro: reach_refl)
  then show ?thesis using reach_in_range[OF assms(1,2)] by (auto simp: local_entry_def split: if_splits)
qed

text \<open>
  Passing an input on moves the value, plain or shared, from the entry of the one name to the
  entry of the other, empties the first and changes nothing else; it fails, and changes nothing,
  when one of the entries does not exist.
\<close>
theorem MoveBetween_moves:
  "ctxs_ok cs \<Longrightarrow> a < length cs \<Longrightarrow> from_key \<noteq> to_key \<Longrightarrow> MoveBetween from_key to_key a cs = (rc, cs') \<Longrightarrow>
    (case (GetValue cs from_key a, GetValue cs to_key a) of
       (Some (b, f), Some (d, t)) \<Rightarrow> rc = 0
         \<and> dv_val (value_at (cs' ! d) to_key) = dv_val (value_at (cs ! b) from_key)
         \<and> dv_sval (value_at (cs' ! d) to_key) = dv_sval (value_at (cs ! b) from_key)
         \<and> dv_val (value_at (cs' ! b) from_key) = None \<and> dv_sval (value_at (cs' ! b) from_key) = None
         \<and> (\<forall>x k. (x, k) \<notin> {(b, from_key), (d, to_key)} \<longrightarrow> value_at (cs' ! x) k = value_at (cs ! x) k)
     | _ \<Rightarrow> rc = -1 \<and> cs' = cs)"
proof -
  assume ok: "ctxs_ok cs" and a: "a < length cs" and ne: "from_key \<noteq> to_key"
    and m: "MoveBetween from_key to_key a cs = (rc, cs')"
  show ?thesis
  proof (cases "GetValue cs from_key a = None \<or> GetValue cs to_key a = None")
    case True
    then show ?thesis using m by (auto simp: MoveBetween_def split: option.splits)
  next
    case False
    then obtain b f d t where g: "GetValue cs from_key a = Some (b, f)" "GetValue cs to_key a = Some (d, t)" by auto
    note r = GetValue_range[OF ok a g(1)] GetValue_range[OF ok a g(2)]
    then have k: "f = from_key" "t = to_key" by simp_all
    define v where "v = value_at (cs ! b) from_key"
    define cs1 where "cs1 = write_value d to_key ((value_at (cs ! d) to_key)\<lparr>dv_val := dv_val v, dv_sval := dv_sval v\<rparr>) cs"
    have "rc = 0" and cs': "cs' = write_value b from_key ((value_at (cs1 ! b) from_key)\<lparr>dv_val := None, dv_sval := None\<rparr>) cs1"
      using m g k by (simp_all add: MoveBetween_def Let_def v_def cs1_def)
    have len: "b < length cs1" "d < length cs" using r by (simp_all add: cs1_def)
    have "value_at (cs' ! d) to_key = value_at (cs1 ! d) to_key"
      unfolding cs' by (rule write_value_other) (use ne len in auto)
    moreover have "value_at (cs1 ! d) to_key = (value_at (cs ! d) to_key)\<lparr>dv_val := dv_val v, dv_sval := dv_sval v\<rparr>"
      unfolding cs1_def using write_value_same[OF len(2)] .
    moreover have "value_at (cs' ! b) from_key = (value_at (cs1 ! b) from_key)\<lparr>dv_val := None, dv_sval := None\<rparr>"
      unfolding cs' using write_value_same[OF len(1)] .
    moreover have "value_at (cs' ! x) k = value_at (cs ! x) k" if "(x, k) \<noteq> (b, from_key)" "(x, k) \<noteq> (d, to_key)" for x k
      unfolding cs' using write_value_other[OF that(1) len(1)] write_value_other[OF that(2) len(2)] by (simp add: cs1_def)
    ultimately show ?thesis using \<open>rc = 0\<close> g by (simp add: v_def)
  qed
qed

theorem MoveBetween_moves_witness:
  "fst (MoveBetween (''x'', 7) (''y'', 7) 0 [new_data_ctx]) = -1"
proof -
  have "ctxs_ok [new_data_ctx]" by (simp add: ctxs_ok_def neighbours_def new_data_ctx_def)
  moreover have "GetValue [new_data_ctx] k 0 = None" for k
    by (simp add: GetValue_def answer_def local_entry_def new_data_ctx_def default_options_def Let_def)
  ultimately show ?thesis
    using MoveBetween_moves[OF _ _ _ prod.collapse[symmetric], of "[new_data_ctx]" 0 "(''x'', 7)" "(''y'', 7)"] by simp
qed

end
