(* ===== verification/Registry.thy ===== *)
theory Registry
  imports ProcessorProps
begin

text \<open>
  The two global tables (\<open>ProcessorFactory\<close> of \<open>processor/processor.cpp\<close>, \<open>DIContainer\<close> of
  \<open>di/container.{h,cpp}\<close>) and \<open>run_processor\<close>, which runs one operator without a graph.
\<close>

section \<open>Tables in which the first registration stays\<close>

locale first_wins =
  fixes register :: "'k \<Rightarrow> 'v \<Rightarrow> 't \<Rightarrow> bool \<times> 't"
    and lookup :: "'t \<Rightarrow> 'k \<Rightarrow> 'v option"
  assumes fresh: "lookup t k = None \<Longrightarrow> register k v t = (ok, t') \<Longrightarrow> ok \<and> lookup t' k = Some v"
    and taken: "lookup t k \<noteq> None \<Longrightarrow> register k v t = (False, t)"
    and others: "register k v t = (ok, t') \<Longrightarrow> k' \<noteq> k \<Longrightarrow> lookup t' k' = lookup t k'"
begin

primrec register_list :: "('k \<times> 'v) list \<Rightarrow> 't \<Rightarrow> bool list \<times> 't" where
  "register_list [] t = ([], t)"
| "register_list (kv # kvs) t =
    (let (ok, t1) = register (fst kv) (snd kv) t; (oks, t2) = register_list kvs t1 in (ok # oks, t2))"

lemma register_lookup:
  assumes "register k v t = (ok, t')"
  shows "lookup t' k' = (if k' = k \<and> lookup t k = None then Some v else lookup t k')"
    and "ok \<longleftrightarrow> lookup t k = None"
proof -
  show "lookup t' k' = (if k' = k \<and> lookup t k = None then Some v else lookup t k')"
    using fresh[OF _ assms] taken[of t k v] others[OF assms, of k'] assms by (cases "k' = k"; cases "lookup t k") auto
  show "ok \<longleftrightarrow> lookup t k = None"
    using fresh[OF _ assms] taken[of t k v] assms by (cases "lookup t k") auto
qed

lemma register_list_lookup:
  "register_list kvs t = (oks, t') \<Longrightarrow>
    lookup t' k = (case lookup t k of Some v \<Rightarrow> Some v | None \<Rightarrow> map_of kvs k)
    \<and> length oks = length kvs
    \<and> (\<forall>i < length kvs. oks ! i \<longleftrightarrow> lookup t (fst (kvs ! i)) = None \<and> fst (kvs ! i) \<notin> fst ` set (take i kvs))"
proof (induction kvs arbitrary: t oks t')
  case Nil
  then show ?case by (simp split: option.split)
next
  case (Cons kv kvs)
  obtain k0 v0 where kv: "kv = (k0, v0)" by fastforce
  obtain ok t1 where 1: "register k0 v0 t = (ok, t1)" by fastforce
  obtain oks1 t2 where 2: "register_list kvs t1 = (oks1, t2)" by fastforce
  have e: "oks = ok # oks1" "t' = t2" using Cons.prems 1 2 kv by simp_all
  note IH = Cons.IH[OF 2] and r = register_lookup[OF 1]
  have "lookup t' k = (case lookup t k of Some v \<Rightarrow> Some v | None \<Rightarrow> map_of (kv # kvs) k)"
    using IH r(1)[of k] e kv by (auto split: option.splits)
  moreover have "oks ! i \<longleftrightarrow> lookup t (fst ((kv # kvs) ! i)) = None \<and> fst ((kv # kvs) ! i) \<notin> fst ` set (take i (kv # kvs))"
    if "i < length (kv # kvs)" for i
    using that IH r e kv by (cases i) auto
  ultimately show ?case using IH e by simp
qed

end

section \<open>The operator factory\<close>

text \<open>An operator class: its declarations and the user's functions.\<close>

record op_class =
  oc_processor :: processor
  oc_setup :: "params \<Rightarrow> op_state \<Rightarrow> int \<times> op_state"
  oc_execute :: "params \<Rightarrow> op_state \<Rightarrow> int \<times> op_state"

type_synonym creators = "(string \<times> op_class) list"

definition RegisterProcessor :: "string \<Rightarrow> op_class \<Rightarrow> creators \<Rightarrow> bool \<times> creators" where
  "RegisterProcessor name c t = (if map_of t name = None then (True, t @ [(name, c)]) else (False, t))"

definition GetProcessor :: "creators \<Rightarrow> string \<Rightarrow> op_class option" where
  "GetProcessor t name = map_of t name"

definition func_class :: "(params \<Rightarrow> int) \<Rightarrow> op_class" where
  "func_class f = \<lparr>oc_processor = \<lparr>pr_inputs = [], pr_outputs = [], pr_params = []\<rparr>,
     oc_setup = (\<lambda>_ st. (0, st)), oc_execute = (\<lambda>args st. (f args, st))\<rparr>"

definition register_func_processor :: "string \<Rightarrow> (params \<Rightarrow> int) \<Rightarrow> creators \<Rightarrow> bool \<times> creators" where
  "register_func_processor name f = RegisterProcessor name (func_class f)"

text \<open>
  What \<open>GetAllMetas\<close> writes down of each class, for which it makes one object; \<open>desc\<close> and \<open>io\<close> are the
  answers of the virtual functions \<open>Desc\<close> and \<open>isIOProcessor\<close>.
\<close>

record processor_meta =
  pm_name :: string
  pm_desc :: string
  pm_is_io :: bool
  pm_input :: "input_info list"
  pm_output :: "output_info list"
  pm_params :: "param_decl list"

definition GetAllMetas :: "(op_class \<Rightarrow> string) \<Rightarrow> (op_class \<Rightarrow> bool) \<Rightarrow> creators \<Rightarrow> processor_meta list \<Rightarrow> processor_meta list" where
  "GetAllMetas desc io t metas = metas @ map (\<lambda>(name, c). \<lparr>pm_name = name, pm_desc = desc c, pm_is_io = io c,
     pm_input = pr_inputs (oc_processor c), pm_output = pr_outputs (oc_processor c), pm_params = pr_params (oc_processor c)\<rparr>) t"

interpretation factory_table: first_wins RegisterProcessor GetProcessor
  by unfold_locales (auto simp: RegisterProcessor_def GetProcessor_def map_add_def split: if_splits option.splits)

section \<open>The dependency container\<close>

text \<open>\<open>bl_get\<close> is the object that the builder's function returns at the time of the lookup.\<close>

record builder =
  bl_get :: "nat option"
  bl_inited :: bool

type_synonym builders = "(data_key \<times> builder) list"

definition RegisterBuilder :: "data_key \<Rightarrow> nat option \<Rightarrow> builders \<Rightarrow> int \<times> builders" where
  "RegisterBuilder key f t =
    (if map_of t key \<noteq> None then (-1, t) else (0, t @ [(key, \<lparr>bl_get = f, bl_inited = False\<rparr>)]))"

definition ContainerGet :: "builders \<Rightarrow> data_key \<Rightarrow> nat option" where
  "ContainerGet t key = (case map_of t key of Some b \<Rightarrow> bl_get b | None \<Rightarrow> None)"

text \<open>
  \<open>DIContainer::Init\<close>: the list is the order in which the hash table is walked, which the code does
  not know. \<open>rcs\<close> is what the builders' own \<open>Init\<close> return; the keys of those that were called are returned.
\<close>

fun InitBuilders :: "(data_key \<Rightarrow> int) \<Rightarrow> builders \<Rightarrow> int \<times> data_key list \<times> builders" where
  "InitBuilders rcs [] = (0, [], [])"
| "InitBuilders rcs ((k, b) # t) =
    (if bl_inited b then let (rc, called, t') = InitBuilders rcs t in (rc, called, (k, b) # t')
     else if rcs k \<noteq> 0 then (rcs k, [k], (k, b) # t)
     else let (rc, called, t') = InitBuilders rcs t in (rc, k # called, (k, b\<lparr>bl_inited := True\<rparr>) # t'))"

interpretation container_table: first_wins
  "\<lambda>k f t. (fst (RegisterBuilder k f t) = 0, snd (RegisterBuilder k f t))"
  "\<lambda>t k. map_option bl_get (map_of t k)"
  by unfold_locales (auto simp: RegisterBuilder_def map_add_def split: if_splits option.splits)

text \<open>
  Operators registered under the same name: the first one stays, whatever the order of the
  registrations, and exactly the first registration of a name reports success.
\<close>
theorem first_registration_wins:
  "factory_table.register_list regs t = (oks, t') \<Longrightarrow>
    GetProcessor t' name = (case GetProcessor t name of Some c \<Rightarrow> Some c | None \<Rightarrow> map_of regs name)
    \<and> (\<forall>i < length regs. oks ! i \<longleftrightarrow> GetProcessor t (fst (regs ! i)) = None \<and> fst (regs ! i) \<notin> fst ` set (take i regs))"
  using factory_table.register_list_lookup[of regs t oks t' name] by blast

theorem first_registration_wins_witness:
  "GetProcessor (snd (factory_table.register_list [(''p'', func_class (\<lambda>_. 1)), (''p'', func_class (\<lambda>_. 2))] [])) ''p''
     = Some (func_class (\<lambda>_. 1))"
  using first_registration_wins[OF prod.collapse[symmetric],
      of "[(''p'', func_class (\<lambda>_. 1)), (''p'', func_class (\<lambda>_. 2))]" "[]" "''p''"]
  by (simp add: GetProcessor_def)

lemma init_keys: "InitBuilders rcs t = (rc, called, t') \<Longrightarrow> map fst t' = map fst t \<and> set called \<subseteq> fst ` set t"
  by (induction rcs t arbitrary: rc called t' rule: InitBuilders.induct) (auto split: if_splits prod.splits)

lemma init_get: "InitBuilders rcs t = (rc, called, t') \<Longrightarrow> ContainerGet t' x = ContainerGet t x"
  by (induction rcs t arbitrary: rc called t' rule: InitBuilders.induct)
    (auto simp: ContainerGet_def split: if_splits prod.splits)

lemma init_rc: "InitBuilders rcs t = (rc, called, t') \<Longrightarrow> rc = 0 \<longleftrightarrow> (\<forall>(k, b) \<in> set t. bl_inited b \<or> rcs k = 0)"
  by (induction rcs t arbitrary: rc called t' rule: InitBuilders.induct) (auto split: if_splits prod.splits)

lemma init_all: "InitBuilders rcs t = (0, called, t') \<Longrightarrow> \<forall>(k, b) \<in> set t'. bl_inited b"
  by (induction rcs t arbitrary: called t' rule: InitBuilders.induct) (auto split: if_splits prod.splits)

lemma init_idle: "\<forall>(k, b) \<in> set t. bl_inited b \<Longrightarrow> InitBuilders rcs t = (0, [], t)"
  by (induction rcs t rule: InitBuilders.induct) auto

lemma init_failed:
  "InitBuilders rcs t = (rc, called, t') \<Longrightarrow> rc \<noteq> 0 \<Longrightarrow>
    called \<noteq> [] \<and> rcs (last called) = rc \<and> (\<forall>k \<in> set (butlast called). rcs k = 0)"
  by (induction rcs t arbitrary: rc called t' rule: InitBuilders.induct) (auto split: if_splits prod.splits)

lemma init_called:
  "InitBuilders rcs t = (rc, called, t') \<Longrightarrow> distinct (map fst t) \<Longrightarrow>
    distinct called \<and> (\<forall>(k, b) \<in> set t. k \<in> set called \<longrightarrow> \<not> bl_inited b)"
proof (induction t arbitrary: rc called t')
  case (Cons kb t)
  obtain k b where kb: "kb = (k, b)" by fastforce
  obtain rc1 called1 t1 where 1: "InitBuilders rcs t = (rc1, called1, t1)" by (metis prod_cases3)
  have k: "k \<notin> set called1" "k \<notin> fst ` set t" using init_keys[OF 1] Cons.prems(2) kb by auto
  have IH: "distinct called1" "\<forall>(k, b) \<in> set t. k \<in> set called1 \<longrightarrow> \<not> bl_inited b"
    using Cons.IH[OF 1] Cons.prems(2) by simp_all
  have "called = called1 \<and> bl_inited b \<or> called = [k] \<and> \<not> bl_inited b \<or> called = k # called1 \<and> \<not> bl_inited b"
    using Cons.prems(1) 1 kb by (auto split: if_splits)
  then show ?case using IH k kb by force
qed simp

text \<open>
  Initialising the container calls each builder that was not initialised yet at most once and
  stops at the first failure; after a success every builder is initialised and another attempt calls
  none. Lookups do not change.
\<close>
theorem InitBuilders_once:
  "distinct (map fst t) \<Longrightarrow> InitBuilders rcs t = (rc, called, t') \<Longrightarrow>
    distinct called \<and> (\<forall>(k, b) \<in> set t. k \<in> set called \<longrightarrow> \<not> bl_inited b)
    \<and> (rc = 0 \<longleftrightarrow> (\<forall>(k, b) \<in> set t. bl_inited b \<or> rcs k = 0))
    \<and> (rc = 0 \<longrightarrow> (\<forall>(k, b) \<in> set t'. bl_inited b) \<and> InitBuilders rcs' t' = (0, [], t'))
    \<and> (rc \<noteq> 0 \<longrightarrow> called \<noteq> [] \<and> rcs (last called) = rc \<and> (\<forall>k \<in> set (butlast called). rcs k = 0))
    \<and> (\<forall>x. ContainerGet t' x = ContainerGet t x)"
  using init_called[of rcs t rc called t'] init_rc[of rcs t rc called t'] init_all[of rcs t called t']
    init_idle[of t' rcs'] init_failed[of rcs t rc called t'] init_get[of rcs t rc called t'] by blast

theorem InitBuilders_once_witness:
  "fst (InitBuilders (\<lambda>_. 0) (snd (RegisterBuilder (''a'', 1) (Some 3) []))) = 0"
proof -
  let ?t = "snd (RegisterBuilder (''a'', 1) (Some 3) [])"
  obtain rc called t' where i: "InitBuilders (\<lambda>_. 0) ?t = (rc, called, t')" by (metis prod_cases3)
  have "rc = 0 \<longleftrightarrow> (\<forall>(k, b) \<in> set ?t. bl_inited b \<or> (0::int) = 0)"
    using InitBuilders_once[OF _ i, where rcs' = "\<lambda>_. 0"] by (simp add: RegisterBuilder_def)
  then show ?thesis using i by simp
qed
section \<open>The parameters of a run\<close>

definition argument :: "pheap \<Rightarrow> params \<Rightarrow> param_decl \<Rightarrow> param_value option" where
  "argument h args d =
    (if is_vector (pd_default d)
     then if Contains h args (pd_name d) = Some True
          then vector_arg (pd_default d) (the (Get h args (pd_name d))) else None
     else scalar_arg (pd_default d) (the (Get h args (pd_name d))))"

lemma op_param_set [simp]: "op_param (set_op_param n v st) m = (if m = n then v else op_param st m)"
  by (simp add: set_op_param_def)

lemma op_param_keep: "op_param (keep_or n v st) m = (if m = n then case v of None \<Rightarrow> op_param st n | Some w \<Rightarrow> w else op_param st m)"
  by (simp add: keep_or_def split: option.split)

lemma set_param_argument:
  assumes "chain h args qs"
  shows "\<exists>st'. set_param h args d st = Some st' \<and>
    (\<forall>m. op_param st' m = (if m = pd_name d then case argument h args d of None \<Rightarrow> op_param st m | Some w \<Rightarrow> w
                            else op_param st m))"
proof -
  obtain g c where "Get h args (pd_name d) = Some g" "Contains h args (pd_name d) = Some c"
    using Get_chain[OF assms] Contains_chain[OF assms] by blast
  then show ?thesis by (auto simp: set_param_def argument_def op_param_keep Let_def)
qed

lemma set_params_arguments:
  assumes "chain h args qs"
  shows "distinct (map pd_name ds) \<Longrightarrow> \<exists>st'. set_params h args ds st = Some st' \<and>
    (\<forall>d \<in> set ds. op_param st' (pd_name d) = (case argument h args d of None \<Rightarrow> op_param st (pd_name d) | Some w \<Rightarrow> w)) \<and>
    (\<forall>m. m \<notin> pd_name ` set ds \<longrightarrow> op_param st' m = op_param st m)"
proof (induction ds arbitrary: st)
  case Nil
  then show ?case by simp
next
  case (Cons d ds)
  obtain st1 where 1: "set_param h args d st = Some st1"
    "\<forall>m. op_param st1 m = (if m = pd_name d then case argument h args d of None \<Rightarrow> op_param st m | Some w \<Rightarrow> w
                            else op_param st m)"
    using set_param_argument[OF assms] by blast
  obtain st' where 2: "set_params h args ds st1 = Some st'"
    "\<forall>d \<in> set ds. op_param st' (pd_name d) = (case argument h args d of None \<Rightarrow> op_param st1 (pd_name d) | Some w \<Rightarrow> w)"
    "\<forall>m. m \<notin> pd_name ` set ds \<longrightarrow> op_param st' m = op_param st1 m"
    using Cons.IH[of st1] Cons.prems by auto
  have "pd_name x \<noteq> pd_name d" if "x \<in> set ds" for x using Cons.prems that by (metis distinct.simps(2) image_eqI list.map(2) list.set_map)
  then have "op_param st' (pd_name x) = (case argument h args x of None \<Rightarrow> op_param st (pd_name x) | Some w \<Rightarrow> w)" if "x \<in> set ds" for x
    using that 1(2) 2(2) by (simp split: option.splits)
  moreover have "op_param st' (pd_name d) = (case argument h args d of None \<Rightarrow> op_param st (pd_name d) | Some w \<Rightarrow> w)"
    using Cons.prems 1(2) 2(3) by simp
  ultimately show ?case using 1 2 by simp
qed

lemma reset_params:
  "distinct (map pd_name ds) \<Longrightarrow> d \<in> set ds \<Longrightarrow>
    op_param (fold (\<lambda>d. set_op_param (pd_name d) (f d)) ds st) (pd_name d) = f d"
proof (induction ds arbitrary: st rule: rev_induct)
  case (snoc e ds)
  then show ?case by (cases "d = e") (auto simp: image_iff)
qed simp

text \<open>
  After a reset, the parameters of a run are its arguments where they have the declared type
  (for a vector: where the name is there at all), and the declared defaults elsewhere. On an operator
  that was never reset, as \<open>run_processor\<close> uses it, a vector without argument is empty instead.
\<close>
theorem parameters_of_run:
  "distinct (map pd_name (pr_params p)) \<Longrightarrow> chain h args qs \<Longrightarrow>
    (\<exists>st'. set_params h args (pr_params p) (ResetOp p f st) = Some st' \<and>
       (\<forall>d \<in> set (pr_params p). op_param st' (pd_name d) = (case argument h args d of None \<Rightarrow> pd_default d | Some w \<Rightarrow> w)))
    \<and> (\<exists>st'. set_params h args (pr_params p) (new_op p) = Some st' \<and>
       (\<forall>d \<in> set (pr_params p). op_param st' (pd_name d) = (case argument h args d of None \<Rightarrow> initial_param (pd_default d) | Some w \<Rightarrow> w)))"
proof -
  assume d: "distinct (map pd_name (pr_params p))" and c: "chain h args qs"
  have "op_param (ResetOp p f st) (pd_name x) = pd_default x" "op_param (new_op p) (pd_name x) = initial_param (pd_default x)"
    if "x \<in> set (pr_params p)" for x
    using reset_params[OF d that] by (simp_all add: ResetOp_def new_op_def)
  note r = this
  obtain s1 where "set_params h args (pr_params p) (ResetOp p f st) = Some s1"
    "\<forall>d \<in> set (pr_params p). op_param s1 (pd_name d) =
      (case argument h args d of None \<Rightarrow> op_param (ResetOp p f st) (pd_name d) | Some w \<Rightarrow> w)"
    using set_params_arguments[OF c d] by blast
  moreover obtain s2 where "set_params h args (pr_params p) (new_op p) = Some s2"
    "\<forall>d \<in> set (pr_params p). op_param s2 (pd_name d) =
      (case argument h args d of None \<Rightarrow> op_param (new_op p) (pd_name d) | Some w \<Rightarrow> w)"
    using set_params_arguments[OF c d] by blast
  ultimately show ?thesis using r by (simp cong: option.case_cong)
qed

theorem parameters_of_run_witness:
  "\<exists>st'. set_params Map.empty (new_params False) [\<lparr>pd_name = ''v'', pd_default = IntList [1, 2]\<rparr>]
       (new_op \<lparr>pr_inputs = [], pr_outputs = [], pr_params = [\<lparr>pd_name = ''v'', pd_default = IntList [1, 2]\<rparr>]\<rparr>) = Some st'
     \<and> op_param st' ''v'' = IntList []"
proof -
  let ?p = "\<lparr>pr_inputs = [], pr_outputs = [], pr_params = [\<lparr>pd_name = ''v'', pd_default = IntList [1, 2]\<rparr>]\<rparr>"
  have c: "chain Map.empty (new_params False) []" by (rule chain_root) (simp add: new_params_def)
  have "argument Map.empty (new_params False) \<lparr>pd_name = ''v'', pd_default = IntList [1, 2]\<rparr> = None"
    by (simp add: argument_def Contains_chain[OF c]) (simp add: new_params_def)
  then show ?thesis using parameters_of_run[OF _ c, of ?p] by simp
qed

section \<open>Running an operator without a graph\<close>

definition run_processor :: "creators \<Rightarrow> (data_key \<Rightarrow> nat option) \<Rightarrow> pheap \<Rightarrow> params option
    \<Rightarrow> (string \<times> string list) list \<Rightarrow> caddr \<Rightarrow> string \<Rightarrow> data_ctx list \<Rightarrow> (int \<times> data_ctx list) option" where
  "run_processor t di h ps aggs a name cs =
    (case GetProcessor t name of
       None \<Rightarrow> Some (-1, cs)
     | Some c \<Rightarrow>
         let p = oc_processor c;
             ins = snd (SetupInputOutputIds False (pr_inputs p)
               (map (\<lambda>(f, ids). new_graph_data\<lparr>d_id := f, d_field := f, aggregate := ids\<rparr>) aggs));
             outs = snd (SetupInputOutputIds False (pr_outputs p) []);
             args = (case ps of None \<Rightarrow> new_params False | Some q \<Rightarrow> q)
         in Option.bind (InjectInputs di h ps a ins (new_op p, cs)) (\<lambda>(_, st, cs1).
              let (rc, st1) = oc_setup c args st
              in if rc \<noteq> 0 then Some (rc, cs1)
                 else Option.bind (ExecuteOp p h args (oc_execute c) st1) (\<lambda>(rc, st2).
                   map_option (\<lambda>c'. (rc, cs1[a := c'])) (CollectOutputs h ps st2 outs (cs1 ! a)))))"

text \<open>
  The inputs of an operator are never required there, so that it always runs.
\<close>

lemma run_processor_injects:
  assumes "InjectInputs di h ps a (snd (SetupInputOutputIds False (pr_inputs p)
      (map (\<lambda>(f, ids). new_graph_data\<lparr>d_id := f, d_field := f, aggregate := ids\<rparr>) aggs))) s = Some (rc, s')"
    and "distinct (map fi_name (pr_inputs p))" "distinct (map fi_member (pr_inputs p))"
  shows "rc = 0"
proof -
  let ?config = "map (\<lambda>(f, ids). new_graph_data\<lparr>d_id := f, d_field := f, aggregate := ids\<rparr>) aggs"
  define ins where "ins = map (\<lambda>i. case last_for (fi_name i) ?config of
      None \<Rightarrow> FieldData i | Some d \<Rightarrow> bind_field d (FieldData i)) (pr_inputs p)"
  have "bind_fields False ?config (map FieldData (pr_inputs p)) = (0, map (bound ?config) (map FieldData (pr_inputs p)))"
    by (rule bind_fields_bound) (use assms(2) in \<open>simp_all add: FieldData_def o_def\<close>)
  then have ins: "snd (SetupInputOutputIds False (pr_inputs p) ?config) = ins"
    by (simp add: ins_def SetupInputOutputIds_def bound_FieldData o_def)
  have "\<not> entry_required e" if "e \<in> set ins" for e
  proof -
    have "required d = False" if "last_for n ?config = Some d" for n d
      using map_of_SomeD[OF that[unfolded last_for_def]] by (auto simp: new_graph_data_def)
    with that show ?thesis by (auto simp: ins_def entry_required_def FieldData_def bind_field_def split: option.splits)
  qed
  moreover have "rc = 0 \<or> (\<exists>e \<in> set ins. entry_required e)"
    using assms(1) unfolding ins
    by (induction ins arbitrary: s) (auto simp: bind_eq_Some_conv split: if_splits)
  ultimately show ?thesis by blast
qed

end
