(* ===== verification/GraphData.thy ===== *)
theory GraphData
  imports Registry Graph "HOL-Library.Multiset"
begin

text \<open>
  The data part of \<open>GraphContext::Setup\<close> (\<open>store/graph_context.cpp\<close>) and the operator part of
  \<open>VertexContext::Setup\<close> (\<open>store/vertex_context.cpp\<close>): operators are created and bound to the names
  of the graph, outputs are checked to be unique and inputs to have a source, and every name is
  registered in the context of the graph.
\<close>

section \<open>The operator of a vertex\<close>

definition kDefaultWhileOperatorName :: string where
  "kDefaultWhileOperatorName = ''ispine_while_processor''"

datatype setup_error =
  NoProcessor string | NoExprProcessor string | ExprSetupFailed | UnknownField | OperatorSetupFailed int
| DuplicateOutput data_key | MissingOutput data_key

record operator_ctx =
  vo_class :: "op_class option"
  vo_inputs :: "input_info field_data list"
  vo_outputs :: "output_info field_data list"
  vo_params :: params
  vo_selects :: "(cond_params \<times> (op_class \<times> op_state) option) list"
  vo_state :: op_state

definition vertex_class :: "creators \<Rightarrow> vertex \<Rightarrow> op_class option" where
  "vertex_class t v =
    (if v_graph v \<noteq> []
     then if v_while_cond v \<noteq> [] then GetProcessor t kDefaultWhileOperatorName else None
     else GetProcessor t (v_processor v))"

fun setup_selects :: "cluster \<Rightarrow> creators \<Rightarrow> cond_params list
    \<Rightarrow> (setup_error, (cond_params \<times> (op_class \<times> op_state) option) list) outcome" where
  "setup_selects c t [] = Ok []"
| "setup_selects c t (s # ss) =
    and_then
      (if IsCondExpr s
       then case GetProcessor t (c_default_expr_processor c) of
              None \<Rightarrow> if c_strict_dsl c then Err (NoExprProcessor (c_default_expr_processor c)) else Ok None
            | Some p \<Rightarrow>
                let (rc, st) = oc_setup p (SetString (match s) (new_params False)) (new_op (oc_processor p))
                in if rc \<noteq> 0 then Err ExprSetupFailed else Ok (Some (p, st))
       else Ok None)
      (\<lambda>p. and_then (setup_selects c t ss) (\<lambda>ps. Ok ((s, p) # ps)))"

text \<open>\<open>_params[name].f()\<close> of parameters without a parent: a valid member is changed in place.\<close>

definition at_name :: "(params \<Rightarrow> params) \<Rightarrow> string \<Rightarrow> params \<Rightarrow> params" where
  "at_name f name p =
    (case map_of (members p) name of
       Some q \<Rightarrow> if Valid q
         then (case p of Params t s i d b nv m a r \<Rightarrow> Params t s i d b nv (AList.update name (f q) m) a r)
         else put_with f name p
     | None \<Rightarrow> put_with f name p)"

definition operator_params :: "vertex \<Rightarrow> params \<Rightarrow> params" where
  "operator_params v p =
    (let p1 = (if v_cond v \<noteq> [] then SetString (v_cond v) p else p)
     in if v_while_cond v \<noteq> []
        then at_name (SetBool (v_while_async v)) ''__while_async_exec''
              (at_name (SetString (v_graph v)) ''__while_graph''
                (at_name (SetString (v_cluster v)) ''__while_cluster''
                  (at_name (SetString (v_while_cond v)) ''__expr'' p1)))
        else p1)"

definition no_state :: op_state where
  "no_state = \<lparr>op_member = (\<lambda>_. None), op_map = (\<lambda>_. []), op_param = (\<lambda>_. BoolValue False)\<rparr>"

text \<open>\<open>on_reset\<close> is the user's \<open>OnReset\<close>.\<close>

definition SetupOperator :: "cluster \<Rightarrow> creators \<Rightarrow> (op_state \<Rightarrow> op_state) \<Rightarrow> vertex \<Rightarrow> (setup_error, operator_ctx) outcome" where
  "SetupOperator c t on_reset v =
    (let cls = vertex_class t v in
     if c_strict_dsl c \<and> cls = None \<and> v_processor v \<noteq> [] then Err (NoProcessor (v_processor v))
     else and_then (setup_selects c t (v_select_args v)) (\<lambda>selects.
       case cls of
         None \<Rightarrow> Ok \<lparr>vo_class = None, vo_inputs = [], vo_outputs = [], vo_params = v_args v, vo_selects = selects, vo_state = no_state\<rparr>
       | Some p \<Rightarrow>
           let (rci, ins) = SetupInputOutputIds (c_strict_dsl c) (pr_inputs (oc_processor p)) (v_input v);
               (rco, outs) = SetupInputOutputIds (c_strict_dsl c) (pr_outputs (oc_processor p)) (v_output v)
           in if rci \<noteq> 0 \<or> rco \<noteq> 0 then Err UnknownField
              else let params = operator_params v (v_args v);
                       (rc, st) = oc_setup p params (ResetOp (oc_processor p) on_reset (new_op (oc_processor p)))
                   in if rc \<noteq> 0 then Err (OperatorSetupFailed rc)
                      else Ok \<lparr>vo_class = Some p, vo_inputs = ins, vo_outputs = outs, vo_params = params,
                                vo_selects = selects, vo_state = st\<rparr>))"

section \<open>The data of a graph\<close>

fun add_output_ids :: "data_key list \<Rightarrow> data_key set \<Rightarrow> (setup_error, data_key set) outcome" where
  "add_output_ids [] s = Ok s"
| "add_output_ids (k # ks) s = (if k \<in> s then Err (DuplicateOutput k) else add_output_ids ks (insert k s))"

fun SetupOperators :: "cluster \<Rightarrow> creators \<Rightarrow> (op_state \<Rightarrow> op_state) \<Rightarrow> vertex list \<Rightarrow> data_key set
    \<Rightarrow> (setup_error, operator_ctx list \<times> data_key set) outcome" where
  "SetupOperators c t f [] s = Ok ([], s)"
| "SetupOperators c t f (v # vs) s =
    and_then (SetupOperator c t f v) (\<lambda>o1.
    and_then (add_output_ids (map data_key_of (vo_outputs o1)) s) (\<lambda>s1.
    and_then (SetupOperators c t f vs s1) (\<lambda>(os, s2). Ok (o1 # os, s2))))"

definition needs_source :: "data_key set \<Rightarrow> input_info field_data \<Rightarrow> bool" where
  "needs_source s e =
    (case fl_data e of None \<Rightarrow> False | Some d \<Rightarrow> \<not> is_extern d \<and> aggregate d = [] \<and> data_key_of e \<notin> s)"

definition register_entry :: "'a field_info_scheme field_data \<Rightarrow> data_ctx \<Rightarrow> 'a field_info_scheme field_data \<times> data_ctx" where
  "register_entry e c = (let (i, c') = RegisterData (data_key_of e) c in (e\<lparr>fl_idx := int i\<rparr>, c'))"

fun register_inputs :: "data_key set \<Rightarrow> input_info field_data list \<Rightarrow> data_ctx
    \<Rightarrow> (setup_error, input_info field_data list \<times> data_ctx) outcome" where
  "register_inputs s [] c = Ok ([], c)"
| "register_inputs s (e # es) c =
    (if needs_source s e then Err (MissingOutput (data_key_of e))
     else let (e', c') = (if \<not> fi_is_extern (fl_info e) \<and> \<not> fi_is_aggregate (fl_info e) then register_entry e c else (e, c))
          in and_then (register_inputs s es c') (\<lambda>(es', c2). Ok (e' # es', c2)))"

fun register_outputs :: "output_info field_data list \<Rightarrow> data_ctx \<Rightarrow> output_info field_data list \<times> data_ctx" where
  "register_outputs [] c = ([], c)"
| "register_outputs (e # es) c =
    (let (e', c') = (if is_var (fi_name (fl_info e)) then (e, c) else register_entry e c);
         (es', c2) = register_outputs es c'
     in (e' # es', c2))"

fun RegisterOperators :: "data_key set \<Rightarrow> operator_ctx list \<Rightarrow> data_ctx \<Rightarrow> (setup_error, operator_ctx list \<times> data_ctx) outcome" where
  "RegisterOperators s [] c = Ok ([], c)"
| "RegisterOperators s (x # xs) c =
    and_then (register_inputs s (vo_inputs x) c) (\<lambda>(ins, c1).
      let (outs, c2) = register_outputs (vo_outputs x) c1
      in and_then (RegisterOperators s xs c2) (\<lambda>(ys, c3). Ok (x\<lparr>vo_inputs := ins, vo_outputs := outs\<rparr> # ys, c3)))"

text \<open>
  The second loop walks a hash table of pointers in an order of its own, which \<open>order\<close> stands for:
  it lists the positions of the operators of the first loop.
\<close>

definition SetupData :: "cluster \<Rightarrow> creators \<Rightarrow> (op_state \<Rightarrow> op_state) \<Rightarrow> (nat \<Rightarrow> nat list) \<Rightarrow> vertex list
    \<Rightarrow> (setup_error, operator_ctx list \<times> data_ctx) outcome" where
  "SetupData c t f order vs =
    and_then (SetupOperators c t f vs {}) (\<lambda>(ops, s).
      RegisterOperators s (map ((!) ops) (order (length vs)))
        (ReserveChildCapacity (length (filter (\<lambda>v. v_cluster v \<noteq> []) vs)) new_data_ctx))"
section \<open>What setting up establishes\<close>

definition extends :: "data_ctx \<Rightarrow> data_ctx \<Rightarrow> bool" where
  "extends c c' = (length (dc_array c) \<le> length (dc_array c') \<and>
     (\<forall>j < length (dc_array c). dc_array c' ! j = dc_array c ! j))"

lemma extends_refl [simp]: "extends c c"
  by (simp add: extends_def)

lemma extends_trans: "extends c1 c2 \<Longrightarrow> extends c2 c3 \<Longrightarrow> extends c1 c3"
  by (auto simp: extends_def)

lemma indexed_extends: "extends c c' \<Longrightarrow> indexed c e \<Longrightarrow> indexed c' e"
  by (auto simp: extends_def indexed_def)

definition same_field :: "'a field_info_scheme field_data \<Rightarrow> 'a field_info_scheme field_data \<Rightarrow> bool" where
  "same_field e e' = (fl_info e' = fl_info e \<and> fl_data e' = fl_data e \<and> fl_name e' = fl_name e)"

lemma same_field_key: "same_field e e' \<Longrightarrow> data_key_of e' = data_key_of e"
  by (simp add: same_field_def data_key_of_def)

lemma register_entry_ok:
  assumes "registered_ok c" "register_entry e c = (e', c')"
  shows "registered_ok c' \<and> extends c c' \<and> indexed c' e' \<and> same_field e e'"
proof -
  obtain i where r: "RegisterData (data_key_of e) c = (i, c')" and e': "e' = e\<lparr>fl_idx := int i\<rparr>"
    using assms(2) by (auto simp: register_entry_def split: prod.splits)
  show ?thesis using RegisterData_ok[OF assms(1) r] e'
    by (auto simp: extends_def indexed_def same_field_def data_key_of_def)
qed

definition input_linked :: "data_ctx \<Rightarrow> data_key set \<Rightarrow> input_info field_data \<Rightarrow> bool" where
  "input_linked c s e = ((\<not> fi_is_extern (fl_info e) \<and> \<not> fi_is_aggregate (fl_info e) \<longrightarrow> indexed c e) \<and> \<not> needs_source s e)"

definition output_linked :: "data_ctx \<Rightarrow> output_info field_data \<Rightarrow> bool" where
  "output_linked c e = (\<not> is_var (fi_name (fl_info e)) \<longrightarrow> indexed c e)"

lemma input_linked_extends: "extends c c' \<Longrightarrow> input_linked c s e \<Longrightarrow> input_linked c' s e"
  using indexed_extends by (auto simp: input_linked_def)

lemma output_linked_extends: "extends c c' \<Longrightarrow> output_linked c e \<Longrightarrow> output_linked c' e"
  using indexed_extends by (auto simp: output_linked_def)

lemma needs_source_same: "same_field e e' \<Longrightarrow> needs_source s e' = needs_source s e"
  by (auto simp: needs_source_def same_field_def data_key_of_def split: option.splits)

lemma register_inputs_ok:
  "registered_ok c \<Longrightarrow> register_inputs s es c = Ok (es', c') \<Longrightarrow>
    registered_ok c' \<and> extends c c' \<and> list_all2 same_field es es' \<and> (\<forall>e \<in> set es'. input_linked c' s e)"
proof (induction es arbitrary: c es')
  case (Cons e es)
  let ?r = "if \<not> fi_is_extern (fl_info e) \<and> \<not> fi_is_aggregate (fl_info e) then register_entry e c else (e, c)"
  obtain e1 c1 where r: "?r = (e1, c1)" by fastforce
  have ns: "\<not> needs_source s e" using Cons.prems(2) by (simp split: if_splits)
  obtain es1 where es1: "register_inputs s es c1 = Ok (es1, c')" "es' = e1 # es1"
    using Cons.prems(2) ns r by (auto simp: and_then_Ok_iff)
  have one: "registered_ok c1" "extends c c1" "same_field e e1" "input_linked c1 s e1"
    using register_entry_ok[OF Cons.prems(1), of e e1 c1] r Cons.prems(1) ns needs_source_same[of e e1 s]
    by (auto simp: input_linked_def same_field_def split: if_splits)
  note IH = Cons.IH[OF one(1) es1(1)]
  then show ?case using one es1(2) extends_trans[OF one(2)] input_linked_extends by auto
qed simp

lemma register_outputs_ok:
  "registered_ok c \<Longrightarrow> register_outputs es c = (es', c') \<Longrightarrow>
    registered_ok c' \<and> extends c c' \<and> list_all2 same_field es es' \<and> (\<forall>e \<in> set es'. output_linked c' e)"
proof (induction es arbitrary: c es')
  case (Cons e es)
  let ?r = "if is_var (fi_name (fl_info e)) then (e, c) else register_entry e c"
  obtain e1 c1 where r: "?r = (e1, c1)" by fastforce
  obtain es1 where es1: "register_outputs es c1 = (es1, c')" "es' = e1 # es1"
    using Cons.prems(2) r by (auto split: prod.splits)
  have one: "registered_ok c1" "extends c c1" "same_field e e1" "output_linked c1 e1"
    using register_entry_ok[OF Cons.prems(1), of e e1 c1] r Cons.prems(1)
    by (auto simp: output_linked_def same_field_def split: if_splits)
  note IH = Cons.IH[OF one(1) es1(1)]
  then show ?case using one es1(2) extends_trans[OF one(2)] output_linked_extends by auto
qed simp

definition operator_linked :: "data_ctx \<Rightarrow> data_key set \<Rightarrow> operator_ctx \<Rightarrow> bool" where
  "operator_linked c s x = ((\<forall>e \<in> set (vo_inputs x). input_linked c s e) \<and> (\<forall>e \<in> set (vo_outputs x). output_linked c e))"

definition same_outputs :: "operator_ctx \<Rightarrow> operator_ctx \<Rightarrow> bool" where
  "same_outputs x y = list_all2 same_field (vo_outputs x) (vo_outputs y)"

definition output_keys :: "operator_ctx \<Rightarrow> data_key list" where
  "output_keys x = map data_key_of (vo_outputs x)"

lemma same_outputs_keys: "same_outputs x y \<Longrightarrow> output_keys y = output_keys x"
  unfolding same_outputs_def output_keys_def
  by (induction rule: list_all2_induct) (simp_all add: same_field_key)

lemma RegisterOperators_ok:
  "registered_ok c \<Longrightarrow> RegisterOperators s xs c = Ok (ys, c') \<Longrightarrow>
    registered_ok c' \<and> extends c c' \<and> list_all2 same_outputs xs ys \<and> (\<forall>y \<in> set ys. operator_linked c' s y)"
proof (induction xs arbitrary: c ys)
  case (Cons x xs)
  obtain ins c1 where 1: "register_inputs s (vo_inputs x) c = Ok (ins, c1)"
    and rest: "(let (outs, c2) = register_outputs (vo_outputs x) c1
      in and_then (RegisterOperators s xs c2) (\<lambda>(ys, c3). Ok (x\<lparr>vo_inputs := ins, vo_outputs := outs\<rparr> # ys, c3))) = Ok (ys, c')"
    using Cons.prems(2) by (auto simp: and_then_Ok_iff)
  obtain outs c2 where 2: "register_outputs (vo_outputs x) c1 = (outs, c2)" by fastforce
  obtain ys1 where 3: "RegisterOperators s xs c2 = Ok (ys1, c')" "ys = x\<lparr>vo_inputs := ins, vo_outputs := outs\<rparr> # ys1"
    using rest 2 by (auto simp: and_then_Ok_iff)
  note i = register_inputs_ok[OF Cons.prems(1) 1]
  note o2 = register_outputs_ok[OF i[THEN conjunct1] 2]
  note IH = Cons.IH[OF o2[THEN conjunct1] 3(1)]
  have ext: "extends c1 c'" "extends c2 c'" using o2 IH extends_trans by blast+
  have "operator_linked c' s (x\<lparr>vo_inputs := ins, vo_outputs := outs\<rparr>)"
    using i o2 input_linked_extends[OF ext(1)] output_linked_extends[OF ext(2)] by (simp add: operator_linked_def)
  moreover have "same_outputs x (x\<lparr>vo_inputs := ins, vo_outputs := outs\<rparr>)" using o2 by (simp add: same_outputs_def)
  moreover have "extends c c'" using i ext(1) extends_trans by blast
  ultimately show ?case using IH 3(2) by simp
qed simp

lemma add_output_ids_ok:
  "add_output_ids ks s = Ok s' \<Longrightarrow> distinct ks \<and> set ks \<inter> s = {} \<and> s' = s \<union> set ks"
  by (induction ks arbitrary: s) (auto split: if_splits)

lemma SetupOperators_ok:
  "SetupOperators c t f vs s = Ok (ops, s') \<Longrightarrow>
    length ops = length vs \<and> distinct (concat (map output_keys ops))
    \<and> set (concat (map output_keys ops)) \<inter> s = {} \<and> s' = s \<union> set (concat (map output_keys ops))"
proof (induction vs arbitrary: s ops)
  case (Cons v vs)
  obtain o1 s1 os where 1: "add_output_ids (output_keys o1) s = Ok s1" "SetupOperators c t f vs s1 = Ok (os, s')" "ops = o1 # os"
    using Cons.prems by (auto simp: and_then_Ok_iff output_keys_def)
  note a = add_output_ids_ok[OF 1(1)] and IH = Cons.IH[OF 1(2)]
  have "distinct (output_keys o1)" "set (output_keys o1) \<inter> set (concat (map output_keys os)) = {}"
    using a IH by auto
  moreover have "length ops = length (v # vs)" using IH 1(3) by simp
  moreover have "set (concat (map output_keys ops)) = set (output_keys o1) \<union> set (concat (map output_keys os))"
    using 1(3) by simp
  ultimately show ?case using a IH 1(3) by (auto simp only: list.map concat.simps distinct_append)
qed simp

lemma concat_perm:
  assumes "mset xs = mset ys"
  shows "mset (concat (map f xs)) = mset (concat (map f ys))"
proof -
  have "mset (concat (map f zs)) = sum_mset (image_mset (\<lambda>x. mset (f x)) (mset zs))" for zs
    by (induction zs) auto
  then show ?thesis using assms by simp
qed

lemma SetupData_linked:
  "SetupData c t f order vs = Ok (ops, ctx) \<Longrightarrow> mset (order (length vs)) = mset [0..<length vs] \<Longrightarrow>
    registered_ok ctx \<and> length ops = length vs \<and> distinct (concat (map output_keys ops))
    \<and> (\<forall>x \<in> set ops. operator_linked ctx (set (concat (map output_keys ops))) x)"
proof -
  assume s: "SetupData c t f order vs = Ok (ops, ctx)" and o: "mset (order (length vs)) = mset [0..<length vs]"
  let ?c0 = "ReserveChildCapacity (length (filter (\<lambda>v. v_cluster v \<noteq> []) vs)) new_data_ctx"
  obtain ops1 ids where 1: "SetupOperators c t f vs {} = Ok (ops1, ids)"
    and 2: "RegisterOperators ids (map ((!) ops1) (order (length vs))) ?c0 = Ok (ops, ctx)"
    using s by (auto simp: SetupData_def and_then_Ok_iff)
  note a = SetupOperators_ok[OF 1]
  have r0: "registered_ok ?c0" by (simp add: ReserveChildCapacity_def registered_ok_def new_data_ctx_def)
  note b = RegisterOperators_ok[OF r0 2]
  let ?xs = "map ((!) ops1) (order (length vs))"
  have perm: "mset ?xs = mset ops1" using o a by (metis map_nth mset_map)
  have "map output_keys ops = map output_keys ?xs"
    using b same_outputs_keys by (intro list_all2_eq[THEN iffD2, symmetric]) (auto simp: list_all2_conv_all_nth)
  then have keys: "concat (map output_keys ops) = concat (map output_keys ?xs)" by simp
  note m = concat_perm[OF perm, of output_keys, folded keys]
  have "distinct (concat (map output_keys ops))" using mset_eq_imp_distinct_iff[OF m] a by blast
  moreover have "set (concat (map output_keys ops)) = ids" using mset_eq_setD[OF m] a by simp
  moreover have "length ops = length vs" using b perm a by (metis list_all2_lengthD size_mset)
  ultimately show ?thesis using b by simp
qed
text \<open>
  The entries of an operator against its declared fields and the items \<open>ds\<close> that the vertex configures:
  one entry for each field, in order; and each configured item that names a field (in strict mode all
  do) has made an entry that carries an item of the vertex for this field, and its identifier.
\<close>

definition holds_item :: "graph_data list \<Rightarrow> string \<Rightarrow> 'a field_info_scheme field_data \<Rightarrow> bool" where
  "holds_item ds n e = (fl_name e = n \<and> (\<exists>d \<in> set ds. d_field d = n \<and> fl_data e = Some d \<and> fi_name (fl_info e) = d_id d))"

definition entries_of :: "bool \<Rightarrow> 'a field_info_scheme list \<Rightarrow> graph_data list \<Rightarrow> 'a field_info_scheme field_data list \<Rightarrow> bool" where
  "entries_of strict decls ds es = (map fl_name es = map fi_name decls
     \<and> (\<forall>d \<in> set ds. strict \<or> d_field d \<in> fi_name ` set decls \<longrightarrow> (\<exists>e \<in> set es. holds_item ds (d_field d) e)))"

definition set_up :: "cluster \<Rightarrow> creators \<Rightarrow> vertex \<Rightarrow> operator_ctx \<Rightarrow> bool" where
  "set_up c t v x = (vo_class x = vertex_class t v \<and>
     (case vertex_class t v of
        None \<Rightarrow> vo_inputs x = [] \<and> vo_outputs x = []
      | Some p \<Rightarrow> entries_of (c_strict_dsl c) (pr_inputs (oc_processor p)) (v_input v) (vo_inputs x)
          \<and> entries_of (c_strict_dsl c) (pr_outputs (oc_processor p)) (v_output v) (vo_outputs x)))"

lemma bind_fields_entries:
  "bind_fields strict ds ids = (0, ids') \<Longrightarrow> set ds \<subseteq> set all \<Longrightarrow>
    map fl_name ids' = map fl_name ids
    \<and> (\<forall>n. (\<exists>e \<in> set ids. holds_item all n e) \<longrightarrow> (\<exists>e \<in> set ids'. holds_item all n e))
    \<and> (\<forall>d \<in> set ds. strict \<or> d_field d \<in> fl_name ` set ids \<longrightarrow> (\<exists>e \<in> set ids'. holds_item all (d_field d) e))"
proof (induction ds arbitrary: ids)
  case (Cons d ds)
  show ?case
  proof (cases "find_entry (d_field d) ids")
    case None
    then have "\<not> strict" "d_field d \<notin> fl_name ` set ids" using Cons.prems(1) find_entry_None by (auto split: if_splits)
    with Cons None show ?thesis by simp
  next
    case (Some k)
    let ?e = "bind_field d (ids ! k)" and ?ids = "ids[k := bind_field d (ids ! k)]"
    note k = find_entry_Some[OF Some]
    have names: "map fl_name ?ids = map fl_name ids" using k by (simp add: map_update list_update_same_conv)
    then have img: "fl_name ` set ?ids = fl_name ` set ids" by (metis list.set_map)
    have e: "holds_item all (d_field d) ?e" "?e \<in> set ?ids"
      using k Cons.prems(2) by (auto simp: holds_item_def bind_field_def set_update_memI)
    have old: "\<exists>x \<in> set ?ids. holds_item all n x" if x: "x \<in> set ids" "holds_item all n x" for n x
    proof (cases "n = d_field d")
      case False
      obtain j where j: "j < length ids" "ids ! j = x" using x(1) by (auto simp: in_set_conv_nth)
      have "j \<noteq> k" using j k x(2) False by (auto simp: holds_item_def)
      then have "?ids ! j = x" "j < length ?ids" using j by simp_all
      with x(2) show ?thesis by (metis nth_mem)
    qed (use e in blast)
    have "bind_fields strict ds ?ids = (0, ids')" using Cons.prems(1) Some by simp
    from Cons.IH[OF this] Cons.prems(2) have IH: "map fl_name ids' = map fl_name ?ids"
      "\<And>n. \<exists>e \<in> set ?ids. holds_item all n e \<Longrightarrow> \<exists>e \<in> set ids'. holds_item all n e"
      "\<And>d. d \<in> set ds \<Longrightarrow> strict \<or> d_field d \<in> fl_name ` set ?ids \<Longrightarrow> \<exists>e \<in> set ids'. holds_item all (d_field d) e"
      by auto
    have "\<exists>e \<in> set ids'. holds_item all (d_field d) e" using IH(2) e by blast
    moreover have "\<exists>e \<in> set ids'. holds_item all n e" if "x \<in> set ids" "holds_item all n x" for n x
      using IH(2) old[OF that] by blast
    ultimately show ?thesis using IH(1,3) names unfolding img by auto
  qed
qed simp

lemma SetupInputOutputIds_entries:
  assumes "SetupInputOutputIds strict decls ds = (0, es)" shows "entries_of strict decls ds es"
proof -
  have n: "map fl_name (map FieldData decls) = map fi_name decls" by (simp add: FieldData_def)
  then have "fl_name ` set (map FieldData decls) = fi_name ` set decls" by (metis list.set_map)
  with bind_fields_entries[OF assms[unfolded SetupInputOutputIds_def], of ds] n show ?thesis
    by (simp add: entries_of_def)
qed

lemma same_field_holds: "same_field e e' \<Longrightarrow> holds_item ds n e' = holds_item ds n e"
  by (simp add: same_field_def holds_item_def)

lemma same_fields_entries:
  assumes "list_all2 same_field es es'" "entries_of strict decls ds es" shows "entries_of strict decls ds es'"
proof -
  have "map fl_name es' = map fl_name es \<and> (\<forall>n. (\<exists>e \<in> set es'. holds_item ds n e) = (\<exists>e \<in> set es. holds_item ds n e))"
    using assms(1)
  proof (induction rule: list_all2_induct)
    case (Cons x xs y ys)
    have "fl_name y = fl_name x" using Cons(1) by (simp add: same_field_def)
    then show ?case using Cons(3) same_field_holds[OF Cons(1)] by simp
  qed simp
  with assms(2) show ?thesis by (simp add: entries_of_def)
qed

lemma SetupOperator_set_up:
  assumes "SetupOperator c t f v = Ok x" shows "set_up c t v x"
proof (cases "vertex_class t v")
  case None
  with assms show ?thesis by (auto simp: SetupOperator_def set_up_def Let_def and_then_Ok_iff split: if_splits)
next
  case (Some p)
  obtain selects where s: "(let (rci, ins) = SetupInputOutputIds (c_strict_dsl c) (pr_inputs (oc_processor p)) (v_input v);
             (rco, outs) = SetupInputOutputIds (c_strict_dsl c) (pr_outputs (oc_processor p)) (v_output v)
         in if rci \<noteq> 0 \<or> rco \<noteq> 0 then Err UnknownField
            else let params = operator_params v (v_args v);
                     (rc, st) = oc_setup p params (ResetOp (oc_processor p) f (new_op (oc_processor p)))
                 in if rc \<noteq> 0 then Err (OperatorSetupFailed rc)
                    else Ok \<lparr>vo_class = Some p, vo_inputs = ins, vo_outputs = outs, vo_params = params,
                              vo_selects = selects, vo_state = st\<rparr>) = Ok x"
    using assms Some unfolding SetupOperator_def by (auto simp: and_then_Ok_iff Let_def[of "vertex_class t v"] split: if_splits)
  obtain rci ins rco outs where io: "SetupInputOutputIds (c_strict_dsl c) (pr_inputs (oc_processor p)) (v_input v) = (rci, ins)"
    "SetupInputOutputIds (c_strict_dsl c) (pr_outputs (oc_processor p)) (v_output v) = (rco, outs)"
    by fastforce
  have "rci = 0 \<and> rco = 0 \<and> vo_class x = Some p \<and> vo_inputs x = ins \<and> vo_outputs x = outs"
    using s io by (auto simp: Let_def split: if_splits prod.splits)
  with io Some show ?thesis by (simp add: set_up_def SetupInputOutputIds_entries)
qed

lemma SetupOperators_set_up: "SetupOperators c t f vs s = Ok (ops, s') \<Longrightarrow> list_all2 (set_up c t) vs ops"
  by (induction vs arbitrary: s ops) (auto simp: and_then_Ok_iff dest: SetupOperator_set_up)

lemma RegisterOperators_set_up:
  "registered_ok c \<Longrightarrow> RegisterOperators s xs c = Ok (ys, c') \<Longrightarrow> list_all2 (\<lambda>x y. \<forall>v. set_up cl t v x \<longrightarrow> set_up cl t v y) xs ys"
proof (induction xs arbitrary: c ys)
  case (Cons x xs)
  obtain ins c1 where 1: "register_inputs s (vo_inputs x) c = Ok (ins, c1)"
    and rest: "(let (outs, c2) = register_outputs (vo_outputs x) c1
      in and_then (RegisterOperators s xs c2) (\<lambda>(ys, c3). Ok (x\<lparr>vo_inputs := ins, vo_outputs := outs\<rparr> # ys, c3))) = Ok (ys, c')"
    using Cons.prems(2) by (auto simp: and_then_Ok_iff)
  obtain outs c2 where 2: "register_outputs (vo_outputs x) c1 = (outs, c2)" by fastforce
  obtain ys1 where 3: "RegisterOperators s xs c2 = Ok (ys1, c')" "ys = x\<lparr>vo_inputs := ins, vo_outputs := outs\<rparr> # ys1"
    using rest 2 by (auto simp: and_then_Ok_iff)
  note i = register_inputs_ok[OF Cons.prems(1) 1]
  note o2 = register_outputs_ok[OF i[THEN conjunct1] 2]
  have "set_up cl t v (x\<lparr>vo_inputs := ins, vo_outputs := outs\<rparr>)" if "set_up cl t v x" for v
    using that i o2 same_fields_entries[of "vo_inputs x" ins] same_fields_entries[of "vo_outputs x" outs]
    by (auto simp: set_up_def split: option.splits)
  with Cons.IH[OF o2[THEN conjunct1] 3(1)] 3(2) show ?case by simp
qed simp

lemma SetupData_set_up:
  assumes s: "SetupData c t f order vs = Ok (ops, ctx)" and o: "mset (order (length vs)) = mset [0..<length vs]"
    and i: "i < length vs"
  shows "set_up c t (vs ! (order (length vs) ! i)) (ops ! i)"
proof -
  let ?c0 = "ReserveChildCapacity (length (filter (\<lambda>v. v_cluster v \<noteq> []) vs)) new_data_ctx"
  obtain ops1 ids where 1: "SetupOperators c t f vs {} = Ok (ops1, ids)"
    and 2: "RegisterOperators ids (map ((!) ops1) (order (length vs))) ?c0 = Ok (ops, ctx)"
    using s by (auto simp: SetupData_def and_then_Ok_iff)
  have r0: "registered_ok ?c0" by (simp add: ReserveChildCapacity_def registered_ok_def new_data_ctx_def)
  have len: "length (order (length vs)) = length vs" using mset_eq_length[OF o] by simp
  have "order (length vs) ! i < length vs" using mset_eq_setD[OF o] i len nth_mem[of i "order (length vs)"] by auto
  then have "set_up c t (vs ! (order (length vs) ! i)) (ops1 ! (order (length vs) ! i))"
    using SetupOperators_set_up[OF 1] by (simp add: list_all2_conv_all_nth)
  then show ?thesis using RegisterOperators_set_up[OF r0 2, of c t] i len by (simp add: list_all2_conv_all_nth)
qed

text \<open>
  C13: A graph whose data are set up has no two outputs of the same name and type. A configured
  input that neither may come from outside nor is an aggregate has an output of some operator with its
  name and type as its source; for an aggregate, which has many names, the code makes no such check,
  and none is claimed. Every input whose field is neither external nor an aggregate and every output
  whose name is no variable has the index of its own name in the context of the graph. The \<open>i\<close>-th operator
  is that of the \<open>i\<close>-th vertex in the order of the table, with an entry for every field of its class,
  which carries what the vertex configures for the field.
\<close>
theorem SetupData_links:
  assumes "SetupData c t f order vs = Ok (ops, ctx)" and "mset (order (length vs)) = mset [0..<length vs]"
  shows "registered_ok ctx \<and> length ops = length vs \<and> distinct (concat (map output_keys ops))
    \<and> (\<forall>x \<in> set ops. \<forall>e \<in> set (vo_inputs x).
        (\<forall>d. fl_data e = Some d \<and> \<not> is_extern d \<and> aggregate d = [] \<longrightarrow>
          (\<exists>y \<in> set ops. \<exists>out \<in> set (vo_outputs y). data_key_of out = data_key_of e))
        \<and> (\<not> fi_is_extern (fl_info e) \<and> \<not> fi_is_aggregate (fl_info e) \<longrightarrow> indexed ctx e))
    \<and> (\<forall>x \<in> set ops. \<forall>e \<in> set (vo_outputs x). \<not> is_var (fi_name (fl_info e)) \<longrightarrow> indexed ctx e)
    \<and> (\<forall>i < length vs. set_up c t (vs ! (order (length vs) ! i)) (ops ! i))"
proof (intro conjI)
  note L = SetupData_linked[OF assms]
  show "registered_ok ctx" "length ops = length vs" "distinct (concat (map output_keys ops))" using L by simp_all
  have source: "\<exists>y \<in> set ops. \<exists>out \<in> set (vo_outputs y). data_key_of out = data_key_of e"
    if "x \<in> set ops" "e \<in> set (vo_inputs x)" "fl_data e = Some d" "\<not> is_extern d" "aggregate d = []" for x e d
  proof -
    have "\<not> needs_source (set (concat (map output_keys ops))) e"
      using L that(1,2) by (simp add: operator_linked_def input_linked_def)
    then have "data_key_of e \<in> set (concat (map output_keys ops))" using that(3-5) by (simp add: needs_source_def)
    then show ?thesis by (force simp: output_keys_def)
  qed
  then show "\<forall>x \<in> set ops. \<forall>e \<in> set (vo_inputs x).
        (\<forall>d. fl_data e = Some d \<and> \<not> is_extern d \<and> aggregate d = [] \<longrightarrow>
          (\<exists>y \<in> set ops. \<exists>out \<in> set (vo_outputs y). data_key_of out = data_key_of e))
        \<and> (\<not> fi_is_extern (fl_info e) \<and> \<not> fi_is_aggregate (fl_info e) \<longrightarrow> indexed ctx e)"
    using L by (simp add: operator_linked_def input_linked_def)
  show "\<forall>x \<in> set ops. \<forall>e \<in> set (vo_outputs x). \<not> is_var (fi_name (fl_info e)) \<longrightarrow> indexed ctx e"
    using L by (simp add: operator_linked_def output_linked_def)
  show "\<forall>i < length vs. set_up c t (vs ! (order (length vs) ! i)) (ops ! i)"
    using SetupData_set_up[OF assms] by blast
qed

definition demo_class :: "input_info list \<Rightarrow> output_info list \<Rightarrow> op_class" where
  "demo_class ins outs = \<lparr>oc_processor = \<lparr>pr_inputs = ins, pr_outputs = outs, pr_params = []\<rparr>,
     oc_setup = (\<lambda>_ st. (0, st)), oc_execute = (\<lambda>_ st. (0, st))\<rparr>"

definition demo_creators :: creators where
  "demo_creators = [(''a'', demo_class [] [fl_info (demo_output ''x'' 5)]), (''b'', demo_class [fl_info (demo_input ''x'' False)] [])]"

definition demo_vertices :: "vertex list" where
  "demo_vertices = [new_vertex\<lparr>v_processor := ''a''\<rparr>,
     new_vertex\<lparr>v_processor := ''b'', v_input := [new_graph_data\<lparr>d_id := ''x'', d_field := ''x''\<rparr>]\<rparr>]"

lemma demo_setup:
  "\<exists>ops ctx. SetupData new_cluster demo_creators (\<lambda>st. st) (\<lambda>n. rev [0..<n]) demo_vertices = Ok (ops, ctx)"
  by (simp add: SetupData_def demo_vertices_def demo_creators_def demo_class_def SetupOperator_def vertex_class_def
      GetProcessor_def SetupInputOutputIds_def FieldData_def bind_field_def demo_input_def demo_output_def Let_def
      new_vertex_def new_graph_data_def data_key_of_def register_entry_def needs_source_def RegisterData_def
      ReserveChildCapacity_def new_data_ctx_def is_var_def split: option.splits prod.splits)

text \<open>The table of the two vertices has the reader first; its input has the output of the other as its source.\<close>

theorem SetupData_links_witness:
  "\<exists>ops ctx e out y. SetupData new_cluster demo_creators (\<lambda>st. st) (\<lambda>n. rev [0..<n]) demo_vertices = Ok (ops, ctx)
     \<and> e \<in> set (vo_inputs (ops ! 0)) \<and> fl_name e = ''x'' \<and> y \<in> set ops \<and> out \<in> set (vo_outputs y) \<and> data_key_of out = data_key_of e"
proof -
  obtain ops ctx where s: "SetupData new_cluster demo_creators (\<lambda>st. st) (\<lambda>n. rev [0..<n]) demo_vertices = Ok (ops, ctx)"
    using demo_setup by blast
  have len: "length demo_vertices = 2" by (simp add: demo_vertices_def)
  have o: "mset (rev [0..<length demo_vertices]) = mset [0..<length demo_vertices]" by simp
  note L = SetupData_links[OF s o, unfolded len]
  have v: "demo_vertices ! (rev [0..<2] ! 0) = demo_vertices ! 1" by (simp add: upt_rec)
  have "set_up new_cluster demo_creators (demo_vertices ! 1) (ops ! 0)" using L v by force
  then obtain e where e: "e \<in> set (vo_inputs (ops ! 0))" "holds_item (v_input (demo_vertices ! 1)) ''x'' e"
    by (auto simp: set_up_def entries_of_def demo_vertices_def demo_creators_def vertex_class_def GetProcessor_def
        demo_class_def demo_input_def new_vertex_def new_graph_data_def)
  then have d: "\<exists>d. fl_data e = Some d \<and> \<not> is_extern d \<and> aggregate d = []" "fl_name e = ''x''"
    by (auto simp: holds_item_def demo_vertices_def new_vertex_def new_graph_data_def)
  have "ops ! 0 \<in> set ops" using L by (intro nth_mem) simp
  with L e(1) d(1) have "\<exists>y \<in> set ops. \<exists>out \<in> set (vo_outputs y). data_key_of out = data_key_of e" by blast
  with s e(1) d(2) show ?thesis by blast
qed

section \<open>The arguments of a run\<close>

text \<open>
  \<open>GetExecParams\<close>: the first selection whose condition holds, else the operator's own arguments;
  \<open>eval\<close> runs the expression operator of the selection at a position (0 is true), \<open>flag\<close> looks a
  setting up in the data of the graph.
\<close>

fun select_params :: "(nat \<Rightarrow> int) \<Rightarrow> (string \<Rightarrow> bool option) \<Rightarrow> (cond_params \<times> bool) list \<Rightarrow> nat \<Rightarrow> nat option" where
  "select_params eval flag [] k = None"
| "select_params eval flag ((s, has_p) # ss) k =
    (if IsCondExpr s \<and> has_p
     then if eval k = 0 then Some k else select_params eval flag ss (Suc k)
     else case flag (match s) of
            Some True \<Rightarrow> Some k
          | _ \<Rightarrow> select_params eval flag ss (Suc k))"

text \<open>
  The objects are in a heap: \<open>sel k\<close> is the address of the arguments of selection \<open>k\<close>, \<open>own\<close> that of the
  operator's, \<open>caller\<close> that of the parameters of the whole run.
\<close>

definition GetExecParams :: "(nat \<Rightarrow> int) \<Rightarrow> (string \<Rightarrow> bool option) \<Rightarrow> (cond_params \<times> bool) list
    \<Rightarrow> (nat \<Rightarrow> paddr) \<Rightarrow> paddr \<Rightarrow> paddr option \<Rightarrow> pheap \<Rightarrow> (paddr \<times> pheap) option" where
  "GetExecParams eval flag ss sel own caller h =
    (let p = (case select_params eval flag ss 0 of Some k \<Rightarrow> sel k | None \<Rightarrow> own)
     in case caller of
          Some q \<Rightarrow> map_option (\<lambda>h'. (p, h')) (SetParent h p (Some q))
        | None \<Rightarrow> Some (p, h))"

text \<open>The parents at the end of \<open>Setup\<close>: set for the selections that inherit, then cleared by \<open>Reset\<close>.\<close>

fun link_selects :: "paddr \<Rightarrow> (nat \<Rightarrow> paddr) \<Rightarrow> cond_params list \<Rightarrow> nat \<Rightarrow> pheap \<Rightarrow> pheap option" where
  "link_selects own sel [] k h = Some h"
| "link_selects own sel (s # ss) k h =
    Option.bind (if inherit_default s then SetParent h (sel k) (Some own) else Some h) (link_selects own sel ss (Suc k))"

fun unlink_selects :: "(nat \<Rightarrow> paddr) \<Rightarrow> nat \<Rightarrow> nat \<Rightarrow> pheap \<Rightarrow> pheap option" where
  "unlink_selects sel 0 k h = Some h"
| "unlink_selects sel (Suc n) k h = Option.bind (SetParent h (sel k) None) (unlink_selects sel n (Suc k))"

definition setup_parents :: "paddr \<Rightarrow> (nat \<Rightarrow> paddr) \<Rightarrow> cond_params list \<Rightarrow> pheap \<Rightarrow> pheap option" where
  "setup_parents own sel ss h =
    Option.bind (link_selects own sel ss 0 h) (\<lambda>h1.
    Option.bind (unlink_selects sel (length ss) 0 h1) (\<lambda>h2. SetParent h2 own None))"

end
