(* ===== verification/Cluster.thy ===== *)
theory Cluster
  imports Builder
begin

text \<open>
  A cluster of graphs (\<open>GraphCluster\<close> of \<open>graph/graph.{h,cpp}\<close>): \<open>Build\<close> splits the vertices with
  a \<open>while\<close> condition off into graphs of their own, builds for every name the graph with the
  highest priority, and completes the configuration settings.

  \<open>_graphs\<close> points into the vector of graphs: an entry is an index of it.
\<close>

section \<open>Graphs for while vertices\<close>

text \<open>
  The condition vertex and the body of the generated graph, and what is left of the vertex: it
  runs the generated graph.
\<close>

definition while_cond_vertex :: "cluster \<Rightarrow> vertex \<Rightarrow> vertex" where
  "while_cond_vertex c v =
    (if isCondString (v_while_cond v)
     then new_vertex\<lparr>v_id := ''0'', v_processor := c_default_expr_processor c, v_cond := v_while_cond v,
            v_consequent := [''1'']\<rparr>
     else new_vertex\<lparr>v_id := ''0'', v_processor := v_while_cond v, v_consequent := [''1'']\<rparr>)"

definition while_body_vertex :: "vertex \<Rightarrow> vertex" where
  "while_body_vertex v = new_vertex\<lparr>v_id := ''1'', v_processor := v_processor v,
     v_cluster := v_cluster v, v_graph := v_graph v\<rparr>"

definition while_graph :: "cluster \<Rightarrow> graph \<Rightarrow> nat \<Rightarrow> vertex \<Rightarrow> graph" where
  "while_graph c f idx v = new_graph\<lparr>g_name := g_name f @ ''_while_'' @ to_string idx,
     g_vertex := [while_cond_vertex c v, while_body_vertex v], g_is_gen_while_graph := True\<rparr>"

definition run_while_graph :: "cluster \<Rightarrow> graph \<Rightarrow> vertex \<Rightarrow> vertex" where
  "run_while_graph c gen v = v\<lparr>v_processor := [], v_cluster := c_file_name c, v_graph := g_name gen,
     v_while_cond := []\<rparr>"

text \<open>
  The loop over the vertices of \<open>f\<close>. The generated graphs go to the vector that the enclosing loop
  is iterating: a vector without room for one more moves to another place, so that \<open>f\<close> and the
  iterators refer to freed memory (\<open>None\<close>); \<open>room\<close> is what is left of its capacity.
\<close>

fun split_whiles :: "cluster \<Rightarrow> graph \<Rightarrow> nat \<Rightarrow> nat \<Rightarrow> vertex list \<Rightarrow> (vertex list \<times> graph list) option" where
  "split_whiles c f room idx [] = Some ([], [])"
| "split_whiles c f room idx (v # vs) =
    (if v_while_cond v = [] then map_option (\<lambda>(vs', gs). (v # vs', gs)) (split_whiles c f room idx vs)
     else if room = 0 then None
     else let gen = while_graph c f idx v
          in map_option (\<lambda>(vs', gs). (run_while_graph c gen v # vs', gen # gs))
               (split_whiles c f (room - 1) (idx + 1) vs))"

fun gen_while_subgraphs :: "cluster \<Rightarrow> nat \<Rightarrow> graph list \<Rightarrow> (graph list \<times> graph list) option" where
  "gen_while_subgraphs c room [] = Some ([], [])"
| "gen_while_subgraphs c room (f # fs) =
    (if \<not> g_gen_while_subgraph f
     then map_option (\<lambda>(fs', gs). (f # fs', gs)) (gen_while_subgraphs c room fs)
     else Option.bind (split_whiles c f room 0 (g_vertex f)) (\<lambda>(vs, gs).
          map_option (\<lambda>(fs', gs'). (f\<lparr>g_vertex := vs\<rparr> # fs', gs @ gs'))
            (gen_while_subgraphs c (room - length gs) fs)))"

section \<open>Build\<close>

definition FindGraphByName :: "cluster \<Rightarrow> string \<Rightarrow> graph option" where
  "FindGraphByName c name = map_option (\<lambda>i. c_graph c ! i) (map_of (c_graphs c) name)"

definition Exists :: "cluster \<Rightarrow> string \<Rightarrow> bool" where
  "Exists c name = (FindGraphByName c name \<noteq> None)"

text \<open>The body of the loop that builds the graphs, for the graph at index \<open>i\<close>.\<close>

definition build_graph_at :: "factory \<Rightarrow> nat \<Rightarrow> cluster \<Rightarrow> (build_error, cluster) outcome" where
  "build_graph_at F i c =
    (let f = c_graph c ! i
     in if (case FindGraphByName c (g_name f) of None \<Rightarrow> False | Some e \<Rightarrow> g_priority f \<le> g_priority e)
        then Ok c
        else let c1 = c\<lparr>c_graphs := AList.update (g_name f) i (c_graphs c)\<rparr>
             in and_then (GraphBuild c1 F f) (\<lambda>f'. Ok (c1\<lparr>c_graph := (c_graph c1)[i := f']\<rparr>)))"

fun complete_settings :: "string \<Rightarrow> config_setting list \<Rightarrow> (build_error, config_setting list) outcome" where
  "complete_settings p [] = Ok []"
| "complete_settings p (cfg # cfgs) =
    (if cs_processor cfg = []
     then if p = [] then Err EmptyDefaultExprProcessor
          else and_then (complete_settings p cfgs) (\<lambda>r. Ok (cfg\<lparr>cs_processor := p\<rparr> # r))
     else and_then (complete_settings p cfgs) (\<lambda>r. Ok (cfg # r)))"

definition ClusterBuild :: "factory \<Rightarrow> nat \<Rightarrow> cluster \<Rightarrow> (build_error, cluster) outcome" where
  "ClusterBuild F capacity c =
    (if c_builded c then Ok c
     else case gen_while_subgraphs c (capacity - length (c_graph c)) (c_graph c) of
       None \<Rightarrow> Crash
     | Some (fs, gs) \<Rightarrow>
         let c1 = c\<lparr>c_graph := fs @ gs\<rparr>
         in and_then (for_each [0..<length (c_graph c1)] (build_graph_at F) c1) (\<lambda>c2.
            and_then (complete_settings (c_default_expr_processor c2) (c_config_setting c2)) (\<lambda>cfgs.
            Ok (c2\<lparr>c_config_setting := cfgs, c_builded := True\<rparr>))))"

section \<open>What building a graph keeps\<close>

definition head_of :: "graph \<Rightarrow> string \<times> int \<times> bool" where
  "head_of g = (g_name g, g_priority g, g_is_gen_while_graph g)"

lemma head_modify [simp]: "head_of (modify p f g) = head_of g"
  by (cases p) (simp_all add: modify_def head_of_def)

lemma head_fields [simp]:
  "head_of (g\<lparr>g_nodes := n\<rparr>) = head_of g" "head_of (g\<lparr>g_gen_vertex := vs\<rparr>) = head_of g"
  "head_of (g\<lparr>g_data_mapping_table := t\<rparr>) = head_of g" "head_of (g\<lparr>g_idx := k\<rparr>) = head_of g"
  by (simp_all add: head_of_def)

lemma head_assign: "head_of (assign_cluster c p (assign_id p (assign_processor c p g))) = head_of g"
  by (simp add: assign_cluster_def assign_id_def assign_processor_def generateNodeId_def Let_def)

lemma head_link_expect: "link_expect c p (g, gen) = (g', gen') \<Longrightarrow> head_of g' = head_of g"
  by (auto simp: link_expect_def geneatedCondVertex_def generateNodeId_def Let_def split: if_splits option.splits)

lemma head_prepare_vertex: "prepare_vertex c F p (g, gen) = Ok (g', gen') \<Longrightarrow> head_of g' = head_of g"
proof -
  let ?g1 = "assign_cluster c p (assign_id p (assign_processor c p g))"
  assume run: "prepare_vertex c F p (g, gen) = Ok (g', gen')"
  obtain g2 gen2 where l: "link_expect c p (?g1, gen) = (g2, gen2)" by fastforce
  from run l obtain g3 g4 where "register_node p g2 = Ok g3" "fill_fields c F p g3 = Ok g4" "name_data p g4 = Ok g'"
    by (auto simp: prepare_vertex_def Let_def and_then_Ok_iff split: option.splits)
  then have "head_of g' = head_of g2"
    by (auto simp: register_node_def fill_fields_def name_data_def Let_def and_then_Ok_iff
        split: if_splits option.splits prod.splits)
  with head_link_expect[OF l] head_assign show ?thesis by simp
qed

lemma head_Depend [simp]: "head_of (Depend a b e g) = head_of g"
  by (simp add: Depend_def Let_def)

lemma head_loop:
  assumes "for_each xs f g = Ok g'" "\<And>x g g'. f x g = Ok g' \<Longrightarrow> head_of g' = head_of g"
  shows "head_of g' = head_of g"
  using assms(1) by (rule for_each_invariant) (auto simp: assms(2))

lemma head_BuildDeps: "BuildDeps p e ds g = Ok g' \<Longrightarrow> head_of g' = head_of g"
  unfolding BuildDeps_def by (erule head_loop) (auto split: option.splits)

lemma head_BuildSuccessors: "BuildSuccessors p e ds g = Ok g' \<Longrightarrow> head_of g' = head_of g"
  unfolding BuildSuccessors_def by (erule head_loop) (auto split: option.splits)

lemma head_data_dep: "data_dep p d b i g = Ok g' \<Longrightarrow> head_of g' = head_of g"
  by (auto simp: data_dep_def split: option.splits if_splits)

lemma head_build_input: "build_input p d g = Ok g' \<Longrightarrow> head_of g' = head_of g"
  unfolding build_input_def by (auto split: if_splits dest: head_data_dep elim: head_loop)

lemma head_BuildVertex: "BuildVertex c p g = Ok g' \<Longrightarrow> head_of g' = head_of g"
  unfolding BuildVertex_def Let_def
  by (auto simp: and_then_Ok_iff split: if_splits option.splits
      dest!: head_BuildDeps head_BuildSuccessors head_loop[OF _ head_build_input])

lemma head_verify_all: "verify_all ps g = Ok g' \<Longrightarrow> head_of g' = head_of g"
  unfolding verify_all_def by (erule head_loop) (auto split: if_splits)

lemma head_GraphBuild:
  assumes "GraphBuild c F g = Ok g'"
  shows "head_of g' = head_of g"
proof -
  from assms obtain s g1 g2 g3 g4 where run:
    "for_each (vertex_refs g) (prepare_vertex c F) (g, Map.empty) = Ok s"
    "for_each (vertex_refs (mark_single (fst s))) (BuildVertex c) (mark_single (fst s)) = Ok g1"
    "for_each (gen_refs g1) (BuildVertex c) g1 = Ok g2"
    "verify_all (vertex_refs g2) g2 = Ok g3" "verify_all (gen_refs g3) g3 = Ok g4" "finish_build g4 = Ok g'"
    by (force simp: GraphBuild_def build_edges_def and_then_Ok_iff)
  have "head_of (fst s) = head_of g"
    using run(1) by (rule for_each_invariant) (auto dest: head_prepare_vertex)
  moreover have "head_of (mark_single (fst s)) = head_of (fst s)" by (simp add: mark_single_def)
  moreover have "head_of g' = head_of g4"
    using run(6) by (auto simp: finish_build_def split: option.splits if_splits)
  ultimately show ?thesis
    using head_loop[OF run(2) head_BuildVertex] head_loop[OF run(3) head_BuildVertex]
      head_verify_all[OF run(4)] head_verify_all[OF run(5)] by simp
qed

section \<open>Which graph has the name\<close>

definition preferred :: "cluster \<Rightarrow> nat \<Rightarrow> nat \<Rightarrow> bool" where
  "preferred c n k = (k < n \<and> (\<forall>j < n. g_name (c_graph c ! j) = g_name (c_graph c ! k) \<longrightarrow>
     g_priority (c_graph c ! j) \<le> g_priority (c_graph c ! k)
     \<and> (j < k \<longrightarrow> g_priority (c_graph c ! j) < g_priority (c_graph c ! k))))"

definition entry_ok :: "factory \<Rightarrow> cluster \<Rightarrow> nat \<Rightarrow> string \<Rightarrow> bool" where
  "entry_ok F c n name =
    (case map_of (c_graphs c) name of
       None \<Rightarrow> \<forall>j < n. g_name (c_graph c ! j) \<noteq> name
     | Some k \<Rightarrow> g_name (c_graph c ! k) = name \<and> preferred c n k
         \<and> (\<exists>c1 f. GraphBuild c1 F f = Ok (c_graph c ! k)))"

definition table_inv :: "factory \<Rightarrow> graph list \<Rightarrow> nat \<Rightarrow> cluster \<Rightarrow> bool" where
  "table_inv F gs n c = (length (c_graph c) = length gs
     \<and> (\<forall>j < length gs. head_of (c_graph c ! j) = head_of (gs ! j))
     \<and> (\<forall>name. entry_ok F c n name))"

lemma same_heads:
  "head_of g = head_of g' \<Longrightarrow> g_name g = g_name g' \<and> g_priority g = g_priority g'"
  by (simp add: head_of_def)

lemma build_graph_at_inv:
  assumes inv: "table_inv F gs i c" and i: "i < length gs" and run: "build_graph_at F i c = Ok c'"
  shows "table_inv F gs (Suc i) c'"
proof -
  let ?f = "c_graph c ! i"
  have len: "length (c_graph c) = length gs" using inv by (simp add: table_inv_def)
  have entry: "entry_ok F c i name" for name using inv unfolding table_inv_def by blast
  show ?thesis
  proof (cases "case FindGraphByName c (g_name ?f) of None \<Rightarrow> False | Some e \<Rightarrow> g_priority ?f \<le> g_priority e")
    case True
    then obtain k where k: "map_of (c_graphs c) (g_name ?f) = Some k" "g_priority ?f \<le> g_priority (c_graph c ! k)"
      by (auto simp: FindGraphByName_def split: option.splits)
    from run True have c': "c' = c" by (simp add: build_graph_at_def)
    have "entry_ok F c (Suc i) name" for name
      using entry[of name] k
      by (cases "map_of (c_graphs c) name") (auto simp: entry_ok_def preferred_def less_Suc_eq)
    with inv show ?thesis by (simp add: table_inv_def c')
  next
    case False
    define c1 where "c1 = c\<lparr>c_graphs := AList.update (g_name ?f) i (c_graphs c)\<rparr>"
    from run False obtain f' where f': "GraphBuild c1 F ?f = Ok f'" and c': "c' = c1\<lparr>c_graph := (c_graph c)[i := f']\<rparr>"
      by (auto simp: build_graph_at_def c1_def and_then_Ok_iff Let_def)
    have hf: "head_of f' = head_of ?f" by (rule head_GraphBuild[OF f'])
    have heads: "head_of (c_graph c' ! j) = head_of (c_graph c ! j)" for j
      using hf len i by (cases "j = i") (simp_all add: c')
    note np = same_heads[OF heads]
    have tbl: "map_of (c_graphs c') = (map_of (c_graphs c))(g_name ?f \<mapsto> i)"
      by (simp add: c' c1_def map_of_update)
    have here: "c_graph c' ! i = f'" using len i by (simp add: c')
    have "entry_ok F c' (Suc i) name" for name
    proof (cases "name = g_name ?f")
      case name: True
      have "g_priority (c_graph c ! j) < g_priority ?f" if "j < i" "g_name (c_graph c ! j) = g_name ?f" for j
      proof (cases "map_of (c_graphs c) (g_name ?f)")
        case None
        with entry[of "g_name ?f"] that show ?thesis by (auto simp: entry_ok_def)
      next
        case (Some k)
        with False have "g_priority (c_graph c ! k) < g_priority ?f" by (simp add: FindGraphByName_def)
        moreover have "g_priority (c_graph c ! j) \<le> g_priority (c_graph c ! k)"
          using entry[of "g_name ?f"] Some that by (auto simp: entry_ok_def preferred_def)
        ultimately show ?thesis by simp
      qed
      then have "preferred c' (Suc i) i" using np by (auto simp: preferred_def less_Suc_eq order_less_imp_le)
      with name tbl f' here np show ?thesis by (auto simp: entry_ok_def)
    next
      case name: False
      then show ?thesis
      proof (cases "map_of (c_graphs c) name")
        case None
        with name entry[of name] np show ?thesis by (auto simp: entry_ok_def tbl less_Suc_eq)
      next
        case (Some k)
        with entry[of name] have e: "g_name (c_graph c ! k) = name" "preferred c i k"
          "\<exists>c1 f. GraphBuild c1 F f = Ok (c_graph c ! k)" by (simp_all add: entry_ok_def)
        then have "k \<noteq> i" by (simp add: preferred_def)
        then have "c_graph c' ! k = c_graph c ! k" by (simp add: c')
        with e name Some np show ?thesis by (auto simp: entry_ok_def tbl preferred_def less_Suc_eq)
      qed
    qed
    moreover have "length (c_graph c') = length gs" using len by (simp add: c')
    ultimately show ?thesis using inv heads by (simp add: table_inv_def)
  qed
qed

lemma ClusterBuild_graphs:
  assumes "ClusterBuild F capacity c = Ok c'" "\<not> c_builded c" "c_graphs c = []"
  shows "entry_ok F c' (length (c_graph c')) name"
proof -
  from assms(1,2) obtain fs gs c2 where
    run: "for_each [0..<length (fs @ gs)] (build_graph_at F) (c\<lparr>c_graph := fs @ gs\<rparr>) = Ok c2"
    and c': "c_graph c' = c_graph c2" "c_graphs c' = c_graphs c2"
    by (auto simp: ClusterBuild_def and_then_Ok_iff Let_def split: option.splits)
  have "table_inv F (fs @ gs) (length (fs @ gs)) c2"
    using run
  proof (rule for_each_upt_invariant[where P = "table_inv F (fs @ gs)"])
    show "table_inv F (fs @ gs) 0 (c\<lparr>c_graph := fs @ gs\<rparr>)" using assms(3) by (simp add: table_inv_def entry_ok_def)
  qed (rule build_graph_at_inv)
  then have "length (fs @ gs) = length (c_graph c2)" "entry_ok F c2 (length (fs @ gs)) name"
    unfolding table_inv_def by simp_all
  then have "entry_ok F c2 (length (c_graph c2)) name" by (simp only:)
  then show ?thesis unfolding entry_ok_def preferred_def c' .
qed

section \<open>Properties\<close>

text \<open>
  C37: after \<open>GraphCluster::Build\<close> a name finds a graph exactly if some graph has it; the graph
  found was built successfully and has the highest priority among those with the name, and it is
  the first of these.
\<close>

theorem ClusterBuild_priority:
  assumes "ClusterBuild F capacity c = Ok c'" and "\<not> c_builded c" and "c_graphs c = []"
  shows "case FindGraphByName c' name of
      None \<Rightarrow> name \<notin> g_name ` set (c_graph c')
    | Some g \<Rightarrow> \<exists>k < length (c_graph c'). g = c_graph c' ! k \<and> g_name g = name
        \<and> (\<exists>c1 f. GraphBuild c1 F f = Ok g)
        \<and> (\<forall>j < length (c_graph c'). g_name (c_graph c' ! j) = name \<longrightarrow>
            g_priority (c_graph c' ! j) \<le> g_priority g
            \<and> (j < k \<longrightarrow> g_priority (c_graph c' ! j) < g_priority g))"
proof (cases "map_of (c_graphs c') name")
  case None
  with ClusterBuild_graphs[OF assms, of name] show ?thesis
    by (auto simp: entry_ok_def FindGraphByName_def in_set_conv_nth)
next
  case (Some k)
  with ClusterBuild_graphs[OF assms, of name] show ?thesis
    by (auto simp: entry_ok_def FindGraphByName_def preferred_def intro!: exI[of _ k])
qed

text \<open>Two graphs of one name, of which the second has the higher priority.\<close>

definition two_graphs :: cluster where
  "two_graphs = example_cluster\<lparr>c_graph := [example_graph\<lparr>g_priority := 1\<rparr>, example_graph\<lparr>g_priority := 2\<rparr>]\<rparr>"

definition found_priority :: "(build_error, cluster) outcome \<Rightarrow> int option" where
  "found_priority r = (case r of Ok c \<Rightarrow> map_option g_priority (FindGraphByName c ''g'') | _ \<Rightarrow> None)"

lemma two_graphs_built: "found_priority (ClusterBuild example_factory 2 two_graphs) = Some 2"
  by code_simp

theorem ClusterBuild_priority_witness:
  "\<exists>c g. ClusterBuild example_factory 2 two_graphs = Ok c \<and> FindGraphByName c ''g'' = Some g \<and> g_priority g = 2
     \<and> (\<exists>c1 f. GraphBuild c1 example_factory f = Ok g)"
proof -
  obtain c g where c: "ClusterBuild example_factory 2 two_graphs = Ok c" "FindGraphByName c ''g'' = Some g"
    "g_priority g = 2"
    using two_graphs_built by (auto simp: found_priority_def split: outcome.splits)
  have "\<not> c_builded two_graphs" "c_graphs two_graphs = []"
    by (simp_all add: two_graphs_def example_cluster_def new_cluster_def)
  from ClusterBuild_priority[OF c(1) this, of "''g''"] c show ?thesis by auto
qed

lemma split_whiles_result:
  "split_whiles c f room idx vs = Some (vs', gs) \<Longrightarrow>
     length vs' = length vs \<and> (\<forall>v \<in> set vs'. v_while_cond v = [])
     \<and> length gs = length (filter (\<lambda>v. v_while_cond v \<noteq> []) vs) \<and> length gs \<le> room
     \<and> (\<forall>g \<in> set gs. g_is_gen_while_graph g \<and> (\<exists>i. g_name g = g_name f @ ''_while_'' @ to_string i)
        \<and> (\<exists>v \<in> set vs. g_vertex g = [while_cond_vertex c v, while_body_vertex v]))"
proof (induction c f room idx vs arbitrary: vs' gs rule: split_whiles.induct)
  case (2 c f room idx v vs)
  show ?case
  proof (cases "v_while_cond v = []")
    case True
    with 2(3) obtain ws where w: "split_whiles c f room idx vs = Some (ws, gs)" "vs' = v # ws" by auto
    with 2(1)[OF True w(1)] True show ?thesis by auto
  next
    case False
    with 2(3) obtain ws hs where w: "room \<noteq> 0" "split_whiles c f (room - 1) (idx + 1) vs = Some (ws, hs)"
      "vs' = run_while_graph c (while_graph c f idx v) v # ws" "gs = while_graph c f idx v # hs"
      by (auto simp: Let_def split: if_splits)
    note IH = 2(2)[OF False w(1) refl w(2)]
    have new: "g_is_gen_while_graph (while_graph c f idx v)"
      "g_name (while_graph c f idx v) = g_name f @ ''_while_'' @ to_string idx"
      "g_vertex (while_graph c f idx v) = [while_cond_vertex c v, while_body_vertex v]"
      "v_while_cond (run_while_graph c (while_graph c f idx v) v) = []"
      by (simp_all add: while_graph_def run_while_graph_def)
    have "length gs \<le> room" using IH w(1,4) by auto
    moreover have "\<forall>g \<in> set gs. g_is_gen_while_graph g \<and> (\<exists>i. g_name g = g_name f @ ''_while_'' @ to_string i)
        \<and> (\<exists>u \<in> set (v # vs). g_vertex g = [while_cond_vertex c u, while_body_vertex u])"
      using IH new(1-3) unfolding w(4) by (metis list.set_intros set_ConsD)
    ultimately show ?thesis using IH new(4) False unfolding w(3) by (auto simp: w(4))
  qed
qed simp

text \<open>
  Splitting the \<open>while\<close> vertices leaves none in a graph that asks for it, changes no other
  graph, and makes for each of them one graph of a condition and a body, in which the body
  depends on the success of the condition.
\<close>

theorem gen_while_subgraphs_splits:
  assumes "gen_while_subgraphs c room fs = Some (fs', gs)"
  shows "list_all2 (\<lambda>f f'. if g_gen_while_subgraph f
        then g_name f' = g_name f \<and> length (g_vertex f') = length (g_vertex f) \<and> (\<forall>v \<in> set (g_vertex f'). v_while_cond v = [])
        else f' = f) fs fs'
    \<and> length gs = sum_list (map (\<lambda>f. if g_gen_while_subgraph f
          then length (filter (\<lambda>v. v_while_cond v \<noteq> []) (g_vertex f)) else 0) fs)
    \<and> (\<forall>g \<in> set gs. g_is_gen_while_graph g
        \<and> (\<exists>v. g_vertex g = [while_cond_vertex c v, while_body_vertex v]
            \<and> v_consequent (while_cond_vertex c v) = [v_id (while_body_vertex v)]))"
  using assms
proof (induction c room fs arbitrary: fs' gs rule: gen_while_subgraphs.induct)
  case (2 c room f fs)
  have consequent: "v_consequent (while_cond_vertex c v) = [v_id (while_body_vertex v)]" for v
    by (simp add: while_cond_vertex_def while_body_vertex_def)
  show ?case
  proof (cases "g_gen_while_subgraph f")
    case False
    with 2(3) obtain es where "gen_while_subgraphs c room fs = Some (es, gs)" "fs' = f # es" by auto
    with 2(1)[OF False] False show ?thesis by simp
  next
    case True
    with 2(3) obtain vs hs es hs' where s: "split_whiles c f room 0 (g_vertex f) = Some (vs, hs)"
      "gen_while_subgraphs c (room - length hs) fs = Some (es, hs')"
      "fs' = f\<lparr>g_vertex := vs\<rparr> # es" "gs = hs @ hs'"
      by (auto simp: bind_eq_Some_conv)
    have "\<not> \<not> g_gen_while_subgraph f" using True by simp
    note IH = 2(2)[OF this s(1) refl s(2)]
    note w = split_whiles_result[OF s(1)]
    show ?thesis
    proof (intro conjI)
      show "\<forall>g \<in> set gs. g_is_gen_while_graph g
        \<and> (\<exists>v. g_vertex g = [while_cond_vertex c v, while_body_vertex v]
            \<and> v_consequent (while_cond_vertex c v) = [v_id (while_body_vertex v)])"
        using IH w consequent unfolding s(4) set_append by (metis UnE)
    qed (use IH w True in \<open>simp_all add: s(3,4)\<close>)
  qed
qed simp

definition while_count :: "graph list \<Rightarrow> nat" where
  "while_count fs = sum_list (map (\<lambda>f. if g_gen_while_subgraph f
     then length (filter (\<lambda>v. v_while_cond v \<noteq> []) (g_vertex f)) else 0) fs)"

lemma split_whiles_None:
  "split_whiles c f room idx vs = None \<longleftrightarrow> room < length (filter (\<lambda>v. v_while_cond v \<noteq> []) vs)"
  by (induction c f room idx vs rule: split_whiles.induct) (auto simp: Let_def)

text \<open>
  The splitting is undefined exactly when the vector has less room than there are \<open>while\<close>
  vertices in the graphs that ask for it: the next one moves the vector that both loops iterate.
  A vector that is full, as one grown by \<open>emplace_back\<close> often is, has no room for the first.
\<close>

theorem gen_while_subgraphs_undefined:
  "gen_while_subgraphs c room fs = None \<longleftrightarrow> room < while_count fs"
proof (induction c room fs rule: gen_while_subgraphs.induct)
  case (2 c room f fs)
  let ?n = "length (filter (\<lambda>v. v_while_cond v \<noteq> []) (g_vertex f))"
  show ?case
  proof (cases "g_gen_while_subgraph f")
    case False
    with 2(1) show ?thesis by (simp add: while_count_def)
  next
    case True
    then have t: "\<not> \<not> g_gen_while_subgraph f" by simp
    show ?thesis
    proof (cases "split_whiles c f room 0 (g_vertex f)")
      case None
      with True split_whiles_None[of c f room 0 "g_vertex f"] show ?thesis by (simp add: while_count_def)
    next
      case (Some r)
      then obtain vs gs where s: "split_whiles c f room 0 (g_vertex f) = Some (vs, gs)" by (cases r) simp
      note w = split_whiles_result[OF s]
      have "gen_while_subgraphs c (room - length gs) fs = None \<longleftrightarrow> room - length gs < while_count fs"
        using 2(2)[OF t s refl] .
      with True s w show ?thesis by (auto simp: while_count_def)
    qed
  qed
qed (simp add: while_count_def)

text \<open>An example with room for one generated graph.\<close>

definition while_config :: graph where
  "while_config = new_graph\<lparr>g_name := ''g'', g_gen_while_subgraph := True,
     g_vertex := [new_vertex\<lparr>v_id := ''a'', v_processor := ''op'', v_while_cond := ''more'', v_is_start := True\<rparr>]\<rparr>"

theorem gen_while_subgraphs_splits_witness:
  "\<exists>fs gs. gen_while_subgraphs example_cluster 1 [while_config] = Some (fs, gs) \<and> length gs = 1"
proof -
  have "gen_while_subgraphs example_cluster 1 [while_config] \<noteq> None"
    unfolding gen_while_subgraphs_undefined by (simp add: while_count_def while_config_def)
  then obtain fs gs where s: "gen_while_subgraphs example_cluster 1 [while_config] = Some (fs, gs)" by auto
  from gen_while_subgraphs_splits[OF s] have "length gs = 1" by (simp add: while_config_def)
  with s show ?thesis by blast
qed

text \<open>
  The settings that \<open>GraphCluster::Build\<close> leaves all have an operator; it fails when one has
  none and the cluster has no default.
\<close>

theorem complete_settings_complete:
  "case complete_settings p cfgs of
      Ok r \<Rightarrow> map cs_name r = map cs_name cfgs \<and> map cs_cond r = map cs_cond cfgs
        \<and> map cs_processor r = map (\<lambda>c. if cs_processor c = [] then p else cs_processor c) cfgs
        \<and> [] \<notin> cs_processor ` set r
    | Err e \<Rightarrow> e = EmptyDefaultExprProcessor \<and> p = [] \<and> [] \<in> cs_processor ` set cfgs
    | Crash \<Rightarrow> False"
proof (induction p cfgs rule: complete_settings.induct)
  case (2 p cfg cfgs)
  show ?case
  proof (cases "cs_processor cfg = [] \<and> p = []")
    case False
    with 2 show ?thesis by (cases "complete_settings p cfgs") (auto split: if_splits)
  qed simp
qed simp

end
