(* ===== verification/ClusterContext.thy ===== *)
theory ClusterContext
  imports GraphData Cluster
begin

text \<open>
  A cluster prepared for one run at a time (\<open>GraphClusterContext\<close> of
  \<open>store/cluster_context.{h,cpp}\<close>): the operators of its configuration settings, one graph context per
  graph, the graph that is running. A graph context is named by the address of its data context.
\<close>

record setting_ctx =
  sc_class :: op_class
  sc_state :: op_state
  sc_result :: bool

record cluster_ctx =
  cc_cluster :: cluster
  cc_settings :: "setting_ctx list"
  cc_graph_table :: "(string \<times> caddr) list"
  cc_running_graph :: "(string \<times> caddr) option"
  cc_last_running_graph :: "(string \<times> caddr) option"
  cc_extern_data :: "caddr option"
  cc_exec_params :: "params option"
  cc_end_ustime :: "64 word"

definition new_cluster_ctx :: "cluster \<Rightarrow> cluster_ctx" where
  "new_cluster_ctx c = \<lparr>cc_cluster = c, cc_settings = [], cc_graph_table = [], cc_running_graph = None,
     cc_last_running_graph = None, cc_extern_data = None, cc_exec_params = None, cc_end_ustime = 0\<rparr>"

definition SetEndTime :: "64 word \<Rightarrow> cluster_ctx \<Rightarrow> cluster_ctx" where
  "SetEndTime end_ustime k = k\<lparr>cc_end_ustime := end_ustime\<rparr>"

section \<open>Setup\<close>

fun setup_settings :: "bool \<Rightarrow> creators \<Rightarrow> config_setting list \<Rightarrow> (setup_error, setting_ctx list) outcome" where
  "setup_settings strict t [] = Ok []"
| "setup_settings strict t (cfg # cfgs) =
    (case GetProcessor t (cs_processor cfg) of
       None \<Rightarrow> if strict then Err (NoProcessor (cs_processor cfg)) else setup_settings strict t cfgs
     | Some p \<Rightarrow>
         let (rc, st) = oc_setup p (SetString (cs_cond cfg) (new_params False)) (new_op (oc_processor p))
         in if rc \<noteq> 0 then Err ExprSetupFailed
            else and_then (setup_settings strict t cfgs) (\<lambda>r. Ok (\<lparr>sc_class = p, sc_state = st, sc_result = False\<rparr> # r)))"

text \<open>
  \<open>setup_graph\<close> is \<open>GraphContext::Setup\<close> of one graph; it leaves the data context of the graph in a
  fresh cell, so that the address of a graph is the position of its data.
\<close>

fun setup_graphs :: "(graph \<Rightarrow> (setup_error, data_ctx) outcome) \<Rightarrow> cluster \<Rightarrow> (string \<times> nat) list \<Rightarrow> data_ctx list
    \<Rightarrow> (setup_error, (string \<times> caddr) list \<times> data_ctx list) outcome" where
  "setup_graphs f c [] cs = Ok ([], cs)"
| "setup_graphs f c ((n, i) # gs) cs =
    and_then (f (c_graph c ! i)) (\<lambda>d.
    and_then (setup_graphs f c gs (cs @ [d])) (\<lambda>(t, cs'). Ok (AList.update (g_name (c_graph c ! i)) (length cs) t, cs')))"

definition SetupCluster :: "creators \<Rightarrow> (graph \<Rightarrow> (setup_error, data_ctx) outcome) \<Rightarrow> cluster \<Rightarrow> data_ctx list
    \<Rightarrow> (setup_error, cluster_ctx \<times> data_ctx list) outcome" where
  "SetupCluster t f c cs =
    and_then (setup_settings (c_strict_dsl c) t (c_config_setting c)) (\<lambda>settings.
    and_then (setup_graphs f c (c_graphs c) cs) (\<lambda>(table, cs').
      Ok ((new_cluster_ctx c)\<lparr>cc_settings := settings, cc_graph_table := table\<rparr>, cs')))"

section \<open>Running a graph\<close>

definition modify_data :: "caddr \<Rightarrow> (data_ctx \<Rightarrow> data_ctx) \<Rightarrow> data_ctx list \<Rightarrow> data_ctx list" where
  "modify_data a f cs = cs[a := f (cs ! a)]"

definition SetParentCtx :: "caddr option \<Rightarrow> data_ctx \<Rightarrow> data_ctx" where
  "SetParentCtx p c = c\<lparr>dc_parent := p\<rparr>"

text \<open>\<open>GetRunGraph\<close>; a graph is given by its name and the address of its data. The caller's context is set before.\<close>

definition GetRunGraph :: "string \<Rightarrow> cluster_ctx \<times> data_ctx list
    \<Rightarrow> (string \<times> caddr) option \<times> cluster_ctx \<times> data_ctx list" where
  "GetRunGraph name s =
    (let (k, cs) = s;
         start = (\<lambda>g k'. let k1 = k'\<lparr>cc_running_graph := Some g\<rparr>;
                             e = the (cc_extern_data k1);
                             cs1 = modify_data (snd g) (SetParentCtx (cc_extern_data k1)) cs
                         in (Some g, k1, modify_data e (SetChild (Some (snd g)) 0) cs1))
     in case cc_running_graph k of
          Some g \<Rightarrow> (Some g, k, cs)
        | None \<Rightarrow>
            (case cc_last_running_graph k of
               Some g \<Rightarrow> if fst g = name then start g k
                 else (case map_of (cc_graph_table k) name of
                         None \<Rightarrow> (None, k, cs)
                       | Some a \<Rightarrow> start (name, a) (k\<lparr>cc_last_running_graph := Some (name, a)\<rparr>))
             | None \<Rightarrow>
                 (case map_of (cc_graph_table k) name of
                    None \<Rightarrow> (None, k, cs)
                  | Some a \<Rightarrow> start (name, a) (k\<lparr>cc_last_running_graph := Some (name, a)\<rparr>))))"

text \<open>
  The settings are evaluated one after the other; \<open>run\<close> runs the operator of a setting over the data
  so far. Setting \<open>i\<close> publishes the address \<open>flag i\<close> of its result under the name that the
  configuration has at position \<open>i\<close>.
\<close>

definition bool_type :: nat where "bool_type = 1"

fun eval_settings :: "(setting_ctx \<Rightarrow> data_ctx list \<Rightarrow> int) \<Rightarrow> (nat \<Rightarrow> nat) \<Rightarrow> config_setting list \<Rightarrow> caddr
    \<Rightarrow> setting_ctx list \<Rightarrow> nat \<Rightarrow> data_ctx list \<Rightarrow> setting_ctx list \<times> data_ctx list" where
  "eval_settings run flag cfgs a [] i cs = ([], cs)"
| "eval_settings run flag cfgs a (s # ss) i cs =
    (let s' = s\<lparr>sc_result := (run s cs = 0)\<rparr>;
         cs' = modify_data a (\<lambda>c. snd (SetData ByPointer (cs_name (cfgs ! i), bool_type) (Some (flag i)) (-1) c)) cs;
         (r, cs2) = eval_settings run flag cfgs a ss (Suc i) cs'
     in (s' # r, cs2))"

text \<open>
  \<open>Execute\<close> up to the start of the graph. The result is the graph to run, or none: then \<open>done(-1)\<close>
  is called at once.
\<close>

definition ExecuteCluster :: "(setting_ctx \<Rightarrow> data_ctx list \<Rightarrow> int) \<Rightarrow> (nat \<Rightarrow> nat) \<Rightarrow> string \<Rightarrow> cluster_ctx \<times> data_ctx list
    \<Rightarrow> (string \<times> caddr) option \<times> cluster_ctx \<times> data_ctx list" where
  "ExecuteCluster run flag graph s =
    (case GetRunGraph graph s of
       (None, k, cs) \<Rightarrow> (None, k, cs)
     | (Some g, k, cs) \<Rightarrow>
         let (settings, cs1) = eval_settings run flag (c_config_setting (cc_cluster k)) (snd g) (cc_settings k) 0 cs
         in (Some g, k\<lparr>cc_settings := settings\<rparr>, modify_data (snd g) DisableEntryCreation cs1))"

text \<open>\<open>Reset\<close>; \<open>on_reset\<close> resets the operator of a setting, \<open>reset_graph\<close> the vertices of the running graph.\<close>

definition ResetCluster :: "(setting_ctx \<Rightarrow> op_state) \<Rightarrow> cluster_ctx \<times> data_ctx list \<Rightarrow> cluster_ctx \<times> data_ctx list" where
  "ResetCluster on_reset s =
    (let (k, cs) = s;
         cs1 = (case cc_running_graph k of Some g \<Rightarrow> modify_data (snd g) ResetData cs | None \<Rightarrow> cs)
     in (k\<lparr>cc_end_ustime := 0, cc_exec_params := None, cc_running_graph := None,
           cc_settings := map (\<lambda>x. x\<lparr>sc_state := on_reset x, sc_result := False\<rparr>) (cc_settings k),
           cc_extern_data := None\<rparr>, cs1))"

section \<open>Which graph runs\<close>

definition cc_ok :: "cluster_ctx \<Rightarrow> bool" where
  "cc_ok k = (\<forall>g. cc_running_graph k = Some g \<or> cc_last_running_graph k = Some g \<longrightarrow> map_of (cc_graph_table k) (fst g) = Some (snd g))"

text \<open>
  C28: A context that is not running finds the graph of a name as the table of its graphs has it,
  whatever it ran before, and links it with the caller's data; a context that is running keeps its
  graph. The memory of the last graph stays right.
\<close>
theorem GetRunGraph_finds:
  "cc_ok k \<Longrightarrow> cc_extern_data k = Some e \<Longrightarrow> GetRunGraph name (k, cs) = (r, k', cs') \<Longrightarrow>
    cc_ok k' \<and> cc_running_graph k' = r
    \<and> (case cc_running_graph k of
        Some g \<Rightarrow> r = Some g \<and> cs' = cs
      | None \<Rightarrow> r = map_option (Pair name) (map_of (cc_graph_table k) name)
          \<and> (case r of None \<Rightarrow> k' = k \<and> cs' = cs
             | Some g \<Rightarrow> cs' = modify_data e (SetChild (Some (snd g)) 0) (modify_data (snd g) (SetParentCtx (Some e)) cs)))"
proof -
  assume ok: "cc_ok k" and e: "cc_extern_data k = Some e" and g: "GetRunGraph name (k, cs) = (r, k', cs')"
  consider (running) x where "cc_running_graph k = Some x"
    | (missing) "cc_running_graph k = None" "map_of (cc_graph_table k) name = None"
    | (found) b where "cc_running_graph k = None" "map_of (cc_graph_table k) name = Some b"
    by (metis option.exhaust)
  then show ?thesis
  proof cases
    case running
    then have "r = Some x" "k' = k" "cs' = cs" using g by (simp_all add: GetRunGraph_def)
    then show ?thesis using ok running by simp
  next
    case missing
    then have "\<forall>x. cc_last_running_graph k = Some x \<longrightarrow> fst x \<noteq> name" using ok by (auto simp: cc_ok_def)
    then have "r = None" "k' = k" "cs' = cs" using missing g by (auto simp: GetRunGraph_def Let_def split: option.splits)
    then show ?thesis using missing ok by simp
  next
    case found
    have same: "k\<lparr>cc_last_running_graph := Some (name, b)\<rparr> = k \<and> x = (name, b)"
      if "cc_last_running_graph k = Some x" "fst x = name" for x
    proof -
      have "x = (name, b)" using ok found(2) that by (cases x) (auto simp: cc_ok_def)
      then show ?thesis using that(1) by (cases k) simp
    qed
    have res: "r = Some (name, b)" "k' = k\<lparr>cc_last_running_graph := Some (name, b), cc_running_graph := Some (name, b)\<rparr>"
      "cs' = modify_data e (SetChild (Some b) 0) (modify_data b (SetParentCtx (Some e)) cs)"
      using found g same e by (auto simp: GetRunGraph_def Let_def split: option.splits if_splits)
    then show ?thesis using found ok by (simp add: cc_ok_def)
  qed
qed

theorem GetRunGraph_finds_witness:
  "fst (GetRunGraph ''g'' ((new_cluster_ctx new_cluster)\<lparr>cc_graph_table := [(''g'', 1)], cc_extern_data := Some 0\<rparr>,
     [new_data_ctx, new_data_ctx])) = Some (''g'', 1)"
proof -
  let ?k = "(new_cluster_ctx new_cluster)\<lparr>cc_graph_table := [(''g'', 1)], cc_extern_data := Some 0\<rparr>"
  obtain r k' cs' where g: "GetRunGraph ''g'' (?k, [new_data_ctx, new_data_ctx]) = (r, k', cs')" by (metis prod_cases3)
  have "cc_ok ?k" by (simp add: cc_ok_def new_cluster_ctx_def)
  from GetRunGraph_finds[OF this _ g, of 0] show ?thesis using g by (simp add: new_cluster_ctx_def)
qed

section \<open>Configuration settings\<close>

lemma modify_data_length [simp]: "length (modify_data a f cs) = length cs"
  by (simp add: modify_data_def)

lemma eval_settings_results:
  "eval_settings run flag cfgs a ss i cs = (ss', cs') \<Longrightarrow> length ss' = length ss \<and> length cs' = length cs"
  by (induction run flag cfgs a ss i cs arbitrary: ss' cs' rule: eval_settings.induct) (auto split: prod.splits)

lemma eval_settings_published:
  "eval_settings run flag cfgs a ss i cs = (ss', cs') \<Longrightarrow> a < length cs \<Longrightarrow>
    \<not> dc_disable_entry_creation (cs ! a) \<Longrightarrow> distinct (map cs_name cfgs) \<Longrightarrow> i + length ss \<le> length cfgs \<Longrightarrow>
    (\<forall>j < length ss. local_value cs' ByPointer (cs_name (cfgs ! (i + j)), bool_type) (-1) a = Some (flag (i + j)))
    \<and> (\<forall>key. (\<forall>j < length ss. key \<noteq> (cs_name (cfgs ! (i + j)), bool_type)) \<longrightarrow>
         (\<forall>h b. local_value cs' h key (-1) b = local_value cs h key (-1) b))
    \<and> (\<forall>h key b. b \<noteq> a \<longrightarrow> local_value cs' h key (-1) b = local_value cs h key (-1) b)"
proof (induction ss arbitrary: i cs ss')
  case Nil
  then show ?case by simp
next
  case (Cons s ss)
  let ?k = "(cs_name (cfgs ! i), bool_type)"
  obtain ok c1 where set: "SetData ByPointer ?k (Some (flag i)) (-1) (cs ! a) = (ok, c1)" by fastforce
  let ?cs = "cs[a := c1]"
  obtain r where r: "eval_settings run flag cfgs a ss (Suc i) ?cs = (r, cs')"
    using Cons.prems(1) set by (auto simp: modify_data_def Let_def split: prod.splits)
  have sg: "ok" "local_value ?cs ByPointer ?k (-1) a = Some (flag i)"
    "\<And>key' h' b. (key', b) \<noteq> (?k, a) \<Longrightarrow> local_value ?cs h' key' (-1) b = local_value cs h' key' (-1) b"
    using SetData_read[OF _ Cons.prems(2) set] Cons.prems(3) by auto
  have "dc_disable_entry_creation c1 = dc_disable_entry_creation (cs ! a)"
    using set SetData_conv[of "cs ! a" ?k "-1" ByPointer "Some (flag i)"] by (auto split: option.splits if_splits)
  then have dis: "\<not> dc_disable_entry_creation (?cs ! a)" using Cons.prems(2,3) by simp
  have IH: "(\<forall>j < length ss. local_value cs' ByPointer (cs_name (cfgs ! (Suc i + j)), bool_type) (-1) a = Some (flag (Suc i + j)))
    \<and> (\<forall>key. (\<forall>j < length ss. key \<noteq> (cs_name (cfgs ! (Suc i + j)), bool_type)) \<longrightarrow>
         (\<forall>h b. local_value cs' h key (-1) b = local_value ?cs h key (-1) b))
    \<and> (\<forall>h key b. b \<noteq> a \<longrightarrow> local_value cs' h key (-1) b = local_value ?cs h key (-1) b)"
    by (rule Cons.IH[OF r]) (use Cons.prems dis in auto)
  have "?k \<noteq> (cs_name (cfgs ! (Suc i + j)), bool_type)" if "j < length ss" for j
    using nth_eq_iff_index_eq[OF Cons.prems(4), of i "Suc i + j"] Cons.prems(5) that by simp
  then have first: "local_value cs' ByPointer ?k (-1) a = Some (flag i)" using IH sg(2) by metis
  show ?case
  proof (intro conjI allI impI)
    fix j
    assume "j < length (s # ss)"
    then show "local_value cs' ByPointer (cs_name (cfgs ! (i + j)), bool_type) (-1) a = Some (flag (i + j))"
      using first IH by (cases j) auto
  next
    fix key h b
    assume k: "\<forall>j < length (s # ss). key \<noteq> (cs_name (cfgs ! (i + j)), bool_type)"
    then have ne: "key \<noteq> ?k" by force
    have "\<forall>j < length ss. key \<noteq> (cs_name (cfgs ! (Suc i + j)), bool_type)" using k by force
    with IH have "local_value cs' h key (-1) b = local_value ?cs h key (-1) b" by metis
    also have "\<dots> = local_value cs h key (-1) b" using sg(3)[of key b h] ne by simp
    finally show "local_value cs' h key (-1) b = local_value cs h key (-1) b" .
  next
    fix h key b
    assume b: "b \<noteq> a"
    have "local_value cs' h key (-1) b = local_value ?cs h key (-1) b" using IH b by blast
    also have "\<dots> = local_value cs h key (-1) b" using sg(3)[of key b h] b by simp
    finally show "local_value cs' h key (-1) b = local_value cs h key (-1) b" .
  qed
qed

lemma setup_settings_all:
  "setup_settings strict t cfgs = Ok ss \<Longrightarrow> \<forall>cfg \<in> set cfgs. GetProcessor t (cs_processor cfg) \<noteq> None \<Longrightarrow>
    length ss = length cfgs \<and> (\<forall>i < length cfgs. GetProcessor t (cs_processor (cfgs ! i)) = Some (sc_class (ss ! i)))"
proof (induction cfgs arbitrary: ss)
  case (Cons cfg cfgs)
  then show ?case by (auto simp: and_then_Ok_iff nth_Cons' split: option.splits prod.splits if_splits)
qed simp

lemma setup_settings_strict: "setup_settings True t cfgs = Ok ss \<Longrightarrow> cfg \<in> set cfgs \<Longrightarrow> GetProcessor t (cs_processor cfg) \<noteq> None"
  by (induction cfgs arbitrary: ss) (auto simp: and_then_Ok_iff split: option.splits prod.splits if_splits)
lemma eval_settings_result:
  "eval_settings run flag cfgs a ss i cs = (ss', cs') \<Longrightarrow> j < length ss \<Longrightarrow>
    sc_class (ss' ! j) = sc_class (ss ! j) \<and> (\<exists>csj. sc_result (ss' ! j) \<longleftrightarrow> run (ss ! j) csj = 0)"
proof (induction ss arbitrary: i cs ss' j)
  case (Cons s ss)
  then show ?case by (cases j) (auto simp: Let_def split: prod.splits)
qed simp

text \<open>
  C27: When the operator of every configuration setting exists (which strict mode demands), each
  setting is evaluated by its own operator, and its result is published in the data of the graph under
  its own name, true exactly when the operator returned 0; all other data are unchanged.
\<close>
theorem settings_published:
  "setup_settings strict t cfgs = Ok ss \<Longrightarrow> strict \<or> (\<forall>cfg \<in> set cfgs. GetProcessor t (cs_processor cfg) \<noteq> None) \<Longrightarrow>
    distinct (map cs_name cfgs) \<Longrightarrow> a < length cs \<Longrightarrow> \<not> dc_disable_entry_creation (cs ! a) \<Longrightarrow>
    eval_settings run flag cfgs a ss 0 cs = (ss', cs') \<Longrightarrow>
    length ss' = length cfgs
    \<and> (\<forall>i < length cfgs. Some (sc_class (ss' ! i)) = GetProcessor t (cs_processor (cfgs ! i))
         \<and> (\<exists>csi. sc_result (ss' ! i) \<longleftrightarrow> run (ss ! i) csi = 0)
         \<and> local_value cs' ByPointer (cs_name (cfgs ! i), bool_type) (-1) a = Some (flag i))
    \<and> (\<forall>key. key \<notin> (\<lambda>cfg. (cs_name cfg, bool_type)) ` set cfgs \<longrightarrow>
         (\<forall>h b. local_value cs' h key (-1) b = local_value cs h key (-1) b))"
proof -
  assume s: "setup_settings strict t cfgs = Ok ss"
    and p: "strict \<or> (\<forall>cfg \<in> set cfgs. GetProcessor t (cs_processor cfg) \<noteq> None)"
    and d: "distinct (map cs_name cfgs)" and a: "a < length cs" and e: "\<not> dc_disable_entry_creation (cs ! a)"
    and r: "eval_settings run flag cfgs a ss 0 cs = (ss', cs')"
  have "\<forall>cfg \<in> set cfgs. GetProcessor t (cs_processor cfg) \<noteq> None" using p s setup_settings_strict by (cases strict) auto
  note all = setup_settings_all[OF s this]
  note pub = eval_settings_published[OF r a e d]
  have len: "length ss' = length cfgs" using eval_settings_results[OF r] all by simp
  have "Some (sc_class (ss' ! i)) = GetProcessor t (cs_processor (cfgs ! i))
         \<and> (\<exists>csi. sc_result (ss' ! i) \<longleftrightarrow> run (ss ! i) csi = 0)
         \<and> local_value cs' ByPointer (cs_name (cfgs ! i), bool_type) (-1) a = Some (flag i)" if "i < length cfgs" for i
    using that all eval_settings_result[OF r, of i] pub by auto
  moreover have "local_value cs' h key (-1) b = local_value cs h key (-1) b"
    if "key \<notin> (\<lambda>cfg. (cs_name cfg, bool_type)) ` set cfgs" for key h b
  proof -
    have "\<forall>j < length ss. key \<noteq> (cs_name (cfgs ! (0 + j)), bool_type)" using that all by force
    then show ?thesis using pub all by (metis add_0 order_refl)
  qed
  ultimately show ?thesis using len by blast
qed

definition ok_class :: op_class where
  "ok_class = func_class (\<lambda>_. 0)"

theorem settings_published_witness:
  "local_value (snd (eval_settings (\<lambda>_ _. 0) (\<lambda>i. i + 7) [\<lparr>cs_name = ''b'', cs_cond = '''', cs_processor = ''p''\<rparr>] 0
      [\<lparr>sc_class = ok_class, sc_state = new_op (oc_processor ok_class), sc_result = False\<rparr>] 0 [new_data_ctx]))
    ByPointer (''b'', bool_type) (-1) 0 = Some 7"
proof -
  let ?cfgs = "[\<lparr>cs_name = ''b'', cs_cond = '''', cs_processor = ''p''\<rparr>]"
  have s: "setup_settings True [(''p'', ok_class)] ?cfgs =
      Ok [\<lparr>sc_class = ok_class, sc_state = new_op (oc_processor ok_class), sc_result = False\<rparr>]"
    by (simp add: GetProcessor_def ok_class_def func_class_def)
  show ?thesis
    using settings_published[OF s _ _ _ _ prod.collapse[symmetric], of 0 "[new_data_ctx]" "\<lambda>_ _. 0" "\<lambda>i. i + 7"]
    by (simp add: new_data_ctx_def del: eval_settings.simps)
qed

text \<open>
  In a cluster that is not strict, a setting whose operator is missing shifts the results: its
  name gets the result of the next setting, and the last name gets none.
\<close>
theorem settings_shifted:
  "\<exists>ss ss' cs'. setup_settings False [(''p'', ok_class)] [\<lparr>cs_name = ''a'', cs_cond = '''', cs_processor = ''missing''\<rparr>,
        \<lparr>cs_name = ''b'', cs_cond = '''', cs_processor = ''p''\<rparr>] = Ok ss
    \<and> eval_settings (\<lambda>_ _. 0) (\<lambda>i. i + 7) [\<lparr>cs_name = ''a'', cs_cond = '''', cs_processor = ''missing''\<rparr>,
        \<lparr>cs_name = ''b'', cs_cond = '''', cs_processor = ''p''\<rparr>] 0 ss 0 [new_data_ctx] = (ss', cs')
    \<and> map sc_class ss' = [ok_class]
    \<and> local_value cs' ByPointer (''a'', bool_type) (-1) 0 = Some 7
    \<and> local_value cs' ByPointer (''b'', bool_type) (-1) 0 = None"
  by (simp add: GetProcessor_def ok_class_def func_class_def modify_data_def SetData_def GetDataValue_def
      new_data_ctx_def local_value_conv put_value_def)

end
