(* ===== verification/Tasks.thy ===== *)
theory Tasks
  imports Cluster Registry
begin

text \<open>
  Graphs that a program builds itself (\<open>Task\<close>, \<open>TaskGroup\<close> of \<open>store/graph_task.{h,cpp}\<close> and
  \<open>GraphStore::BuildGraphByTaskGroup\<close>). Tasks and groups are shared objects that change after they
  were added to a group, so they are named by their addresses in a world that holds them all,
  together with the global counters of identifiers and the operator factory. The counters have 64
  bits in the code and do not wrap here.
\<close>

section \<open>Objects\<close>

record task_obj =
  t_id :: string
  t_processor :: string
  t_group_id :: string
  t_precede :: string_set
  t_succeed :: string_set
  t_consequent :: string_set
  t_alternative :: string_set

record task_group =
  tg_cluster_id :: string
  tg_id :: string
  tg_tasks :: "nat list"
  tg_childs :: "nat list"

record task_world =
  tw_tasks :: "task_obj list"
  tw_groups :: "task_group list"
  tw_creators :: creators
  tw_task_seed :: nat
  tw_group_seed :: nat
  tw_cluster_seed :: nat
  tw_processor_seed :: nat

definition new_world :: task_world where
  "new_world = \<lparr>tw_tasks = [], tw_groups = [], tw_creators = [], tw_task_seed = 0, tw_group_seed = 0,
     tw_cluster_seed = 0, tw_processor_seed = 0\<rparr>"

section \<open>Operations\<close>

definition NewTask :: "string \<Rightarrow> string \<Rightarrow> task_world \<Rightarrow> nat \<times> task_world" where
  "NewTask processor group_id w =
    (length (tw_tasks w),
     w\<lparr>tw_tasks := tw_tasks w @
         [\<lparr>t_id = ''didagle_task_'' @ to_string (tw_task_seed w), t_processor = processor, t_group_id = group_id,
           t_precede = [], t_succeed = [], t_consequent = [], t_alternative = []\<rparr>],
       tw_task_seed := tw_task_seed w + 1\<rparr>)"

definition modify_task :: "nat \<Rightarrow> (task_obj \<Rightarrow> task_obj) \<Rightarrow> task_world \<Rightarrow> task_world" where
  "modify_task a f w = w\<lparr>tw_tasks := (tw_tasks w)[a := f (tw_tasks w ! a)]\<rparr>"

definition insert_precede :: "string \<Rightarrow> task_obj \<Rightarrow> task_obj" where
  "insert_precede x t = t\<lparr>t_precede := set_insert x (t_precede t)\<rparr>"

definition Precede :: "nat \<Rightarrow> nat \<Rightarrow> task_world \<Rightarrow> task_world" where
  "Precede a b w =
    modify_task b (insert_precede (t_id (tw_tasks w ! a)))
      (modify_task a (\<lambda>t. t\<lparr>t_succeed := set_insert (t_id (tw_tasks w ! b)) (t_succeed t)\<rparr>) w)"

definition Succeed :: "nat \<Rightarrow> nat \<Rightarrow> task_world \<Rightarrow> task_world" where
  "Succeed a b w = Precede b a w"

definition Consequent :: "nat \<Rightarrow> nat \<Rightarrow> task_world \<Rightarrow> task_world" where
  "Consequent a b w =
    modify_task b (insert_precede (t_id (tw_tasks w ! a)))
      (modify_task a (\<lambda>t. t\<lparr>t_consequent := set_insert (t_id (tw_tasks w ! b)) (t_consequent t)\<rparr>) w)"

definition Alternative :: "nat \<Rightarrow> nat \<Rightarrow> task_world \<Rightarrow> task_world" where
  "Alternative a b w =
    modify_task b (insert_precede (t_id (tw_tasks w ! a)))
      (modify_task a (\<lambda>t. t\<lparr>t_alternative := set_insert (t_id (tw_tasks w ! b)) (t_alternative t)\<rparr>) w)"

definition TaskName :: "nat \<Rightarrow> string \<Rightarrow> task_world \<Rightarrow> task_world" where
  "TaskName a n = modify_task a (\<lambda>t. t\<lparr>t_id := n\<rparr>)"

definition NewTaskGroup :: "task_world \<Rightarrow> nat \<times> task_world" where
  "NewTaskGroup w =
    (length (tw_groups w),
     w\<lparr>tw_groups := tw_groups w @
         [\<lparr>tg_cluster_id = ''didagle_task_group_cluster_'' @ to_string (tw_cluster_seed w),
           tg_id = ''didagle_task_group_'' @ to_string (tw_group_seed w), tg_tasks = [], tg_childs = []\<rparr>],
       tw_group_seed := tw_group_seed w + 1, tw_cluster_seed := tw_cluster_seed w + 1\<rparr>)"

definition modify_group :: "nat \<Rightarrow> (task_group \<Rightarrow> task_group) \<Rightarrow> task_world \<Rightarrow> task_world" where
  "modify_group g f w = w\<lparr>tw_groups := (tw_groups w)[g := f (tw_groups w ! g)]\<rparr>"

definition add_task :: "nat \<Rightarrow> string \<Rightarrow> string \<Rightarrow> task_world \<Rightarrow> nat \<times> task_world" where
  "add_task g processor group_id w =
    (let (a, w1) = NewTask processor group_id w
     in (a, modify_group g (\<lambda>t. t\<lparr>tg_tasks := tg_tasks t @ [a]\<rparr>) w1))"

definition AddFunc :: "nat \<Rightarrow> (params \<Rightarrow> int) \<Rightarrow> task_world \<Rightarrow> nat option \<times> task_world" where
  "AddFunc g f w =
    (let s = ''didagle_task_processor_'' @ to_string (tw_processor_seed w);
         (r, cs) = register_func_processor s f (tw_creators w);
         w1 = w\<lparr>tw_processor_seed := tw_processor_seed w + 1, tw_creators := cs\<rparr>
     in if \<not> r then (None, w1) else let (a, w2) = add_task g s '''' w1 in (Some a, w2))"

definition AddGroup :: "nat \<Rightarrow> nat \<Rightarrow> task_world \<Rightarrow> nat \<times> task_world" where
  "AddGroup g sub w =
    (let w1 = modify_group g (\<lambda>t. t\<lparr>tg_childs := tg_childs t @ [sub]\<rparr>) w;
         w2 = modify_group sub (\<lambda>t. t\<lparr>tg_cluster_id := tg_cluster_id (tw_groups w1 ! g)\<rparr>) w1
     in add_task g '''' (tg_id (tw_groups w2 ! sub)) w2)"

definition Clone :: "nat \<Rightarrow> nat \<Rightarrow> task_world \<Rightarrow> nat \<times> task_world" where
  "Clone g a w = add_task g (t_processor (tw_tasks w ! a)) (t_group_id (tw_tasks w ! a)) w"

section \<open>Graphs of task groups\<close>

definition task_vertex :: "string \<Rightarrow> task_obj \<Rightarrow> vertex" where
  "task_vertex cluster_id t =
    (let v = new_vertex\<lparr>v_id := t_id t, v_processor := t_processor t\<rparr>;
         v1 = (if t_processor t = [] then v\<lparr>v_cluster := cluster_id, v_graph := t_group_id t\<rparr> else v)
     in v1\<lparr>v_successor := t_succeed t, v_deps := t_precede t, v_consequent := t_consequent t,
           v_alternative := t_alternative t\<rparr>)"

definition BuildGraphByTaskGroup :: "task_world \<Rightarrow> nat \<Rightarrow> graph" where
  "BuildGraphByTaskGroup w g =
    (let t = tw_groups w ! g
     in new_graph\<lparr>g_name := tg_id t,
          g_vertex := map (\<lambda>a. task_vertex (tg_cluster_id t) (tw_tasks w ! a)) (tg_tasks t)\<rparr>)"

text \<open>The cluster that \<open>LoadTaskGroup\<close> builds: the graphs of the direct subgroups, then the group's own.\<close>

definition task_group_cluster :: "task_world \<Rightarrow> nat \<Rightarrow> cluster" where
  "task_group_cluster w g =
    (let t = tw_groups w ! g
     in new_cluster\<lparr>c_file_name := tg_cluster_id t,
          c_graph := map (BuildGraphByTaskGroup w) (tg_childs t) @ [BuildGraphByTaskGroup w g]\<rparr>)"
section \<open>What task groups guarantee\<close>

inductive world_reachable :: "task_world \<Rightarrow> bool" where
  start: "(\<And>i. map_of cs (''didagle_task_processor_'' @ to_string i) = None) \<Longrightarrow> world_reachable (new_world\<lparr>tw_creators := cs\<rparr>)"
| new_group: "world_reachable w \<Longrightarrow> world_reachable (snd (NewTaskGroup w))"
| add_func: "world_reachable w \<Longrightarrow> g < length (tw_groups w) \<Longrightarrow> world_reachable (snd (AddFunc g f w))"
| add_group: "world_reachable w \<Longrightarrow> g < length (tw_groups w) \<Longrightarrow> s < length (tw_groups w) \<Longrightarrow> world_reachable (snd (AddGroup g s w))"
| clone: "world_reachable w \<Longrightarrow> g < length (tw_groups w) \<Longrightarrow> a < length (tw_tasks w) \<Longrightarrow> world_reachable (snd (Clone g a w))"
| precede: "world_reachable w \<Longrightarrow> a < length (tw_tasks w) \<Longrightarrow> b < length (tw_tasks w) \<Longrightarrow> world_reachable (Precede a b w)"
| consequent: "world_reachable w \<Longrightarrow> a < length (tw_tasks w) \<Longrightarrow> b < length (tw_tasks w) \<Longrightarrow> world_reachable (Consequent a b w)"
| alternative: "world_reachable w \<Longrightarrow> a < length (tw_tasks w) \<Longrightarrow> b < length (tw_tasks w) \<Longrightarrow> world_reachable (Alternative a b w)"

definition outs :: "task_obj \<Rightarrow> string set" where
  "outs t = set (t_succeed t) \<union> set (t_consequent t) \<union> set (t_alternative t)"

definition ids_ok :: "task_world \<Rightarrow> bool" where
  "ids_ok w = (map t_id (tw_tasks w) = map (\<lambda>i. ''didagle_task_'' @ to_string i) [0..<tw_task_seed w])"

definition mirrored :: "task_obj list \<Rightarrow> bool" where
  "mirrored ts = (\<forall>x \<in> set ts. \<forall>y \<in> set ts. t_id y \<in> outs x \<longleftrightarrow> t_id x \<in> set (t_precede y))"

definition closed_ids :: "task_obj list \<Rightarrow> bool" where
  "closed_ids ts = (\<forall>x \<in> set ts. outs x \<union> set (t_precede x) \<subseteq> t_id ` set ts)"

definition groups_ok :: "task_world \<Rightarrow> bool" where
  "groups_ok w = (\<forall>t \<in> set (tw_groups w). distinct (tg_tasks t) \<and> set (tg_tasks t) \<subseteq> {..<length (tw_tasks w)})"

definition names_free :: "task_world \<Rightarrow> bool" where
  "names_free w = (\<forall>i. tw_processor_seed w \<le> i \<longrightarrow> map_of (tw_creators w) (''didagle_task_processor_'' @ to_string i) = None)"

definition world_ok :: "task_world \<Rightarrow> bool" where
  "world_ok w = (ids_ok w \<and> mirrored (tw_tasks w) \<and> closed_ids (tw_tasks w) \<and> groups_ok w \<and> names_free w)"

lemma ids_distinct: "ids_ok w \<Longrightarrow> distinct (map t_id (tw_tasks w))"
  unfolding ids_ok_def by (simp add: distinct_map inj_on_def to_string_inject)

lemma ids_length: "ids_ok w \<Longrightarrow> length (tw_tasks w) = tw_task_seed w"
  unfolding ids_ok_def by (metis length_map length_upt minus_nat.diff_0)

lemma NewTask_ok:
  assumes "ids_ok w" "mirrored (tw_tasks w)" "closed_ids (tw_tasks w)" "NewTask p q w = (a, w')"
  shows "ids_ok w' \<and> mirrored (tw_tasks w') \<and> closed_ids (tw_tasks w') \<and> a = length (tw_tasks w)
    \<and> length (tw_tasks w') = Suc (length (tw_tasks w)) \<and> tw_groups w' = tw_groups w
    \<and> tw_creators w' = tw_creators w \<and> tw_processor_seed w' = tw_processor_seed w"
proof -
  let ?id = "''didagle_task_'' @ to_string (tw_task_seed w)"
  obtain t where t: "tw_tasks w' = tw_tasks w @ [t]" "t_id t = ?id" "outs t = {}" "t_precede t = []"
    and w': "a = length (tw_tasks w)" "tw_task_seed w' = Suc (tw_task_seed w)" "tw_groups w' = tw_groups w"
      "tw_creators w' = tw_creators w" "tw_processor_seed w' = tw_processor_seed w"
    using assms(4) by (auto simp: NewTask_def outs_def)
  have "set (map t_id (tw_tasks w)) = set (map (\<lambda>i. ''didagle_task_'' @ to_string i) [0..<tw_task_seed w])"
    using assms(1) by (simp only: ids_ok_def)
  then have ids: "t_id ` set (tw_tasks w) = (\<lambda>i. ''didagle_task_'' @ to_string i) ` {..<tw_task_seed w}"
    by (simp only: list.set_map set_upt atLeast0LessThan)
  have new: "?id \<notin> t_id ` set (tw_tasks w)" unfolding ids by (simp add: image_iff to_string_inject)
  have "?id \<notin> outs x \<and> ?id \<notin> set (t_precede x)" if "x \<in> set (tw_tasks w)" for x
    using assms(3) that new unfolding closed_ids_def by blast
  then have "mirrored (tw_tasks w')" using assms(2) t by (auto simp: mirrored_def)
  moreover have "closed_ids (tw_tasks w')" using assms(3) t by (auto simp: closed_ids_def)
  moreover have "ids_ok w'" using assms(1) t w'(2) by (simp add: ids_ok_def)
  ultimately show ?thesis using t w' by simp
qed

lemma add_task_ok:
  assumes ok: "world_ok w" and g: "g < length (tw_groups w)" and r: "add_task g p q w = (a, w')"
  shows "world_ok w' \<and> length (tw_groups w') = length (tw_groups w)"
proof -
  obtain w1 where n: "NewTask p q w = (a, w1)" by (cases "NewTask p q w") (use r in \<open>auto simp: add_task_def\<close>)
  have w': "w' = modify_group g (\<lambda>t. t\<lparr>tg_tasks := tg_tasks t @ [a]\<rparr>) w1" using r n by (simp add: add_task_def)
  note k = NewTask_ok[OF _ _ _ n]
  have k: "ids_ok w1" "mirrored (tw_tasks w1)" "closed_ids (tw_tasks w1)" "a = length (tw_tasks w)"
    "length (tw_tasks w1) = Suc (length (tw_tasks w))" "tw_groups w1 = tw_groups w"
    "tw_creators w1 = tw_creators w" "tw_processor_seed w1 = tw_processor_seed w"
    using k ok by (auto simp: world_ok_def)
  have old: "distinct (tg_tasks t) \<and> set (tg_tasks t) \<subseteq> {..<length (tw_tasks w)}" if "t \<in> set (tw_groups w)" for t
    using ok that by (simp add: world_ok_def groups_ok_def)
  have "groups_ok w'"
    unfolding groups_ok_def
  proof
    fix t
    assume "t \<in> set (tw_groups w')"
    then consider "t \<in> set (tw_groups w)" | "t = (tw_groups w ! g)\<lparr>tg_tasks := tg_tasks (tw_groups w ! g) @ [a]\<rparr>"
      using set_update_subset_insert[of "tw_groups w" g] by (auto simp: w' modify_group_def k(6))
    then show "distinct (tg_tasks t) \<and> set (tg_tasks t) \<subseteq> {..<length (tw_tasks w')}"
    proof cases
      case 1
      then show ?thesis using old[OF 1] k(5) by (force simp: w' modify_group_def)
    next
      case 2
      then show ?thesis using old[OF nth_mem[OF g]] k(4,5) by (force simp: w' modify_group_def)
    qed
  qed
  then show ?thesis using k ok
    by (simp add: world_ok_def ids_ok_def names_free_def w' modify_group_def)
qed

lemma relate_ok:
  assumes ok: "world_ok w" and a: "a < length (tw_tasks w)" and b: "b < length (tw_tasks w)"
    and f: "\<And>t. t_id (f t) = t_id t" "\<And>t. t_precede (f t) = t_precede t"
      "\<And>t. outs (f t) = insert (t_id (tw_tasks w ! b)) (outs t)"
  shows "world_ok (modify_task b (insert_precede (t_id (tw_tasks w ! a))) (modify_task a f w))"
proof -
  let ?w = "modify_task b (insert_precede (t_id (tw_tasks w ! a))) (modify_task a f w)"
  let ?n = "length (tw_tasks w)" and ?t = "\<lambda>i. tw_tasks w ! i" and ?u = "\<lambda>i. tw_tasks ?w ! i"
  have len: "length (tw_tasks ?w) = ?n" by (simp add: modify_task_def)
  have u: "t_id (?u i) = t_id (?t i)" "outs (?u i) = (if i = a then insert (t_id (?t b)) (outs (?t i)) else outs (?t i))"
    "set (t_precede (?u i)) = (if i = b then insert (t_id (?t a)) (set (t_precede (?t i))) else set (t_precede (?t i)))"
    if "i < ?n" for i
    using that a b f by (auto simp: modify_task_def insert_precede_def nth_list_update outs_def)
  have ids: "map t_id (tw_tasks ?w) = map t_id (tw_tasks w)"
    by (rule nth_equalityI) (use len u in auto)
  have dist: "distinct (map t_id (tw_tasks w))" using ok ids_distinct by (simp add: world_ok_def)
  have inj: "t_id (?t i) = t_id (?t j) \<longleftrightarrow> i = j" if "i < ?n" "j < ?n" for i j
    using nth_eq_iff_index_eq[OF dist, of i j] that by simp
  have "t_id (?u j) \<in> outs (?u i) \<longleftrightarrow> t_id (?u i) \<in> set (t_precede (?u j))" if "i < ?n" "j < ?n" for i j
  proof -
    have "t_id (?t j) \<in> outs (?t i) \<longleftrightarrow> t_id (?t i) \<in> set (t_precede (?t j))"
      using ok that by (simp add: world_ok_def mirrored_def)
    then show ?thesis using u[OF that(1)] u[OF that(2)] inj[OF that(2) b] inj[OF that(1) a] by auto
  qed
  then have "mirrored (tw_tasks ?w)" unfolding mirrored_def by (metis in_set_conv_nth len)
  moreover have "closed_ids (tw_tasks ?w)"
  proof -
    have "outs (?u i) \<union> set (t_precede (?u i)) \<subseteq> t_id ` set (tw_tasks w)" if "i < ?n" for i
      using ok u[OF that] that a b unfolding world_ok_def closed_ids_def by (auto split: if_splits)
    moreover have "t_id ` set (tw_tasks ?w) = t_id ` set (tw_tasks w)" using ids by (metis list.set_map)
    ultimately show ?thesis unfolding closed_ids_def by (metis in_set_conv_nth len)
  qed
  ultimately show ?thesis
    using ok ids len by (simp add: world_ok_def ids_ok_def groups_ok_def names_free_def modify_task_def)
qed

lemma world_reachable_ok: "world_reachable w \<Longrightarrow> world_ok w"
proof (induction rule: world_reachable.induct)
  case (start cs)
  then show ?case
    by (simp add: world_ok_def new_world_def ids_ok_def mirrored_def closed_ids_def groups_ok_def names_free_def)
next
  case (new_group w)
  then show ?case
    by (auto simp: world_ok_def NewTaskGroup_def ids_ok_def groups_ok_def names_free_def)
next
  case (add_func w g f)
  let ?s = "''didagle_task_processor_'' @ to_string (tw_processor_seed w)"
  have free: "map_of (tw_creators w) ?s = None" using add_func.IH by (simp add: world_ok_def names_free_def)
  define w1 where "w1 = w\<lparr>tw_processor_seed := tw_processor_seed w + 1, tw_creators := tw_creators w @ [(?s, func_class f)]\<rparr>"
  have ok1: "world_ok w1"
    using add_func.IH by (auto simp: world_ok_def w1_def ids_ok_def groups_ok_def names_free_def map_add_def to_string_inject)
  obtain a w2 where t: "add_task g ?s '''' w1 = (a, w2)" by fastforce
  have "snd (AddFunc g f w) = w2"
    using free t by (simp add: AddFunc_def register_func_processor_def RegisterProcessor_def w1_def Let_def)
  then show ?case using add_task_ok[OF ok1 _ t] add_func.hyps by (simp add: w1_def)
next
  case (add_group w g s)
  define w1 where "w1 = modify_group g (\<lambda>t. t\<lparr>tg_childs := tg_childs t @ [s]\<rparr>) w"
  define w2 where "w2 = modify_group s (\<lambda>t. t\<lparr>tg_cluster_id := tg_cluster_id (tw_groups w1 ! g)\<rparr>) w1"
  have same: "world_ok (modify_group i f v) \<and> length (tw_groups (modify_group i f v)) = length (tw_groups v)"
    if "world_ok v" "i < length (tw_groups v)" "\<And>t. tg_tasks (f t) = tg_tasks t" for i f v
  proof -
    have "distinct (tg_tasks t) \<and> set (tg_tasks t) \<subseteq> {..<length (tw_tasks v)}" if t: "t \<in> set ((tw_groups v)[i := f (tw_groups v ! i)])" for t
    proof -
      have "t \<in> set (tw_groups v) \<or> tg_tasks t = tg_tasks (tw_groups v ! i)"
        using set_update_subset_insert[of "tw_groups v" i] t \<open>\<And>t. tg_tasks (f t) = tg_tasks t\<close> by auto
      then show ?thesis using \<open>world_ok v\<close> nth_mem[OF \<open>i < length (tw_groups v)\<close>]
        unfolding world_ok_def groups_ok_def by metis
    qed
    then show ?thesis using that(1) by (simp add: world_ok_def ids_ok_def groups_ok_def names_free_def modify_group_def)
  qed
  have 1: "world_ok w1 \<and> length (tw_groups w1) = length (tw_groups w)"
    unfolding w1_def by (rule same) (use add_group in simp_all)
  have 2: "world_ok w2 \<and> length (tw_groups w2) = length (tw_groups w1)"
    unfolding w2_def by (rule same) (use add_group 1 in simp_all)
  obtain a w3 where t: "add_task g '''' (tg_id (tw_groups w2 ! s)) w2 = (a, w3)" by fastforce
  then have "snd (AddGroup g s w) = w3" by (simp add: AddGroup_def Let_def w1_def w2_def)
  then show ?case using add_task_ok[OF _ _ t] 1 2 add_group.hyps by simp
next
  case (clone w g a)
  obtain b w1 where t: "add_task g (t_processor (tw_tasks w ! a)) (t_group_id (tw_tasks w ! a)) w = (b, w1)" by fastforce
  then show ?case using add_task_ok[OF clone.IH clone.hyps(2) t] by (simp add: Clone_def)
next
  case (precede w a b)
  then show ?case unfolding Precede_def by (intro relate_ok) (auto simp: outs_def)
next
  case (consequent w a b)
  then show ?case unfolding Consequent_def by (intro relate_ok) (auto simp: outs_def)
next
  case (alternative w a b)
  then show ?case unfolding Alternative_def by (intro relate_ok) (auto simp: outs_def)
qed

text \<open>
  C36: Whatever a program does to tasks and groups short of renaming a task, the graph of a group has
  one vertex per task with an identifier of its own, a vertex lists another one as its successor,
  consequent or alternative exactly when that one depends on it, and adding a function never fails.
\<close>
theorem task_group_graph:
  "world_reachable w \<Longrightarrow> g < length (tw_groups w) \<Longrightarrow>
    (let vs = g_vertex (BuildGraphByTaskGroup w g) in
      length vs = length (tg_tasks (tw_groups w ! g)) \<and> distinct (map v_id vs)
      \<and> (\<forall>u \<in> set vs. \<forall>v \<in> set vs. v_id v \<in> set (v_successor u) \<union> set (v_consequent u) \<union> set (v_alternative u)
           \<longleftrightarrow> v_id u \<in> set (v_deps v)))
    \<and> fst (AddFunc g f w) \<noteq> None"
proof -
  assume r: "world_reachable w" and g: "g < length (tw_groups w)"
  note ok = world_reachable_ok[OF r]
  let ?t = "tw_groups w ! g"
  let ?vs = "map (\<lambda>a. task_vertex (tg_cluster_id ?t) (tw_tasks w ! a)) (tg_tasks ?t)"
  have tasks: "distinct (tg_tasks ?t)" "set (tg_tasks ?t) \<subseteq> {..<length (tw_tasks w)}"
    using ok nth_mem[OF g] by (auto simp: world_ok_def groups_ok_def)
  have v: "v_id (task_vertex c t) = t_id t" "v_deps (task_vertex c t) = t_precede t"
    "set (v_successor (task_vertex c t)) \<union> set (v_consequent (task_vertex c t)) \<union> set (v_alternative (task_vertex c t)) = outs t"
    for c t by (simp_all add: task_vertex_def outs_def Let_def)
  have dist: "distinct (map t_id (tw_tasks w))" using ok ids_distinct by (simp add: world_ok_def)
  have "inj_on (\<lambda>a. t_id (tw_tasks w ! a)) (set (tg_tasks ?t))"
    using nth_eq_iff_index_eq[OF dist] tasks(2) by (auto simp: inj_on_def)
  then have "distinct (map v_id ?vs)" using tasks(1) by (simp add: distinct_map o_def v)
  moreover have "v_id y \<in> set (v_successor x) \<union> set (v_consequent x) \<union> set (v_alternative x) \<longleftrightarrow> v_id x \<in> set (v_deps y)"
    if xy: "x \<in> set ?vs" "y \<in> set ?vs" for x y
  proof -
    obtain a b where ab: "x = task_vertex (tg_cluster_id ?t) (tw_tasks w ! a)" "y = task_vertex (tg_cluster_id ?t) (tw_tasks w ! b)"
      "a \<in> set (tg_tasks ?t)" "b \<in> set (tg_tasks ?t)"
      using xy by auto
    then have "tw_tasks w ! a \<in> set (tw_tasks w)" "tw_tasks w ! b \<in> set (tw_tasks w)" using tasks(2) by auto
    then show ?thesis using ok unfolding ab(1,2) v by (simp add: world_ok_def mirrored_def)
  qed
  moreover have "fst (AddFunc g f w) \<noteq> None"
    using ok by (auto simp: world_ok_def names_free_def AddFunc_def register_func_processor_def RegisterProcessor_def
        Let_def split: prod.splits)
  ultimately show ?thesis by (simp add: BuildGraphByTaskGroup_def Let_def)
qed

theorem task_group_graph_witness:
  "fst (AddFunc 0 (\<lambda>_. 0) (snd (NewTaskGroup (new_world\<lparr>tw_creators := []\<rparr>)))) \<noteq> None"
  using task_group_graph[OF new_group[OF start[of "[]"]], of 0 "\<lambda>_. 0"] by (simp add: NewTaskGroup_def)
section \<open>Conditions\<close>

text \<open>The view that \<open>Graph::Build\<close> has of the operator factory.\<close>

definition factory_of :: "creators \<Rightarrow> factory" where
  "factory_of t n = map_option (\<lambda>c. \<lparr>GetInputIds = map field_info.truncate (pr_inputs (oc_processor c)),
     GetOutputIds = map field_info.truncate (pr_outputs (oc_processor c))\<rparr>) (GetProcessor t n)"

text \<open>A group of two functions, of which the second one added runs only if the first one succeeds, or the other way round.\<close>

definition two_tasks :: task_world where
  "two_tasks = snd (AddFunc 0 (\<lambda>_. 0) (snd (AddFunc 0 (\<lambda>_. 0) (snd (NewTaskGroup new_world)))))"

definition expected_results :: "task_world \<Rightarrow> nat \<Rightarrow> vresult list option" where
  "expected_results w a =
    (let c = task_group_cluster w 0 in
     case GraphBuild c (factory_of (tw_creators w)) (BuildGraphByTaskGroup w 0) of
       Ok g \<Rightarrow> map_option (\<lambda>p. v_deps_expected_results (deref g p)) (FindVertexById g (t_id (tw_tasks w ! a)))
     | _ \<Rightarrow> None)"
text \<open>
  A task that another one names as its consequent also depends on it plainly, and the first of the
  two dependencies counts: it waits for success when the condition was added to the group first, but
  runs whatever the condition returns when it was added before its condition.
\<close>
theorem consequent_depends_on_order:
  "expected_results (Consequent 0 1 two_tasks) 1 = Some [V_RESULT_OK]
    \<and> expected_results (Consequent 1 0 two_tasks) 0 = Some [V_RESULT_ALL]"
  by (rule conjI) code_simp+

end
