(* ===== verification/Store.thy ===== *)
theory Store
  imports ClusterContext Tasks "HOL-Library.Multiset"
begin

text \<open>
  The store of clusters and its pools of cluster contexts (\<open>GraphStore\<close> of
  \<open>store/graph_store.{h,cpp}\<close>, \<open>GraphClusterHandle\<close> of \<open>store/cluster_context.cpp\<close>, the release closure
  of a data context in \<open>processor/processor.cpp\<close>).

  A cluster context, a data context of a caller and a request are numbers. The state says where
  every cluster context is: in the queue of its handle, held by the release closure of a data context,
  in a release function that was posted to the background worker and did not run yet, or with a vertex
  of another cluster context, which took it for its subgraph.

  Handles are never removed: a cluster that is loaded again under its name gets a new handle, and the old one
  stays in the list with its queue. In the code it goes with its last owner, and deletes the contexts in its
  queue (\<open>GraphClusterHandle\<close>'s destructor in \<open>store/cluster_context.cpp\<close>). In the model they wait in the queue of
  a handle that no name leads to any more, so that no request is given them, as in the code.
\<close>

section \<open>State\<close>

record cluster_handle =
  h_cluster :: cluster
  h_contexts :: "nat list"

record graph_store =
  s_graphs :: "(string \<times> nat) list"
  s_handles :: "cluster_handle list"
  s_home :: "nat list"
  s_running :: nat
  s_release :: "(nat \<times> nat) list"
  s_posted :: "nat list"
  s_sub :: "(nat \<times> nat) list"
  s_busy :: "(nat \<times> nat \<times> nat) list"
  s_held :: "nat list"
  s_done :: "(nat \<times> int) list"

definition new_store :: graph_store where
  "new_store = \<lparr>s_graphs = [], s_handles = [], s_home = [], s_running = 0, s_release = [], s_posted = [],
     s_sub = [], s_busy = [], s_held = [], s_done = []\<rparr>"

section \<open>Loading\<close>

definition get_basename :: "string \<Rightarrow> string" where
  "get_basename f = rev (takeWhile (\<lambda>c. c \<noteq> CHR ''/'') (rev f))"

text \<open>
  \<open>Build\<close> of a handle: in strict mode one context is set up and thrown away (\<open>setup\<close> says whether a
  cluster can be set up); the queue is filled with as many contexts as the cluster asks for, whether
  their setup succeeds or not.
\<close>

definition HandleBuild :: "factory \<Rightarrow> nat \<Rightarrow> (cluster \<Rightarrow> bool) \<Rightarrow> nat \<Rightarrow> cluster \<Rightarrow> cluster_handle option" where
  "HandleBuild F capacity setup n c =
    (case ClusterBuild F capacity c of
       Ok c' \<Rightarrow> if c_strict_dsl c' \<and> \<not> setup c' then None
                else Some \<lparr>h_cluster = c', h_contexts = [n..<n + nat (c_default_context_pool_size c')]\<rparr>
     | _ \<Rightarrow> None)"

definition put_handle :: "string \<Rightarrow> cluster_handle \<Rightarrow> graph_store \<Rightarrow> nat \<times> graph_store" where
  "put_handle name h s =
    (let i = length (s_handles s)
     in (i, s\<lparr>s_handles := s_handles s @ [h], s_graphs := AList.update name i (s_graphs s),
              s_home := s_home s @ replicate (length (h_contexts h)) i\<rparr>))"

text \<open>\<open>parsed\<close> is what the TOML parser makes of the text or file, \<open>None\<close> when it fails.\<close>

definition LoadString :: "factory \<Rightarrow> nat \<Rightarrow> (cluster \<Rightarrow> bool) \<Rightarrow> cluster option \<Rightarrow> graph_store \<Rightarrow> nat option \<times> graph_store" where
  "LoadString F capacity setup parsed s =
    (case parsed of
       None \<Rightarrow> (None, s)
     | Some c \<Rightarrow>
         if c_name c = [] then (None, s)
         else case HandleBuild F capacity setup (length (s_home s)) (c\<lparr>c_file_name := c_name c\<rparr>) of
                None \<Rightarrow> (None, s)
              | Some h \<Rightarrow> let (i, s') = put_handle (c_name c) h s in (Some i, s'))"

definition Load :: "factory \<Rightarrow> nat \<Rightarrow> (cluster \<Rightarrow> bool) \<Rightarrow> string \<Rightarrow> cluster option \<Rightarrow> graph_store \<Rightarrow> nat option \<times> graph_store" where
  "Load F capacity setup file parsed s =
    (case parsed of
       None \<Rightarrow> (None, s)
     | Some c \<Rightarrow>
         (case HandleBuild F capacity setup (length (s_home s)) (c\<lparr>c_file_name := get_basename file\<rparr>) of
            None \<Rightarrow> (None, s)
          | Some h \<Rightarrow> let (i, s') = put_handle (get_basename file) h s in (Some i, s')))"

definition FindGraphClusterByName :: "graph_store \<Rightarrow> string \<Rightarrow> nat option" where
  "FindGraphClusterByName s name = map_of (s_graphs s) name"

definition StoreExists :: "graph_store \<Rightarrow> string \<Rightarrow> string \<Rightarrow> bool" where
  "StoreExists s cluster graph =
    (case FindGraphClusterByName s cluster of None \<Rightarrow> False | Some i \<Rightarrow> Exists (h_cluster (s_handles s ! i)) graph)"

definition LoadTaskGroup :: "factory \<Rightarrow> nat \<Rightarrow> (cluster \<Rightarrow> bool) \<Rightarrow> task_world \<Rightarrow> nat \<Rightarrow> graph_store \<Rightarrow> nat option \<times> graph_store" where
  "LoadTaskGroup F capacity setup w g s =
    (let c = task_group_cluster w g in
     case FindGraphClusterByName s (c_file_name c) of
       Some i \<Rightarrow> (Some i, s)
     | None \<Rightarrow>
         (case HandleBuild F capacity setup (length (s_home s)) c of
            None \<Rightarrow> (None, s)
          | Some h \<Rightarrow> let (i, s') = put_handle (c_file_name c) h s in (Some i, s')))"

section \<open>The pool\<close>

definition modify_handle :: "nat \<Rightarrow> (cluster_handle \<Rightarrow> cluster_handle) \<Rightarrow> graph_store \<Rightarrow> graph_store" where
  "modify_handle i f s = s\<lparr>s_handles := (s_handles s)[i := f (s_handles s ! i)]\<rparr>"

text \<open>A context from the queue, or a new one, whose setup may fail unnoticed.\<close>

definition GetContext :: "nat \<Rightarrow> graph_store \<Rightarrow> nat \<times> graph_store" where
  "GetContext i s =
    (case h_contexts (s_handles s ! i) of
       c # cs \<Rightarrow> (c, modify_handle i (\<lambda>h. h\<lparr>h_contexts := cs\<rparr>) s)
     | [] \<Rightarrow> (length (s_home s), s\<lparr>s_home := s_home s @ [i]\<rparr>))"

definition GetGraphClusterContext :: "string \<Rightarrow> graph_store \<Rightarrow> nat option \<times> graph_store" where
  "GetGraphClusterContext cluster s =
    (case FindGraphClusterByName s cluster of
       None \<Rightarrow> (None, s)
     | Some i \<Rightarrow> let (c, s') = GetContext i s in (Some c, s'))"

text \<open>\<open>VertexContext::Execute\<close> of a vertex of context \<open>p\<close> that runs a graph of a cluster.\<close>

definition BorrowContext :: "nat \<Rightarrow> string \<Rightarrow> graph_store \<Rightarrow> graph_store" where
  "BorrowContext p cluster s =
    (case GetGraphClusterContext cluster s of
       (None, s1) \<Rightarrow> s1
     | (Some c, s1) \<Rightarrow> s1\<lparr>s_sub := s_sub s1 @ [(p, c)]\<rparr>)"

definition enqueue :: "nat \<Rightarrow> graph_store \<Rightarrow> graph_store" where
  "enqueue c s = modify_handle (s_home s ! c) (\<lambda>h. h\<lparr>h_contexts := h_contexts h @ [c]\<rparr>) s"

text \<open>
  Releasing a context resets it first, which releases the contexts that its vertices took; the number
  of those is enough fuel.
\<close>

primrec ReleaseContext :: "nat \<Rightarrow> nat \<Rightarrow> graph_store \<Rightarrow> graph_store" where
  "ReleaseContext 0 c s = enqueue c s"
| "ReleaseContext (Suc n) c s =
    enqueue c (fold (\<lambda>x s. if (c, x) \<in> set (s_sub s)
                          then ReleaseContext n x (s\<lparr>s_sub := remove1 (c, x) (s_sub s)\<rparr>) else s)
                 (map snd (filter (\<lambda>p. fst p = c) (s_sub s))) s)"

text \<open>A closure that the data context already has is called first: it posts the release of its own context.\<close>

definition SetReleaseClosure :: "nat \<Rightarrow> nat \<Rightarrow> graph_store \<Rightarrow> graph_store" where
  "SetReleaseClosure d c s =
    (let s1 = (case map_of (s_release s) d of None \<Rightarrow> s | Some c0 \<Rightarrow> s\<lparr>s_posted := s_posted s @ [c0]\<rparr>)
     in s1\<lparr>s_release := AList.update d c (s_release s1)\<rparr>)"

definition call_done :: "nat \<Rightarrow> int \<Rightarrow> graph_store \<Rightarrow> graph_store" where
  "call_done r code s = s\<lparr>s_done := s_done s @ [(r, code)]\<rparr>"

section \<open>Executing\<close>

text \<open>
  \<open>finds\<close> says whether a context has a graph of a name. A request whose graph starts is busy until
  the graph calls its closure.
\<close>

definition StoreExecute :: "bool \<Rightarrow> (nat \<Rightarrow> string \<Rightarrow> bool) \<Rightarrow> nat \<Rightarrow> nat option \<Rightarrow> string \<Rightarrow> string \<Rightarrow> graph_store \<Rightarrow> int \<times> graph_store" where
  "StoreExecute has_executor finds r data cluster graph s =
    (if \<not> has_executor then (-1, call_done r (-1) s)
     else case data of
       None \<Rightarrow> (-1, call_done r (-1) s)
     | Some d \<Rightarrow>
         (case GetGraphClusterContext cluster s of
            (None, s1) \<Rightarrow> (-1, call_done r (-1) s1)
          | (Some c, s1) \<Rightarrow>
              let s2 = SetReleaseClosure d c (s1\<lparr>s_running := u32 (s_running s1 + 1)\<rparr>)
              in if finds c graph then (0, s2\<lparr>s_busy := (r, c, d) # s_busy s2\<rparr>)
                 else (0, call_done r (-1) s2)))"

definition GraphDone :: "nat \<times> nat \<times> nat \<Rightarrow> int \<Rightarrow> graph_store \<Rightarrow> graph_store" where
  "GraphDone b code s = call_done (fst b) code (s\<lparr>s_busy := remove1 b (s_busy s)\<rparr>)"

text \<open>The destructor of a data context, and the function that the background worker runs.\<close>

definition DestroyData :: "nat \<Rightarrow> graph_store \<Rightarrow> graph_store" where
  "DestroyData d s =
    (case map_of (s_release s) d of
       None \<Rightarrow> s
     | Some c \<Rightarrow> s\<lparr>s_release := AList.delete d (s_release s), s_posted := s_posted s @ [c]\<rparr>)"

definition RunRelease :: "nat \<Rightarrow> graph_store \<Rightarrow> graph_store" where
  "RunRelease c s =
    (let s1 = ReleaseContext (length (s_sub s)) c (s\<lparr>s_posted := remove1 c (s_posted s)\<rparr>)
     in s1\<lparr>s_running := snd (fetch_sub (s_running s1))\<rparr>)"

text \<open>The caller of \<open>SyncExecute\<close> waits for the closure and prefers the result of \<open>Execute\<close> to its code.\<close>

definition SyncExecute :: "int \<Rightarrow> int \<Rightarrow> int" where
  "SyncExecute rc code = (if rc \<noteq> 0 then rc else code)"

definition AsyncExecuteTasks :: "factory \<Rightarrow> nat \<Rightarrow> (cluster \<Rightarrow> bool) \<Rightarrow> bool \<Rightarrow> (nat \<Rightarrow> string \<Rightarrow> bool) \<Rightarrow> task_world \<Rightarrow> nat
    \<Rightarrow> nat \<Rightarrow> nat \<Rightarrow> graph_store \<Rightarrow> int \<times> graph_store" where
  "AsyncExecuteTasks F capacity setup has_executor finds w g r d s =
    (case LoadTaskGroup F capacity setup w g s of
       (None, s1) \<Rightarrow> (-1, call_done r (-1) s1)
     | (Some i, s1) \<Rightarrow> StoreExecute has_executor finds r (Some d) (tg_cluster_id (tw_groups w ! g)) (tg_id (tw_groups w ! g)) s1)"

section \<open>Steps\<close>

text \<open>
  What callers, running graphs and the background worker do, in any order. \<open>disc\<close> demands that a
  caller gives a data context to a new request only when no earlier request with it is busy.
\<close>

inductive store_step :: "bool \<Rightarrow> graph_store \<Rightarrow> graph_store \<Rightarrow> bool" for disc where
  load: "HandleBuild F capacity setup (length (s_home s)) c = Some h \<Longrightarrow> store_step disc s (snd (put_handle name h s))"
| create: "d \<notin> set (s_held s) \<Longrightarrow> d \<notin> fst ` set (s_release s) \<Longrightarrow> store_step disc s (s\<lparr>s_held := d # s_held s\<rparr>)"
| execute: "r \<notin> fst ` set (s_busy s) \<union> fst ` set (s_done s) \<Longrightarrow> (\<forall>d. data = Some d \<longrightarrow> d \<in> set (s_held s)) \<Longrightarrow>
    (disc \<longrightarrow> (\<forall>d. data = Some d \<longrightarrow> d \<notin> (snd \<circ> snd) ` set (s_busy s))) \<Longrightarrow>
    store_step disc s (snd (StoreExecute has_executor finds r data cluster graph s))"
| finish: "b \<in> set (s_busy s) \<Longrightarrow> store_step disc s (GraphDone b code s)"
| borrow: "p \<in> (fst \<circ> snd) ` set (s_busy s) \<union> snd ` set (s_sub s) \<Longrightarrow> store_step disc s (BorrowContext p cluster s)"
| drop: "store_step disc s (s\<lparr>s_held := removeAll d (s_held s)\<rparr>)"
| destroy: "d \<notin> set (s_held s) \<Longrightarrow> d \<notin> (snd \<circ> snd) ` set (s_busy s) \<Longrightarrow> store_step disc s (DestroyData d s)"
| release: "c \<in> set (s_posted s) \<Longrightarrow> store_step disc s (RunRelease c s)"

definition store_reachable :: "bool \<Rightarrow> graph_store \<Rightarrow> bool" where
  "store_reachable disc = (store_step disc)\<^sup>*\<^sup>* new_store"
section \<open>Where the contexts are\<close>

definition pool_ctxs :: "graph_store \<Rightarrow> nat list" where
  "pool_ctxs s = concat (map h_contexts (s_handles s))"

definition places :: "graph_store \<Rightarrow> nat multiset" where
  "places s = mset (pool_ctxs s) + mset (map snd (s_release s)) + mset (s_posted s) + mset (map snd (s_sub s))"

definition homes_ok :: "graph_store \<Rightarrow> bool" where
  "homes_ok s = ((\<forall>c < length (s_home s). s_home s ! c < length (s_handles s))
     \<and> (\<forall>i < length (s_handles s). \<forall>c \<in> set (h_contexts (s_handles s ! i)). s_home s ! c = i)
     \<and> (\<forall>(n, i) \<in> set (s_graphs s). i < length (s_handles s)))"

definition pool_inv :: "graph_store \<Rightarrow> bool" where
  "pool_inv s = (places s = mset [0..<length (s_home s)] \<and> homes_ok s \<and> distinct (map fst (s_release s))
     \<and> s_running s = u32 (length (s_release s) + length (s_posted s)))"

lemma concat_update:
  "i < length hs \<Longrightarrow> mset (concat (map f (hs[i := y]))) + mset (f (hs ! i)) = mset (concat (map f hs)) + mset (f y)"
  by (induction hs arbitrary: i) (auto split: nat.split simp: add.assoc add.commute)

lemma places_home: "places s = mset [0..<length (s_home s)] \<Longrightarrow> c \<in># places s \<longleftrightarrow> c < length (s_home s)"
  by simp

lemma release_update_new: "map_of r d = None \<Longrightarrow> mset (map snd (AList.update d c r)) = mset (map snd r) + {#c#}"
  by (induction r) auto

lemma release_update_old:
  "map_of r d = Some c0 \<Longrightarrow> mset (map snd (AList.update d c r)) + {#c0#} = mset (map snd r) + {#c#}"
  by (induction r) auto

lemma delete_absent: "d \<notin> fst ` set r \<Longrightarrow> AList.delete d r = r"
  by (induction r) auto

lemma release_delete:
  "distinct (map fst r) \<Longrightarrow> map_of r d = Some c \<Longrightarrow> mset (map snd (AList.delete d r)) + {#c#} = mset (map snd r)"
proof (induction r)
  case (Cons kv r)
  show ?case
  proof (cases "fst kv = d")
    case True
    then show ?thesis using Cons.prems by (cases kv) (simp add: delete_absent)
  next
    case False
    then show ?thesis using Cons by (cases kv) (simp add: add_mset_commute)
  qed
qed simp

lemma length_update: "length (AList.update d c r) = (if map_of r d = None then Suc (length r) else length r)"
  by (induction r) auto

lemma fetch_sub_u32: "0 < n \<Longrightarrow> snd (fetch_sub (u32 n)) = u32 (n - 1)"
  unfolding fetch_sub_def u32_def
  by (cases n) (auto simp: mod_Suc)

text \<open>Taking a context, and what it leaves alone.\<close>

lemma GetContext_effect:
  assumes ok: "homes_ok s" and i: "i < length (s_handles s)" and g: "GetContext i s = (c, s')"
    and p: "\<forall>x \<in># places s. x < length (s_home s)"
  shows "homes_ok s' \<and> c < length (s_home s') \<and> s_release s' = s_release s \<and> s_posted s' = s_posted s \<and> s_sub s' = s_sub s
    \<and> s_busy s' = s_busy s \<and> s_done s' = s_done s \<and> s_running s' = s_running s \<and> s_held s' = s_held s
    \<and> (places s' + {#c#} = places s \<and> s_home s' = s_home s
       \<or> places s' = places s \<and> s_home s' = s_home s @ [i] \<and> c = length (s_home s))"
proof (cases "h_contexts (s_handles s ! i)")
  case Nil
  then have s': "c = length (s_home s)" "s' = s\<lparr>s_home := s_home s @ [i]\<rparr>" using g by (auto simp: GetContext_def)
  have "x < length (s_home s)" if "j < length (s_handles s)" "x \<in> set (h_contexts (s_handles s ! j))" for x j
  proof -
    have "x \<in># places s" using that nth_mem[OF that(1)] by (auto simp: places_def pool_ctxs_def)
    then show ?thesis using p by blast
  qed
  then have "homes_ok s'" using ok i by (auto simp: homes_ok_def s' nth_append)
  then show ?thesis by (simp add: s' places_def pool_ctxs_def)
next
  case (Cons c0 cs)
  then have s': "c = c0" "s' = modify_handle i (\<lambda>h. h\<lparr>h_contexts := cs\<rparr>) s" using g by (auto simp: GetContext_def)
  have m: "mset (pool_ctxs s') + {#c#} = mset (pool_ctxs s)"
    using concat_update[OF i, of h_contexts "(s_handles s ! i)\<lparr>h_contexts := cs\<rparr>"] Cons
    by (simp add: pool_ctxs_def s' modify_handle_def)
  have pl: "places s' + {#c#} = places s" using m by (simp add: places_def s'(2) modify_handle_def pool_ctxs_def)
  have "c \<in># places s" by (simp flip: pl)
  then have "c < length (s_home s)" using p by blast
  moreover have "homes_ok s'"
    using ok i Cons unfolding homes_ok_def s' modify_handle_def
    by (auto simp: nth_list_update split: if_splits)
  ultimately show ?thesis using pl by (simp add: s' modify_handle_def)
qed

lemma enqueue_effect:
  assumes ok: "homes_ok s" and c: "c < length (s_home s)"
  shows "homes_ok (enqueue c s) \<and> places (enqueue c s) = places s + {#c#} \<and> s_home (enqueue c s) = s_home s
    \<and> s_release (enqueue c s) = s_release s \<and> s_posted (enqueue c s) = s_posted s \<and> s_sub (enqueue c s) = s_sub s
    \<and> s_busy (enqueue c s) = s_busy s \<and> s_done (enqueue c s) = s_done s \<and> s_running (enqueue c s) = s_running s
    \<and> s_held (enqueue c s) = s_held s"
proof -
  let ?i = "s_home s ! c"
  have i: "?i < length (s_handles s)" using ok c by (simp add: homes_ok_def)
  have "mset (pool_ctxs (enqueue c s)) = mset (pool_ctxs s) + {#c#}"
    using concat_update[OF i, of h_contexts "(s_handles s ! ?i)\<lparr>h_contexts := h_contexts (s_handles s ! ?i) @ [c]\<rparr>"]
    by (simp add: pool_ctxs_def enqueue_def modify_handle_def)
  moreover have "homes_ok (enqueue c s)"
    using ok i unfolding homes_ok_def enqueue_def modify_handle_def by (auto simp: nth_list_update split: if_splits)
  ultimately show ?thesis by (simp add: places_def enqueue_def modify_handle_def)
qed

definition release_keeps :: "graph_store \<Rightarrow> graph_store \<Rightarrow> bool" where
  "release_keeps s s' = (homes_ok s' \<and> s_home s' = s_home s \<and> s_release s' = s_release s \<and> s_posted s' = s_posted s
    \<and> s_busy s' = s_busy s \<and> s_done s' = s_done s \<and> s_running s' = s_running s \<and> s_held s' = s_held s
    \<and> (\<forall>p \<in> set (s_sub s'). p \<in> set (s_sub s)))"

lemma release_keeps_trans: "release_keeps s t \<Longrightarrow> release_keeps t u \<Longrightarrow> release_keeps s u"
  unfolding release_keeps_def by auto

lemma fold_keeps:
  assumes f: "\<And>x t. homes_ok t \<Longrightarrow> \<forall>p \<in> set (s_sub t). snd p < length (s_home t) \<Longrightarrow>
      release_keeps t (f x t) \<and> places (f x t) = places t"
  shows "homes_ok s \<Longrightarrow> \<forall>p \<in> set (s_sub s). snd p < length (s_home s) \<Longrightarrow>
    release_keeps s (fold f xs s) \<and> places (fold f xs s) = places s"
proof (induction xs arbitrary: s)
  case Nil
  then show ?case by (simp add: release_keeps_def)
next
  case (Cons x xs)
  note 1 = f[OF Cons.prems, of x]
  have "homes_ok (f x s)" "\<forall>p \<in> set (s_sub (f x s)). snd p < length (s_home (f x s))"
    using 1 Cons.prems(2) by (auto simp: release_keeps_def)
  note 2 = Cons.IH[OF this]
  show ?case using 1 2 release_keeps_trans[of s "f x s" "fold f xs (f x s)"] by simp
qed

lemma ReleaseContext_effect:
  "homes_ok s \<Longrightarrow> c < length (s_home s) \<Longrightarrow> \<forall>p \<in> set (s_sub s). snd p < length (s_home s) \<Longrightarrow>
    release_keeps s (ReleaseContext n c s) \<and> places (ReleaseContext n c s) = places s + {#c#}"
proof (induction n arbitrary: c s)
  case 0
  then show ?case using enqueue_effect[of s c] by (simp add: release_keeps_def)
next
  case (Suc n)
  let ?f = "\<lambda>x s. if (c, x) \<in> set (s_sub s) then ReleaseContext n x (s\<lparr>s_sub := remove1 (c, x) (s_sub s)\<rparr>) else s"
  have step: "release_keeps t (?f x t) \<and> places (?f x t) = places t"
    if t: "homes_ok t" "\<forall>p \<in> set (s_sub t). snd p < length (s_home t)" for x t
  proof (cases "(c, x) \<in> set (s_sub t)")
    case True
    let ?t = "t\<lparr>s_sub := remove1 (c, x) (s_sub t)\<rparr>"
    have sub: "set (remove1 (c, x) (s_sub t)) \<subseteq> set (s_sub t)" by (rule set_remove1_subset)
    have x: "x < length (s_home t)" using t(2) True by auto
    have "homes_ok ?t" using t(1) by (simp add: homes_ok_def)
    then have r: "release_keeps ?t (ReleaseContext n x ?t) \<and> places (ReleaseContext n x ?t) = places ?t + {#x#}"
      using Suc.IH[of ?t x] t x sub by auto
    have "image_mset snd (mset (remove1 (c, x) (s_sub t))) + {#x#} = image_mset snd (mset (s_sub t))"
      using True by (metis add_mset_add_single image_mset_add_mset insert_DiffM mset_remove1 set_mset_mset snd_conv)
    then have "places ?t + {#x#} = places t" by (simp add: places_def pool_ctxs_def)
    then show ?thesis using r sub True by (auto simp: release_keeps_def)
  next
    case False
    then show ?thesis using t by (simp add: release_keeps_def)
  qed
  have "release_keeps s (fold ?f xs s) \<and> places (fold ?f xs s) = places s" for xs
    by (rule fold_keeps[OF step]) (use Suc.prems in simp_all)
  from this[of "map snd (filter (\<lambda>p. fst p = c) (s_sub s))"]
  obtain t where t: "fold ?f (map snd (filter (\<lambda>p. fst p = c) (s_sub s))) s = t" "release_keeps s t" "places t = places s"
    by simp
  have "release_keeps s (enqueue c t) \<and> places (enqueue c t) = places s + {#c#}"
    using enqueue_effect[of t c] t Suc.prems(2) by (simp add: release_keeps_def)
  then show ?case using t(1) by simp
qed

end
