(* ===== verification/StoreProps.thy ===== *)
theory StoreProps
  imports Store
begin

text \<open>
  The invariants of the store: every cluster context is in exactly one place, the count of running
  graphs is the number of contexts that were given out and did not come back, every request is
  answered once, and, when callers do not reuse the data of a busy request, no context is handed out
  while its graph runs.
\<close>

section \<open>Each operation\<close>

lemma SetReleaseClosure_effect:
  assumes "distinct (map fst (s_release s))"
  shows "places (SetReleaseClosure d c s) = places s + {#c#}
    \<and> map_of (s_release (SetReleaseClosure d c s)) = (map_of (s_release s))(d \<mapsto> c)
    \<and> distinct (map fst (s_release (SetReleaseClosure d c s)))
    \<and> length (s_release (SetReleaseClosure d c s)) + length (s_posted (SetReleaseClosure d c s))
        = Suc (length (s_release s) + length (s_posted s))
    \<and> s_home (SetReleaseClosure d c s) = s_home s \<and> s_handles (SetReleaseClosure d c s) = s_handles s
    \<and> s_graphs (SetReleaseClosure d c s) = s_graphs s \<and> s_busy (SetReleaseClosure d c s) = s_busy s
    \<and> s_done (SetReleaseClosure d c s) = s_done s \<and> s_running (SetReleaseClosure d c s) = s_running s
    \<and> s_held (SetReleaseClosure d c s) = s_held s \<and> s_sub (SetReleaseClosure d c s) = s_sub s"
proof (cases "map_of (s_release s) d")
  case None
  then show ?thesis using assms release_update_new[OF None, of c]
    by (simp add: SetReleaseClosure_def Let_def places_def pool_ctxs_def distinct_update length_update update_conv')
next
  case (Some c0)
  have m: "mset (map snd (AList.update d c (s_release s))) + {#c0#} = mset (map snd (s_release s)) + {#c#}"
    using release_update_old[OF Some] .
  have "places (SetReleaseClosure d c s)
      = mset (pool_ctxs s) + (mset (map snd (AList.update d c (s_release s))) + {#c0#}) + mset (s_posted s) + mset (map snd (s_sub s))"
    using Some by (simp add: SetReleaseClosure_def Let_def places_def pool_ctxs_def)
  then have "places (SetReleaseClosure d c s) = places s + {#c#}" unfolding m by (simp add: places_def)
  then show ?thesis using assms Some by (simp add: SetReleaseClosure_def Let_def distinct_update length_update update_conv')
qed

lemma pool_inv_in_range: "pool_inv s \<Longrightarrow> \<forall>x \<in># places s. x < length (s_home s)"
  by (simp add: pool_inv_def)

definition busy_ok :: "graph_store \<Rightarrow> bool" where
  "busy_ok s = (distinct (map fst (s_done s) @ map fst (s_busy s))
     \<and> (\<forall>(r, c, d) \<in> set (s_busy s). c < length (s_home s) \<and> d \<in> fst ` set (s_release s)))"

definition store_inv :: "graph_store \<Rightarrow> bool" where
  "store_inv s = (pool_inv s \<and> busy_ok s)"

definition matched :: "graph_store \<Rightarrow> bool" where
  "matched s = (distinct (map (snd \<circ> snd) (s_busy s)) \<and> (\<forall>(r, c, d) \<in> set (s_busy s). map_of (s_release s) d = Some c))"

lemma call_done_fields [simp]:
  "places (call_done r x s) = places s" "s_home (call_done r x s) = s_home s" "homes_ok (call_done r x s) = homes_ok s"
  "s_release (call_done r x s) = s_release s" "s_posted (call_done r x s) = s_posted s" "s_busy (call_done r x s) = s_busy s"
  "s_running (call_done r x s) = s_running s" "s_done (call_done r x s) = s_done s @ [(r, x)]"
  by (simp_all add: call_done_def places_def pool_ctxs_def homes_ok_def)

lemma call_done_inv:
  assumes "store_inv s" "r \<notin> fst ` set (s_busy s) \<union> fst ` set (s_done s)"
  shows "store_inv (call_done r x s)"
  using assms by (auto simp: store_inv_def pool_inv_def busy_ok_def)

lemma GetGraphClusterContext_effect:
  assumes inv: "pool_inv s" and g: "GetGraphClusterContext cluster s = (r, s')"
  shows "case r of
      None \<Rightarrow> s' = s
    | Some c \<Rightarrow> homes_ok s' \<and> c < length (s_home s') \<and> places s' + {#c#} = mset [0..<length (s_home s')]
        \<and> length (s_home s) \<le> length (s_home s')
        \<and> s_release s' = s_release s \<and> s_posted s' = s_posted s \<and> s_sub s' = s_sub s \<and> s_busy s' = s_busy s
        \<and> s_done s' = s_done s \<and> s_running s' = s_running s \<and> s_held s' = s_held s"
proof (cases "FindGraphClusterByName s cluster")
  case None
  then show ?thesis using g by (auto simp: GetGraphClusterContext_def)
next
  case (Some i)
  obtain c s1 where c: "GetContext i s = (c, s1)" by fastforce
  then have r: "r = Some c" "s' = s1" using g Some by (auto simp: GetGraphClusterContext_def)
  have homes: "homes_ok s" using inv by (simp add: pool_inv_def)
  have "i < length (s_handles s)"
    using map_of_SomeD[OF Some[unfolded FindGraphClusterByName_def]] homes unfolding homes_ok_def by blast
  note e = GetContext_effect[OF homes this c pool_inv_in_range[OF inv]]
  have "places s1 + {#c#} = mset [0..<length (s_home s1)] \<and> length (s_home s) \<le> length (s_home s1)"
    using e inv by (auto simp: pool_inv_def atLeastLessThanSuc)
  then show ?thesis using e r by auto
qed

text \<open>The new request of an execution, when a context was found.\<close>

lemma execute_effect:
  fixes d :: nat
  assumes inv: "store_inv s" and r: "r \<notin> fst ` set (s_busy s) \<union> fst ` set (s_done s)"
    and g: "GetGraphClusterContext cluster s = (Some c, s1)"
  defines "t \<equiv> SetReleaseClosure d c (s1\<lparr>s_running := u32 (s_running s1 + 1)\<rparr>)"
  shows "store_inv t \<and> store_inv (t\<lparr>s_busy := (r, c, d) # s_busy t\<rparr>) \<and> s_busy t = s_busy s \<and> s_done t = s_done s
    \<and> map_of (s_release t) = (map_of (s_release s))(d \<mapsto> c)"
proof -
  let ?s1 = "s1\<lparr>s_running := u32 (s_running s1 + 1)\<rparr>"
  have pi: "pool_inv s" and bo: "busy_ok s" using inv by (simp_all add: store_inv_def)
  have e: "homes_ok s1" "c < length (s_home s1)" "places s1 + {#c#} = mset [0..<length (s_home s1)]"
    "length (s_home s) \<le> length (s_home s1)" "s_release s1 = s_release s" "s_posted s1 = s_posted s"
    "s_busy s1 = s_busy s" "s_done s1 = s_done s" "s_running s1 = s_running s"
    using GetGraphClusterContext_effect[OF pi g] by simp_all
  have "distinct (map fst (s_release ?s1))" using pi e(5) by (simp add: pool_inv_def)
  note sr = SetReleaseClosure_effect[OF this, of d c]
  have pl: "places ?s1 = places s1" by (simp add: places_def pool_ctxs_def)
  have ho: "homes_ok t" using e(1) sr unfolding t_def homes_ok_def by simp
  have run: "u32 (s_running s1 + 1) = u32 (Suc (length (s_release s) + length (s_posted s)))"
    using pi e(9) by (simp add: pool_inv_def u32_def mod_Suc_eq)
  have "pool_inv t"
    using sr e pl ho run unfolding t_def pool_inv_def by simp
  moreover have keys: "fst ` set (s_release t) = insert d (fst ` set (s_release s))"
  proof -
    have "map_of (s_release t) = (map_of (s_release s))(d \<mapsto> c)" using sr e(5) unfolding t_def by simp
    then have "dom (map_of (s_release t)) = insert d (dom (map_of (s_release s)))" by simp
    then show ?thesis by (simp add: dom_map_of_conv_image_fst)
  qed
  moreover have busy: "s_busy t = s_busy s" "s_done t = s_done s" "s_home t = s_home s1" using sr e unfolding t_def by simp_all
  ultimately have "busy_ok t" using bo e(4) by (auto simp: busy_ok_def)
  have "pool_inv (t\<lparr>s_busy := (r, c, d) # s_busy t\<rparr>)"
    using \<open>pool_inv t\<close> by (simp add: pool_inv_def places_def pool_ctxs_def homes_ok_def)
  moreover have "busy_ok (t\<lparr>s_busy := (r, c, d) # s_busy t\<rparr>)"
    using \<open>busy_ok t\<close> r e(2) busy keys by (auto simp: busy_ok_def)
  moreover have "map_of (s_release t) = (map_of (s_release s))(d \<mapsto> c)" using sr e(5) unfolding t_def by simp
  ultimately show ?thesis using \<open>pool_inv t\<close> \<open>busy_ok t\<close> busy by (simp add: store_inv_def)
qed
section \<open>Every step\<close>

lemma StoreExecute_cases:
  assumes "snd (StoreExecute has_executor finds r data cluster graph s) = t"
    and "store_inv s"
  obtains (refused) "t = call_done r (-1) s"
  | (missing) d c s1 where "data = Some d" "GetGraphClusterContext cluster s = (Some c, s1)"
      "t = call_done r (-1) (SetReleaseClosure d c (s1\<lparr>s_running := u32 (s_running s1 + 1)\<rparr>))"
  | (started) d c s1 where "data = Some d" "GetGraphClusterContext cluster s = (Some c, s1)"
      "t = (SetReleaseClosure d c (s1\<lparr>s_running := u32 (s_running s1 + 1)\<rparr>))
             \<lparr>s_busy := (r, c, d) # s_busy (SetReleaseClosure d c (s1\<lparr>s_running := u32 (s_running s1 + 1)\<rparr>))\<rparr>"
proof -
  obtain oc s1 where g: "GetGraphClusterContext cluster s = (oc, s1)" by fastforce
  note e = GetGraphClusterContext_effect[OF _ g] 
  have "oc = None \<Longrightarrow> s1 = s" using e assms(2) by (simp add: store_inv_def)
  then show thesis
    using assms(1) g that
    by (cases "\<not> has_executor \<or> data = None"; cases oc; cases "finds (the oc) graph") (auto simp: StoreExecute_def Let_def)
qed

lemma inv_execute:
  assumes "store_inv s" "r \<notin> fst ` set (s_busy s) \<union> fst ` set (s_done s)"
  shows "store_inv (snd (StoreExecute has_executor finds r data cluster graph s))"
  using refl[of "snd (StoreExecute has_executor finds r data cluster graph s)"] assms(1)
proof (cases rule: StoreExecute_cases)
  case refused
  then show ?thesis using call_done_inv[OF assms] by simp
next
  case (missing d c s1)
  note e = execute_effect[OF assms missing(2), of d]
  then show ?thesis unfolding missing(3) using assms(2) by (intro call_done_inv) auto
next
  case (started d c s1)
  from execute_effect[OF assms started(2), of d] show ?thesis unfolding started(3) by blast
qed

lemma update_subset: "set (AList.update k v xs) \<subseteq> insert (k, v) (set xs)"
  by (induction xs) auto

lemma inv_load:
  assumes inv: "store_inv s" and h: "HandleBuild F capacity setup (length (s_home s)) c = Some h"
  shows "store_inv (snd (put_handle name h s))"
proof -
  obtain k where k: "h_contexts h = [length (s_home s)..<length (s_home s) + k]"
    using h by (auto simp: HandleBuild_def split: outcome.splits if_splits)
  let ?t = "snd (put_handle name h s)"
  have homes: "homes_ok s" and pl: "places s = mset [0..<length (s_home s)]" using inv by (simp_all add: store_inv_def pool_inv_def)
  have t: "s_home ?t = s_home s @ replicate k (length (s_handles s))" "s_handles ?t = s_handles s @ [h]"
    using k by (simp_all add: put_handle_def Let_def)
  have "places ?t = places s + mset (h_contexts h)" by (simp add: put_handle_def Let_def places_def pool_ctxs_def)
  then have "places ?t = mset [0..<length (s_home ?t)]"
    unfolding pl k t(1) by (simp only: mset_append[symmetric] length_append length_replicate upt_add_eq_append[OF le0, symmetric])
  moreover have "homes_ok ?t"
  proof -
    have old: "x < length (s_home s)" if "i < length (s_handles s)" "x \<in> set (h_contexts (s_handles s ! i))" for i x
    proof -
      have "x \<in># places s" using that nth_mem[OF that(1)] by (auto simp: places_def pool_ctxs_def)
      then show ?thesis using pl by simp
    qed
    have "\<forall>(n, i) \<in> set (s_graphs ?t). i < length (s_handles ?t)"
    proof -
      have "set (AList.update name (length (s_handles s)) (s_graphs s)) \<subseteq> insert (name, length (s_handles s)) (set (s_graphs s))"
        by (rule update_subset)
      then show ?thesis using homes by (force simp: put_handle_def Let_def homes_ok_def)
    qed
    moreover have "\<forall>x < length (s_home ?t). s_home ?t ! x < length (s_handles ?t)"
      using homes by (auto simp: t nth_append homes_ok_def less_Suc_eq)
    moreover have "\<forall>i < length (s_handles ?t). \<forall>x \<in> set (h_contexts (s_handles ?t ! i)). s_home ?t ! x = i"
      using homes old k by (auto simp: t nth_append homes_ok_def less_Suc_eq)
    ultimately show ?thesis unfolding homes_ok_def by blast
  qed
  ultimately show ?thesis
    using inv by (fastforce simp: store_inv_def pool_inv_def busy_ok_def put_handle_def Let_def)
qed

lemma inv_borrow:
  assumes inv: "store_inv s"
  shows "store_inv (BorrowContext p cluster s)"
proof -
  obtain oc s1 where g: "GetGraphClusterContext cluster s = (oc, s1)" by fastforce
  have e: "case oc of
      None \<Rightarrow> s1 = s
    | Some c \<Rightarrow> homes_ok s1 \<and> c < length (s_home s1) \<and> places s1 + {#c#} = mset [0..<length (s_home s1)]
        \<and> length (s_home s) \<le> length (s_home s1)
        \<and> s_release s1 = s_release s \<and> s_posted s1 = s_posted s \<and> s_sub s1 = s_sub s \<and> s_busy s1 = s_busy s
        \<and> s_done s1 = s_done s \<and> s_running s1 = s_running s \<and> s_held s1 = s_held s"
    by (rule GetGraphClusterContext_effect[OF _ g]) (use inv in \<open>simp add: store_inv_def\<close>)
  show ?thesis
  proof (cases oc)
    case None
    then show ?thesis using e g inv by (simp add: BorrowContext_def)
  next
    case (Some c)
    let ?t = "s1\<lparr>s_sub := s_sub s1 @ [(p, c)]\<rparr>"
    have "places ?t = places s1 + {#c#}" by (simp add: places_def pool_ctxs_def)
    then have "pool_inv ?t" using e Some inv by (simp add: store_inv_def pool_inv_def homes_ok_def)
    moreover have "busy_ok ?t" using e Some inv by (auto simp: store_inv_def busy_ok_def)
    ultimately show ?thesis using Some g by (simp add: BorrowContext_def store_inv_def)
  qed
qed

lemma inv_finish:
  assumes inv: "store_inv s" and b: "b \<in> set (s_busy s)"
  shows "store_inv (GraphDone b code s)"
proof -
  have perm: "mset (s_busy s) = mset (b # remove1 b (s_busy s))" using b by simp
  have d: "distinct (map fst (s_done s) @ map fst (s_busy s))" using inv by (simp add: store_inv_def busy_ok_def)
  have "mset (map fst (s_done s @ [(fst b, code)]) @ map fst (remove1 b (s_busy s))) = mset (map fst (s_done s) @ map fst (s_busy s))"
    using arg_cong[OF perm, of "image_mset fst"] by simp
  then have "distinct (map fst (s_done s @ [(fst b, code)]) @ map fst (remove1 b (s_busy s)))"
    using d mset_eq_imp_distinct_iff by blast
  moreover have "set (remove1 b (s_busy s)) \<subseteq> set (s_busy s)" by (rule set_remove1_subset)
  ultimately show ?thesis
    using inv by (auto simp: GraphDone_def call_done_def store_inv_def pool_inv_def busy_ok_def places_def pool_ctxs_def homes_ok_def)
qed

lemma inv_destroy:
  assumes inv: "store_inv s" and d: "d \<notin> (snd \<circ> snd) ` set (s_busy s)"
  shows "store_inv (DestroyData d s)"
proof (cases "map_of (s_release s) d")
  case None
  then show ?thesis using inv by (simp add: DestroyData_def)
next
  case (Some c)
  let ?t = "DestroyData d s"
  have keys: "distinct (map fst (s_release s))" using inv by (simp add: store_inv_def pool_inv_def)
  note del = release_delete[OF keys Some]
  have t: "s_release ?t = AList.delete d (s_release s)" "s_posted ?t = s_posted s @ [c]" "s_home ?t = s_home s"
    "homes_ok ?t = homes_ok s" "s_running ?t = s_running s" "s_busy ?t = s_busy s" "s_done ?t = s_done s"
    using Some by (simp_all add: DestroyData_def homes_ok_def)
  have pl: "places ?t = places s"
    using Some del[symmetric] by (simp add: DestroyData_def places_def pool_ctxs_def)
  have len: "Suc (length (AList.delete d (s_release s))) = length (s_release s)"
    using arg_cong[OF del, of size] by simp
  have dist: "distinct (map fst (AList.delete d (s_release s)))" using keys by (rule distinct_delete)
  have mem: "x \<in> fst ` set (AList.delete d (s_release s)) \<longleftrightarrow> x \<in> fst ` set (s_release s) \<and> x \<noteq> d" for x
    by (force simp: AList.delete_eq)
  have n: "length (AList.delete d (s_release s)) + length (s_posted s @ [c]) = length (s_release s) + length (s_posted s)"
    using len by simp
  have "pool_inv ?t"
    unfolding pool_inv_def t n using inv pl dist by (simp add: pool_inv_def store_inv_def)
  moreover have "busy_ok ?t"
    unfolding busy_ok_def t
  proof (intro conjI ballI)
    show "distinct (map fst (s_done s) @ map fst (s_busy s))" using inv by (simp add: store_inv_def busy_ok_def)
    fix b
    assume b: "b \<in> set (s_busy s)"
    obtain r x y where "b = (r, x, y)" by (metis prod_cases3)
    moreover have "y \<noteq> d" using d b calculation by force
    moreover have "x < length (s_home s) \<and> y \<in> fst ` set (s_release s)"
      using inv b calculation(1) by (auto simp: store_inv_def busy_ok_def)
    ultimately show "case b of (r, x, y) \<Rightarrow> x < length (s_home s) \<and> y \<in> fst ` set (AList.delete d (s_release s))"
      using mem by simp
  qed
  ultimately show ?thesis by (simp add: store_inv_def)
qed

lemma inv_release:
  assumes inv: "store_inv s" and c: "c \<in> set (s_posted s)"
  shows "store_inv (RunRelease c s)"
proof -
  let ?s = "s\<lparr>s_posted := remove1 c (s_posted s)\<rparr>"
  have pl: "places s = mset [0..<length (s_home s)]" and homes: "homes_ok s" using inv by (simp_all add: store_inv_def pool_inv_def)
  have m: "places ?s + {#c#} = places s"
  proof -
    have "mset (s_posted s) = mset (remove1 c (s_posted s)) + {#c#}" using c by simp
    then show ?thesis by (simp add: places_def pool_ctxs_def del: mset_remove1)
  qed
  have "c \<in># places s" using c by (simp add: places_def)
  then have cl: "c < length (s_home s)" using pl by simp
  have "snd p < length (s_home s)" if "p \<in> set (s_sub s)" for p
  proof -
    have "snd p \<in># places s" using that by (auto simp: places_def)
    then show ?thesis using pl by simp
  qed
  then have r: "release_keeps ?s (ReleaseContext (length (s_sub s)) c ?s)
      \<and> places (ReleaseContext (length (s_sub s)) c ?s) = places ?s + {#c#}"
    using ReleaseContext_effect[of ?s c] homes cl by (simp add: homes_ok_def)
  let ?t = "ReleaseContext (length (s_sub s)) c ?s"
  have len: "0 < length (s_posted s)" using c by (cases "s_posted s") auto
  then have eq: "length (s_release s) + (length (s_posted s) - 1) = length (s_release s) + length (s_posted s) - 1" by arith
  have run: "s_running s = u32 (length (s_release s) + length (s_posted s))" using inv by (simp add: store_inv_def pool_inv_def)
  have fs: "snd (fetch_sub (s_running s)) = u32 (length (s_release s) + (length (s_posted s) - 1))"
    unfolding run eq by (rule fetch_sub_u32) (use len in simp)
  have k: "s_home ?t = s_home s" "s_release ?t = s_release s" "s_posted ?t = remove1 c (s_posted s)"
    "s_running ?t = s_running s" "homes_ok ?t" "s_busy ?t = s_busy s" "s_done ?t = s_done s"
    using r by (simp_all add: release_keeps_def)
  let ?u = "?t\<lparr>s_running := snd (fetch_sub (s_running ?t))\<rparr>"
  have "places ?u = places ?t" "homes_ok ?u = homes_ok ?t" by (simp_all add: places_def pool_ctxs_def homes_ok_def)
  moreover have "places ?t = places s" using r m by simp
  moreover have "distinct (map fst (s_release s))" using inv by (simp add: store_inv_def pool_inv_def)
  ultimately have "pool_inv ?u" using k fs pl c by (simp add: pool_inv_def length_remove1)
  moreover have "busy_ok ?u" using k inv by (simp add: busy_ok_def store_inv_def)
  ultimately show ?thesis by (simp add: RunRelease_def store_inv_def Let_def)
qed

lemma store_inv_step: "store_inv s \<Longrightarrow> store_step disc s t \<Longrightarrow> store_inv t"
proof (erule store_step.cases, goal_cases)
  case 1
  then show ?case using inv_load by simp
next
  case (2 d s')
  then show ?case by (simp add: store_inv_def pool_inv_def busy_ok_def homes_ok_def places_def pool_ctxs_def)
next
  case 3
  then show ?case using inv_execute by simp
next
  case 4
  then show ?case using inv_finish by simp
next
  case 5
  then show ?case using inv_borrow by simp
next
  case 6
  then show ?case by (simp add: store_inv_def pool_inv_def busy_ok_def homes_ok_def places_def pool_ctxs_def)
next
  case 7
  then show ?case using inv_destroy by simp
next
  case 8
  then show ?case using inv_release by simp
qed

lemma store_inv_new: "store_inv new_store"
  by (simp add: store_inv_def pool_inv_def busy_ok_def homes_ok_def places_def pool_ctxs_def new_store_def u32_def)

interpretation store_system: invariant_system "store_step disc" new_store store_inv for disc
  by unfold_locales (rule store_inv_new, erule (1) store_inv_step)
section \<open>Properties\<close>

lemma reachable_store_inv: "store_reachable disc s \<Longrightarrow> store_inv s"
  unfolding store_reachable_def by (rule store_system.always_inv)

lemma one_place:
  assumes "store_reachable disc s"
  shows "distinct (pool_ctxs s @ map snd (s_release s) @ s_posted s @ map snd (s_sub s))
    \<and> set (pool_ctxs s @ map snd (s_release s) @ s_posted s @ map snd (s_sub s)) = {..<length (s_home s)}"
proof -
  have m: "mset (pool_ctxs s @ map snd (s_release s) @ s_posted s @ map snd (s_sub s)) = mset [0..<length (s_home s)]"
    using reachable_store_inv[OF assms] by (simp add: store_inv_def pool_inv_def places_def add.assoc)
  show ?thesis using mset_eq_imp_distinct_iff[OF m] mset_eq_setD[OF m] by (simp add: lessThan_atLeast0)
qed

text \<open>
  C8: In every state of a store each cluster context that was ever made is in exactly one place: the
  queue of its own cluster, the release closure of one data context, the release functions posted to
  the background worker, or a vertex that runs a subgraph.
\<close>
theorem contexts_partitioned:
  "store_reachable disc s \<Longrightarrow>
    distinct (pool_ctxs s @ map snd (s_release s) @ s_posted s @ map snd (s_sub s))
    \<and> set (pool_ctxs s @ map snd (s_release s) @ s_posted s @ map snd (s_sub s)) = {..<length (s_home s)}
    \<and> (\<forall>i < length (s_handles s). \<forall>c \<in> set (h_contexts (s_handles s ! i)). s_home s ! c = i)"
  using one_place[of disc s] reachable_store_inv[of disc s] by (simp add: store_inv_def pool_inv_def homes_ok_def)

text \<open>
  The counter of running graphs, for which the destructor of the store waits, is the number of
  contexts that requests were given and that did not come back to a queue.
\<close>
theorem running_counts:
  "store_reachable disc s \<Longrightarrow> length (s_home s) < 2 ^ 32 \<Longrightarrow>
    s_running s = card (set (map snd (s_release s)) \<union> set (s_posted s))"
proof -
  assume r: "store_reachable disc s" and n: "length (s_home s) < 2 ^ 32"
  note p = one_place[OF r]
  have d: "distinct (map snd (s_release s) @ s_posted s)" using p by auto
  have "length (map snd (s_release s) @ s_posted s) = card (set (map snd (s_release s) @ s_posted s))"
    using distinct_card[OF d] by simp
  moreover have "card (set (map snd (s_release s) @ s_posted s)) \<le> card {..<length (s_home s)}"
    using p by (intro card_mono) auto
  ultimately have len: "length (s_release s) + length (s_posted s) \<le> length (s_home s)"
    "length (s_release s) + length (s_posted s) = card (set (map snd (s_release s)) \<union> set (s_posted s))"
    by simp_all
  then show ?thesis using reachable_store_inv[OF r] n by (simp add: store_inv_def pool_inv_def u32_small)
qed

text \<open>
  Every request is answered at most once, and not while its graph is still running.
\<close>
theorem answered_once:
  "store_reachable disc s \<Longrightarrow> distinct (map fst (s_done s)) \<and> distinct (map fst (s_busy s))
    \<and> fst ` set (s_done s) \<inter> fst ` set (s_busy s) = {}"
  using reachable_store_inv[of disc s] by (auto simp: store_inv_def busy_ok_def)

text \<open>
  An execution answers its request at once or starts it, and when it reports an error it has
  answered with that same error, so that the caller of \<open>SyncExecute\<close> gets the code of the answer.
\<close>
theorem execute_answers:
  "StoreExecute has_executor finds r data cluster graph s = (rc, t) \<Longrightarrow>
    (s_done t = s_done s @ [(r, -1)] \<and> (rc = -1 \<or> rc = 0) \<and> SyncExecute rc (-1) = -1)
    \<or> (rc = 0 \<and> (\<exists>c d. data = Some d \<and> s_busy t = (r, c, d) # s_busy s \<and> s_done t = s_done s) \<and> (\<forall>code. SyncExecute rc code = code))"
proof -
  assume e: "StoreExecute has_executor finds r data cluster graph s = (rc, t)"
  have gc: "s_done (snd (GetContext i s)) = s_done s" "s_busy (snd (GetContext i s)) = s_busy s" for i
    by (simp_all add: GetContext_def modify_handle_def split: list.splits)
  obtain oc s1 where g: "GetGraphClusterContext cluster s = (oc, s1)" by fastforce
  have s1: "s_done s1 = s_done s" "s_busy s1 = s_busy s"
    using g gc by (auto simp: GetGraphClusterContext_def split: option.splits prod.splits) (metis snd_conv)+
  have cl: "s_done (SetReleaseClosure d c u) = s_done u" "s_busy (SetReleaseClosure d c u) = s_busy u" for d c u
    by (simp_all add: SetReleaseClosure_def Let_def split: option.splits)
  show ?thesis using e g s1
    by (auto simp: StoreExecute_def SyncExecute_def call_done_def cl Let_def split: if_splits option.splits)
qed

section \<open>Contexts of running graphs\<close>

definition careful_inv :: "graph_store \<Rightarrow> bool" where
  "careful_inv s = (store_inv s \<and> matched s)"

lemma matched_execute:
  assumes inv: "careful_inv s" and r: "r \<notin> fst ` set (s_busy s) \<union> fst ` set (s_done s)"
    and d: "\<forall>d. data = Some d \<longrightarrow> d \<notin> (snd \<circ> snd) ` set (s_busy s)"
  shows "matched (snd (StoreExecute has_executor finds r data cluster graph s))"
proof -
  have si: "store_inv s" and ma: "matched s" using inv by (simp_all add: careful_inv_def)
  have keep: "(case b of (r, c', d') \<Rightarrow> ((map_of (s_release s))(x \<mapsto> c)) d' = Some c')"
    if "b \<in> set (s_busy s)" "data = Some x" for b x c
  proof -
    obtain r c' d' where bb: "b = (r, c', d')" by (metis prod_cases3)
    have "d' \<in> (snd \<circ> snd) ` set (s_busy s)" using that(1) bb by force
    then have "d' \<noteq> x" using d that(2) by blast
    moreover have "map_of (s_release s) d' = Some c'" using ma that(1) bb by (auto simp: matched_def)
    ultimately show ?thesis using bb by simp
  qed
  show ?thesis
    using refl[of "snd (StoreExecute has_executor finds r data cluster graph s)"] si
  proof (cases rule: StoreExecute_cases)
    case refused
    then show ?thesis using ma by (simp add: matched_def)
  next
    case (missing x c s1)
    note e = execute_effect[OF si r missing(2), of x]
    show ?thesis unfolding missing(3) using e keep[OF _ missing(1)] ma by (auto simp: matched_def)
  next
    case (started x c s1)
    note e = execute_effect[OF si r started(2), of x]
    show ?thesis unfolding started(3) using e keep[OF _ started(1)] ma d started(1) by (auto simp: matched_def)
  qed
qed

lemma careful_step: "careful_inv s \<Longrightarrow> store_step True s t \<Longrightarrow> careful_inv t"
proof -
  assume inv: "careful_inv s" and st: "store_step True s t"
  have ma: "matched s" and si: "store_inv s" using inv by (simp_all add: careful_inv_def)
  have "matched t"
    using st
  proof cases
    case (load F capacity f c h name)
    then show ?thesis using ma by (simp add: matched_def put_handle_def Let_def)
  next
    case (execute r data has_executor finds cluster graph)
    then show ?thesis using matched_execute[OF inv] by simp
  next
    case (finish b code)
    have "set (remove1 b (s_busy s)) \<subseteq> set (s_busy s)" by (rule set_remove1_subset)
    moreover have "distinct (map (snd \<circ> snd) (remove1 b (s_busy s)))"
      using ma unfolding matched_def
      by (metis (no_types, lifting) distinct_map distinct_remove1 inj_on_subset set_remove1_subset)
    ultimately show ?thesis using ma finish by (auto simp: matched_def GraphDone_def call_done_def)
  next
    case (borrow p cluster)
    obtain oc s1 where g: "GetGraphClusterContext cluster s = (oc, s1)" by fastforce
    have "case oc of None \<Rightarrow> s1 = s | Some c \<Rightarrow> s_release s1 = s_release s \<and> s_busy s1 = s_busy s"
      using GetGraphClusterContext_effect[OF _ g] si by (auto simp: store_inv_def split: option.splits)
    then show ?thesis using g ma borrow by (auto simp: BorrowContext_def matched_def split: option.splits)
  next
    case (destroy d)
    have "map_of (AList.delete d (s_release s)) d' = Some c'" if b: "(r, c', d') \<in> set (s_busy s)" for r c' d'
    proof -
      have "d' \<noteq> d" using destroy(3) b by force
      then show ?thesis using ma b by (auto simp: matched_def delete_conv')
    qed
    then show ?thesis using ma destroy(1) by (auto simp: DestroyData_def matched_def split: option.splits)
  next
    case (release c)
    let ?s = "s\<lparr>s_posted := remove1 c (s_posted s)\<rparr>"
    have pl: "places s = mset [0..<length (s_home s)]" and homes: "homes_ok s" using si by (simp_all add: store_inv_def pool_inv_def)
    have "c \<in># places s" using release(2) by (simp add: places_def)
    moreover have "snd p \<in># places s" if "p \<in> set (s_sub s)" for p using that by (auto simp: places_def)
    ultimately have "release_keeps ?s (ReleaseContext (length (s_sub s)) c ?s)"
      using ReleaseContext_effect[of ?s c] homes pl by (simp add: homes_ok_def)
    then show ?thesis using ma release by (simp add: matched_def RunRelease_def Let_def release_keeps_def)
  qed (use ma in \<open>simp_all add: matched_def\<close>)
  then show ?thesis using store_inv_step[OF si st] by (simp add: careful_inv_def)
qed

interpretation careful_system: invariant_system "store_step True" new_store careful_inv
proof unfold_locales
  show "careful_inv new_store" by (simp add: careful_inv_def store_inv_new) (simp add: matched_def new_store_def)
qed (rule careful_step)

text \<open>
  C9: As long as no caller gives the data context of a busy request to another one, the context of a
  running graph is held for that request alone: it is in no queue, it is not about to be reset, no
  vertex has it and no other running request.
\<close>
theorem running_context_exclusive:
  "store_reachable True s \<Longrightarrow> (r, c, d) \<in> set (s_busy s) \<Longrightarrow>
    map_of (s_release s) d = Some c \<and> c \<notin> set (pool_ctxs s) \<and> c \<notin> set (s_posted s) \<and> c \<notin> set (map snd (s_sub s))
    \<and> (\<forall>r' d'. (r', c, d') \<in> set (s_busy s) \<longrightarrow> r' = r \<and> d' = d)"
proof -
  assume re: "store_reachable True s" and b: "(r, c, d) \<in> set (s_busy s)"
  have inv: "careful_inv s" using re careful_system.always_inv by (simp add: store_reachable_def)
  have m: "map_of (s_release s) d' = Some c'" if "(r', c', d') \<in> set (s_busy s)" for r' c' d'
    using inv that by (auto simp: careful_inv_def matched_def)
  have mem: "c' \<in> set (map snd (s_release s))" if "map_of (s_release s) d' = Some c'" for c' d'
    using map_of_SomeD[OF that] by force
  note p = one_place[OF re]
  have c: "c \<notin> set (pool_ctxs s)" "c \<notin> set (s_posted s)" "c \<notin> set (map snd (s_sub s))"
    using p mem[OF m[OF b]] by (auto simp del: set_map)
  have "r' = r \<and> d' = d" if o: "(r', c, d') \<in> set (s_busy s)" for r' d'
  proof -
    have "(d', c) \<in> set (s_release s)" "(d, c) \<in> set (s_release s)" using map_of_SomeD m o b by fast+
    moreover have "distinct (map snd (s_release s))" using p by simp
    ultimately have "d' = d" by (metis (no_types, lifting) distinct_map inj_onD prod.inject snd_conv)
    moreover have "inj_on (snd \<circ> snd) (set (s_busy s))" using inv by (simp add: careful_inv_def matched_def distinct_map)
    then have "(r', c, d') = (r, c, d)" using inj_onD[of "snd \<circ> snd" "set (s_busy s)" "(r', c, d')" "(r, c, d)"] o b \<open>d' = d\<close>
      by simp
    ultimately show ?thesis by simp
  qed
  then show ?thesis using c m[OF b] by blast
qed
section \<open>Examples\<close>

definition small_cluster :: cluster where
  "small_cluster = new_cluster\<lparr>c_default_context_pool_size := 0\<rparr>"

lemma small_handle: "\<exists>h. HandleBuild Map.empty 0 (\<lambda>_. True) 0 small_cluster = Some h \<and> h_contexts h = []"
  by (simp add: HandleBuild_def ClusterBuild_def small_cluster_def new_cluster_def Let_def)

definition step_execute :: "nat \<Rightarrow> graph_store \<Rightarrow> graph_store" where
  "step_execute r s = snd (StoreExecute True (\<lambda>_ _. True) r (Some 0) ''m'' ''g'' s)"

definition loaded :: "cluster_handle \<Rightarrow> graph_store" where
  "loaded h = (snd (put_handle ''m'' h new_store))\<lparr>s_held := [0]\<rparr>"

lemma loaded_reachable:
  assumes "HandleBuild Map.empty 0 (\<lambda>_. True) 0 small_cluster = Some h"
  shows "store_reachable disc (loaded h)"
proof -
  have "store_step disc new_store (snd (put_handle ''m'' h new_store))"
    by (rule load[of Map.empty 0 "\<lambda>_. True"]) (use assms in \<open>simp add: new_store_def\<close>)
  moreover have "store_step disc (snd (put_handle ''m'' h new_store)) (loaded h)"
    using create[of 0 "snd (put_handle ''m'' h new_store)" disc]
    by (simp add: loaded_def put_handle_def new_store_def Let_def)
  ultimately show ?thesis unfolding store_reachable_def by (meson converse_rtranclp_into_rtranclp rtranclp.rtrancl_refl)
qed

lemma executed_reachable:
  assumes "HandleBuild Map.empty 0 (\<lambda>_. True) 0 small_cluster = Some h" "h_contexts h = []"
  shows "store_reachable disc (step_execute 0 (loaded h)) \<and> s_busy (step_execute 0 (loaded h)) = [(0, 0, 0)]"
proof -
  have "store_step disc (loaded h) (step_execute 0 (loaded h))"
    unfolding step_execute_def by (rule execute) (simp_all add: loaded_def put_handle_def new_store_def Let_def)
  then have "store_reachable disc (step_execute 0 (loaded h))"
    using loaded_reachable[OF assms(1), of disc] unfolding store_reachable_def by (rule rtranclp.rtrancl_into_rtrancl[rotated])
  moreover have "s_busy (step_execute 0 (loaded h)) = [(0, 0, 0)]"
    using assms(2) by (simp add: step_execute_def loaded_def put_handle_def new_store_def Let_def StoreExecute_def
        GetGraphClusterContext_def FindGraphClusterByName_def GetContext_def SetReleaseClosure_def)
  ultimately show ?thesis by simp
qed

theorem contexts_partitioned_witness: "\<exists>s. set (pool_ctxs s @ map snd (s_release s) @ s_posted s @ map snd (s_sub s)) = {..<length (s_home s)}
    \<and> s_busy s = [(0, 0, 0)]"
proof -
  obtain h where h: "HandleBuild Map.empty 0 (\<lambda>_. True) 0 small_cluster = Some h" "h_contexts h = []" using small_handle by blast
  note e = executed_reachable[OF h, of True]
  show ?thesis
    by (rule exI[of _ "step_execute 0 (loaded h)"]) (use contexts_partitioned[OF e[THEN conjunct1]] e in \<open>simp del: set_append\<close>)
qed

theorem running_counts_witness: "\<exists>s :: graph_store. s_running s = card (set (map snd (s_release s)) \<union> set (s_posted s)) \<and> length (s_home s) = 0"
proof -
  obtain h where h: "HandleBuild Map.empty 0 (\<lambda>_. True) 0 small_cluster = Some h" "h_contexts h = []" using small_handle by blast
  have len: "length (s_home (loaded h)) = 0" using h(2) by (simp add: loaded_def put_handle_def new_store_def Let_def)
  show ?thesis by (rule exI[of _ "loaded h"]) (use running_counts[OF loaded_reachable[OF h(1), of True]] len in simp)
qed

theorem answered_once_witness: "\<exists>s :: graph_store. distinct (map fst (s_done s)) \<and> s_busy s = [(0, 0, 0)]"
proof -
  obtain h where h: "HandleBuild Map.empty 0 (\<lambda>_. True) 0 small_cluster = Some h" "h_contexts h = []" using small_handle by blast
  note e = executed_reachable[OF h, of True]
  show ?thesis by (rule exI[of _ "step_execute 0 (loaded h)"]) (use answered_once[OF e[THEN conjunct1]] e in simp)
qed

theorem execute_answers_witness:
  "s_done (snd (StoreExecute False (\<lambda>_ _. True) 7 None ''m'' ''g'' new_store)) = [(7, -1)]"
proof -
  have "\<not> (\<exists>c d. None = Some d \<and> s_busy (snd (StoreExecute False (\<lambda>_ _. True) 7 None ''m'' ''g'' new_store)) = (7, c, d) # s_busy new_store)"
    by simp
  then show ?thesis
    using execute_answers[OF prod.collapse[symmetric], of False "\<lambda>_ _. True" 7 None "''m''" "''g''" new_store]
    by (auto simp: new_store_def)
qed

theorem running_context_exclusive_witness: "\<exists>s. (0, 0, 0) \<in> set (s_busy s) \<and> 0 \<notin> set (pool_ctxs s) \<and> 0 \<notin> set (s_posted s)"
proof -
  obtain h where h: "HandleBuild Map.empty 0 (\<lambda>_. True) 0 small_cluster = Some h" "h_contexts h = []" using small_handle by blast
  let ?s = "step_execute 0 (loaded h)"
  have e: "store_reachable True ?s" "(0, 0, 0) \<in> set (s_busy ?s)" using executed_reachable[OF h, of True] by simp_all
  then show ?thesis using running_context_exclusive[OF e] by blast
qed

section \<open>Data contexts that are used again\<close>

definition same_pools :: "graph_store \<Rightarrow> graph_store \<Rightarrow> bool" where
  "same_pools s s' = (s_home s' = s_home s \<and> s_graphs s' = s_graphs s \<and> length (s_handles s') = length (s_handles s)
     \<and> s_busy s' = s_busy s \<and> s_held s' = s_held s)"

lemma same_pools_fold:
  "(\<And>x t. same_pools t (f x t)) \<Longrightarrow> same_pools s (fold f xs s)"
proof (induction xs arbitrary: s)
  case (Cons x xs)
  have "same_pools s (f x s)" "same_pools (f x s) (fold f xs (f x s))" using Cons by blast+
  then show ?case by (simp add: same_pools_def)
qed (simp add: same_pools_def)

lemma same_pools_enqueue: "same_pools s t \<Longrightarrow> same_pools s (enqueue c t)"
  by (simp add: same_pools_def enqueue_def modify_handle_def)

lemma ReleaseContext_last: "\<exists>t. ReleaseContext n c s = enqueue c t \<and> same_pools s t"
proof (induction n arbitrary: c s)
  case 0
  have "same_pools s s" by (simp add: same_pools_def)
  then show ?case by auto
next
  case (Suc n)
  let ?f = "\<lambda>x s. if (c, x) \<in> set (s_sub s) then ReleaseContext n x (s\<lparr>s_sub := remove1 (c, x) (s_sub s)\<rparr>) else s"
  have f: "same_pools t (?f x t)" for x t
  proof -
    obtain u where "ReleaseContext n x (t\<lparr>s_sub := remove1 (c, x) (s_sub t)\<rparr>) = enqueue x u"
      "same_pools (t\<lparr>s_sub := remove1 (c, x) (s_sub t)\<rparr>) u" using Suc.IH by blast
    then show ?thesis using same_pools_enqueue by (simp add: same_pools_def)
  qed
  have "same_pools s (fold ?f (map snd (filter (\<lambda>p. fst p = c) (s_sub s))) s)"
    using f by (rule same_pools_fold)
  then show ?case by auto
qed

text \<open>A context that is released is the last of the queue of its pool.\<close>

lemma released_last:
  assumes "s_home s ! c < length (s_handles s)"
  shows "\<exists>q. h_contexts (s_handles (RunRelease c s) ! (s_home s ! c)) = q @ [c]" "same_pools s (RunRelease c s)"
proof -
  let ?s = "s\<lparr>s_posted := remove1 c (s_posted s)\<rparr>" and ?n = "length (s_sub s)"
  obtain t where t: "ReleaseContext ?n c ?s = enqueue c t" "same_pools ?s t" using ReleaseContext_last by blast
  have u: "RunRelease c s = (enqueue c t)\<lparr>s_running := snd (fetch_sub (s_running (enqueue c t)))\<rparr>"
    unfolding RunRelease_def t(1) Let_def ..
  have h: "s_home t = s_home s" "s_home s ! c < length (s_handles t)" using t(2) assms by (simp_all add: same_pools_def)
  show "\<exists>q. h_contexts (s_handles (RunRelease c s) ! (s_home s ! c)) = q @ [c]"
    using h by (simp add: u enqueue_def modify_handle_def)
  show "same_pools s (RunRelease c s)"
    using t(2) by (simp add: u same_pools_def enqueue_def modify_handle_def)
qed

lemma execute_eval:
  fixes r d :: nat and graph :: string
  assumes "FindGraphClusterByName s name = Some i" "i < length (s_handles s)" "h_contexts (s_handles s ! i) = x # xs"
  defines "t \<equiv> snd (StoreExecute True (\<lambda>_ _. True) r (Some d) name graph s)"
  shows "s_busy t = (r, x, d) # s_busy s" "s_graphs t = s_graphs s" "length (s_handles t) = length (s_handles s)"
    "h_contexts (s_handles t ! i) = xs" "s_held t = s_held s"
  using assms by (simp_all add: StoreExecute_def GetGraphClusterContext_def GetContext_def modify_handle_def
      SetReleaseClosure_def Let_def split: option.splits)

lemma one_request:
  assumes "h_contexts (s_handles s ! i) = x # xs" "i < length (s_handles s)" "FindGraphClusterByName s name = Some i"
  obtains t r d where "(store_step False)\<^sup>*\<^sup>* s t" "s_busy t = (r, x, d) # s_busy s" "r \<notin> fst ` set (s_busy s)"
    "d \<notin> set (s_held s)" "s_held t = d # s_held s" "h_contexts (s_handles t ! i) = xs" "i < length (s_handles t)"
    "FindGraphClusterByName t name = Some i"
proof -
  obtain d where d: "d \<notin> set (s_held s) \<union> fst ` set (s_release s)"
    using ex_new_if_finite[OF infinite_UNIV_nat, of "set (s_held s) \<union> fst ` set (s_release s)"] by auto
  obtain r where r: "r \<notin> fst ` set (s_busy s) \<union> fst ` set (s_done s)"
    using ex_new_if_finite[OF infinite_UNIV_nat, of "fst ` set (s_busy s) \<union> fst ` set (s_done s)"] by auto
  let ?s = "s\<lparr>s_held := d # s_held s\<rparr>"
  define t where "t = snd (StoreExecute True (\<lambda>_ _. True) r (Some d) name [] ?s)"
  have 1: "store_step False s ?s" using d by (intro create) auto
  have 2: "store_step False ?s t" unfolding t_def using r by (intro execute) auto
  have f: "FindGraphClusterByName ?s name = Some i" "i < length (s_handles ?s)" "h_contexts (s_handles ?s ! i) = x # xs"
    using assms by (simp_all add: FindGraphClusterByName_def)
  note e = execute_eval[OF f, of r d "[]", folded t_def]
  have "(store_step False)\<^sup>*\<^sup>* s t" using 1 2 by (meson converse_rtranclp_into_rtranclp r_into_rtranclp)
  with e r d assms(2,3) show thesis by (intro that[of t r d]) (auto simp: FindGraphClusterByName_def)
qed

text \<open>Whatever waits in the queue of a pool is handed out in the end, if requests keep coming.\<close>

lemma handed_out:
  "h_contexts (s_handles s ! i) = q @ [c] \<Longrightarrow> i < length (s_handles s) \<Longrightarrow> FindGraphClusterByName s name = Some i \<Longrightarrow>
    \<exists>t r d. (store_step False)\<^sup>*\<^sup>* s t \<and> set (s_busy s) \<subseteq> set (s_busy t) \<and> (r, c, d) \<in> set (s_busy t)
      \<and> r \<notin> fst ` set (s_busy s) \<and> d \<notin> set (s_held s)"
proof (induction q arbitrary: s)
  case Nil
  have q: "h_contexts (s_handles s ! i) = c # []" using Nil(1) by simp
  obtain t r d where "(store_step False)\<^sup>*\<^sup>* s t" "s_busy t = (r, c, d) # s_busy s" "r \<notin> fst ` set (s_busy s)" "d \<notin> set (s_held s)"
    by (rule one_request[OF q Nil(2,3)])
  then show ?case by (intro exI[of _ t] exI[of _ r] exI[of _ d]) auto
next
  case (Cons x q)
  have q: "h_contexts (s_handles s ! i) = x # (q @ [c])" using Cons.prems(1) by simp
  obtain u r d where u: "(store_step False)\<^sup>*\<^sup>* s u" "s_busy u = (r, x, d) # s_busy s" "r \<notin> fst ` set (s_busy s)"
    "d \<notin> set (s_held s)" "s_held u = d # s_held s" "h_contexts (s_handles u ! i) = q @ [c]" "i < length (s_handles u)"
    "FindGraphClusterByName u name = Some i"
    by (rule one_request[OF q Cons.prems(2,3)])
  obtain t r' d' where t: "(store_step False)\<^sup>*\<^sup>* u t" "set (s_busy u) \<subseteq> set (s_busy t)" "(r', c, d') \<in> set (s_busy t)"
    "r' \<notin> fst ` set (s_busy u)" "d' \<notin> set (s_held u)"
    using Cons.IH[OF u(6-8)] by blast
  have "(store_step False)\<^sup>*\<^sup>* s t" using u(1) t(1) by (rule rtranclp_trans)
  then show ?case using t u(2,5) by (intro exI[of _ t] exI[of _ r'] exI[of _ d']) auto
qed

text \<open>
  A second request \<open>r2\<close> with the data context of a request \<open>r\<close> that still runs posts the release of
  the cluster context \<open>C40: c\<close> of \<open>r\<close>; the background worker puts \<open>c\<close> back into the queue of its pool while \<open>r\<close>
  still runs on it; and requests to this pool with data contexts of their own lead to a state in which
  another request runs on \<open>c\<close> too. (\<open>r\<close> is the last request with its data context; the cluster of \<open>c\<close> is
  still the one loaded under its name; the graph of \<open>r2\<close> may be found or not.)
\<close>
theorem reused_data_unsafe:
  assumes "store_reachable False s" and "(r, c, d) \<in> set (s_busy s)" and "map_of (s_release s) d = Some c"
    and "d \<in> set (s_held s)" and "r2 \<notin> fst ` set (s_busy s) \<union> fst ` set (s_done s)"
    and "FindGraphClusterByName s name = Some (s_home s ! c)"
  shows "let s2 = snd (StoreExecute True finds r2 (Some d) name graph s); s3 = RunRelease c s2 in
    store_step False s s2 \<and> c \<in> set (s_posted s2) \<and> (r, c, d) \<in> set (s_busy s2)
    \<and> store_step False s2 s3 \<and> c \<in> set (h_contexts (s_handles s3 ! (s_home s ! c))) \<and> (r, c, d) \<in> set (s_busy s3)
    \<and> (\<exists>t r3 d3. (store_step False)\<^sup>*\<^sup>* s3 t \<and> (r, c, d) \<in> set (s_busy t) \<and> (r3, c, d3) \<in> set (s_busy t) \<and> r3 \<noteq> r \<and> d3 \<noteq> d)"
proof -
  define s2 where "s2 = snd (StoreExecute True finds r2 (Some d) name graph s)"
  define s3 where "s3 = RunRelease c s2"
  have inv: "store_inv s" using assms(1) by (rule reachable_store_inv)
  have c: "c < length (s_home s)" using inv assms(2) by (auto simp: store_inv_def busy_ok_def)
  then have i: "s_home s ! c < length (s_handles s)" using inv by (simp add: store_inv_def pool_inv_def homes_ok_def)
  obtain x s1 where g: "GetContext (s_home s ! c) s = (x, s1)" by fastforce
  have g1: "s_release s1 = s_release s" "s_posted s1 = s_posted s" "s_busy s1 = s_busy s" "s_held s1 = s_held s" "s_graphs s1 = s_graphs s"
    "length (s_handles s1) = length (s_handles s)" "s_home s1 ! c = s_home s ! c"
    using g c by (auto simp: GetContext_def modify_handle_def nth_append split: list.splits)
  have s2: "c \<in> set (s_posted s2)" "(r, c, d) \<in> set (s_busy s2)" "s_held s2 = s_held s" "s_graphs s2 = s_graphs s"
    "length (s_handles s2) = length (s_handles s)" "s_home s2 ! c = s_home s ! c"
    using assms(2,3,6) g g1 by (auto simp: s2_def StoreExecute_def GetGraphClusterContext_def SetReleaseClosure_def call_done_def Let_def)
  have 1: "store_step False s s2" unfolding s2_def by (rule execute) (use assms(4,5) in auto)
  have 2: "store_step False s2 s3" unfolding s3_def by (rule release) (rule s2(1))
  have i2: "s_home s2 ! c < length (s_handles s2)" using i s2(5,6) by simp
  obtain q where q: "h_contexts (s_handles s3 ! (s_home s ! c)) = q @ [c]" using released_last(1)[OF i2] s2(6) unfolding s3_def by auto
  have p: "same_pools s2 s3" unfolding s3_def by (rule released_last(2)[OF i2])
  have i3: "s_home s ! c < length (s_handles s3)" "FindGraphClusterByName s3 name = Some (s_home s ! c)"
    using p s2(4,5) i assms(6) by (simp_all add: same_pools_def FindGraphClusterByName_def)
  obtain t r3 d3 where t: "(store_step False)\<^sup>*\<^sup>* s3 t" "set (s_busy s3) \<subseteq> set (s_busy t)" "(r3, c, d3) \<in> set (s_busy t)"
    "r3 \<notin> fst ` set (s_busy s3)" "d3 \<notin> set (s_held s3)"
    using handed_out[OF q i3] by blast
  have b3: "(r, c, d) \<in> set (s_busy s3)" "d \<in> set (s_held s3)" using p s2(2,3) assms(4) by (simp_all add: same_pools_def)
  then have "r3 \<noteq> r" "d3 \<noteq> d" using t(4,5) by force+
  then show ?thesis unfolding Let_def s2_def[symmetric] s3_def[symmetric] using 1 2 s2(1,2) b3(1) q t by auto
qed

theorem reused_data_unsafe_witness:
  "\<exists>s t r3 d3. (0, 0, 0) \<in> set (s_busy s) \<and> (store_step False)\<^sup>*\<^sup>* s t \<and> (0, 0, 0) \<in> set (s_busy t) \<and> (r3, 0, d3) \<in> set (s_busy t) \<and> r3 \<noteq> 0"
proof -
  obtain h where h: "HandleBuild Map.empty 0 (\<lambda>_. True) 0 small_cluster = Some h" "h_contexts h = []" using small_handle by blast
  let ?s = "step_execute 0 (loaded h)"
  have e: "store_reachable False ?s" "(0, 0, 0) \<in> set (s_busy ?s)" using executed_reachable[OF h, of False] by simp_all
  have v: "map_of (s_release ?s) 0 = Some 0" "0 \<in> set (s_held ?s)" "1 \<notin> fst ` set (s_busy ?s) \<union> fst ` set (s_done ?s)"
    "FindGraphClusterByName ?s ''m'' = Some (s_home ?s ! 0)"
    using h(2)
    by (simp_all add: step_execute_def loaded_def put_handle_def new_store_def Let_def StoreExecute_def
        GetGraphClusterContext_def FindGraphClusterByName_def GetContext_def SetReleaseClosure_def)
  from reused_data_unsafe[OF e v, of "\<lambda>_ _. True" "''g''"] show ?thesis unfolding Let_def by blast
qed

section \<open>Loading and finding\<close>

lemma get_basename_join: "CHR ''/'' \<notin> set base \<Longrightarrow> get_basename (dir @ CHR ''/'' # base) = base"
  by (auto simp: get_basename_def takeWhile_append)

text \<open>
  A cluster that was loaded from a file is found under the name of the file without its directory;
  every other name and every cluster loaded before, one of the same name included, is as it was.
\<close>
theorem Load_then_find:
  "Load F capacity setup (dir @ ''/'' @ base) parsed s = (r, s') \<Longrightarrow> CHR ''/'' \<notin> set base \<Longrightarrow>
    (case r of
       None \<Rightarrow> s' = s
     | Some i \<Rightarrow> FindGraphClusterByName s' base = Some i
         \<and> (\<forall>n. n \<noteq> base \<longrightarrow> FindGraphClusterByName s' n = FindGraphClusterByName s n)
         \<and> i = length (s_handles s) \<and> take (length (s_handles s)) (s_handles s') = s_handles s
         \<and> (\<exists>c. parsed = Some c \<and> HandleBuild F capacity setup (length (s_home s)) (c\<lparr>c_file_name := base\<rparr>) = Some (s_handles s' ! i)))"
  by (auto simp: Load_def get_basename_join put_handle_def FindGraphClusterByName_def Let_def update_conv'
      split: option.splits)

theorem Load_then_find_witness:
  "\<exists>i s'. Load Map.empty 0 (\<lambda>_. True) ''d/f'' (Some small_cluster) new_store = (Some i, s') \<and> FindGraphClusterByName s' ''f'' = Some i"
proof -
  have "HandleBuild Map.empty 0 (\<lambda>_. True) 0 (small_cluster\<lparr>c_file_name := ''f''\<rparr>) \<noteq> None"
    by (simp add: HandleBuild_def ClusterBuild_def small_cluster_def new_cluster_def Let_def)
  then obtain i s' where l: "Load Map.empty 0 (\<lambda>_. True) ''d/f'' (Some small_cluster) new_store = (Some i, s')"
    by (auto simp: Load_def get_basename_def new_store_def Let_def put_handle_def)
  then show ?thesis using Load_then_find[of Map.empty 0 "\<lambda>_. True" "''d''" "''f''"] by fastforce
qed

end
