(* ===== verification/RunParams.thy ===== *)
theory RunParams
  imports GraphData
begin

text \<open>
  Which arguments an operator runs with (\<open>VertexContext::GetExecParams\<close>), and what the links between
  the argument objects that \<open>VertexContext::Setup\<close> makes amount to.
\<close>

section \<open>The selection\<close>

definition cond_holds :: "(nat \<Rightarrow> int) \<Rightarrow> (string \<Rightarrow> bool option) \<Rightarrow> nat \<Rightarrow> cond_params \<times> bool \<Rightarrow> bool" where
  "cond_holds eval flag k s =
    (if IsCondExpr (fst s) \<and> snd s then eval k = 0 else flag (match (fst s)) = Some True)"

lemma select_params_Cons:
  "select_params eval flag (s # ss) m = (if cond_holds eval flag m s then Some m else select_params eval flag ss (Suc m))"
  by (cases s) (auto simp: cond_holds_def split: option.splits)

lemma select_params_first:
  "(case select_params eval flag ss m of
      None \<Rightarrow> \<forall>i < length ss. \<not> cond_holds eval flag (m + i) (ss ! i)
    | Some k \<Rightarrow> m \<le> k \<and> k < m + length ss \<and> cond_holds eval flag k (ss ! (k - m))
        \<and> (\<forall>i < k - m. \<not> cond_holds eval flag (m + i) (ss ! i)))"
proof (induction ss arbitrary: m)
  case Nil
  then show ?case by simp
next
  case (Cons s ss)
  show ?case
  proof (cases "cond_holds eval flag m s")
    case True
    then show ?thesis by (simp add: select_params_Cons)
  next
    case False
    have all: "\<not> cond_holds eval flag (m + i) ((s # ss) ! i)"
      if "\<forall>j < n. \<not> cond_holds eval flag (Suc m + j) (ss ! j)" "i < Suc n" for i n
      using that False by (cases i) auto
    show ?thesis
    proof (cases "select_params eval flag ss (Suc m)")
      case None
      then show ?thesis using Cons[of "Suc m"] False all[of "length ss"] by (simp add: select_params_Cons del: nth_Cons)
    next
      case (Some k)
      then have k: "Suc m \<le> k" "k < Suc m + length ss" "cond_holds eval flag k (ss ! (k - Suc m))"
        "\<forall>i < k - Suc m. \<not> cond_holds eval flag (Suc m + i) (ss ! i)"
        using Cons[of "Suc m"] by simp_all
      have "k - m = Suc (k - Suc m)" using k(1) by simp
      then show ?thesis using k False Some all[OF k(4)] by (simp add: select_params_Cons)
    qed
  qed
qed

section \<open>The links\<close>

lemma set_parent_twice [simp]: "set_parent a (set_parent b p) = set_parent a p"
  by (cases p) simp

lemma set_parent_same: "parent p = None \<Longrightarrow> set_parent None p = p"
  by (cases p) simp

definition same_up :: "paddr set \<Rightarrow> pheap \<Rightarrow> pheap \<Rightarrow> bool" where
  "same_up A h h' = (\<forall>x. if x \<in> A then \<exists>p. h' x = Some p \<and> h x = Some (set_parent None p) else h' x = h x)"

lemma same_up_update:
  assumes "same_up A h h'" "x \<in> A" "h' x = Some p"
  shows "same_up A h (h'(x \<mapsto> set_parent q p))"
proof -
  have "h x = Some (set_parent None p)" using assms unfolding same_up_def by (metis option.inject)
  then show ?thesis using assms(1,2) by (simp add: same_up_def)
qed

lemma link_selects_same_up:
  "same_up A h h1 \<Longrightarrow> \<forall>i \<in> {k..<k + length ss}. sel i \<in> A \<and> sel i \<noteq> own \<and> h1 (sel i) = h (sel i) \<Longrightarrow>
    inj_on sel {k..<k + length ss} \<Longrightarrow> \<exists>h2. link_selects own sel ss k h1 = Some h2 \<and> same_up A h h2"
proof (induction ss arbitrary: k h1)
  case (Cons s ss)
  have k: "sel k \<in> A" "sel k \<noteq> own" "h1 (sel k) = h (sel k)" using Cons.prems(2) by auto
  then obtain p where p: "h1 (sel k) = Some p" "h (sel k) = Some (set_parent None p)"
    using Cons.prems(1) unfolding same_up_def by metis
  then have root: "parent p = None" using k(3) by (metis option.inject set_parent_parent)
  define h' where "h' = (if inherit_default s then h1(sel k \<mapsto> set_parent (Some own) p) else h1)"
  have step: "(if inherit_default s then SetParent h1 (sel k) (Some own) else Some h1) = Some h'"
    using p(1) root k(2) by (simp add: SetParent.simps h'_def)
  have su: "same_up A h h'" using same_up_update[OF Cons.prems(1) k(1) p(1)] Cons.prems(1) by (simp add: h'_def)
  have "sel i \<in> A \<and> sel i \<noteq> own \<and> h' (sel i) = h (sel i)" if "i \<in> {Suc k..<Suc k + length ss}" for i
  proof -
    have "sel i \<noteq> sel k" using inj_onD[OF Cons.prems(3), of i k] that by auto
    then show ?thesis using Cons.prems(2) that by (simp add: h'_def)
  qed
  moreover have "inj_on sel {Suc k..<Suc k + length ss}" using Cons.prems(3) by (rule inj_on_subset) auto
  ultimately obtain h2 where "link_selects own sel ss (Suc k) h' = Some h2" "same_up A h h2"
    using Cons.IH[OF su] by blast
  then show ?case using step by (simp del: SetParent.simps)
qed simp

lemma SetParent_None: "h x = Some p \<Longrightarrow> SetParent h x None = Some (h(x \<mapsto> set_parent None p))"
  by (simp add: SetParent.simps)

lemma unlink_selects_restores:
  "same_up A h h1 \<Longrightarrow> \<forall>i \<in> {k..<k + n}. sel i \<in> A \<Longrightarrow>
    \<exists>h2. unlink_selects sel n k h1 = Some h2 \<and> same_up A h h2
      \<and> (\<forall>i \<in> {k..<k + n}. h2 (sel i) = h (sel i)) \<and> (\<forall>x. h1 x = h x \<longrightarrow> h2 x = h x)"
proof (induction n arbitrary: k h1)
  case (Suc n)
  have "sel k \<in> A" using Suc.prems(2) by simp
  then obtain p where p: "h1 (sel k) = Some p" "h (sel k) = Some (set_parent None p)"
    using Suc.prems(1) unfolding same_up_def by metis
  let ?h = "h1(sel k \<mapsto> set_parent None p)"
  have su: "same_up A h ?h" using same_up_update[OF Suc.prems(1) \<open>sel k \<in> A\<close> p(1)] .
  have "\<forall>i \<in> {Suc k..<Suc k + n}. sel i \<in> A" using Suc.prems(2) by auto
  then obtain h2 where h2: "unlink_selects sel n (Suc k) ?h = Some h2" "same_up A h h2"
    "\<forall>i \<in> {Suc k..<Suc k + n}. h2 (sel i) = h (sel i)" "\<forall>x. ?h x = h x \<longrightarrow> h2 x = h x"
    using Suc.IH[OF su] by blast
  have "h2 (sel k) = h (sel k)" using h2(4) p(2) by simp
  moreover have "h2 x = h x" if "h1 x = h x" for x using h2(4) that p(2) by (cases "x = sel k") auto
  ultimately show ?case using h2 SetParent_None[of h1 "sel k" p] p(1)
    by (auto simp: le_less_Suc_eq Suc_le_eq intro!: exI[of _ h2])
qed simp

lemma setup_parents_nothing:
  assumes roots: "\<forall>x \<in> A. \<exists>p. h x = Some p \<and> parent p = None"
    and A: "own \<in> A" "\<forall>i < length ss. sel i \<in> A \<and> sel i \<noteq> own" "inj_on sel {..<length ss}"
    and all: "A = insert own (sel ` {..<length ss})"
  shows "setup_parents own sel ss h = Some h"
proof -
  have s0: "same_up A h h" using roots set_parent_same by (auto simp: same_up_def)
  obtain h1 where h1: "link_selects own sel ss 0 h = Some h1" "same_up A h h1"
    using link_selects_same_up[OF s0, of 0 ss sel own] A by (auto simp: lessThan_atLeast0)
  obtain h2 where h2: "unlink_selects sel (length ss) 0 h1 = Some h2" "same_up A h h2"
    "\<forall>i \<in> {0..<0 + length ss}. h2 (sel i) = h (sel i)"
    using unlink_selects_restores[OF h1(2), of 0 "length ss" sel] A(2) by auto
  obtain p where p: "h2 own = Some p" "h own = Some (set_parent None p)" using h2(2) A(1) unfolding same_up_def by metis
  have "h2(own \<mapsto> set_parent None p) = h"
  proof
    fix x
    consider "x = own" | i where "x \<noteq> own" "x = sel i" "i < length ss" | "x \<notin> A" using all by auto
    then show "(h2(own \<mapsto> set_parent None p)) x = h x"
      by cases (use p h2 A(1) in \<open>auto simp: same_up_def\<close>)
  qed
  then show ?thesis using h1(1) h2(1) SetParent_None[of h2 own p, OF p(1)] by (simp add: setup_parents_def)
qed

section \<open>Lookups\<close>

lemma Get_elsewhere:
  "achain h b bs \<Longrightarrow> a \<notin> set (b # bs) \<Longrightarrow> Get (h(a \<mapsto> p)) (the (h b)) name = Get h (the (h b)) name"
proof (induction rule: achain.induct)
  case (achain_root b p)
  then show ?case by (subst (1 2) Get.simps) (auto split: option.split)
next
  case (achain_link b q c cs)
  obtain q' where "h c = Some q'" using achain_mapped[OF achain_link.hyps(3), of c] by auto
  then show ?case using achain_link by (subst (1 2) Get.simps) (auto simp: fun_upd_def split: option.split)
qed

text \<open>
  C25: An operator runs with the arguments of the first selection whose condition holds, or with its
  own; a name that these do not have is looked up in the parameters of the run. The links that
  \<open>inherit_default\<close> asks for are gone before any run: setting up leaves every object as it was.
\<close>
theorem arguments_of_run:
  "(\<forall>x \<in> insert own (sel ` {..<length ss}). \<exists>p. h x = Some p \<and> parent p = None) \<Longrightarrow>
    inj_on sel {..<length ss} \<Longrightarrow> own \<notin> sel ` {..<length ss} \<Longrightarrow>
    achain h q bs \<Longrightarrow> set (q # bs) \<inter> insert own (sel ` {..<length ss}) = {} \<Longrightarrow>
    setup_parents own sel (map fst ss) h = Some h \<and>
    (\<exists>p h'. GetExecParams eval flag ss sel own (Some q) h = Some (p, h') \<and>
      ((\<forall>i < length ss. \<not> cond_holds eval flag i (ss ! i)) \<and> p = own
       \<or> (\<exists>k < length ss. p = sel k \<and> cond_holds eval flag k (ss ! k) \<and> (\<forall>i < k. \<not> cond_holds eval flag i (ss ! i)))) \<and>
      (\<forall>name. Get h' (the (h' p)) name =
        (case map_of (members (the (h p))) name of Some v \<Rightarrow> Some v | None \<Rightarrow> Get h (the (h q)) name)))"
proof -
  let ?A = "insert own (sel ` {..<length ss})"
  assume roots: "\<forall>x \<in> ?A. \<exists>p. h x = Some p \<and> parent p = None" and inj: "inj_on sel {..<length ss}"
    and own: "own \<notin> sel ` {..<length ss}" and c: "achain h q bs" and dis: "set (q # bs) \<inter> ?A = {}"
  have "setup_parents own sel (map fst ss) h = Some h"
    by (rule setup_parents_nothing[OF roots]) (use inj own in auto)
  moreover
  define p where "p = (case select_params eval flag ss 0 of Some k \<Rightarrow> sel k | None \<Rightarrow> own)"
  have sel: "(\<forall>i < length ss. \<not> cond_holds eval flag i (ss ! i)) \<and> p = own
       \<or> (\<exists>k < length ss. p = sel k \<and> cond_holds eval flag k (ss ! k) \<and> (\<forall>i < k. \<not> cond_holds eval flag i (ss ! i)))"
    using select_params_first[where eval = eval and flag = flag and ss = ss and m = 0] by (auto simp: p_def split: option.splits)
  then have "p \<in> ?A" by auto
  then obtain op where op: "h p = Some op" "parent op = None" using roots by blast
  let ?h = "h(p \<mapsto> set_parent (Some q) op)"
  have pq: "p \<noteq> q" "p \<notin> set (q # bs)" using \<open>p \<in> ?A\<close> dis by auto
  have "SetParent h p (Some q) = Some ?h" using op pq by (simp add: SetParent.simps)
  then have "GetExecParams eval flag ss sel own (Some q) h = Some (p, ?h)"
    by (simp add: GetExecParams_def p_def[symmetric] Let_def)
  moreover have "Get ?h (the (?h p)) name =
      (case map_of (members (the (h p))) name of Some v \<Rightarrow> Some v | None \<Rightarrow> Get h (the (h q)) name)" for name
  proof -
    obtain oq where oq: "h q = Some oq" using achain_mapped[OF c, of q] by auto
    have "Get ?h oq name = Get h oq name" using Get_elsewhere[OF c pq(2)] oq by simp
    then show ?thesis using op oq pq(1) by (subst Get.simps) (simp split: option.split)
  qed
  ultimately show ?thesis using sel by blast
qed

definition args_heap :: pheap where
  "args_heap = [0 \<mapsto> PutInt ''a'' 1 (new_params False), 1 \<mapsto> new_params False, 2 \<mapsto> PutInt ''a'' 9 (new_params False)]"

definition inheriting :: "(cond_params \<times> bool) list" where
  "inheriting = [(\<lparr>match = ''on'', cargs = new_params False, inherit_default = True\<rparr>, False)]"

theorem arguments_of_run_witness:
  "\<exists>p h'. GetExecParams (\<lambda>_. 0) (\<lambda>_. Some True) inheriting (\<lambda>_. 1) 0 (Some 2) args_heap = Some (p, h')
     \<and> map_option iv (Get h' (the (h' p)) ''a'') = Some 9"
proof -
  have roots: "\<forall>x \<in> insert 0 ((\<lambda>_. 1) ` {..<length inheriting}). \<exists>p. args_heap x = Some p \<and> parent p = None"
    by (auto simp: args_heap_def PutInt_def put_with_def new_params_def)
  have chain2: "achain args_heap 2 []"
    by (rule achain_root) (auto simp: args_heap_def PutInt_def put_with_def new_params_def)
  have first: "cond_holds (\<lambda>_. 0) (\<lambda>_. Some True) i (inheriting ! i)" if "i < length inheriting" for i
    using that by (simp add: inheriting_def cond_holds_def IsCondExpr_def isCondString_def isalpha_def)
  have len: "0 < length inheriting" by (simp add: inheriting_def)
  have own: "(0 :: nat) \<notin> (\<lambda>_. 1) ` {..<length inheriting}" by auto
  have dis: "set [2 :: nat] \<inter> insert 0 ((\<lambda>_. 1) ` {..<length inheriting}) = {}" by auto
  have inj: "inj_on (\<lambda>_. 1 :: nat) {..<length inheriting}" by (simp add: inheriting_def inj_on_def)
  obtain p h' where "GetExecParams (\<lambda>_. 0) (\<lambda>_. Some True) inheriting (\<lambda>_. 1) 0 (Some 2) args_heap = Some (p, h')" "p = 1"
    "Get h' (the (h' p)) ''a'' = (case map_of (members (the (args_heap p))) ''a'' of
        Some v \<Rightarrow> Some v | None \<Rightarrow> Get args_heap (the (args_heap 2)) ''a'')"
    using arguments_of_run[OF roots inj own chain2 dis, where eval = "\<lambda>_. 0" and flag = "\<lambda>_. Some True"] first len
    by blast
  moreover have "Get args_heap (the (args_heap 2)) ''a'' = Some (SetInt 9 (new_params False))"
    by (subst Get.simps) (simp add: args_heap_def PutInt_def put_with_def new_params_def table_at_def)
  ultimately show ?thesis by (auto simp: args_heap_def new_params_def)
qed

end
