(* ===== verification/Flow.thy ===== *)
theory Flow
  imports Pipeline ClusterContext
begin

text \<open>
  A graph that runs with its data: the steps of the executor (theory \<open>Engine\<close>) together with what
  they do to the operators and to the data of the graph. \<open>VertexContext::ExecuteProcessor\<close> prepares
  the operator and injects its inputs before it runs; \<open>FinishVertexProcess\<close> collects its outputs,
  moves the inputs of a skipped one, or makes the data of a subgraph a child
  (\<open>store/vertex_context.cpp\<close>).
\<close>

section \<open>State and steps\<close>

text \<open>
  What \<open>Setup\<close> left: the operator of every vertex, the address of the data of the graph, the
  dependency container.
\<close>

record flow_env =
  fe_ops :: "vref \<Rightarrow> operator_ctx"
  fe_ctx :: caddr
  fe_di :: "data_key \<Rightarrow> nat option"

record flow =
  fw_engine :: engine
  fw_data :: "data_ctx list"
  fw_state :: "vref \<Rightarrow> op_state"
  fw_args :: "vref \<Rightarrow> (pheap \<times> params) option"

text \<open>
  What the rest of the program decides in a step besides the decisions of the executor: the
  arguments that \<open>GetExecParams\<close> found, the objects of the arena, what the user's \<open>OnPrepare\<close> and
  \<open>OnExecute\<close> leave in the members of the operator, and what a subgraph does to the data contexts.
\<close>

record flow_choice =
  fc_choice :: choice
  fc_args :: "pheap \<times> params"
  fc_arena :: "string \<Rightarrow> nat"
  fc_prepare :: "op_state \<Rightarrow> int \<times> op_state"
  fc_run :: "op_state \<Rightarrow> op_state"
  fc_subgraph :: "data_ctx list \<Rightarrow> data_ctx list"
  fc_child :: "caddr option"

text \<open>\<open>Execute\<close> gets as far as \<open>ExecuteProcessor\<close>: it would start the operator if the injection succeeded.\<close>

definition calls_operator :: "graph \<Rightarrow> choice \<Rightarrow> vref \<Rightarrow> graph_ctx \<Rightarrow> bool" where
  "calls_operator g ch v gc = (vx_processor (gc_ctx gc v) \<noteq> None
     \<and> EvStart v \<in> set (snd (snd (Execute g (ch\<lparr>ch_inject_rc := 0\<rparr>) v gc))))"

text \<open>\<open>Prepare\<close> and \<open>InjectInputs\<close>; \<open>None\<close> is a lookup of a variable that does not return.\<close>

definition prepare_and_inject :: "flow_env \<Rightarrow> flow_choice \<Rightarrow> vref \<Rightarrow> flow \<Rightarrow> (int \<times> flow) option" where
  "prepare_and_inject E fc v s =
    (let x = fe_ops E v; (h, ps) = fc_args fc in
     case vo_class x of
       None \<Rightarrow> Some (0, s)
     | Some c \<Rightarrow>
         let st = snd (PrepareOp (oc_processor c) (fc_arena fc) (fc_prepare fc) (fw_state s v))
         in map_option (\<lambda>(rc, st', cs). (rc, s\<lparr>fw_state := (fw_state s)(v := st'), fw_data := cs,
                fw_args := (fw_args s)(v := Some (h, ps))\<rparr>))
              (InjectInputs (fe_di E) h (Some ps) (fe_ctx E) (vo_inputs x) (st, fw_data s)))"

text \<open>The call of the operator, or the run of the subgraph.\<close>

definition run_operator :: "flow_env \<Rightarrow> flow_choice \<Rightarrow> vref \<Rightarrow> flow \<Rightarrow> flow option" where
  "run_operator E fc v s =
    (case (vo_class (fe_ops E v), fw_args s v) of
       (Some c, Some (h, ps)) \<Rightarrow>
         map_option (\<lambda>(_, st). s\<lparr>fw_state := (fw_state s)(v := st)\<rparr>)
           (ExecuteOp (oc_processor c) h ps (\<lambda>_ st. (0, fc_run fc st)) (fw_state s v))
     | _ \<Rightarrow> Some s)"

text \<open>What a task does before the executor goes on, and the decisions the executor then sees.\<close>

fun before :: "flow_env \<Rightarrow> graph \<Rightarrow> flow_choice \<Rightarrow> task \<Rightarrow> flow \<Rightarrow> (choice \<times> flow) option" where
  "before E g fc (TExecute v) s =
    (if calls_operator g (fc_choice fc) v (en_ctx (fw_engine s))
     then map_option (\<lambda>(rc, s'). ((fc_choice fc)\<lparr>ch_inject_rc := rc\<rparr>, s')) (prepare_and_inject E fc v s)
     else Some (fc_choice fc, s))"
| "before E g fc (TProcess v) s =
    (if vx_processor (gc_ctx (en_ctx (fw_engine s)) v) \<noteq> None
     then map_option (Pair (fc_choice fc)) (run_operator E fc v s)
     else Some (fc_choice fc, s\<lparr>fw_data := fc_subgraph fc (fw_data s)\<rparr>))"
| "before E g fc t s = Some (fc_choice fc, s)"

fun data_effect :: "flow_env \<Rightarrow> flow_choice \<Rightarrow> graph_ctx \<Rightarrow> event \<Rightarrow> flow \<Rightarrow> flow option" where
  "data_effect E fc gc (EvCollect v) s =
    map_option (\<lambda>c. s\<lparr>fw_data := (fw_data s)[fe_ctx E := c]\<rparr>)
      (CollectOutputs (case fw_args s v of None \<Rightarrow> Map.empty | Some (h, _) \<Rightarrow> h) (map_option snd (fw_args s v))
        (fw_state s v) (vo_outputs (fe_ops E v)) (fw_data s ! fe_ctx E))"
| "data_effect E fc gc (EvMove v) s =
    Some (s\<lparr>fw_data := MoveDataWhenSkipped (fe_ctx E) (vo_outputs (fe_ops E v)) (fw_data s)\<rparr>)"
| "data_effect E fc gc (EvChild v) s =
    Some (case vx_child_idx (gc_ctx gc v) of
            None \<Rightarrow> s
          | Some i \<Rightarrow> s\<lparr>fw_data := modify_data (fe_ctx E) (SetChild (fc_child fc) i) (fw_data s)\<rparr>)"
| "data_effect E fc gc e s = Some s"

fun data_effects :: "flow_env \<Rightarrow> flow_choice \<Rightarrow> graph_ctx \<Rightarrow> event list \<Rightarrow> flow \<Rightarrow> flow option" where
  "data_effects E fc gc [] s = Some s"
| "data_effects E fc gc (e # es) s = Option.bind (data_effect E fc gc e s) (data_effects E fc gc es)"

definition flow_after :: "flow_env \<Rightarrow> graph \<Rightarrow> flow_choice \<Rightarrow> task \<Rightarrow> flow \<Rightarrow> flow option" where
  "flow_after E g fc t s =
    Option.bind (before E g fc t s) (\<lambda>(ch, s1).
      let gc = en_ctx (fw_engine s); evs = snd (snd (handle g ch t gc))
      in map_option (\<lambda>s2. s2\<lparr>fw_engine := after g ch t (fw_engine s)\<rparr>) (data_effects E fc gc evs s1))"

text \<open>A subgraph may do anything to the data except to the values of the graph that runs it.\<close>

inductive flow_step :: "flow_env \<Rightarrow> graph \<Rightarrow> flow \<Rightarrow> flow \<Rightarrow> bool" for E g where
  "t \<in># en_tasks (fw_engine s) \<Longrightarrow> enabled (fc_choice fc) t (en_ctx (fw_engine s)) \<Longrightarrow>
    fc_subgraph fc (fw_data s) ! fe_ctx E = fw_data s ! fe_ctx E \<Longrightarrow>
    length (fc_subgraph fc (fw_data s)) = length (fw_data s) \<Longrightarrow>
    flow_after E g fc t s = Some s' \<Longrightarrow> flow_step E g s s'"

inductive_cases flow_stepE: "flow_step E g s s'"

definition flow_start :: "flow_env \<Rightarrow> graph_ctx \<Rightarrow> data_ctx list \<Rightarrow> flow" where
  "flow_start E gc cs = \<lparr>fw_engine = start gc, fw_data = cs, fw_state = (\<lambda>v. vo_state (fe_ops E v)), fw_args = (\<lambda>_. None)\<rparr>"

definition flow_reachable :: "flow_env \<Rightarrow> graph \<Rightarrow> (vref \<Rightarrow> processor_info option) \<Rightarrow> data_ctx list \<Rightarrow> flow \<Rightarrow> bool" where
  "flow_reachable E g procs cs s =
    (\<exists>gc. SetupContexts g procs = Some gc \<and> (flow_step E g)\<^sup>*\<^sup>* (flow_start E gc cs) s)"

section \<open>The executor underneath\<close>

lemma same_inject [simp]: "\<exists>rc. ch = ch\<lparr>ch_inject_rc := rc\<rparr>"
  by (rule exI[of _ "ch_inject_rc ch"]) simp

lemma before_engine: "before E g fc t s = Some (ch, s') \<Longrightarrow>
  fw_engine s' = fw_engine s \<and> (\<exists>rc. ch = (fc_choice fc)\<lparr>ch_inject_rc := rc\<rparr>)"
  by (cases t) (force simp: prepare_and_inject_def run_operator_def Let_def split: if_splits option.splits prod.splits)+

lemma data_effect_engine: "data_effect E fc gc e s = Some s' \<Longrightarrow> fw_engine s' = fw_engine s"
  by (cases e) (auto split: option.splits)

lemma data_effects_engine: "data_effects E fc gc es s = Some s' \<Longrightarrow> fw_engine s' = fw_engine s"
  by (induction es arbitrary: s) (auto simp: bind_eq_Some_conv dest: data_effect_engine)

lemma enabled_inject [simp]: "enabled (ch\<lparr>ch_inject_rc := rc\<rparr>) t gc = enabled ch t gc"
  by (cases t) simp_all

lemma flow_step_engine:
  assumes "flow_step E g s s'"
  shows "step g (fw_engine s) (fw_engine s')"
proof -
  from assms obtain fc t where t: "t \<in># en_tasks (fw_engine s)" "enabled (fc_choice fc) t (en_ctx (fw_engine s))"
    and a: "flow_after E g fc t s = Some s'"
    by (auto elim: flow_stepE)
  then obtain ch s1 where b: "before E g fc t s = Some (ch, s1)" "fw_engine s' = after g ch t (fw_engine s)"
    by (auto simp: flow_after_def bind_eq_Some_conv Let_def)
  with before_engine[OF b(1)] t show ?thesis by (auto intro: step.intros)
qed

lemma flow_reachable_engine: "flow_reachable E g procs cs s \<Longrightarrow> reachable g procs (fw_engine s)"
proof -
  assume "flow_reachable E g procs cs s"
  then obtain gc where gc: "SetupContexts g procs = Some gc" "(flow_step E g)\<^sup>*\<^sup>* (flow_start E gc cs) s"
    by (auto simp: flow_reachable_def)
  from gc(2) show ?thesis
    by (induction rule: rtranclp_induct)
      (auto simp: flow_start_def intro: reachable_start[OF gc(1)] reachable_step dest: flow_step_engine)
qed

end
