(* ===== verification/FlowProps.thy ===== *)
theory FlowProps
  imports Flow
begin

text \<open>
  Data get from the operator that writes them to the operators that read them: an invariant of
  the runs of a graph with its data, for graphs that move no data and name no data by a variable.
\<close>

section \<open>Graphs whose data stay where they are\<close>

definition no_skip_move :: "'a field_data \<Rightarrow> bool" where
  "no_skip_move e = (case fl_data e of None \<Rightarrow> True | Some d \<Rightarrow> move_from_when_skipped d = [])"

definition outputs_ok :: "flow_env \<Rightarrow> data_ctx \<Rightarrow> vref \<Rightarrow> bool" where
  "outputs_ok E c v = (distinct (output_keys (fe_ops E v)) \<and>
     (\<forall>e \<in> set (vo_outputs (fe_ops E v)). \<not> is_var (fi_name (fl_info e)) \<and> indexed c e \<and> no_skip_move e))"

definition inputs_ok :: "flow_env \<Rightarrow> vref \<Rightarrow> bool" where
  "inputs_ok E v = (distinct (map (\<lambda>e. fi_member (fl_info e)) (vo_inputs (fe_ops E v))) \<and>
     (\<forall>e \<in> set (vo_inputs (fe_ops E v)). \<not> entry_move e))"

definition env_ok :: "flow_env \<Rightarrow> graph \<Rightarrow> (vref \<Rightarrow> processor_info option) \<Rightarrow> data_ctx \<Rightarrow> bool" where
  "env_ok E g procs c = ((\<forall>v. valid_ref g v \<longrightarrow> outputs_ok E c v \<and> inputs_ok E v
       \<and> (procs v \<noteq> None \<longleftrightarrow> vo_class (fe_ops E v) \<noteq> None))
     \<and> (\<forall>u v. valid_ref g u \<longrightarrow> valid_ref g v \<longrightarrow> u \<noteq> v \<longrightarrow>
          set (output_keys (fe_ops E u)) \<inter> set (output_keys (fe_ops E v)) = {}))"

definition data_ok :: "flow_env \<Rightarrow> data_ctx \<Rightarrow> data_ctx list \<Rightarrow> bool" where
  "data_ok E c cs = (fe_ctx E < length cs \<and> registered_ok (cs ! fe_ctx E) \<and> dc_array (cs ! fe_ctx E) = dc_array c)"

text \<open>The outputs of \<open>v\<close> are in the data of the graph.\<close>

definition holds_outputs :: "flow_env \<Rightarrow> flow \<Rightarrow> vref \<Rightarrow> bool" where
  "holds_outputs E s v = (\<forall>e \<in> set (vo_outputs (fe_ops E v)).
     held (fo_hold (fl_info e)) (value_at (fw_data s ! fe_ctx E) (data_key_of e)) = emitted (fw_state s v) (fl_info e))"

section \<open>Injecting without moving\<close>

lemma inject_keeps_data:
  assumes "inject di a i idx False name s = (rc, s')"
  shows "snd s' = snd s"
  using assms by (auto simp: inject_def read_input_def Let_def split: prod.splits option.splits input_kind.splits)

lemma inject_entry_keeps_data:
  assumes "inject_entry di h ps a e s = Some (rc, s')" "\<not> entry_move e"
  shows "snd s' = snd s"
proof -
  let ?f = "inject di a (fl_info e) (fl_idx e) False"
  have f: "snd (snd (?f n s)) = snd s" for n s
    using inject_keeps_data[of di a "fl_info e" "fl_idx e" n s "fst (?f n s)" "snd (?f n s)"] by simp
  have 1: "inject_single h ps ?f n s = Some (rc, s') \<Longrightarrow> snd s' = snd s" for n
    using inject_single_effect[of ?f "\<lambda>s' s. snd s' = snd s" "\<lambda>_. True"] f by (metis snd_conv)
  have 2: "inject_aggregate h ps req ?f ids 0 s = Some (rc, s') \<Longrightarrow> ids \<noteq> [] \<Longrightarrow> snd s' = snd s" for req ids
    using inject_aggregate_effect[of "\<lambda>s' s. snd s' = snd s" ?f "\<lambda>_. True"] f by (metis (full_types))
  show ?thesis using assms 1 2 by (auto simp: inject_entry_def Let_def split: option.splits if_splits)
qed

lemma InjectInputs_keeps_data:
  "InjectInputs di h ps a es s = Some (rc, s') \<Longrightarrow> \<forall>e \<in> set es. \<not> entry_move e \<Longrightarrow> snd s' = snd s"
proof (induction es arbitrary: s)
  case (Cons e es)
  then obtain rc1 s1 where 1: "inject_entry di h ps a e s = Some (rc1, s1)"
    and rest: "(if rc1 \<noteq> 0 \<and> entry_required e then Some (-1, s1) else InjectInputs di h ps a es s1) = Some (rc, s')"
    by (auto simp: bind_eq_Some_conv)
  have "snd s1 = snd s" using inject_entry_keeps_data[OF 1] Cons.prems(2) by simp
  with rest Cons show ?case by (auto split: if_splits)
qed simp

lemma InjectInputs_reads:
  assumes "InjectInputs di h ps a es s = Some (0, s')" "\<forall>e \<in> set es. \<not> entry_move e"
    "distinct (map (\<lambda>e. fi_member (fl_info e)) es)" "e \<in> set es"
    "local_value (snd s) (fi_hold (fl_info e)) (data_key_of e) (fl_idx e) a = Some x" "fi_kind (fl_info e) = OpInput"
    "fl_data e = None \<or> aggregate (the (fl_data e)) = []" "\<not> is_var (fi_name (fl_info e))"
  shows "op_member (fst s') (fi_member (fl_info e)) = Some x"
  using assms
proof (induction es arbitrary: s)
  case (Cons f es)
  obtain rc1 s1 where 1: "inject_entry di h ps a f s = Some (rc1, s1)"
    and rest: "(if rc1 \<noteq> 0 \<and> entry_required f then Some (-1, s1) else InjectInputs di h ps a es s1) = Some (0, s')"
    using Cons.prems(1) by (auto simp: bind_eq_Some_conv)
  have rest: "InjectInputs di h ps a es s1 = Some (0, s')" using rest by (auto split: if_splits)
  have data: "snd s1 = snd s" using inject_entry_keeps_data[OF 1] Cons.prems(2) by simp
  show ?case
  proof (cases "f = e")
    case True
    have "s1 = (set_member (fi_member (fl_info e)) (Some x) (fst s), snd s)"
      using inject_entry_reads[OF Cons.prems(5,6,7) _ Cons.prems(8), of di h ps "fst s"] 1 True Cons.prems(2) by simp
    moreover have "fi_member (fl_info e) \<notin> (\<lambda>e. fi_member (fl_info e)) ` set es" using Cons.prems(3) True by simp
    then have "op_member (fst s') (fi_member (fl_info e)) = op_member (fst s1) (fi_member (fl_info e))"
      using InjectInputs_effect[OF _ rest] Cons.prems(3) by simp
    ultimately show ?thesis by (simp add: set_member_def)
  next
    case False
    with Cons.IH[OF rest] Cons.prems data show ?thesis by simp
  qed
qed simp

lemma no_skip_move_data: "\<forall>e \<in> set es. no_skip_move e \<Longrightarrow> MoveDataWhenSkipped a es cs = cs"
  by (induction es arbitrary: cs) (auto simp: no_skip_move_def split: option.splits)

section \<open>What events do to the data\<close>

lemma indexed_array: "dc_array c = dc_array c' \<Longrightarrow> indexed c e = indexed c' e"
  by (simp add: indexed_def)

lemma value_at_table: "map_of (dc_table c) k = map_of (dc_table c') k \<Longrightarrow> value_at c k = value_at c' k"
  by (simp add: value_at_def)

lemma output_key_in: "e \<in> set (vo_outputs x) \<Longrightarrow> data_key_of e \<in> set (output_keys x)"
  by (simp add: output_keys_def)

lemma data_effect_ok:
  assumes c: "data_ok E c (fw_data s)" and v: "outputs_ok E c v"
    and e: "e \<in> {EvStart v, EvCollect v, EvMove v, EvChild v} \<union> range EvEarly"
    and d: "data_effect E fc gc e s = Some s'"
  shows "data_ok E c (fw_data s') \<and> fw_state s' = fw_state s
    \<and> (\<forall>k. k \<notin> set (output_keys (fe_ops E v)) \<longrightarrow>
         map_of (dc_table (fw_data s' ! fe_ctx E)) k = map_of (dc_table (fw_data s ! fe_ctx E)) k)
    \<and> (holds_outputs E s v \<or> e = EvCollect v \<longrightarrow> holds_outputs E s' v)"
proof -
  let ?a = "fe_ctx E" and ?outs = "vo_outputs (fe_ops E v)"
  have a: "?a < length (fw_data s)" "registered_ok (fw_data s ! ?a)" "dc_array (fw_data s ! ?a) = dc_array c"
    using c by (simp_all add: data_ok_def)
  from e consider "e = EvCollect v" | "e = EvMove v" | "e = EvChild v" | "e \<in> {EvStart v} \<union> range EvEarly" by auto
  then show ?thesis
  proof cases
    case 1
    let ?h = "case fw_args s v of None \<Rightarrow> Map.empty | Some (h, _) \<Rightarrow> h" and ?ps = "map_option snd (fw_args s v)"
    have i: "\<forall>e \<in> set ?outs. indexed (fw_data s ! ?a) e"
      using v indexed_array[OF a(3)] by (auto simp: outputs_ok_def)
    have dist: "distinct (map data_key_of ?outs)" using v by (simp add: outputs_ok_def output_keys_def)
    have nv: "ps = None \<or> \<not> is_var (fi_name (fl_info e))" if "e \<in> set ?outs" for e and ps :: "params option"
      using v that by (auto simp: outputs_ok_def)
    obtain c' where c': "CollectOutputs ?h ?ps (fw_state s v) ?outs (fw_data s ! ?a) = Some c'"
        "registered_ok c'" "dc_array c' = dc_array (fw_data s ! ?a)"
        "\<forall>e \<in> set ?outs. held (fo_hold (fl_info e)) (value_at c' (data_key_of e)) = emitted (fw_state s v) (fl_info e)"
        "\<forall>k. k \<notin> data_key_of ` set ?outs \<longrightarrow> map_of (dc_table c') k = map_of (dc_table (fw_data s ! ?a)) k"
      using CollectOutputs_spec[of ?outs ?ps, OF nv a(2) i dist, of ?h "fw_state s v"] by blast
    with d 1 have s': "s' = s\<lparr>fw_data := (fw_data s)[?a := c']\<rparr>" by simp
    show ?thesis using c'(2-5) a by (simp add: s' data_ok_def holds_outputs_def output_keys_def)
  next
    case 2
    have "MoveDataWhenSkipped ?a ?outs (fw_data s) = fw_data s"
      using v by (intro no_skip_move_data) (simp add: outputs_ok_def)
    with d 2 have "s' = s" by simp
    with 2 c show ?thesis by simp
  next
    case 3
    have t: "dc_table (SetChild ch i x) = dc_table x" "dc_array (SetChild ch i x) = dc_array x"
      "registered_ok (SetChild ch i x) = registered_ok x" for ch i x
      by (simp_all add: SetChild_def registered_ok_def value_at_def)
    have m: "modify_data ?a f (fw_data s) ! ?a = f (fw_data s ! ?a)" for f using a(1) by (simp add: modify_data_def)
    have l: "length (modify_data ?a f (fw_data s)) = length (fw_data s)" for f by (simp add: modify_data_def)
    have "s' = s \<or> (\<exists>i. s' = s\<lparr>fw_data := modify_data ?a (SetChild (fc_child fc) i) (fw_data s)\<rparr>)"
      using d 3 by (auto split: option.splits)
    then show ?thesis using 3 c a by (auto simp: data_ok_def holds_outputs_def m l t value_at_def)
  next
    case 4
    then have "s' = s" using d by auto
    with 4 c show ?thesis by auto
  qed
qed

lemma data_effects_ok:
  assumes v: "outputs_ok E c v"
  shows "data_ok E c (fw_data s) \<Longrightarrow> quiet v evs \<Longrightarrow> data_effects E fc gc evs s = Some s' \<Longrightarrow>
    data_ok E c (fw_data s') \<and> fw_state s' = fw_state s
    \<and> (\<forall>k. k \<notin> set (output_keys (fe_ops E v)) \<longrightarrow>
         map_of (dc_table (fw_data s' ! fe_ctx E)) k = map_of (dc_table (fw_data s ! fe_ctx E)) k)
    \<and> (holds_outputs E s v \<or> EvCollect v \<in> set evs \<longrightarrow> holds_outputs E s' v)"
proof (induction evs arbitrary: s)
  case (Cons e evs)
  from Cons.prems(3) obtain s1 where s1: "data_effect E fc gc e s = Some s1" "data_effects E fc gc evs s1 = Some s'"
    by (auto simp: bind_eq_Some_conv)
  have e: "e \<in> {EvStart v, EvCollect v, EvMove v, EvChild v} \<union> range EvEarly" "quiet v evs"
    using Cons.prems(2) by (auto simp: quiet_def)
  note one = data_effect_ok[OF Cons.prems(1) v e(1) s1(1)]
  note IH = Cons.IH[OF one[THEN conjunct1] e(2) s1(2)]
  show ?case using one IH by auto
qed simp

section \<open>What the executor does\<close>

lemma FinishVertexProcess_collects:
  assumes "FinishVertexProcess g v code adj gc = (gc', evs)" "vx_result (gc_ctx gc' v) = V_RESULT_OK"
    "vx_processor (gc_ctx gc v) \<noteq> None" "vx_result (gc_ctx gc v) \<in> {V_RESULT_INVALID, V_RESULT_ERR, V_RESULT_SKIP}"
  shows "EvCollect v \<in> set evs"
proof -
  define early where "early = (adj \<and> code \<noteq> 0
                  \<and> (v_early_exit_graph_if_failed (deref g v) \<or> g_early_exit_graph_if_failed g))"
  define code1 where "code1 = (if adj \<and> \<not> early
    then (if v_ignore_processor_execute_error (deref g v) \<and> \<not> IsCondVertex (deref g v) then 0 else code) else code)"
  define gc1 where "gc1 = (if early then SetEarlyExitCode code gc else gc)"
  have gc': "gc' = modify_ctx v (\<lambda>c. c\<lparr>vx_code := code1,
                  vx_exec_rc := (if vx_exec_rc c = INT_MAX then code1 else vx_exec_rc c),
                  vx_result := (if code1 \<noteq> 0
                     then (if vx_result c = V_RESULT_INVALID then V_RESULT_ERR else vx_result c)
                     else V_RESULT_OK)\<rparr>) gc1"
    and evs: "evs = (if early then [EvEarly code] else [])
              @ (if vx_processor (gc_ctx gc v) \<noteq> None then [if code1 \<noteq> 0 then EvMove v else EvCollect v] else [])
              @ (if vx_subgraph_ctx (gc_ctx gc v) then [EvChild v] else [])"
    using assms(1) unfolding FinishVertexProcess_def Let_def early_def[symmetric] gc1_def[symmetric] code1_def[symmetric] by simp_all
  have same: "gc_ctx gc1 v = gc_ctx gc v" by (simp add: gc1_def SetEarlyExitCode_def)
  have "code1 = 0"
  proof (rule ccontr)
    assume "code1 \<noteq> 0"
    then have "vx_result (gc_ctx gc' v) \<in> {V_RESULT_ERR, V_RESULT_SKIP}"
      using assms(4) same by (auto simp: gc' modify_ctx_def)
    with assms(2) show False by simp
  qed
  with assms(3) show ?thesis by (simp add: evs)
qed

lemma run_collects:
  assumes t: "t \<in> {TExecute v, TProcess v}" and h: "handle g ch t gc = (gc', ts, evs)"
    and r: "vx_result (gc_ctx gc v) = V_RESULT_INVALID" "vx_processor (gc_ctx gc v) \<noteq> None" "vx_result (gc_ctx gc' v) = V_RESULT_OK"
  shows "EvCollect v \<in> set evs"
proof -
  have f: "EvCollect v \<in> set evs'" if "FinishVertexProcess g v code adj gc1 = (gc', evs')"
    "vx_processor (gc_ctx gc1 v) \<noteq> None" "vx_result (gc_ctx gc1 v) \<in> {V_RESULT_INVALID, V_RESULT_ERR, V_RESULT_SKIP}"
    for code adj gc1 evs'
    using FinishVertexProcess_collects[OF that(1) r(3) that(2,3)] .
  show ?thesis
  proof (cases "t = TExecute v")
    case True
    define gc1 where "gc1 = (if v_cluster (deref g v) \<noteq> [] \<and> \<not> vx_subgraph_cluster (gc_ctx gc v)
               then modify_ctx v (\<lambda>c. c\<lparr>vx_subgraph_cluster := ch_cluster_found ch\<rparr>) gc else gc)"
    have g1: "vx_processor (gc_ctx gc1 v) \<noteq> None" "vx_result (gc_ctx gc1 v) = V_RESULT_INVALID"
      using r by (simp_all add: gc1_def modify_ctx_def)
    from h True consider "skip_vertex g v gc1 = (gc', ts, evs)" | "ExecuteProcessor g ch v gc1 = (gc', ts, evs)"
      using g1(1) by (auto simp: Execute_def Let_def gc1_def[symmetric] split: if_splits)
    then show ?thesis
    proof cases
      case 1
      then show ?thesis using g1 r(3) unfolding skip_vertex_def
        by (auto simp: Let_def case_prod_unfold prod_eq_iff modify_ctx_def intro!: f)
    next
      case 2
      then show ?thesis using g1 r(3) unfolding ExecuteProcessor_def
        by (auto simp: Let_def case_prod_unfold prod_eq_iff intro!: f split: if_splits)
    qed
  next
    case False
    with t h have "EndProcess g (ch_outcome ch) v gc = (gc', ts, evs)" by simp
    then show ?thesis using r unfolding EndProcess_def
      by (auto simp: Let_def case_prod_unfold prod_eq_iff modify_ctx_def intro!: f split: op_outcome.splits if_splits)
  qed
qed

text \<open>A step that leaves its vertex running has found no fault in the injection.\<close>

definition found_cluster :: "graph \<Rightarrow> bool \<Rightarrow> vref \<Rightarrow> graph_ctx \<Rightarrow> graph_ctx" where
  "found_cluster g found v gc = (if v_cluster (deref g v) \<noteq> [] \<and> \<not> vx_subgraph_cluster (gc_ctx gc v)
     then modify_ctx v (\<lambda>c. c\<lparr>vx_subgraph_cluster := found\<rparr>) gc else gc)"

lemma Execute_operator:
  assumes "vx_processor (gc_ctx gc v) \<noteq> None"
  shows "Execute g ch v gc =
    (if \<not> (match_deps (vx_deps_results (gc_ctx gc v)) (v_deps_expected_results (deref g v))
         \<and> match_expect_config (ch_bool ch) (v_expect_config (deref g v))) \<or> ch_timeout ch \<or> gc_early_exist_rc gc \<noteq> 0
     then skip_vertex g v (found_cluster g (ch_cluster_found ch) v gc)
     else ExecuteProcessor g ch v (found_cluster g (ch_cluster_found ch) v gc))"
proof -
  let ?gc1 = "found_cluster g (ch_cluster_found ch) v gc"
  have f: "vx_processor (gc_ctx ?gc1 v) = vx_processor (gc_ctx gc v)" "vx_deps_results (gc_ctx ?gc1 v) = vx_deps_results (gc_ctx gc v)"
    "gc_early_exist_rc ?gc1 = gc_early_exist_rc gc"
    by (simp_all add: found_cluster_def modify_ctx_def)
  show ?thesis unfolding Execute_def Let_def found_cluster_def[symmetric] f using assms by simp
qed

lemma Execute_runs:
  assumes x: "Execute g ch v gc = (gc', ts, evs)" and p: "vx_processor (gc_ctx gc v) \<noteq> None" and t: "TProcess v \<in> set ts"
  shows "ch_inject_rc ch = 0 \<and> EvStart v \<in> set (snd (snd (Execute g (ch\<lparr>ch_inject_rc := 0\<rparr>) v gc)))"
proof -
  let ?gc1 = "found_cluster g (ch_cluster_found ch) v gc"
  have skip: "fst (snd (skip_vertex g v ?gc1)) = [TDone v]" by (simp add: skip_vertex_def Let_def case_prod_unfold)
  have run: "ExecuteProcessor g ch v ?gc1 = (gc', ts, evs)"
    and guard: "\<not> (\<not> (match_deps (vx_deps_results (gc_ctx gc v)) (v_deps_expected_results (deref g v))
         \<and> match_expect_config (ch_bool ch) (v_expect_config (deref g v))) \<or> ch_timeout ch \<or> gc_early_exist_rc gc \<noteq> 0)"
    using x t skip unfolding Execute_operator[OF p] by (auto split: if_splits)
  have "ch_inject_rc ch = 0"
    using run t by (auto simp: ExecuteProcessor_def Let_def case_prod_unfold split: if_splits)
  moreover have "Execute g (ch\<lparr>ch_inject_rc := 0\<rparr>) v gc = (?gc1, [TProcess v], [EvStart v])"
    using guard unfolding Execute_operator[OF p] by (simp add: ExecuteProcessor_def)
  ultimately show ?thesis by simp
qed

lemma Notify_keeps:
  assumes "Notify v i ready gc = (gc', ts, evs)"
  shows "evs = []" "vx_result (gc_ctx gc' u) = vx_result (gc_ctx gc u)" "TProcess u \<notin> set ts"
proof -
  have e: "TProcess u \<notin> set (ExecuteReadyVertexs x ws)" for x ws by (auto simp: ExecuteReadyVertexs_def)
  have s: "vx_result (snd (SetDependencyResult k r c)) = vx_result c" for k r c
    by (simp add: SetDependencyResult_def Let_def case_prod_unfold)
  show "evs = []" using assms by (auto simp: Notify_def Let_def split: prod.splits if_splits)
  show "TProcess u \<notin> set ts" using assms e by (auto simp: Notify_def Let_def split: prod.splits if_splits)
  show "vx_result (gc_ctx gc' u) = vx_result (gc_ctx gc u)"
    using assms s by (auto simp: Notify_def Let_def modify_ctx_def case_prod_unfold split: if_splits)
qed

section \<open>The invariant\<close>

definition feeds :: "flow_env \<Rightarrow> data_ctx \<Rightarrow> vref \<Rightarrow> output_info field_data \<Rightarrow> vref \<Rightarrow> input_info field_data \<Rightarrow> bool" where
  "feeds E c u out w inp = (out \<in> set (vo_outputs (fe_ops E u)) \<and> inp \<in> set (vo_inputs (fe_ops E w))
     \<and> data_key_of inp = data_key_of out \<and> fi_hold (fl_info inp) = fo_hold (fl_info out) \<and> fi_kind (fl_info inp) = OpInput
     \<and> (fl_data inp = None \<or> aggregate (the (fl_data inp)) = []) \<and> indexed c inp)"

definition reads_ok :: "flow_env \<Rightarrow> graph \<Rightarrow> (vref \<Rightarrow> processor_info option) \<Rightarrow> data_ctx \<Rightarrow> flow \<Rightarrow> vref \<Rightarrow> bool" where
  "reads_ok E g procs c s w = (\<forall>u inp out x. depends g w u \<longrightarrow> procs u \<noteq> None \<longrightarrow>
     vx_result (gc_ctx (en_ctx (fw_engine s)) u) = V_RESULT_OK \<longrightarrow> feeds E c u out w inp \<longrightarrow>
     emitted (fw_state s u) (fl_info out) = Some x \<longrightarrow> op_member (fw_state s w) (fi_member (fl_info inp)) = Some x)"

definition flow_inv :: "flow_env \<Rightarrow> graph \<Rightarrow> (vref \<Rightarrow> processor_info option) \<Rightarrow> data_ctx \<Rightarrow> flow \<Rightarrow> bool" where
  "flow_inv E g procs c s = (data_ok E c (fw_data s)
     \<and> (\<forall>u. valid_ref g u \<longrightarrow> procs u \<noteq> None \<longrightarrow>
          vx_result (gc_ctx (en_ctx (fw_engine s)) u) = V_RESULT_OK \<longrightarrow> holds_outputs E s u)
     \<and> (\<forall>w. TProcess w \<in># en_tasks (fw_engine s) \<longrightarrow> procs w \<noteq> None \<longrightarrow> reads_ok E g procs c s w))"

lemma before_effect:
  assumes "before E g fc t s = Some (ch, s1)" "t \<in> {TExecute v, TProcess v}"
    and "inputs_ok E v" "data_ok E c (fw_data s)"
    and "fc_subgraph fc (fw_data s) ! fe_ctx E = fw_data s ! fe_ctx E"
    and "length (fc_subgraph fc (fw_data s)) = length (fw_data s)"
  shows "fw_data s1 ! fe_ctx E = fw_data s ! fe_ctx E \<and> data_ok E c (fw_data s1)
    \<and> (\<forall>u. u \<noteq> v \<longrightarrow> fw_state s1 u = fw_state s u)"
proof (cases "t = TExecute v")
  case True
  show ?thesis
  proof (cases "calls_operator g (fc_choice fc) v (en_ctx (fw_engine s))")
    case calls: True
    obtain rc where pi: "prepare_and_inject E fc v s = Some (rc, s1)" using assms(1) True calls by auto
    have noninj: "\<forall>e \<in> set (vo_inputs (fe_ops E v)). \<not> entry_move e" using assms(3) by (simp add: inputs_ok_def)
    show ?thesis
    proof (cases "vo_class (fe_ops E v)")
      case None
      then show ?thesis using pi assms(4) by (simp add: prepare_and_inject_def Let_def split: prod.splits)
    next
      case (Some cl)
      obtain h ps where hp: "fc_args fc = (h, ps)" by fastforce
      obtain st' cs st where i: "InjectInputs (fe_di E) h (Some ps) (fe_ctx E) (vo_inputs (fe_ops E v)) (st, fw_data s) = Some (rc, st', cs)"
        "s1 = s\<lparr>fw_state := (fw_state s)(v := st'), fw_data := cs, fw_args := (fw_args s)(v := Some (h, ps))\<rparr>"
        using pi Some hp by (auto simp: prepare_and_inject_def Let_def)
      from InjectInputs_keeps_data[OF i(1) noninj] i(2) assms(4) show ?thesis by simp
    qed
  next
    case False
    then show ?thesis using assms(1,4) True by simp
  qed
next
  case False
  then have t: "t = TProcess v" using assms(2) by simp
  show ?thesis
    using assms(1,4,5,6) t
    by (auto simp: run_operator_def data_ok_def split: if_splits option.splits prod.splits)
qed

lemma started_reads:
  assumes b: "before E g fc (TExecute v) s = Some (ch, s1)" and h: "Execute g ch v (en_ctx (fw_engine s)) = (gc', ts, evs)"
    and t: "TProcess v \<in> set ts" and p: "vx_processor (gc_ctx (en_ctx (fw_engine s)) v) \<noteq> None"
    and cls: "vo_class (fe_ops E v) \<noteq> None" and io: "inputs_ok E v" and d: "data_ok E c (fw_data s)"
    and hold: "holds_outputs E s u" and f: "feeds E c u out v inp" and var: "\<not> is_var (fi_name (fl_info out))"
    and x: "emitted (fw_state s u) (fl_info out) = Some x"
  shows "op_member (fw_state s1 v) (fi_member (fl_info inp)) = Some x"
proof -
  note run = Execute_runs[OF h p t]
  obtain rc0 where ch: "ch = (fc_choice fc)\<lparr>ch_inject_rc := rc0\<rparr>" using before_engine[OF b] by blast
  then have same: "ch\<lparr>ch_inject_rc := 0\<rparr> = (fc_choice fc)\<lparr>ch_inject_rc := 0\<rparr>" by simp
  have calls: "calls_operator g (fc_choice fc) v (en_ctx (fw_engine s))"
    using run p unfolding calls_operator_def same by simp
  obtain rc where pi: "prepare_and_inject E fc v s = Some (rc, s1)" "ch = (fc_choice fc)\<lparr>ch_inject_rc := rc\<rparr>"
    using b calls by auto
  have rc: "rc = 0" using run pi(2) by simp
  obtain hp ps where hps: "fc_args fc = (hp, ps)" by fastforce
  obtain st st' cs where i: "InjectInputs (fe_di E) hp (Some ps) (fe_ctx E) (vo_inputs (fe_ops E v)) (st, fw_data s) = Some (0, st', cs)"
    "fw_state s1 v = st'"
    using pi(1) cls hps rc by (auto simp: prepare_and_inject_def Let_def)
  have ff: "out \<in> set (vo_outputs (fe_ops E u))" "inp \<in> set (vo_inputs (fe_ops E v))" "data_key_of inp = data_key_of out"
    "fi_hold (fl_info inp) = fo_hold (fl_info out)" "fi_kind (fl_info inp) = OpInput"
    "fl_data inp = None \<or> aggregate (the (fl_data inp)) = []" "indexed c inp"
    using f by (simp_all add: feeds_def)
  have ix: "indexed (fw_data s ! fe_ctx E) inp" using ff(7) d indexed_array by (auto simp: data_ok_def)
  have "held (fi_hold (fl_info inp)) (value_at (fw_data s ! fe_ctx E) (data_key_of inp)) = Some x"
    using hold ff(1,3,4) x by (simp add: holds_outputs_def)
  then have "local_value (fw_data s) (fi_hold (fl_info inp)) (data_key_of inp) (fl_idx inp) (fe_ctx E) = Some x"
    using ix by (simp add: local_value_def GetDataValue_def indexed_def)
  moreover have "\<not> is_var (fi_name (fl_info inp))" using var ff(3) by (simp add: data_key_of_def)
  ultimately show ?thesis
    using InjectInputs_reads[OF i(1) _ _ ff(2) _ ff(5,6), of x] io i(2) by (simp add: inputs_ok_def)
qed

text \<open>The dependencies of a vertex that runs are done.\<close>

lemma running_deps:
  assumes inv: "engine_inv g procs gc ts l" and g: "runnable g" and w: "t \<in> {TExecute w, TProcess w}" "t \<in># ts" and u: "depends g w u"
  shows "finished l u \<noteq> None" "tokens u ts = 0" "valid_ref g u"
proof -
  note e = runnable_edges[OF g]
  obtain rest where rest: "ts = add_mset t rest" using w(2) by (meson multi_member_split)
  have v: "valid_ref g w" using inv rest w(1) valid_token by blast
  have tk: "0 < tok w t" using w(1) by auto
  note single = single_token[OF inv[unfolded rest] v tk]
  obtain i where i: "(u, i) \<in> set (deps_idx g w)" using u by (auto simp: depends_def)
  show fin: "finished l u \<noteq> None" using deps_reported(2)[OF inv[unfolded rest] e v single(2) i] by simp
  show vu: "valid_ref g u" using edges_okD(3)[OF e v u] .
  show "tokens u ts = 0"
    using tokens_okD[OF engine_invD(4)[OF inv] vu] fin by (auto simp: token_ok_def split: option.splits)
qed

lemma flow_inv_run:
  assumes env: "env_ok E g procs c" and g: "runnable g" and I: "flow_inv E g procs c s"
    and inv: "inv_of g procs (fw_engine s)" and rest: "en_tasks (fw_engine s) = add_mset t rest"
    and t: "t \<in> {TExecute v, TProcess v}"
    and sub: "fc_subgraph fc (fw_data s) ! fe_ctx E = fw_data s ! fe_ctx E" "length (fc_subgraph fc (fw_data s)) = length (fw_data s)"
    and b: "before E g fc t s = Some (ch, s1)"
    and h: "handle g ch t (en_ctx (fw_engine s)) = (gc', ts, evs)" and d: "data_effects E fc (en_ctx (fw_engine s)) evs s1 = Some s2"
  shows "flow_inv E g procs c (s2\<lparr>fw_engine := after g ch t (fw_engine s)\<rparr>)"
proof -
  let ?gc = "en_ctx (fw_engine s)" and ?l = "en_log (fw_engine s)"
  have inv': "engine_inv g procs ?gc (add_mset t rest) ?l" using inv rest by simp
  have v: "valid_ref g v" using valid_token[OF inv'] t by blast
  have vok: "outputs_ok E c v" "inputs_ok E v" "procs v \<noteq> None \<longleftrightarrow> vo_class (fe_ops E v) \<noteq> None"
    using env v by (simp_all add: env_ok_def)
  have tk: "0 < tok v t" using t by auto
  note single = single_token[OF inv' v tk]
  have data: "data_ok E c (fw_data s)" using I by (simp add: flow_inv_def)
  have procs: "vx_processor (gc_ctx ?gc u) = procs u" if "valid_ref g u" for u
    using engine_invD(1)[OF inv'] that by (simp add: static_ok_def)
  note B = before_effect[OF b t vok(2) data sub]
  obtain t' where t': "ts = [t']" "run_effect v ?gc gc' t' evs" "t = TProcess v \<longrightarrow> t' \<noteq> TProcess v"
    using handle_run[OF inv' t h] by blast
  have q: "quiet v evs" and loc: "local_effect v ?gc gc'" using t'(2) by (simp_all add: run_effect_def)
  note D = data_effects_ok[OF vok(1) B[THEN conjunct2, THEN conjunct1] q d]
  have same: "gc_ctx gc' u = gc_ctx ?gc u" if "u \<noteq> v" for u using loc that by (simp add: local_effect_def)
  let ?s' = "s2\<lparr>fw_engine := after g ch t (fw_engine s)\<rparr>"
  have eng: "en_ctx (fw_engine ?s') = gc'" "en_tasks (fw_engine ?s') = add_mset t' rest"
    using h t'(1) rest by (simp_all add: after_def)
  have state: "fw_state s2 u = fw_state s u" if "u \<noteq> v" for u using D B that by simp
  have vals: "value_at (fw_data s2 ! fe_ctx E) k = value_at (fw_data s ! fe_ctx E) k"
    if "k \<notin> set (output_keys (fe_ops E v))" for k
    using D[THEN conjunct2, THEN conjunct2, THEN conjunct1, rule_format, OF that] B by (auto intro: value_at_table)
  have "holds_outputs E ?s' u"
    if u: "valid_ref g u" "procs u \<noteq> None" "vx_result (gc_ctx gc' u) = V_RESULT_OK" for u
  proof (cases "u = v")
    case True
    have "vx_result (gc_ctx ?gc v) = V_RESULT_INVALID" using running_invalid[OF inv'] t by blast
    then have "EvCollect v \<in> set evs" using run_collects[OF t h] u True procs by simp
    then have "holds_outputs E s2 v" using D by simp
    then show ?thesis using True by (simp add: holds_outputs_def)
  next
    case False
    then have "holds_outputs E s u" using I u same by (simp add: flow_inv_def)
    moreover have "set (output_keys (fe_ops E u)) \<inter> set (output_keys (fe_ops E v)) = {}"
      using env u(1) v False unfolding env_ok_def by blast
    then have "data_key_of e \<notin> set (output_keys (fe_ops E v))" if "e \<in> set (vo_outputs (fe_ops E u))" for e
      using output_key_in[OF that] by blast
    ultimately show ?thesis using vals state[OF False] by (simp add: holds_outputs_def)
  qed
  moreover have "reads_ok E g procs c ?s' w" if w: "TProcess w \<in># add_mset t' rest" "procs w \<noteq> None" for w
  proof (cases "TProcess w \<in># rest")
    case True
    then have m: "TProcess w \<in># en_tasks (fw_engine s)" using rest by simp
    have wv: "w \<noteq> v" using True no_token[OF single(4), of "TProcess v"] by auto
    have old: "reads_ok E g procs c s w" using I m w(2) by (simp add: flow_inv_def)
    have dv: "u \<noteq> v" if "depends g w u" for u
      using running_deps(1)[OF inv g _ m that] single(1) by auto
    show ?thesis unfolding reads_ok_def
    proof (intro allI impI)
      fix u inp out x assume a: "depends g w u" "procs u \<noteq> None"
        "vx_result (gc_ctx (en_ctx (fw_engine ?s')) u) = V_RESULT_OK" "feeds E c u out w inp"
        "emitted (fw_state ?s' u) (fl_info out) = Some x"
      have "vx_result (gc_ctx ?gc u) = V_RESULT_OK" "emitted (fw_state s u) (fl_info out) = Some x"
        using a(3,5) dv[OF a(1)] same state unfolding eng(1) by simp_all
      then have "op_member (fw_state s w) (fi_member (fl_info inp)) = Some x"
        using old a(1,2,4) unfolding reads_ok_def by blast
      then show "op_member (fw_state ?s' w) (fi_member (fl_info inp)) = Some x" using state[OF wv] by simp
    qed
  next
    case False
    then have wt: "t' = TProcess w" using w(1) by simp
    then have "w = v" using t'(2) by (auto simp: run_effect_def next_task_def)
    then have tv: "t' = TProcess v" "t = TExecute v" using wt t'(3) t by auto
    have x: "Execute g ch v ?gc = (gc', ts, evs)" using h tv(2) by simp
    have res: "vx_result (gc_ctx gc' v) = V_RESULT_INVALID" using t'(2) tv(1) by (simp add: run_effect_def)
    show ?thesis unfolding reads_ok_def \<open>w = v\<close>
    proof (intro allI impI)
      fix u inp out x assume a: "depends g v u" "procs u \<noteq> None"
        "vx_result (gc_ctx (en_ctx (fw_engine ?s')) u) = V_RESULT_OK" "feeds E c u out v inp"
        "emitted (fw_state ?s' u) (fl_info out) = Some x"
      have uv: "u \<noteq> v" using a(3) res unfolding eng(1) by auto
      have ok: "valid_ref g u" using running_deps(3)[OF inv' g _ _ a(1), of "TExecute v"] tv(2) by simp
      have "holds_outputs E s u" using I ok a(2,3) same[OF uv] unfolding eng(1) by (simp add: flow_inv_def)
      moreover have "\<not> is_var (fi_name (fl_info out))" using env ok a(4) by (simp add: env_ok_def outputs_ok_def feeds_def)
      moreover have "emitted (fw_state s u) (fl_info out) = Some x" using a(5) state[OF uv] by simp
      moreover have "vx_processor (gc_ctx ?gc v) \<noteq> None" "vo_class (fe_ops E v) \<noteq> None"
        using w(2) \<open>w = v\<close> procs[OF v] vok(3) by simp_all
      moreover have "TProcess v \<in> set ts" using t'(1) tv(1) by simp
      ultimately have "op_member (fw_state s1 v) (fi_member (fl_info inp)) = Some x"
        using started_reads[OF b[unfolded tv(2)] x _ _ _ vok(2) data _ a(4)] by blast
      then show "op_member (fw_state ?s' v) (fi_member (fl_info inp)) = Some x" using D by simp
    qed
  qed
  moreover have "data_ok E c (fw_data ?s')" using D by simp
  ultimately show ?thesis unfolding flow_inv_def eng by blast
qed

lemma flow_inv_step:
  assumes env: "env_ok E g procs c" and g: "runnable g" and I: "flow_inv E g procs c s"
    and inv: "inv_of g procs (fw_engine s)" and step: "flow_step E g s s'"
  shows "flow_inv E g procs c s'"
proof -
  let ?gc = "en_ctx (fw_engine s)" and ?l = "en_log (fw_engine s)"
  from step obtain fc t where m: "t \<in># en_tasks (fw_engine s)" and en: "enabled (fc_choice fc) t ?gc"
    and sub: "fc_subgraph fc (fw_data s) ! fe_ctx E = fw_data s ! fe_ctx E" "length (fc_subgraph fc (fw_data s)) = length (fw_data s)"
    and a: "flow_after E g fc t s = Some s'"
    by (auto elim: flow_stepE)
  obtain rest where rest: "en_tasks (fw_engine s) = add_mset t rest" using m by (meson multi_member_split)
  have inv': "engine_inv g procs ?gc (add_mset t rest) ?l" using inv rest by simp
  obtain ch s1 gc' ts evs s2 where b: "before E g fc t s = Some (ch, s1)" and h: "handle g ch t ?gc = (gc', ts, evs)"
    and d: "data_effects E fc ?gc evs s1 = Some s2" and s': "s' = s2\<lparr>fw_engine := after g ch t (fw_engine s)\<rparr>"
    using a by (auto simp: flow_after_def bind_eq_Some_conv Let_def) (metis prod.collapse)
  have plain: "flow_inv E g procs c s'"
    if res: "\<And>u. vx_result (gc_ctx gc' u) = V_RESULT_OK \<Longrightarrow> valid_ref g u \<Longrightarrow> vx_result (gc_ctx ?gc u) = V_RESULT_OK"
      and tasks: "\<And>w. TProcess w \<in># rest + mset ts \<Longrightarrow> TProcess w \<in># en_tasks (fw_engine s)" and none: "s2 = s"
  proof -
    have eng: "en_ctx (fw_engine s') = gc'" "en_tasks (fw_engine s') = rest + mset ts" "fw_data s' = fw_data s" "fw_state s' = fw_state s"
      using h rest none by (simp_all add: s' after_def)
    have "reads_ok E g procs c s' w" if w: "TProcess w \<in># rest + mset ts" "procs w \<noteq> None" for w
    proof -
      have mw: "TProcess w \<in># en_tasks (fw_engine s)" using tasks w(1) by blast
      have old: "reads_ok E g procs c s w" using I mw w(2) by (simp add: flow_inv_def)
      show ?thesis unfolding reads_ok_def eng
      proof (intro allI impI)
        fix u inp out x assume a: "depends g w u" "procs u \<noteq> None" "vx_result (gc_ctx gc' u) = V_RESULT_OK"
          "feeds E c u out w inp" "emitted (fw_state s u) (fl_info out) = Some x"
        have "valid_ref g u" using running_deps(3)[OF inv g _ mw a(1)] by simp
        with res a old show "op_member (fw_state s w) (fi_member (fl_info inp)) = Some x"
          unfolding reads_ok_def by blast
      qed
    qed
    moreover have "holds_outputs E s' u" if "valid_ref g u" "procs u \<noteq> None" "vx_result (gc_ctx gc' u) = V_RESULT_OK" for u
      using I that res by (simp add: flow_inv_def holds_outputs_def eng)
    ultimately show ?thesis using I unfolding flow_inv_def eng by blast
  qed
  show ?thesis
  proof (cases t)
    case (TExecute v)
    then show ?thesis using flow_inv_run[OF env g I inv rest _ sub b h d] s' by blast
  next
    case (TProcess v)
    then show ?thesis using flow_inv_run[OF env g I inv rest _ sub b h d] s' by blast
  next
    case (TNotify v i ready)
    then have n: "Notify v i ready ?gc = (gc', ts, evs)" using h by simp
    note k = Notify_keeps[OF n]
    have "s2 = s" using b d TNotify k(1) by simp
    with k rest show ?thesis by (intro plain) auto
  next
    case (TDone v)
    then have o: "OnVertexDone g v ?gc = (gc', ts, evs)" using h by simp
    have none: "s2 = s"
    proof -
      have "data_effects E fc ?gc evs s = Some s"
        using o by (auto simp: OnVertexDone_def Let_def split: prod.splits if_splits)
      with b d TDone show ?thesis by simp
    qed
    show ?thesis
    proof (rule plain)
      show "s2 = s" using none .
      fix u assume r: "vx_result (gc_ctx gc' u) = V_RESULT_OK" "valid_ref g u"
      have vs: "set (gc_vertexs ?gc) = vertices g" using engine_invD(1)[OF inv'] by (simp add: static_ok_def)
      show "vx_result (gc_ctx ?gc u) = V_RESULT_OK"
        using o r vs by (auto simp: OnVertexDone_def Let_def ResetStateGraph_def ResetState_def split: prod.splits if_splits)
    next
      fix w assume w: "TProcess w \<in># rest + mset ts"
      have "TProcess w \<notin> set ts"
        using o by (auto simp: OnVertexDone_def Let_def ExecuteReadyVertexs_def split: prod.splits if_splits)
      with w rest show "TProcess w \<in># en_tasks (fw_engine s)" by simp
    qed
  next
    case (TLost v)
    with en show ?thesis by simp
  qed
qed

end
