(* ===== verification/Dataflow.thy ===== *)
theory Dataflow
  imports FlowProps
begin

text \<open>
  From the configuration to the data that an operator reads: the builder, the setting up of the
  operators and the run of the graph put together.
\<close>

section \<open>The operators of a graph\<close>

text \<open>
  \<open>_vertex_context_table\<close>: the operators that \<open>SetupData\<close> returns are those of the vertices
  \<open>vs ! i\<close> for the positions \<open>i\<close> in \<open>ord\<close>.
\<close>

definition operator_table :: "vref list \<Rightarrow> nat list \<Rightarrow> operator_ctx list \<Rightarrow> vref \<Rightarrow> operator_ctx" where
  "operator_table vs ord ops v = the (map_of (zip (map ((!) vs) ord) ops) v)"

definition configured :: "graph_data list \<Rightarrow> 'a field_info_scheme field_data \<Rightarrow> bool" where
  "configured ds e = (case fl_data e of None \<Rightarrow> True | Some d \<Rightarrow> d \<in> set ds \<and> fi_name (fl_info e) = d_id d)"

definition operator_of :: "vertex \<Rightarrow> operator_ctx \<Rightarrow> bool" where
  "operator_of v x = ((\<forall>e \<in> set (vo_inputs x). configured (v_input v) e) \<and> (\<forall>e \<in> set (vo_outputs x). configured (v_output v) e))"

lemma same_field_configured: "same_field e e' \<Longrightarrow> configured ds e' = configured ds e"
  by (cases "fl_data e") (simp_all add: same_field_def configured_def)

lemma bind_fields_configured:
  "bind_fields strict ds ids = (rc, ids') \<Longrightarrow> \<forall>e \<in> set ids. configured all e \<Longrightarrow> set ds \<subseteq> set all \<Longrightarrow>
    \<forall>e \<in> set ids'. configured all e"
proof (induction ds arbitrary: ids)
  case (Cons d ds)
  have b: "configured all (bind_field d e)" for e using Cons.prems(3) by (simp add: configured_def bind_field_def)
  show ?case
  proof (cases "find_entry (d_field d) ids")
    case None
    with Cons show ?thesis by (auto split: if_splits)
  next
    case (Some k)
    have "\<forall>e \<in> set (ids[k := bind_field d (ids ! k)]). configured all e"
      using Cons.prems(2) b set_update_subset_insert[of ids k "bind_field d (ids ! k)"] by blast
    with Cons.IH[of "ids[k := bind_field d (ids ! k)]"] Cons.prems(1,3) Some show ?thesis by simp
  qed
qed simp

lemma SetupInputOutputIds_configured:
  "SetupInputOutputIds strict decls ds = (rc, ids) \<Longrightarrow> e \<in> set ids \<Longrightarrow> configured ds e"
  unfolding SetupInputOutputIds_def
  using bind_fields_configured[of strict ds "map FieldData decls" rc ids ds] by (auto simp: configured_def FieldData_def)

lemma SetupOperator_operator_of:
  assumes "SetupOperator c t f v = Ok x"
  shows "operator_of v x"
proof -
  obtain selects where s: "(case vertex_class t v of
         None \<Rightarrow> Ok \<lparr>vo_class = None, vo_inputs = [], vo_outputs = [], vo_params = v_args v, vo_selects = selects, vo_state = no_state\<rparr>
       | Some p \<Rightarrow>
           let (rci, ins) = SetupInputOutputIds (c_strict_dsl c) (pr_inputs (oc_processor p)) (v_input v);
               (rco, outs) = SetupInputOutputIds (c_strict_dsl c) (pr_outputs (oc_processor p)) (v_output v)
           in if rci \<noteq> 0 \<or> rco \<noteq> 0 then Err UnknownField
              else let params = operator_params v (v_args v);
                       (rc, st) = oc_setup p params (ResetOp (oc_processor p) f (new_op (oc_processor p)))
                   in if rc \<noteq> 0 then Err (OperatorSetupFailed rc)
                      else Ok \<lparr>vo_class = Some p, vo_inputs = ins, vo_outputs = outs, vo_params = params,
                                vo_selects = selects, vo_state = st\<rparr>) = Ok x"
    using assms unfolding SetupOperator_def Let_def by (auto simp: and_then_Ok_iff split: if_splits)
  show ?thesis
  proof (cases "vertex_class t v")
    case None
    with s show ?thesis by (auto simp: operator_of_def)
  next
    case (Some p)
    obtain rci ins rco outs where io: "SetupInputOutputIds (c_strict_dsl c) (pr_inputs (oc_processor p)) (v_input v) = (rci, ins)"
      "SetupInputOutputIds (c_strict_dsl c) (pr_outputs (oc_processor p)) (v_output v) = (rco, outs)"
      by fastforce
    have "vo_inputs x = ins \<and> vo_outputs x = outs"
      using s Some io by (auto simp: Let_def split: if_splits prod.splits)
    then show ?thesis using SetupInputOutputIds_configured[OF io(1)] SetupInputOutputIds_configured[OF io(2)]
      by (simp add: operator_of_def)
  qed
qed

lemma SetupOperators_operator_of: "SetupOperators c t f vs s = Ok (ops, s') \<Longrightarrow> list_all2 operator_of vs ops"
  by (induction vs arbitrary: s ops) (auto simp: and_then_Ok_iff dest: SetupOperator_operator_of)

lemma same_fields_configured: "list_all2 same_field es es' \<Longrightarrow> (\<forall>e \<in> set es'. configured ds e) = (\<forall>e \<in> set es. configured ds e)"
  by (induction rule: list_all2_induct) (auto simp: same_field_configured)

lemma RegisterOperators_operator_of:
  "registered_ok c \<Longrightarrow> RegisterOperators s xs c = Ok (ys, c') \<Longrightarrow> list_all2 (\<lambda>x y. \<forall>v. operator_of v x \<longrightarrow> operator_of v y) xs ys"
proof (induction xs arbitrary: c ys)
  case (Cons x xs)
  obtain ins c1 where 1: "register_inputs s (vo_inputs x) c = Ok (ins, c1)"
    and rest: "(let (outs, c2) = register_outputs (vo_outputs x) c1
      in and_then (RegisterOperators s xs c2) (\<lambda>(ys, c3). Ok (x\<lparr>vo_inputs := ins, vo_outputs := outs\<rparr> # ys, c3))) = Ok (ys, c')"
    using Cons.prems(2) by (auto simp: and_then_Ok_iff)
  obtain outs c2 where 2: "register_outputs (vo_outputs x) c1 = (outs, c2)" by fastforce
  obtain ys1 where 3: "RegisterOperators s xs c2 = Ok (ys1, c')" "ys = x\<lparr>vo_inputs := ins, vo_outputs := outs\<rparr> # ys1"
    using rest 2 by (auto simp: and_then_Ok_iff)
  note i = register_inputs_ok[OF Cons.prems(1) 1]
  note o2 = register_outputs_ok[OF i[THEN conjunct1] 2]
  have "operator_of v (x\<lparr>vo_inputs := ins, vo_outputs := outs\<rparr>)" if "operator_of v x" for v
    using that same_fields_configured[of "vo_inputs x" ins] same_fields_configured[of "vo_outputs x" outs] i o2
    by (simp add: operator_of_def)
  with Cons.IH[OF o2[THEN conjunct1] 3(1)] 3(2) show ?case by simp
qed simp

lemma distinct_concat_disjoint:
  "distinct (concat xs) \<Longrightarrow> i < length xs \<Longrightarrow> j < length xs \<Longrightarrow> i \<noteq> j \<Longrightarrow> set (xs ! i) \<inter> set (xs ! j) = {}"
proof (induction xs arbitrary: i j)
  case (Cons x xs)
  have d: "set x \<inter> set (xs ! k) = {}" if "k < length xs" for k
    using Cons.prems(1) nth_mem[OF that] by auto
  show ?case
  proof (cases i; cases j)
    fix i' j' assume "i = Suc i'" "j = Suc j'"
    with Cons show ?thesis by simp
  qed (use Cons.prems d in auto)
qed simp

lemma distinct_concat_nth: "distinct (concat xs) \<Longrightarrow> i < length xs \<Longrightarrow> distinct (xs ! i)"
  by (induction xs arbitrary: i) (auto simp: nth_Cons split: nat.splits)

text \<open>What setting up gives each vertex.\<close>

lemma SetupData_table:
  assumes s: "SetupData c t f order (map (deref g) vs) = Ok (ops, ctx)"
    and o: "mset (order (length vs)) = mset [0..<length vs]" and d: "distinct vs"
  defines "T \<equiv> operator_table vs (order (length vs)) ops"
  shows "registered_ok ctx"
    "v \<in> set vs \<Longrightarrow> operator_of (deref g v) (T v) \<and> operator_linked ctx (set (concat (map output_keys ops))) (T v)
       \<and> distinct (output_keys (T v))"
    "u \<in> set vs \<Longrightarrow> v \<in> set vs \<Longrightarrow> u \<noteq> v \<Longrightarrow> set (output_keys (T u)) \<inter> set (output_keys (T v)) = {}"
proof -
  let ?n = "length vs" and ?ord = "order (length vs)"
  let ?c0 = "ReserveChildCapacity (length (filter (\<lambda>v. v_cluster v \<noteq> []) (map (deref g) vs))) new_data_ctx"
  obtain ops1 ids where 1: "SetupOperators c t f (map (deref g) vs) {} = Ok (ops1, ids)"
    and 2: "RegisterOperators ids (map ((!) ops1) ?ord) ?c0 = Ok (ops, ctx)"
    using s by (auto simp: SetupData_def and_then_Ok_iff)
  have "mset (order (length (map (deref g) vs))) = mset [0..<length (map (deref g) vs)]" using o by simp
  note L = SetupData_linked[OF s this]
  show "registered_ok ctx" using L by simp
  have len: "length ops = ?n" "length ?ord = ?n" using L mset_eq_length[OF o] by simp_all
  have ord1: "set ?ord = {..<?n}" unfolding mset_eq_setD[OF o] by auto
  have ord2: "distinct ?ord" unfolding mset_eq_imp_distinct_iff[OF o] by (rule distinct_upt)
  note ord = ord1 ord2
  have r0: "registered_ok ?c0" by (simp add: ReserveChildCapacity_def registered_ok_def new_data_ctx_def)
  have keys: "distinct (map ((!) vs) ?ord)"
    unfolding distinct_map inj_on_def using d ord(2) by (simp add: ord(1) nth_eq_iff_index_eq)
  have at: "T (vs ! (?ord ! i)) = ops ! i" if "i < ?n" for i
  proof -
    have "map_of (zip (map ((!) vs) ?ord) ops) (map ((!) vs) ?ord ! i) = Some (ops ! i)"
      using that len keys by (intro map_of_zip_nth) simp_all
    then show ?thesis using that len by (simp add: T_def operator_table_def)
  qed
  have pos: "\<exists>i < ?n. v = vs ! (?ord ! i)" if v: "v \<in> set vs" for v
  proof -
    obtain k where k: "k < ?n" "vs ! k = v" using v by (auto simp: in_set_conv_nth)
    then have "k \<in> set ?ord" using ord by simp
    then show ?thesis using k len by (auto simp: in_set_conv_nth)
  qed
  have oo: "operator_of (deref g (vs ! (?ord ! i))) (ops ! i)" if i: "i < ?n" for i
  proof -
    have "?ord ! i < ?n" using ord(1) len i nth_mem[of i ?ord] by auto
    then have "operator_of (deref g (vs ! (?ord ! i))) (ops1 ! (?ord ! i))"
      using SetupOperators_operator_of[OF 1] by (simp add: list_all2_conv_all_nth)
    then show ?thesis using RegisterOperators_operator_of[OF r0 2] i len by (simp add: list_all2_conv_all_nth)
  qed
  show "operator_of (deref g v) (T v) \<and> operator_linked ctx (set (concat (map output_keys ops))) (T v)
       \<and> distinct (output_keys (T v))" if v: "v \<in> set vs" for v
  proof -
    obtain i where i: "i < ?n" "v = vs ! (?ord ! i)" using pos[OF v] by blast
    have "distinct (map output_keys ops ! i)" using L i len by (intro distinct_concat_nth) simp_all
    then show ?thesis using i oo at L len by simp
  qed
  show "set (output_keys (T u)) \<inter> set (output_keys (T v)) = {}" if u: "u \<in> set vs" "v \<in> set vs" "u \<noteq> v" for u v
  proof -
    obtain i j where i: "i < ?n" "u = vs ! (?ord ! i)" "j < ?n" "v = vs ! (?ord ! j)" using pos u by blast
    then have "i \<noteq> j" using u(3) by blast
    then have "set (map output_keys ops ! i) \<inter> set (map output_keys ops ! j) = {}"
      using L i len by (intro distinct_concat_disjoint) simp_all
    then show ?thesis using i at len by simp
  qed
qed

section \<open>Graphs whose data stay where they are\<close>

text \<open>
  No output of the operator has a variable for a name or is made up by moving an input, and no
  input is moved out of the data of the graph; each input has a member of its own.
\<close>

definition stays :: "operator_ctx \<Rightarrow> bool" where
  "stays x = ((\<forall>e \<in> set (vo_outputs x). \<not> is_var (fi_name (fl_info e)) \<and> no_skip_move e)
     \<and> distinct (map (\<lambda>e. fi_member (fl_info e)) (vo_inputs x)) \<and> (\<forall>e \<in> set (vo_inputs x). \<not> entry_move e))"

text \<open>An input that is configured to be an output of another operator.\<close>

definition carries :: "output_info field_data \<Rightarrow> input_info field_data \<Rightarrow> bool" where
  "carries out inp = (fl_data out \<noteq> None
     \<and> (case fl_data inp of None \<Rightarrow> False | Some d \<Rightarrow> aggregate d = [] \<and> \<not> is_in_out d)
     \<and> data_key_of inp = data_key_of out \<and> fi_hold (fl_info inp) = fo_hold (fl_info out)
     \<and> fi_kind (fl_info inp) = OpInput \<and> \<not> fi_is_extern (fl_info inp) \<and> \<not> fi_is_aggregate (fl_info inp))"

lemma env_okI:
  assumes g: "runnable g" and vs: "vs = remdups (map snd (g_nodes g))"
    and s: "SetupData c t f order (map (deref g) vs) = Ok (ops, ctx)"
    and o: "mset (order (length vs)) = mset [0..<length vs]"
    and E: "fe_ops E = operator_table vs (order (length vs)) ops"
    and st: "\<forall>v \<in> set vs. stays (fe_ops E v) \<and> (procs v \<noteq> None \<longleftrightarrow> vo_class (fe_ops E v) \<noteq> None)"
  shows "env_ok E g procs ctx"
proof -
  have valid: "valid_ref g v \<longleftrightarrow> v \<in> set vs" for v using g vs by (simp add: runnable_def)
  have d: "distinct vs" using vs by simp
  note T = SetupData_table[OF s o d, folded E]
  have "outputs_ok E ctx v \<and> inputs_ok E v" if v: "v \<in> set vs" for v
  proof -
    have "indexed ctx e" if "e \<in> set (vo_outputs (fe_ops E v))" for e
      using T(2)[OF v] st v that by (simp add: operator_linked_def output_linked_def stays_def)
    then show ?thesis using T(2)[OF v] st v by (simp add: outputs_ok_def inputs_ok_def stays_def)
  qed
  then show ?thesis using T(3) st unfolding env_ok_def valid by blast
qed

lemma carried_feeds:
  assumes "out \<in> set (vo_outputs (fe_ops E u))" "inp \<in> set (vo_inputs (fe_ops E w))" "carries out inp"
    "operator_linked ctx ks (fe_ops E w)"
  shows "feeds E ctx u out w inp"
  using assms by (auto simp: feeds_def carries_def operator_linked_def GraphData.input_linked_def split: option.splits)

text \<open>The writer of an input is a dependency.\<close>

lemma carried_depends:
  assumes b: "fresh_graph g0" "GraphBuild c F g0 = Ok g" and i: "i < length (g_vertex g)" and w: "valid_ref g w"
    and u: "operator_of (deref g (VertexRef i)) x" "out \<in> set (vo_outputs x)"
    and v: "operator_of (deref g w) y" "inp \<in> set (vo_inputs y)" and car: "carries out inp"
  shows "depends g w (VertexRef i)"
proof -
  obtain d d' where d: "fl_data inp = Some d" "aggregate d = []" "\<not> is_in_out d" and d': "fl_data out = Some d'"
    using car by (auto simp: carries_def split: option.splits)
  have in_w: "d \<in> set (v_input (deref g w))" "fi_name (fl_info inp) = d_id d"
    using v d(1) by (force simp: operator_of_def configured_def)+
  have out_u: "d' \<in> set (v_output (deref g (VertexRef i)))" "fi_name (fl_info out) = d_id d'"
    using u d' by (force simp: operator_of_def configured_def)+
  have same: "d_id d = d_id d'" using car in_w(2) out_u(2) by (simp add: carries_def data_key_of_def)
  have "named_ok g (VertexRef i)" using GraphBuild_phases(6,7)[OF b] i by simp
  then have "FindVertexByData g (d_id d) = Some (VertexRef i)"
    using out_u(1) same by (simp add: named_ok_def outputs_registered_def)
  moreover have "GraphBuild.input_linked w d g"
    using GraphBuild_phases(3)[OF b w] in_w(1) by (simp add: vertex_built_def vertex_linked_def)
  ultimately show ?thesis using d by (simp add: GraphBuild.input_linked_def data_linked_def)
qed

section \<open>The invariant along a run\<close>

lemma flow_inv_start:
  assumes g: "runnable g" and gc: "SetupContexts g procs = Some gc" and d: "data_ok E c cs"
  shows "flow_inv E g procs c (flow_start E gc cs)"
proof -
  have inv: "engine_inv g procs gc (en_tasks (start gc)) []" using start_inv[OF g gc] by (simp add: start_def)
  have "vx_result (gc_ctx gc u) \<noteq> V_RESULT_OK" if "valid_ref g u" for u
  proof -
    have "TDone u \<notin># en_tasks (start gc)" by (auto simp: start_def ExecuteReadyVertexs_def)
    then show ?thesis using engine_invD(6)[OF inv] that by (auto simp: results_ok_def result_ok_def)
  qed
  moreover have "TProcess w \<notin># en_tasks (start gc)" for w by (auto simp: start_def ExecuteReadyVertexs_def)
  ultimately show ?thesis using d by (auto simp: flow_inv_def flow_start_def start_def)
qed

lemma flow_reachable_inv:
  assumes "flow_reachable E g procs cs s" and env: "env_ok E g procs c" and g: "runnable g" and d: "data_ok E c cs"
  shows "flow_inv E g procs c s"
proof -
  obtain gc where gc: "SetupContexts g procs = Some gc" and run: "(flow_step E g)\<^sup>*\<^sup>* (flow_start E gc cs) s"
    using assms(1) by (auto simp: flow_reachable_def)
  from run show ?thesis
  proof (induction rule: rtranclp_induct)
    case base
    show ?case using flow_inv_start[OF g gc d] .
  next
    case (step s1 s2)
    have "flow_reachable E g procs cs s1" using gc step.hyps(1) by (auto simp: flow_reachable_def)
    then have "inv_of g procs (fw_engine s1)" using reachable_inv[OF flow_reachable_engine g] by blast
    with flow_inv_step[OF env g step.IH _ step.hyps(2)] show ?case by simp
  qed
qed

lemma finished_result:
  assumes "engine_inv g procs gc ts l" "valid_ref g u" "finished l u = Some (r, code)"
  shows "vx_result (gc_ctx gc u) = r"
  using engine_invD(6)[OF assms(1)] assms(2,3) by (auto simp: results_ok_def result_ok_def dest: spec[of _ u])

end
