(* ===== verification/Composition.thy ===== *)
theory Composition
  imports Dataflow
begin

text \<open>
  The composition of the parts: a configuration that is built, set up and run, with an example.
\<close>

section \<open>An example\<close>

text \<open>Operator \<open>b\<close> reads what operator \<open>a\<close> puts out; nothing else makes it wait.\<close>

definition hand_graph :: graph where
  "hand_graph = new_graph\<lparr>g_name := ''g'', g_vertex :=
     [new_vertex\<lparr>v_id := ''a'', v_processor := ''op''\<rparr>, new_vertex\<lparr>v_id := ''b'', v_processor := ''sink''\<rparr>]\<rparr>"

definition hand_item :: graph_data where
  "hand_item = new_graph_data\<lparr>d_id := ''out'', d_field := ''out''\<rparr>"

definition hand_vertex :: "nat \<Rightarrow> vertex" where
  "hand_vertex i = (if i = 0
     then new_vertex\<lparr>v_id := ''a'', v_processor := ''op'', v_output := [hand_item], v_successor_vertex := [VertexRef 1]\<rparr>
     else new_vertex\<lparr>v_id := ''b'', v_processor := ''sink'', v_input := [hand_item],
       v_deps_expected_results := [V_RESULT_ALL], v_deps_idx := [(VertexRef 0, 0)]\<rparr>)"

definition hand_built :: graph where
  "hand_built = hand_graph\<lparr>g_vertex := map hand_vertex [0, 1], g_nodes := [(''a'', VertexRef 0), (''b'', VertexRef 1)],
     g_data_mapping_table := [(''out'', VertexRef 0)]\<rparr>"

lemma hand_built: "GraphBuild example_cluster example_factory hand_graph = Ok hand_built"
  by code_simp

lemma hand_fresh: "fresh_graph hand_graph"
  by code_simp

lemma hand_size: "no_collision hand_built" "length (g_vertex hand_built) = 2" "length (g_gen_vertex hand_built) = 0"
  by code_simp+

lemma hand_runnable: "runnable hand_built"
  by (rule built_runnable[OF hand_fresh hand_built]) (simp_all add: hand_size)

definition hand_output :: output_info where
  "hand_output = \<lparr>fi_name = ''out'', fi_id = 1, fi_is_extern = False, fi_is_aggregate = False, fi_is_in_out = False,
     fo_member = ''out'', fo_hold = ByPointer, fo_kind = FromMember, fo_arena = False\<rparr>"

definition hand_input :: input_info where
  "hand_input = \<lparr>fi_name = ''out'', fi_id = 1, fi_is_extern = False, fi_is_aggregate = False, fi_is_in_out = False,
     fi_member = ''out'', fi_hold = ByPointer, fi_kind = OpInput\<rparr>"

definition hand_creators :: creators where
  "hand_creators = [(''op'', demo_class [] [hand_output]), (''sink'', demo_class [hand_input] [])]"

definition hand_setup :: "(setup_error, operator_ctx list \<times> data_ctx) outcome" where
  "hand_setup = SetupData example_cluster hand_creators (\<lambda>st. st) (\<lambda>n. [0..<n]) (map (deref hand_built) [VertexRef 0, VertexRef 1])"

lemma hand_setup:
  "case hand_setup of Ok (ops, c) \<Rightarrow>
      map vo_inputs ops = [[], [\<lparr>fl_name = ''out'', fl_info = hand_input, fl_data = Some hand_item, fl_idx = 0\<rparr>]]
    \<and> map vo_outputs ops = [[\<lparr>fl_name = ''out'', fl_info = hand_output, fl_data = Some hand_item, fl_idx = 0\<rparr>], []]
    \<and> map (\<lambda>x. map_option (\<lambda>p. pr_params (oc_processor p)) (vo_class x)) ops = [Some [], Some []]
    \<and> map (\<lambda>x. map_option (\<lambda>p. pr_outputs (oc_processor p)) (vo_class x)) ops = [Some [hand_output], Some []]
   | _ \<Rightarrow> False"
  by code_simp

lemma case_Ok: "(case r of Ok (x, y) \<Rightarrow> P x y | _ \<Rightarrow> False) \<Longrightarrow> \<exists>x y. r = Ok (x, y) \<and> P x y"
  by (cases r) auto

lemma hand_data:
  obtains x y ctx where "SetupData example_cluster hand_creators (\<lambda>st. st) (\<lambda>n. [0..<n]) (map (deref hand_built) [VertexRef 0, VertexRef 1]) = Ok ([x, y], ctx)"
    "vo_inputs x = []" "vo_outputs x = [\<lparr>fl_name = ''out'', fl_info = hand_output, fl_data = Some hand_item, fl_idx = 0\<rparr>]"
    "vo_inputs y = [\<lparr>fl_name = ''out'', fl_info = hand_input, fl_data = Some hand_item, fl_idx = 0\<rparr>]" "vo_outputs y = []"
    "\<exists>c. vo_class x = Some c \<and> pr_params (oc_processor c) = []" "\<exists>d. vo_class y = Some d"
proof -
  from case_Ok[OF hand_setup] obtain ops ctx where s: "hand_setup = Ok (ops, ctx)"
    and h: "map vo_inputs ops = [[], [\<lparr>fl_name = ''out'', fl_info = hand_input, fl_data = Some hand_item, fl_idx = 0\<rparr>]]"
      "map vo_outputs ops = [[\<lparr>fl_name = ''out'', fl_info = hand_output, fl_data = Some hand_item, fl_idx = 0\<rparr>], []]"
      "map (\<lambda>x. map_option (\<lambda>p. pr_params (oc_processor p)) (vo_class x)) ops = [Some [], Some []]"
    by (elim exE conjE) (rule that)
  then have "length ops = 2" by (metis length_map length_Cons list.size(3) numeral_2_eq_2)
  then obtain x y where xy: "ops = [x, y]" by (auto simp: numeral_2_eq_2 length_Suc_conv)
  show thesis
    by (rule that[OF s[unfolded hand_setup_def xy]]) (use h xy in auto)
qed

text \<open>The operators return 0; the first leaves object 5 in its member \<open>out\<close>.\<close>

definition hand_choice :: flow_choice where
  "hand_choice = \<lparr>fc_choice = returns 0, fc_args = (Map.empty, new_params False), fc_arena = (\<lambda>_. 0), fc_prepare = Pair 0,
     fc_run = set_member ''out'' (Some 5), fc_subgraph = (\<lambda>cs. cs), fc_child = None\<rparr>"

lemma flow_stepI:
  assumes "en_ctx (fw_engine s) = gc" "en_tasks (fw_engine s) = {#t#}" "enabled (returns 0) t gc"
    "before E g hand_choice t s = Some (ch, s1)"
    "handle g ch t gc = (gc', ts, evs)" "data_effects E hand_choice gc evs s1 = Some s2"
  shows "flow_step E g s (s2\<lparr>fw_engine := \<lparr>en_ctx = gc', en_tasks = mset ts, en_log = rev evs @ en_log (fw_engine s)\<rparr>\<rparr>)"
proof (rule flow_step.intros)
  show "t \<in># en_tasks (fw_engine s)" using assms(2) by simp
  show "enabled (fc_choice hand_choice) t (en_ctx (fw_engine s))" using assms(1,3) by (simp add: hand_choice_def)
  show "flow_after E g hand_choice t s = Some (s2\<lparr>fw_engine := \<lparr>en_ctx = gc', en_tasks = mset ts, en_log = rev evs @ en_log (fw_engine s)\<rparr>\<rparr>)"
    using assms by (simp add: flow_after_def Let_def after_def)
qed (simp_all add: hand_choice_def)

lemma SetupContexts_vertexs:
  assumes "SetupContexts g procs = Some gc"
  shows "gc_vertexs gc = remdups (map snd (g_nodes g))" "v \<in> snd ` set (g_nodes g) \<Longrightarrow> \<not> vx_subgraph_ctx (gc_ctx gc v)"
proof -
  from assms obtain gc0 gc1 starts w where "SetupAllSuccessors g (remdups (map snd (g_nodes g))) gc0 = Some gc1"
    "gc_vertexs gc0 = remdups (map snd (g_nodes g))" "gc = ResetGraph g (gc1\<lparr>gc_start_ctxs := starts, gc_while_ctx := w\<rparr>)"
    unfolding SetupContexts_def Let_def by (auto simp: bind_eq_Some_conv split: if_splits)
  note r = this
  have "gc_vertexs gc1 = gc_vertexs gc0" unfolding SetupAllSuccessors_effect[OF r(1)] by simp
  then show "gc_vertexs gc = remdups (map snd (g_nodes g))" "v \<in> snd ` set (g_nodes g) \<Longrightarrow> \<not> vx_subgraph_ctx (gc_ctx gc v)"
    using r(2) by (simp_all add: r(3) ResetGraph_def ResetVertex_def)
qed

lemma hand_start:
  obtains gc where "SetupContexts hand_built example_procs = Some gc"
    "vx_processor (gc_ctx gc (VertexRef 0)) \<noteq> None" "vx_deps_results (gc_ctx gc (VertexRef 0)) = []"
    "vx_successor_ctxs (gc_ctx gc (VertexRef 0)) = [VertexRef 1]" "vx_successor_dep_idxs (gc_ctx gc (VertexRef 0)) = [0]"
    "vx_processor (gc_ctx gc (VertexRef 1)) \<noteq> None" "vx_deps_results (gc_ctx gc (VertexRef 1)) = [V_RESULT_INVALID]"
    "vx_waiting_num (gc_ctx gc (VertexRef 1)) = 1" "\<not> vx_subgraph_ctx (gc_ctx gc (VertexRef 0))"
    "gc_join_vertex_num gc = 2" "gc_early_exist_rc gc = 0"
    "start gc = \<lparr>en_ctx = gc, en_tasks = {#TExecute (VertexRef 0)#}, en_log = []\<rparr>"
proof -
  obtain gc where gc: "SetupContexts hand_built example_procs = Some gc"
    using SetupContexts_total[OF hand_runnable] by blast
  note ok = SetupContexts_ok[OF hand_runnable gc]
  have d: "deref hand_built (VertexRef 0) = hand_vertex 0" "deref hand_built (VertexRef 1) = hand_vertex 1"
    by (simp_all add: deref_def hand_built_def)
  have e: "deps_idx hand_built (VertexRef 0) = []" "deps_idx hand_built (VertexRef 1) = [(VertexRef 0, 0)]"
    "succs hand_built (VertexRef 0) = [VertexRef 1]" "GetDependencyIndex (deref hand_built (VertexRef 1)) (VertexRef 0) = 0"
    unfolding d by (simp_all add: hand_vertex_def new_vertex_def GetDependencyIndex_def)
  have v: "valid_ref hand_built (VertexRef 0)" "valid_ref hand_built (VertexRef 1)"
    by (simp_all add: valid_ref_def hand_size)
  have vs: "gc_vertexs gc = [VertexRef 0, VertexRef 1]" "vx_subgraph_ctx (gc_ctx gc (VertexRef 0)) = False"
  proof -
    have n: "remdups (map snd (g_nodes hand_built)) = [VertexRef 0, VertexRef 1]" by (simp add: hand_built_def)
    then show "gc_vertexs gc = [VertexRef 0, VertexRef 1]" "vx_subgraph_ctx (gc_ctx gc (VertexRef 0)) = False"
      using SetupContexts_vertexs[OF gc] by (simp_all add: hand_built_def)
  qed
  have "vertices hand_built = {VertexRef 0, VertexRef 1}" using ok(1) vs by (simp add: static_ok_def)
  then have j: "gc_join_vertex_num gc = 2" using ok(2) by (simp add: reset_ok_def)
  have "start gc = \<lparr>en_ctx = gc, en_tasks = {#TExecute (VertexRef 0)#}, en_log = []\<rparr>"
    using ok(1) vs e by (simp add: start_def ExecuteReadyVertexs_def static_ok_def)
  with gc j ok v e vs(2) show thesis
    by (intro that[of gc]) (simp_all add: static_ok_def reset_ok_def example_procs_def)
qed

lemma handle_simps:
  assumes gc: "vx_processor (gc_ctx gc (VertexRef 0)) \<noteq> None" "vx_deps_results (gc_ctx gc (VertexRef 0)) = []"
    "vx_successor_ctxs (gc_ctx gc (VertexRef 0)) = [VertexRef 1]" "vx_successor_dep_idxs (gc_ctx gc (VertexRef 0)) = [0]"
    "vx_processor (gc_ctx gc (VertexRef 1)) \<noteq> None" "vx_deps_results (gc_ctx gc (VertexRef 1)) = [V_RESULT_INVALID]"
    "vx_waiting_num (gc_ctx gc (VertexRef 1)) = 1" "\<not> vx_subgraph_ctx (gc_ctx gc (VertexRef 0))"
    "gc_join_vertex_num gc = 2" "gc_early_exist_rc gc = 0"
  obtains gc2 gc3 gc4 code where
    "Execute hand_built (returns 0) (VertexRef 0) gc = (gc, [TProcess (VertexRef 0)], [EvStart (VertexRef 0)])"
    "EndProcess hand_built (Returned 0) (VertexRef 0) gc = (gc2, [TDone (VertexRef 0)], [EvCollect (VertexRef 0)])"
    "OnVertexDone hand_built (VertexRef 0) gc2 = (gc3, [TNotify (VertexRef 0) 0 []], [EvFinish (VertexRef 0) V_RESULT_OK code])"
    "Notify (VertexRef 0) 0 [] gc3 = (gc4, [TExecute (VertexRef 1)], [])"
    "Execute hand_built (returns 0) (VertexRef 1) gc4 = (gc4, [TProcess (VertexRef 1)], [EvStart (VertexRef 1)])" "vx_processor (gc_ctx gc4 (VertexRef 1)) \<noteq> None"
proof -
  let ?a = "VertexRef 0" and ?b = "VertexRef 1"
  have d: "deref hand_built ?a = hand_vertex 0" "deref hand_built ?b = hand_vertex 1"
    by (simp_all add: deref_def hand_built_def)
  have f: "v_cluster (hand_vertex i) = []" "v_expect_config (hand_vertex i) = []"
    "v_deps_expected_results (hand_vertex 1) = [V_RESULT_ALL]" "v_early_exit_graph_if_failed (hand_vertex i) = False" for i
    by (simp_all add: hand_vertex_def new_vertex_def)
  have ch: "ch_outcome (returns 0) = Returned 0" "ch_inject_rc (returns 0) = 0" "\<not> ch_timeout (returns 0)"
    by (simp_all add: returns_def)
  obtain p q where pq: "vx_processor (gc_ctx gc ?a) = Some p" "vx_processor (gc_ctx gc ?b) = Some q" using gc(1,5) by auto
  have 1: "Execute hand_built (returns 0) ?a gc = (gc, [TProcess ?a], [EvStart ?a])"
    unfolding Execute_def Let_def d by (simp add: f ch gc pq match_deps_def match_expect_config_def ExecuteProcessor_def)
  define gc2 where "gc2 = modify_ctx ?a (\<lambda>c. c\<lparr>vx_code := 0, vx_exec_rc := 0, vx_result := V_RESULT_OK\<rparr>) gc"
  have 2: "EndProcess hand_built (Returned 0) ?a gc = (gc2, [TDone ?a], [EvCollect ?a])"
    unfolding EndProcess_def FinishVertexProcess_def Let_def d
    by (simp add: f gc pq modify_ctx_def gc2_def INT_MAX_def)
  define gc3 where "gc3 = gc2\<lparr>gc_join_vertex_num := 1\<rparr>"
  have 3: "OnVertexDone hand_built ?a gc2 = (gc3, [TNotify ?a 0 []], [EvFinish ?a V_RESULT_OK 0])"
    unfolding OnVertexDone_def Let_def by (simp add: gc gc2_def gc3_def modify_ctx_def fetch_sub_def)
  define gc4 where "gc4 = modify_ctx ?b (\<lambda>c. c\<lparr>vx_deps_results := [V_RESULT_OK], vx_waiting_num := 0\<rparr>) gc3"
  have 4: "Notify ?a 0 [] gc3 = (gc4, [TExecute ?b], [])"
    unfolding Notify_def Let_def SetDependencyResult_def
    using gc by (simp add: gc2_def gc3_def gc4_def modify_ctx_def fetch_sub_def)
  have e: "gc_early_exist_rc gc4 = 0" "vx_processor (gc_ctx gc4 ?b) = Some q" "vx_deps_results (gc_ctx gc4 ?b) = [V_RESULT_OK]"
    using gc pq by (simp_all add: gc2_def gc3_def gc4_def modify_ctx_def)
  have m: "result_matches V_RESULT_OK V_RESULT_ALL" by code_simp
  have 5: "Execute hand_built (returns 0) ?b gc4 = (gc4, [TProcess ?b], [EvStart ?b])"
    unfolding Execute_def Let_def d
    by (simp del: One_nat_def add: f ch e m match_deps_def match_expect_config_def ExecuteProcessor_def)
  from that[OF 1 2 3 4 5] e(2) show thesis by simp
qed

lemma hand_run:
  assumes E: "fe_ctx E = 0" and x: "vo_inputs (fe_ops E (VertexRef 0)) = []"
      "vo_outputs (fe_ops E (VertexRef 0)) = [\<lparr>fl_name = ''out'', fl_info = hand_output, fl_data = Some hand_item, fl_idx = 0\<rparr>]"
      "vo_class (fe_ops E (VertexRef 0)) = Some c" "pr_params (oc_processor c) = []"
    and y: "vo_inputs (fe_ops E (VertexRef 1)) = [\<lparr>fl_name = ''out'', fl_info = hand_input, fl_data = Some hand_item, fl_idx = 0\<rparr>]"
      "vo_class (fe_ops E (VertexRef 1)) = Some d"
  obtains s code where "flow_reachable E hand_built example_procs [ctx] s" "TProcess (VertexRef 1) \<in># en_tasks (fw_engine s)"
    "emitted (fw_state s (VertexRef 0)) hand_output = Some 5"
    "finished (en_log (fw_engine s)) (VertexRef 0) = Some (V_RESULT_OK, code)"
proof -
  let ?a = "VertexRef 0" and ?b = "VertexRef 1" and ?g = hand_built and ?fc = hand_choice and ?ch = "returns 0"
  let ?ps = "new_params False"
  obtain gc where gc: "SetupContexts hand_built example_procs = Some gc"
    and st: "start gc = \<lparr>en_ctx = gc, en_tasks = {#TExecute ?a#}, en_log = []\<rparr>"
    and f: "vx_processor (gc_ctx gc ?a) \<noteq> None" "vx_deps_results (gc_ctx gc ?a) = []"
      "vx_successor_ctxs (gc_ctx gc ?a) = [?b]" "vx_successor_dep_idxs (gc_ctx gc ?a) = [0]"
      "vx_processor (gc_ctx gc ?b) \<noteq> None" "vx_deps_results (gc_ctx gc ?b) = [V_RESULT_INVALID]"
      "vx_waiting_num (gc_ctx gc ?b) = 1" "\<not> vx_subgraph_ctx (gc_ctx gc ?a)"
      "gc_join_vertex_num gc = 2" "gc_early_exist_rc gc = 0"
    by (rule hand_start)
  obtain gc2 gc3 gc4 code where h: "Execute ?g ?ch ?a gc = (gc, [TProcess ?a], [EvStart ?a])"
    "EndProcess ?g (Returned 0) ?a gc = (gc2, [TDone ?a], [EvCollect ?a])"
    "OnVertexDone ?g ?a gc2 = (gc3, [TNotify ?a 0 []], [EvFinish ?a V_RESULT_OK code])"
    "Notify ?a 0 [] gc3 = (gc4, [TExecute ?b], [])"
    "Execute ?g ?ch ?b gc4 = (gc4, [TProcess ?b], [EvStart ?b])" "vx_processor (gc_ctx gc4 ?b) \<noteq> None"
      "vx_processor (gc_ctx gc ?a) \<noteq> None"
    by (rule handle_simps[OF f]) (use f(1) in simp)
  have ch: "?ch\<lparr>ch_inject_rc := 0\<rparr> = ?ch" "ch_outcome ?ch = Returned 0" by (simp_all add: returns_def)
  have fc: "fc_choice ?fc = ?ch" "fc_args ?fc = (Map.empty, ?ps)" "fc_run ?fc = set_member ''out'' (Some 5)"
    by (simp_all add: hand_choice_def)
  let ?st = "\<lambda>c s. snd (PrepareOp (oc_processor c) (fc_arena ?fc) (fc_prepare ?fc) s)"
  define s0 where "s0 = flow_start E gc [ctx]"
  have s0: "en_ctx (fw_engine s0) = gc" "en_tasks (fw_engine s0) = {#TExecute ?a#}" "en_log (fw_engine s0) = []" "fw_data s0 = [ctx]"
    by (simp_all add: s0_def flow_start_def st)
  define t1 where "t1 = s0\<lparr>fw_state := (fw_state s0)(?a := ?st c (fw_state s0 ?a)), fw_args := (fw_args s0)(?a := Some (Map.empty, ?ps))\<rparr>"
  have p1: "prepare_and_inject E ?fc ?a s0 = Some (0, t1)"
    using x by (simp add: prepare_and_inject_def Let_def fc t1_def s0(4))
  have "calls_operator ?g ?ch ?a gc" using h(1,7) by (simp add: calls_operator_def ch)
  then have b1: "before E ?g ?fc (TExecute ?a) s0 = Some (?ch, t1)"
    using p1 by (simp add: s0 fc ch)
  define s1 where "s1 = t1\<lparr>fw_engine := \<lparr>en_ctx = gc, en_tasks = mset [TProcess ?a], en_log = rev [EvStart ?a] @ en_log (fw_engine s0)\<rparr>\<rparr>"
  have r1: "flow_step E ?g s0 s1" unfolding s1_def
    by (rule flow_stepI[OF s0(1,2) _ b1]) (use h(1) in simp_all)
  have s1: "en_ctx (fw_engine s1) = gc" "en_tasks (fw_engine s1) = {#TProcess ?a#}" "fw_data s1 = [ctx]"
      "fw_args s1 ?a = Some (Map.empty, ?ps)" "en_log (fw_engine s1) = [EvStart ?a]"
    by (simp_all add: s1_def t1_def s0)
  define t2 where "t2 = s1\<lparr>fw_state := (fw_state s1)(?a := set_member ''out'' (Some 5) (fw_state s1 ?a))\<rparr>"
  have "run_operator E ?fc ?a s1 = Some t2"
    by (simp add: run_operator_def x s1 ExecuteOp_def fc t2_def)
  then have b2: "before E ?g ?fc (TProcess ?a) s1 = Some (?ch, t2)" using h(7) by (simp add: s1 fc)
  have "fw_args t2 ?a = Some (Map.empty, ?ps)" by (simp add: t2_def s1)
  then have "\<exists>k. CollectOutputs (case fw_args t2 ?a of None \<Rightarrow> Map.empty | Some (h, _) \<Rightarrow> h) (map_option snd (fw_args t2 ?a))
      (fw_state t2 ?a) (vo_outputs (fe_ops E ?a)) (fw_data t2 ! fe_ctx E) = Some k"
    by (simp add: x emit_entry_def is_var_def hand_output_def Let_def)
  then obtain u2 where u2: "data_effects E ?fc gc [EvCollect ?a] t2 = Some u2" "fw_state u2 = fw_state t2" "fw_engine u2 = fw_engine t2"
    by auto
  define s2 where "s2 = u2\<lparr>fw_engine := \<lparr>en_ctx = gc2, en_tasks = mset [TDone ?a], en_log = rev [EvCollect ?a] @ en_log (fw_engine s1)\<rparr>\<rparr>"
  have r2: "flow_step E ?g s1 s2" unfolding s2_def
    by (rule flow_stepI[OF s1(1,2) _ b2 _ u2(1)]) (use h(2) ch in \<open>simp_all add: allowed_outcome_def\<close>)
  have s2: "en_ctx (fw_engine s2) = gc2" "en_tasks (fw_engine s2) = {#TDone ?a#}" by (simp_all add: s2_def)
  have out2: "emitted (fw_state s2 ?a) hand_output = Some 5"
    by (simp add: s2_def u2 t2_def emitted_def hand_output_def set_member_def)
  define s3 where "s3 = s2\<lparr>fw_engine := \<lparr>en_ctx = gc3, en_tasks = mset [TNotify ?a 0 []],
      en_log = rev [EvFinish ?a V_RESULT_OK code] @ en_log (fw_engine s2)\<rparr>\<rparr>"
  have r3: "flow_step E ?g s2 s3" unfolding s3_def
    by (rule flow_stepI[OF s2]) (use h(3) fc in simp_all)
  have s3: "en_ctx (fw_engine s3) = gc3" "en_tasks (fw_engine s3) = {#TNotify ?a 0 []#}" by (simp_all add: s3_def)
  define s4 where "s4 = s3\<lparr>fw_engine := \<lparr>en_ctx = gc4, en_tasks = mset [TExecute ?b], en_log = rev [] @ en_log (fw_engine s3)\<rparr>\<rparr>"
  have r4: "flow_step E ?g s3 s4" unfolding s4_def
    by (rule flow_stepI[OF s3]) (use h(4) fc in simp_all)
  have s4: "en_ctx (fw_engine s4) = gc4" "en_tasks (fw_engine s4) = {#TExecute ?b#}" by (simp_all add: s4_def)
  have "\<exists>s'. prepare_and_inject E ?fc ?b s4 = Some (0, s') \<and> fw_state s' ?a = fw_state s4 ?a"
    using y by (simp add: prepare_and_inject_def Let_def fc inject_entry_def inject_single_def is_var_def hand_input_def hand_item_def
        new_graph_data_def entry_required_def case_prod_unfold)
  then obtain t5 where p5: "prepare_and_inject E ?fc ?b s4 = Some (0, t5)" "fw_state t5 ?a = fw_state s4 ?a" by blast
  have "calls_operator ?g ?ch ?b gc4" using h(5,6) by (simp add: calls_operator_def ch)
  then have b5: "before E ?g ?fc (TExecute ?b) s4 = Some (?ch, t5)"
    using p5 by (simp add: s4 fc ch)
  define s5 where "s5 = t5\<lparr>fw_engine := \<lparr>en_ctx = gc4, en_tasks = mset [TProcess ?b], en_log = rev [EvStart ?b] @ en_log (fw_engine s4)\<rparr>\<rparr>"
  have r5: "flow_step E ?g s4 s5" unfolding s5_def
    by (rule flow_stepI[OF s4 _ b5]) (use h(5) in simp_all)
  have "(flow_step E ?g)\<^sup>*\<^sup>* s0 s5" using r1 r2 r3 r4 r5 by (meson converse_rtranclp_into_rtranclp rtranclp.rtrancl_refl)
  then have "flow_reachable E ?g example_procs [ctx] s5" using gc by (auto simp: flow_reachable_def s0_def)
  moreover have "TProcess ?b \<in># en_tasks (fw_engine s5)" by (simp add: s5_def)
  moreover have "emitted (fw_state s5 ?a) hand_output = Some 5" using out2 p5(2) by (simp add: s5_def s4_def s3_def)
  moreover have "finished (en_log (fw_engine s5)) ?a = Some (V_RESULT_OK, code)"
    by (simp add: s5_def s4_def s3_def)
  ultimately show thesis by (rule that)
qed

section \<open>Properties\<close>

text \<open>
  The detailed run, with operators and data, does what the executor alone does: whatever the
  operators, the injections and the subgraphs do, its executor is in a reachable state and its log
  is a legal schedule of the graph.
\<close>
lemma flow_refines_executor:
  assumes "flow_reachable E g procs cs s" and "runnable g"
  shows "reachable g procs (fw_engine s) \<and> legal g (gc_while_ctx (en_ctx (fw_engine s))) (en_log (fw_engine s))"
  using flow_reachable_engine[OF assms(1)] reachable_legal[OF flow_reachable_engine[OF assms(1)] assms(2)] by simp

lemma hand_flow:
  obtains E x y ctx s code where "SetupData example_cluster hand_creators (\<lambda>st. st) (\<lambda>n. [0..<n]) (map (deref hand_built) [VertexRef 0, VertexRef 1]) = Ok ([x, y], ctx)"
    "fe_ops E = operator_table [VertexRef 0, VertexRef 1] [0..<2] [x, y]" "fe_ctx E = 0"
    "\<forall>v \<in> {VertexRef 0, VertexRef 1}. stays (fe_ops E v) \<and> vo_class (fe_ops E v) \<noteq> None"
    "vo_outputs (fe_ops E (VertexRef 0)) = [\<lparr>fl_name = ''out'', fl_info = hand_output, fl_data = Some hand_item, fl_idx = 0\<rparr>]"
    "vo_inputs (fe_ops E (VertexRef 1)) = [\<lparr>fl_name = ''out'', fl_info = hand_input, fl_data = Some hand_item, fl_idx = 0\<rparr>]"
    "flow_reachable E hand_built example_procs [ctx] s" "TProcess (VertexRef 1) \<in># en_tasks (fw_engine s)"
    "emitted (fw_state s (VertexRef 0)) hand_output = Some 5"
    "finished (en_log (fw_engine s)) (VertexRef 0) = Some (V_RESULT_OK, code)"
proof -
  obtain x y ctx where d: "SetupData example_cluster hand_creators (\<lambda>st. st) (\<lambda>n. [0..<n]) (map (deref hand_built) [VertexRef 0, VertexRef 1]) = Ok ([x, y], ctx)"
    and x: "vo_inputs x = []" "vo_outputs x = [\<lparr>fl_name = ''out'', fl_info = hand_output, fl_data = Some hand_item, fl_idx = 0\<rparr>]"
    and y: "vo_inputs y = [\<lparr>fl_name = ''out'', fl_info = hand_input, fl_data = Some hand_item, fl_idx = 0\<rparr>]" "vo_outputs y = []"
    and cls: "\<exists>c. vo_class x = Some c \<and> pr_params (oc_processor c) = []" "\<exists>d. vo_class y = Some d"
    by (rule hand_data)
  obtain c d where cd: "vo_class x = Some c" "pr_params (oc_processor c) = []" "vo_class y = Some d" using cls by blast
  let ?E = "\<lparr>fe_ops = operator_table [VertexRef 0, VertexRef 1] [0..<2] [x, y], fe_ctx = 0, fe_di = Map.empty\<rparr>"
  have ops: "fe_ops ?E (VertexRef 0) = x" "fe_ops ?E (VertexRef 1) = y"
    by (simp_all add: operator_table_def upt_rec)
  have st: "\<forall>v \<in> {VertexRef 0, VertexRef 1}. stays (fe_ops ?E v) \<and> vo_class (fe_ops ?E v) \<noteq> None"
    using ops x y cd by (simp del: One_nat_def add: stays_def no_skip_move_def entry_move_def hand_item_def new_graph_data_def is_var_def hand_output_def)
  show thesis
    by (rule hand_run[of ?E c d ctx])
      (use that[OF d _ _ st] ops x y cd in \<open>simp_all del: One_nat_def\<close>)
qed

text \<open>
  C3: When the operator of a vertex is called, each of its inputs that is configured to be an output
  of another operator has the object that this operator put out, provided that it was successful:
  the builder made the writer a dependency, the writer's outputs were collected before it was
  done, and nothing else changed them before the reader was prepared. This is for graphs whose data
  stay where they are (no moved inputs, no variables as names), any order of the tasks, and
  subgraphs that leave the values of the graph alone.
\<close>
theorem dataflow:
  assumes "fresh_graph g0" and "GraphBuild c F g0 = Ok g" and "no_collision g"
    and "length (g_vertex g) + length (g_gen_vertex g) < 2 ^ 32"
    and "vs = remdups (map snd (g_nodes g))"
    and "SetupData c t f order (map (deref g) vs) = Ok (ops, cs ! fe_ctx E)"
    and "mset (order (length vs)) = mset [0..<length vs]"
    and "fe_ops E = operator_table vs (order (length vs)) ops" and "fe_ctx E < length cs"
    and "\<forall>v \<in> set vs. stays (fe_ops E v) \<and> (procs v \<noteq> None \<longleftrightarrow> vo_class (fe_ops E v) \<noteq> None)"
    and "flow_reachable E g procs cs s" and "TProcess w \<in># en_tasks (fw_engine s)" and "procs w \<noteq> None"
    and "VertexRef i \<in> set vs" and "procs (VertexRef i) \<noteq> None"
    and "out \<in> set (vo_outputs (fe_ops E (VertexRef i)))" and "inp \<in> set (vo_inputs (fe_ops E w))" and "carries out inp"
  shows "\<exists>r code. finished (en_log (fw_engine s)) (VertexRef i) = Some (r, code)
    \<and> (\<forall>x. r = V_RESULT_OK \<longrightarrow> emitted (fw_state s (VertexRef i)) (fl_info out) = Some x \<longrightarrow>
         op_member (fw_state s w) (fi_member (fl_info inp)) = Some x)"
proof -
  let ?c = "cs ! fe_ctx E"
  have g: "runnable g" by (rule built_runnable[OF assms(1-4)])
  have valid: "valid_ref g v \<longleftrightarrow> v \<in> set vs" for v using g assms(5) by (simp add: runnable_def)
  have "distinct vs" using assms(5) by simp
  note T = SetupData_table[OF assms(6,7) this, folded assms(8)]
  have env: "env_ok E g procs ?c" by (rule env_okI[OF g assms(5-8,10)])
  have inv: "inv_of g procs (fw_engine s)" using reachable_inv[OF flow_reachable_engine[OF assms(11)] g] .
  have w: "w \<in> set vs" using engine_invD(5)[OF inv] assms(12) valid by (auto simp: tasks_ok_def)
  have I: "flow_inv E g procs ?c s"
    using flow_reachable_inv[OF assms(11) env g] T(1) assms(9) by (simp add: data_ok_def)
  have i: "i < length (g_vertex g)" using assms(14) valid[of "VertexRef i"] by (simp add: valid_ref_def)
  have dep: "depends g w (VertexRef i)"
    using carried_depends[OF assms(1,2) i _ _ assms(16) _ assms(17,18)] T(2)[OF assms(14)] T(2)[OF w] w valid by blast
  note fin = running_deps[OF inv g _ assms(12) dep]
  have "finished (en_log (fw_engine s)) (VertexRef i) \<noteq> None" using fin(1) by simp
  then obtain r code where f: "finished (en_log (fw_engine s)) (VertexRef i) = Some (r, code)" by auto
  have "vx_result (gc_ctx (en_ctx (fw_engine s)) (VertexRef i)) = r"
    using finished_result[OF inv _ f] assms(14) valid by simp
  moreover have "feeds E ?c (VertexRef i) out w inp" using carried_feeds[OF assms(16-18)] T(2)[OF w] by blast
  moreover have "reads_ok E g procs ?c s w" using I assms(12,13) by (simp add: flow_inv_def)
  ultimately show ?thesis using f dep assms(15) unfolding reads_ok_def by blast
qed

theorem dataflow_witness:
  "\<exists>E cs s. flow_reachable E hand_built example_procs cs s \<and> TProcess (VertexRef 1) \<in># en_tasks (fw_engine s)
     \<and> op_member (fw_state s (VertexRef 1)) ''out'' = Some 5"
proof (rule hand_flow)
  fix E x y ctx s code
  let ?out = "\<lparr>fl_name = ''out'', fl_info = hand_output, fl_data = Some hand_item, fl_idx = 0\<rparr>"
  let ?inp = "\<lparr>fl_name = ''out'', fl_info = hand_input, fl_data = Some hand_item, fl_idx = 0\<rparr>"
  let ?vs = "[VertexRef 0, VertexRef 1]"
  assume d: "SetupData example_cluster hand_creators (\<lambda>st. st) (\<lambda>n. [0..<n]) (map (deref hand_built) ?vs) = Ok ([x, y], ctx)"
    and E: "fe_ops E = operator_table ?vs [0..<2] [x, y]" "fe_ctx E = 0"
    and st: "\<forall>v \<in> {VertexRef 0, VertexRef 1}. stays (fe_ops E v) \<and> vo_class (fe_ops E v) \<noteq> None"
    and io: "vo_outputs (fe_ops E (VertexRef 0)) = [?out]" "vo_inputs (fe_ops E (VertexRef 1)) = [?inp]"
    and r: "flow_reachable E hand_built example_procs [ctx] s" "TProcess (VertexRef 1) \<in># en_tasks (fw_engine s)"
      "emitted (fw_state s (VertexRef 0)) hand_output = Some 5"
      "finished (en_log (fw_engine s)) (VertexRef 0) = Some (V_RESULT_OK, code)"
  have len: "length (g_vertex hand_built) + length (g_gen_vertex hand_built) < 2 ^ 32" by (simp add: hand_size)
  have vs: "?vs = remdups (map snd (g_nodes hand_built))" by (simp add: hand_built_def)
  have car: "carries ?out ?inp"
    by (simp add: carries_def hand_item_def new_graph_data_def data_key_of_def hand_output_def hand_input_def)
  have d': "SetupData example_cluster hand_creators (\<lambda>st. st) (\<lambda>n. [0..<n]) (map (deref hand_built) ?vs) = Ok ([x, y], [ctx] ! fe_ctx E)"
    using d E(2) by simp
  have l2: "length ?vs = 2" by simp
  have E1: "fe_ops E = operator_table ?vs [0..<length ?vs] [x, y]" unfolding l2 by (rule E(1))
  have E2: "fe_ctx E < length [ctx]" using E(2) by simp
  have st': "\<forall>v \<in> set ?vs. stays (fe_ops E v) \<and> (example_procs v \<noteq> None \<longleftrightarrow> vo_class (fe_ops E v) \<noteq> None)"
    using st by (simp del: One_nat_def add: example_procs_def)
  have p: "example_procs v \<noteq> None" for v by (simp add: example_procs_def)
  have "\<exists>r code. finished (en_log (fw_engine s)) (VertexRef 0) = Some (r, code)
    \<and> (\<forall>x. r = V_RESULT_OK \<longrightarrow> emitted (fw_state s (VertexRef 0)) (fl_info ?out) = Some x \<longrightarrow>
         op_member (fw_state s (VertexRef 1)) (fi_member (fl_info ?inp)) = Some x)"
    using dataflow[OF hand_fresh hand_built hand_size(1) len vs d' refl E1 E2 st' r(1,2) p _ p, of 0 ?out ?inp] io car
    by (simp del: One_nat_def)
  then show ?thesis using r by (auto simp: hand_input_def)
qed

end
