(* ===== verification/ParamsToml.thy ===== *)
theory ParamsToml
  imports Params
begin

text \<open>
  Parameters from the configuration file (\<open>GraphParams::ParseFromToml\<close> of \<open>graph/params.cpp\<close>). The
  TOML document is the tree that the TOML library hands over: the six kinds the code asks for, and one
  for all others (dates and times, an empty value).
\<close>

datatype toml =
  TTable "(string \<times> toml) list"
| TArray "toml list"
| TInt int
| TBool bool
| TFloat "64 word"
| TString string
| TOther

text \<open>\<open>text_of\<close> is \<open>std::to_string\<close> of a double.\<close>

definition int_text :: "int \<Rightarrow> string" where
  "int_text i = (if i < 0 then CHR ''-'' # to_string (nat (- i)) else to_string (nat i))"

primrec with_type :: "param_type \<Rightarrow> params \<Rightarrow> params" where
  "with_type t' (Params t s i d b nv m a q) = Params t' s i d b False m a q"

primrec put_member :: "string \<Rightarrow> params \<Rightarrow> params \<Rightarrow> params" where
  "put_member name v (Params t s i d b nv m a q) = Params t s i d b nv (AList.update name v m) a q"

primrec push_back :: "params \<Rightarrow> params \<Rightarrow> params" where
  "push_back v (Params t s i d b nv m a q) = Params t s i d b nv m (a @ [v]) q"

text \<open>The result tells whether the document could be read; a failure leaves what was read so far.\<close>

fun ParseFromToml :: "(64 word \<Rightarrow> string) \<Rightarrow> toml \<Rightarrow> params \<Rightarrow> bool \<times> params"
  and parse_table :: "(64 word \<Rightarrow> string) \<Rightarrow> (string \<times> toml) list \<Rightarrow> params \<Rightarrow> bool \<times> params"
  and parse_array :: "(64 word \<Rightarrow> string) \<Rightarrow> toml list \<Rightarrow> params \<Rightarrow> bool \<times> params" where
  "ParseFromToml f (TTable kvs) p =
    (let (ok, p1) = parse_table f kvs p in if ok then (True, with_type PARAM_OBJECT p1) else (False, p1))"
| "ParseFromToml f (TInt n) p =
    (case p of Params t s i d b nv m a q \<Rightarrow> (True, Params PARAM_INT (int_text n) n d b False m a q))"
| "ParseFromToml f (TBool x) p =
    (case p of Params t s i d b nv m a q \<Rightarrow> (True, Params PARAM_BOOL (if x then ''1'' else ''0'') i d x False m a q))"
| "ParseFromToml f (TFloat x) p =
    (case p of Params t s i d b nv m a q \<Rightarrow> (True, Params PARAM_DOUBLE (f x) i x b False m a q))"
| "ParseFromToml f (TString x) p =
    (case p of Params t s i d b nv m a q \<Rightarrow> (True, Params PARAM_STRING x i d b False m a q))"
| "ParseFromToml f (TArray xs) p =
    (let (ok, p1) = parse_array f xs p in if ok then (True, with_type PARAM_ARRAY p1) else (False, p1))"
| "ParseFromToml f TOther p = (False, p)"
| "parse_table f [] p = (True, p)"
| "parse_table f ((name, v) # kvs) p =
    (let (ok, tmp) = ParseFromToml f v (new_params False)
     in if ok then parse_table f kvs (put_member name tmp p) else (False, p))"
| "parse_array f [] p = (True, p)"
| "parse_array f (x # xs) p =
    (let (ok, tmp) = ParseFromToml f x (new_params False)
     in if ok then parse_array f xs (push_back tmp p) else (False, p))"

section \<open>Reading back\<close>

text \<open>The document that the accessors of an object give.\<close>

fun read_back :: "params \<Rightarrow> toml" where
  "read_back (Params t s i d b nv m a q) =
    (case t of
       PARAM_OBJECT \<Rightarrow> TTable (map (\<lambda>(k, v). (k, read_back v)) m)
     | PARAM_ARRAY \<Rightarrow> TArray (map read_back a)
     | PARAM_INT \<Rightarrow> TInt i | PARAM_BOOL \<Rightarrow> TBool b | PARAM_DOUBLE \<Rightarrow> TFloat d | PARAM_STRING \<Rightarrow> TString s
     | PARAM_INVALID \<Rightarrow> TOther)"

text \<open>A table of the library has each name once.\<close>

fun readable :: "toml \<Rightarrow> bool" where
  "readable (TTable kvs) = (\<forall>(k, v) \<in> set kvs. readable v)"
| "readable (TArray xs) = (\<forall>x \<in> set xs. readable x)"
| "readable TOther = False"
| "readable _ = True"

fun unique_names :: "toml \<Rightarrow> bool" where
  "unique_names (TTable kvs) = (distinct (map fst kvs) \<and> (\<forall>(k, v) \<in> set kvs. unique_names v))"
| "unique_names (TArray xs) = (\<forall>x \<in> set xs. unique_names x)"
| "unique_names _ = True"

lemma new_params_simps: "members (new_params nv) = []" "param_array (new_params nv) = []" "invalid (new_params nv) = nv"
  by (simp_all add: new_params_def)

lemma put_member_simps [simp]: "members (put_member k v p) = AList.update k v (members p)"
    "param_array (put_member k v p) = param_array p" "invalid (put_member k v p) = invalid p"
  by (cases p; simp)+

lemma push_back_simps [simp]: "members (push_back v p) = members p" "param_array (push_back v p) = param_array p @ [v]"
    "invalid (push_back v p) = invalid p"
  by (cases p; simp)+

lemma read_back_typed [simp]:
  "read_back (with_type PARAM_OBJECT p) = TTable (map (\<lambda>(k, v). (k, read_back v)) (members p))"
  "read_back (with_type PARAM_ARRAY p) = TArray (map read_back (param_array p))"
  "invalid (with_type t p) = False"
  by (cases p; simp)+

lemma update_fresh: "k \<notin> fst ` set m \<Longrightarrow> AList.update k v m = m @ [(k, v)]"
  by (induction m) auto

lemma parse_ok:
  "fst (ParseFromToml f doc p) = readable doc"
  "fst (parse_table f kvs p) = (\<forall>(k, v) \<in> set kvs. readable v)"
  "fst (parse_array f xs p) = (\<forall>x \<in> set xs. readable x)"
proof (induction f doc p and f kvs p and f xs p rule: ParseFromToml_parse_table_parse_array.induct)
  case (9 f name v kvs p)
  obtain ok tmp where t: "ParseFromToml f v (new_params False) = (ok, tmp)" by fastforce
  with 9(1) 9(2)[OF t[symmetric] refl] show ?case by (cases ok) auto
next
  case (11 f x xs p)
  obtain ok tmp where t: "ParseFromToml f x (new_params False) = (ok, tmp)" by fastforce
  with 11(1) 11(2)[OF t[symmetric] refl] show ?case by (cases ok) auto
qed (auto simp: case_prod_unfold Let_def split: params.splits)

lemma parse_read_back:
  "readable doc \<Longrightarrow> unique_names doc \<Longrightarrow> members p = [] \<Longrightarrow> param_array p = [] \<Longrightarrow>
    read_back (snd (ParseFromToml f doc p)) = doc \<and> \<not> invalid (snd (ParseFromToml f doc p))"
  "(\<forall>(k, v) \<in> set kvs. readable v \<and> unique_names v) \<Longrightarrow> distinct (map fst kvs) \<Longrightarrow>
    fst ` set (members p) \<inter> fst ` set kvs = {} \<Longrightarrow>
    map (\<lambda>(k, v). (k, read_back v)) (members (snd (parse_table f kvs p))) = map (\<lambda>(k, v). (k, read_back v)) (members p) @ kvs"
  "(\<forall>x \<in> set xs. readable x \<and> unique_names x) \<Longrightarrow>
    map read_back (param_array (snd (parse_array f xs p))) = map read_back (param_array p) @ xs"
proof (induction f doc p and f kvs p and f xs p rule: ParseFromToml_parse_table_parse_array.induct)
  case (1 f kvs p)
  have "fst (parse_table f kvs p)" using 1(2) by (simp add: parse_ok)
  then show ?case using 1 by (auto simp: case_prod_unfold)
next
  case (6 f xs p)
  have "fst (parse_array f xs p)" using 6(2) by (simp add: parse_ok)
  then show ?case using 6 by (auto simp: case_prod_unfold)
next
  case (9 f name v kvs p)
  obtain ok tmp where t: "ParseFromToml f v (new_params False) = (ok, tmp)" by fastforce
  have ok: "ok" using parse_ok(1)[of f v "new_params False"] t 9(3) by simp
  have r: "read_back tmp = v" using 9(1) 9(3) t by (simp add: new_params_simps)
  have n: "name \<notin> fst ` set (members p)" using 9(5) by auto
  have "fst ` set (members (put_member name tmp p)) \<inter> fst ` set kvs = {}"
    using 9(4,5) by (auto simp: update_fresh[OF n])
  with 9(2)[OF t[symmetric] _ ok] 9(3,4) t ok r show ?case by (simp add: update_fresh[OF n])
next
  case (11 f x xs p)
  obtain ok tmp where t: "ParseFromToml f x (new_params False) = (ok, tmp)" by fastforce
  have ok: "ok" using parse_ok(1)[of f x "new_params False"] t 11(3) by simp
  have r: "read_back tmp = x" using 11(1) 11(3) t by (simp add: new_params_simps)
  with 11(2)[OF t[symmetric] _ ok] 11(3) t ok r show ?case by simp
qed (auto split: params.splits)

text \<open>
  C33: A document is read exactly if it has no value of another kind, at any depth; reading it into a
  fresh object gives a valid object whose accessors return the whole document, names, kinds and values,
  in the order of the document.
\<close>
theorem toml_round_trip:
  "unique_names doc \<Longrightarrow>
    (fst (ParseFromToml f doc (new_params False)) \<longleftrightarrow> readable doc)
    \<and> (readable doc \<longrightarrow> read_back (snd (ParseFromToml f doc (new_params False))) = doc
         \<and> Valid (snd (ParseFromToml f doc (new_params False))))"
  using parse_ok(1)[of f doc] parse_read_back(1)[of doc "new_params False" f] by (simp add: new_params_simps Valid_def)

definition sample_doc :: toml where
  "sample_doc = TTable [(''limit'', TInt (-3)), (''tags'', TArray [TString ''a'', TBool True]), (''sub'', TTable [(''x'', TFloat 0)])]"

theorem toml_round_trip_witness:
  "fst (ParseFromToml (\<lambda>_. ''0.000000'') sample_doc (new_params False))
    \<and> read_back (snd (ParseFromToml (\<lambda>_. ''0.000000'') sample_doc (new_params False))) = sample_doc"
proof -
  have "unique_names sample_doc" "readable sample_doc" by (simp_all add: sample_doc_def)
  with toml_round_trip[OF this(1)] show ?thesis by blast
qed

end
