(* ===== verification/Dot.thy ===== *)
theory Dot
  imports Pipeline
begin

text \<open>
  The picture of a graph in the dot language (\<open>DumpDot\<close> of \<open>Graph\<close> and \<open>GraphCluster\<close> in
  \<open>graph/graph.cpp\<close>, \<open>GetDotId\<close>, \<open>GetDotLable\<close>, \<open>DumpDotDefine\<close> and \<open>DumpDotEdge\<close> of \<open>Vertex\<close> in
  \<open>graph/vertex.cpp\<close>). The code walks hash tables; the text below has the order of the lists of the model.
\<close>

section \<open>Text\<close>

abbreviation newline :: char where "newline \<equiv> CHR 0x0A"
abbreviation dquote :: char where "dquote \<equiv> CHR 0x22"
abbreviation backslash :: char where "backslash \<equiv> CHR 0x5C"

text \<open>\<open>std::regex_replace\<close> with a pattern of one plain character.\<close>

definition replace_char :: "char \<Rightarrow> string \<Rightarrow> string \<Rightarrow> string" where
  "replace_char c r s = concat (map (\<lambda>x. if x = c then r else [x]) s)"

definition GetDotId :: "graph \<Rightarrow> vertex \<Rightarrow> string" where
  "GetDotId g v = g_name g @ ''_'' @ v_id v"

definition GetDotLable :: "vertex \<Rightarrow> string" where
  "GetDotLable v =
    (if v_cond v \<noteq> [] then replace_char dquote [backslash, dquote] (v_cond v)
     else if v_processor v \<noteq> []
     then (if \<not> v_is_id_generated v then v_id v
           else if v_select_args v \<noteq> []
           then v_processor v @ ''['' @ concat (map (\<lambda>s. match s @ '','') (v_select_args v)) @ '']''
           else v_processor v)
     else if v_graph v \<noteq> [] then v_cluster v @ ''::'' @ v_graph v
     else ''unknown'')"

definition label_of :: "string \<Rightarrow> string" where
  "label_of s = '' [label='' @ [dquote] @ s @ [dquote]"

definition DumpDotDefine :: "graph \<Rightarrow> vertex \<Rightarrow> string" where
  "DumpDotDefine g v = ''    '' @ GetDotId g v @ label_of (GetDotLable v)
    @ (if v_cond v \<noteq> [] then '' shape=diamond color=black fillcolor=aquamarine style=filled''
       else if v_graph v \<noteq> [] then '' shape=box3d, color=blue fillcolor=aquamarine style=filled''
       else '' color=black fillcolor=linen style=filled'')
    @ ''];'' @ [newline]"

section \<open>Edges\<close>

definition start_id :: "graph \<Rightarrow> string" where "start_id g = g_name g @ ''__START__''"
definition stop_id :: "graph \<Rightarrow> string" where "stop_id g = g_name g @ ''__STOP__''"

definition setting_id :: "graph \<Rightarrow> string \<Rightarrow> string" where
  "setting_id g name = g_name g @ ''_'' @ name"

definition edge_style :: "string \<Rightarrow> string \<Rightarrow> string" where
  "edge_style st l = '' [style='' @ st @ '' label='' @ [dquote] @ l @ [dquote] @ '']''"

definition expected_style :: "vresult \<Rightarrow> string" where
  "expected_style e = (case e of
      V_RESULT_OK \<Rightarrow> edge_style ''dashed'' ''ok''
    | V_RESULT_ERR \<Rightarrow> edge_style ''dashed color=red'' ''err''
    | _ \<Rightarrow> edge_style ''bold'' ''all'')"

text \<open>The edges that \<open>DumpDotEdge\<close> writes: from, to, and their attributes.\<close>

definition dot_edges :: "graph \<Rightarrow> vertex \<Rightarrow> (string \<times> string \<times> string) list" where
  "dot_edges g v =
    (let e = v_expect_config v; s = setting_id g (replace_char (CHR ''!'') [] e) in
     (if e \<noteq> []
      then [(s, GetDotId g v, if hd e = CHR ''!'' then edge_style ''dashed color=red'' ''err'' else edge_style ''bold'' ''ok''),
            (start_id g, s, [])]
      else [])
     @ (if v_successor_vertex v = [] then [(GetDotId g v, stop_id g, [])] else [])
     @ (if v_deps_idx v = [] then [(start_id g, GetDotId g v, [])] else [])
     @ map (\<lambda>(q, k). (GetDotId g (deref g q), GetDotId g v, expected_style (v_deps_expected_results v ! k))) (v_deps_idx v))"

definition edge_text :: "string \<times> string \<times> string \<Rightarrow> string" where
  "edge_text = (\<lambda>(a, b, st). ''    '' @ a @ '' -> '' @ b @ st @ '';'' @ [newline])"

definition DumpDotEdge :: "graph \<Rightarrow> vertex \<Rightarrow> string" where
  "DumpDotEdge g v = concat (map edge_text (dot_edges g v))"

section \<open>Graphs and clusters\<close>

definition terminal_text :: "string \<Rightarrow> string \<Rightarrow> string" where
  "terminal_text i l = ''    '' @ i @ ''[color=black fillcolor=deepskyblue style=filled shape=Msquare label=''
     @ [dquote] @ l @ [dquote] @ ''];'' @ [newline]"

fun dot_settings :: "graph \<Rightarrow> string list \<Rightarrow> config_setting list \<Rightarrow> string" where
  "dot_settings g seen [] = []"
| "dot_settings g seen (c # cs) =
    (if cs_name c \<in> set seen then dot_settings g seen cs
     else ''    '' @ setting_id g (cs_name c) @ label_of (cs_name c)
       @ '' shape=diamond color=black fillcolor=aquamarine style=filled];'' @ [newline]
       @ dot_settings g (cs_name c # seen) cs)"

definition DumpDot :: "cluster \<Rightarrow> graph \<Rightarrow> string" where
  "DumpDot c g =
    (let nodes = map (\<lambda>(_, p). deref g p) (g_nodes g) in
     ''  subgraph cluster_'' @ g_name g @ ''{'' @ [newline]
     @ ''    style = rounded;'' @ [newline]
     @ ''    label = '' @ [dquote] @ g_name g @ [dquote] @ '';'' @ [newline]
     @ terminal_text (start_id g) ''START'' @ terminal_text (stop_id g) ''STOP''
     @ concat (map (DumpDotDefine g) nodes)
     @ dot_settings g [] (c_config_setting c)
     @ concat (map (DumpDotEdge g) nodes)
     @ ''};'' @ [newline])"

definition DumpClusterDot :: "cluster \<Rightarrow> string" where
  "DumpClusterDot c = ''digraph G {'' @ [newline] @ ''    rankdir=LR;'' @ [newline]
     @ concat (map (DumpDot c) (c_graph c)) @ ''}'' @ [newline]"

section \<open>Names of settings\<close>

text \<open>\<open>Build\<close> checks every setting that a vertex expects, and nothing changes the field.\<close>

definition setting_ok :: "cluster \<Rightarrow> string \<Rightarrow> bool" where
  "setting_ok c e = (e \<noteq> [] \<longrightarrow> ContainsConfigSetting c e)"

definition expects :: "graph \<Rightarrow> string list \<times> string list" where
  "expects g = (map v_expect_config (g_vertex g), map v_expect_config (g_gen_vertex g))"

lemma map_update_same: "f y = f (xs ! i) \<Longrightarrow> map f (xs[i := y]) = map f xs"
  by (metis list_update_id map_update)

lemma expects_modify:
  "(\<And>v. v_expect_config (f v) = v_expect_config v) \<Longrightarrow> expects (modify p f g) = expects g"
  by (cases p) (simp_all add: expects_def modify_def map_update_same)

lemma expects_tables [simp]:
  "expects (g\<lparr>g_nodes := n\<rparr>) = expects g" "expects (g\<lparr>g_data_mapping_table := d\<rparr>) = expects g" "expects (g\<lparr>g_idx := i\<rparr>) = expects g"
  by (simp_all add: expects_def)

lemma expects_assign:
  "expects (assign_processor c p g) = expects g" "expects (assign_id p g) = expects g" "expects (assign_cluster c p g) = expects g"
  by (simp_all add: assign_processor_def assign_id_def assign_cluster_def generateNodeId_def SetGeneratedId_def expects_modify Let_def)

lemma expects_link:
  "\<exists>k. expects (fst (link_expect c p (g, gen))) = (fst (expects g), snd (expects g) @ replicate k [])"
proof (cases "v_expect (deref g p) = []")
  case True
  then show ?thesis by (auto simp: link_expect_def intro: exI[of _ 0])
next
  case False
  obtain r g' where r: "geneatedCondVertex c (v_expect (deref g p)) g = (r, g')" by fastforce
  then have g': "expects g' = (fst (expects g), snd (expects g) @ [[]])"
    by (auto simp: geneatedCondVertex_def generateNodeId_def expects_def Let_def MergeSuccessor_def SetGeneratedId_def new_vertex_def)
  show ?thesis
  proof (cases "gen (v_expect (deref g p))")
    case None
    then have "expects (fst (link_expect c p (g, gen))) = expects g'"
      using False r by (simp add: link_expect_def Let_def expects_modify)
    with g' show ?thesis by (auto intro: exI[of _ 1])
  next
    case (Some q)
    then have "expects (fst (link_expect c p (g, gen))) = expects g"
      using False by (simp add: link_expect_def Let_def expects_modify)
    then show ?thesis by (auto intro: exI[of _ 0])
  qed
qed

lemma prepare_expects:
  assumes "prepare_vertex c F p (g, gen) = Ok s"
  shows "\<exists>k. expects (fst s) = (fst (expects g), snd (expects g) @ replicate k [])"
    "setting_ok c (v_expect_config (deref (assign_cluster c p (assign_id p (assign_processor c p g))) p))"
proof -
  define g1 where "g1 = assign_cluster c p (assign_id p (assign_processor c p g))"
  have e1: "expects g1 = expects g" by (simp add: g1_def expects_assign)
  have ck: "check_expect c (deref g1 p) = None"
    using assms by (auto simp: prepare_vertex_def Let_def g1_def[symmetric] split: option.splits)
  then show "setting_ok c (v_expect_config (deref (assign_cluster c p (assign_id p (assign_processor c p g))) p))"
    by (auto simp: check_expect_def setting_ok_def g1_def[symmetric] split: if_splits)
  obtain g2 gen' where g2: "link_expect c p (g1, gen) = (g2, gen')" by fastforce
  obtain g3 g4 where g3: "register_node p g2 = Ok g3" "fill_fields c F p g3 = Ok g4" "name_data p g4 = Ok (fst s)"
    using assms ck g2 by (auto simp: prepare_vertex_def Let_def g1_def[symmetric] and_then_Ok_iff)
  have "expects g3 = expects g2"
    using g3(1) by (auto simp: register_node_def Let_def MergeSuccessor_def expects_modify split: if_splits)
  moreover have "expects g4 = expects g3"
  proof (cases "FillInputOutput F (deref g3 p)")
    case None
    then show ?thesis using g3(2) by (auto simp: fill_fields_def split: if_splits)
  next
    case (Some w)
    then have "v_expect_config w = v_expect_config (deref g3 p)" by (auto simp: FillInputOutput_def split: if_splits option.splits)
    then have "expects (modify p (\<lambda>_. w) g3) = expects g3"
      by (cases p) (simp_all add: expects_def modify_def deref_def map_update_same)
    then show ?thesis using g3(2) Some by (auto simp: fill_fields_def)
  qed
  moreover have "expects (fst s) = expects g4"
  proof -
    obtain outs ins t where "fst s = (modify p (\<lambda>n. n\<lparr>v_output := outs, v_input := ins\<rparr>) g4)\<lparr>g_data_mapping_table := t\<rparr>"
      using g3(3) by (auto simp: name_data_def Let_def and_then_Ok_iff dest: sym)
    then show ?thesis by (simp add: expects_modify)
  qed
  ultimately show "\<exists>k. expects (fst s) = (fst (expects g), snd (expects g) @ replicate k [])"
    using expects_link[of c p g1 gen] g2 e1 by simp
qed

text \<open>All vertices of a graph that was built.\<close>

definition settings_ok :: "cluster \<Rightarrow> graph \<Rightarrow> bool" where
  "settings_ok c g = (\<forall>p. valid_ref g p \<longrightarrow> setting_ok c (v_expect_config (deref g p)))"

lemma expect_at: "i < length (g_vertex g) \<Longrightarrow> v_expect_config (deref g (VertexRef i)) = fst (expects g) ! i"
  by (simp add: deref_def expects_def)

lemma expects_length: "length (fst (expects g)) = length (g_vertex g)"
  by (simp add: expects_def)

lemma prepared_settings:
  assumes "for_each (vertex_refs g) (prepare_vertex c F) (g, Map.empty) = Ok s" "g_gen_vertex g = []"
  shows "settings_ok c (fst s)" "fst (expects (fst s)) = fst (expects g)"
proof -
  let ?P = "\<lambda>s. fst (expects (fst s)) = fst (expects g) \<and> (\<forall>e \<in> set (snd (expects (fst s))). e = [])"
  have keep: "?P s'" if "?P s0" "prepare_vertex c F y s0 = Ok s'" for y s0 s'
  proof -
    obtain g0 gen where "s0 = (g0, gen)" by fastforce
    with prepare_expects(1)[of c F y g0 gen s'] that show ?thesis by auto
  qed
  have start: "?P (g, Map.empty :: string \<Rightarrow> vref option)" using assms(2) by (simp add: expects_def)
  have P: "?P s" using assms(1) start keep by (rule for_each_invariant[where P = ?P])
  have "setting_ok c (fst (expects g) ! i)" if i: "i < length (g_vertex g)" for i
  proof (rule for_each_establishes[where P = ?P and Q = "\<lambda>_. setting_ok c (fst (expects g) ! i)", OF assms(1) _ start])
    show "VertexRef i \<in> set (vertex_refs g)" using i by (simp add: in_vertex_refs)
    fix s0 s' assume s0: "?P s0" "prepare_vertex c F (VertexRef i) s0 = Ok s'"
    obtain g0 gen where g0: "s0 = (g0, gen)" by fastforce
    let ?g1 = "assign_cluster c (VertexRef i) (assign_id (VertexRef i) (assign_processor c (VertexRef i) g0))"
    have e: "expects ?g1 = expects g0" by (simp add: expects_assign)
    have "fst (expects ?g1) = fst (expects g)" using s0(1) g0 unfolding e by simp
    then have "length (g_vertex ?g1) = length (g_vertex g)" by (metis expects_length)
    then have "v_expect_config (deref ?g1 (VertexRef i)) = fst (expects g) ! i"
      using expect_at[of i ?g1] i s0(1) g0 by (simp add: e)
    then show "setting_ok c (fst (expects g) ! i)" using prepare_expects(2)[of c F "VertexRef i" g0 gen s'] s0(2) g0 by simp
  qed (use keep in blast)+
  moreover have len: "length (g_vertex (fst s)) = length (g_vertex g)"
    using P by (metis expects_def fst_conv length_map)
  moreover have "v_expect_config v = []" if "v \<in> set (g_gen_vertex (fst s))" for v
    using P that by (simp add: expects_def)
  ultimately show "settings_ok c (fst s)"
    using P expect_at[of _ "fst s"]
    by (auto simp: settings_ok_def valid_ref_def setting_ok_def deref_def split: vref.splits)
  show "fst (expects (fst s)) = fst (expects g)" using P by simp
qed

lemma config_expect: "v_expect_config (config v) = v_expect_config v"
  by (simp add: config_def)

lemma settings_ok_grows: "grows g g' \<Longrightarrow> settings_ok c g \<Longrightarrow> settings_ok c g'"
  using grows_config[of g g'] grows_valid[of g g'] unfolding settings_ok_def by (metis config_expect)

lemma mark_single_expects: "expects (mark_single g) = expects g"
  by (simp add: mark_single_def expects_modify)

lemma expects_settings: "expects g = expects g' \<Longrightarrow> settings_ok c g = settings_ok c g'"
proof -
  have "settings_ok c g = (\<forall>e \<in> set (fst (expects g)) \<union> set (snd (expects g)). setting_ok c e)" for g
    by (fastforce simp: settings_ok_def expects_def valid_ref_def deref_def in_set_conv_nth split: vref.splits)
  then show "expects g = expects g' \<Longrightarrow> settings_ok c g = settings_ok c g'" by simp
qed

lemma built_settings:
  assumes "fresh_graph g" "GraphBuild c F g = Ok g'"
  shows "settings_ok c g'"
proof -
  from assms(2) obtain s g1 g2 where run:
    "for_each (vertex_refs g) (prepare_vertex c F) (g, Map.empty) = Ok s"
    "for_each (vertex_refs (mark_single (fst s))) (BuildVertex c) (mark_single (fst s)) = Ok g1"
    "for_each (gen_refs g1) (BuildVertex c) g1 = Ok g2" and g2: "g' = g2"
    by (force simp: GraphBuild_def build_edges_def and_then_Ok_iff finish_build_ok dest!: verify_all_ok)
  define h where "h = mark_single (fst s)"
  have none: "g_gen_vertex g = []" using assms(1) by (simp add: fresh_graph_def)
  have sh: "settings_ok c h"
    using prepared_settings(1)[OF run(1) none] expects_settings[OF mark_single_expects] by (simp add: h_def)
  have "phase1_inv (length (g_vertex g)) h" using mark_single_ok(1)[OF prepare_loop(1)[OF assms(1) run(1)]] by (simp add: h_def)
  then have h0: "build_inv h h" by (simp add: phase1_inv_def build_inv_refl unlinked_edges_ok)
  have b1: "build_inv h g1" using build_loop(1)[OF run(2)[folded h_def] h0] by (simp add: valid_ref_cases)
  have e1: "gen_refs g1 = gen_refs h" using edges_to_vertices[OF build_inv_grows[OF b1]] by simp
  have "build_inv h g2" using build_loop(1)[OF run(3) b1] by (simp add: e1 valid_ref_cases)
  then show ?thesis using settings_ok_grows[OF build_inv_grows sh] g2 by simp
qed

section \<open>The picture\<close>

definition declared :: "cluster \<Rightarrow> graph \<Rightarrow> string set" where
  "declared c g = {start_id g, stop_id g} \<union> (\<lambda>p. GetDotId g (deref g p)) ` snd ` set (g_nodes g)
     \<union> (\<lambda>s. setting_id g (cs_name s)) ` set (c_config_setting c)"

lemma replace_none: "x \<notin> set s \<Longrightarrow> replace_char x [] s = s"
  by (induction s) (auto simp: replace_char_def)

lemma setting_declared:
  assumes "setting_ok c e" "e \<noteq> []" "\<forall>s \<in> set (c_config_setting c). CHR ''!'' \<notin> set (cs_name s)"
  shows "setting_id g (replace_char (CHR ''!'') [] e) \<in> declared c g"
proof -
  obtain s where s: "s \<in> set (c_config_setting c)" "cs_name s = (if hd e = CHR ''!'' then tl e else e)"
    using assms(1,2) by (auto simp: setting_ok_def ContainsConfigSetting_def list_ex_iff split: if_splits)
  have "replace_char (CHR ''!'') [] e = cs_name s"
  proof (cases "hd e = CHR ''!''")
    case True
    then have "e = CHR ''!'' # cs_name s" using s(2) assms(2) by (simp add: list.expand)
    then have "replace_char (CHR ''!'') [] e = replace_char (CHR ''!'') [] (cs_name s)" by (simp add: replace_char_def)
    then show ?thesis using replace_none assms(3) s(1) by metis
  next
    case False
    then show ?thesis using replace_none assms(3) s by metis
  qed
  then show ?thesis using s(1) by (auto simp: declared_def)
qed

text \<open>
  The picture of a built graph is closed: every edge that it draws joins points that it declares,
  the start and the end, the vertices of the table and the settings of the cluster, provided that no
  generated vertex takes the name of a configured one and no setting has an exclamation mark in its
  name.
\<close>
theorem picture_closed:
  assumes "fresh_graph g0" and "GraphBuild c F g0 = Ok g" and "no_collision g"
    and "length (g_vertex g) + length (g_gen_vertex g) < 2 ^ 32"
    and "\<forall>s \<in> set (c_config_setting c). CHR ''!'' \<notin> set (cs_name s)"
    and "(n, p) \<in> set (g_nodes g)" and "(a, b, st) \<in> set (dot_edges g (deref g p))"
  shows "a \<in> declared c g \<and> b \<in> declared c g"
proof -
  let ?v = "deref g p"
  have g: "runnable g" by (rule built_runnable[OF assms(1-4)])
  have nodes: "GetDotId g (deref g q) \<in> declared c g" if "valid_ref g q" for q
    using g that by (auto simp: runnable_def declared_def)
  have p: "valid_ref g p" using g assms(6) by (force simp: runnable_def)
  have set: "v_expect_config ?v \<noteq> [] \<Longrightarrow> setting_id g (replace_char (CHR ''!'') [] (v_expect_config ?v)) \<in> declared c g"
    using setting_declared built_settings[OF assms(1,2)] p assms(5) by (simp add: settings_ok_def)
  have dep: "valid_ref g q" if "(q, k) \<in> set (v_deps_idx ?v)" for q k
    using edges_okD(3)[OF runnable_edges[OF g] p] that by (force simp: depends_def)
  have ends: "start_id g \<in> declared c g" "stop_id g \<in> declared c g" by (simp_all add: declared_def)
  show ?thesis using assms(7) set nodes[OF p] nodes dep ends by (auto simp: dot_edges_def Let_def split: if_splits)
qed

theorem picture_closed_witness:
  "\<exists>a b st. (a, b, st) \<in> set (dot_edges example_built (deref example_built (VertexRef 1)))
     \<and> a \<in> declared example_cluster example_built \<and> b \<in> declared example_cluster example_built"
proof -
  have ne: "dot_edges example_built (deref example_built (VertexRef 1)) \<noteq> []"
    and n: "(''b'', VertexRef 1) \<in> set (g_nodes example_built)"
    by code_simp+
  obtain e where e: "e \<in> set (dot_edges example_built (deref example_built (VertexRef 1)))"
    using hd_in_set[OF ne] by blast
  obtain a b st where abs: "e = (a, b, st)" by (metis prod_cases3)
  have len: "length (g_vertex example_built) + length (g_gen_vertex example_built) < 2 ^ 32" using example_size by simp
  have c: "\<forall>s \<in> set (c_config_setting example_cluster). CHR ''!'' \<notin> set (cs_name s)"
    by (simp add: example_cluster_def new_cluster_def)
  from picture_closed[OF example_fresh example_built _ len c n e[unfolded abs]] example_size e abs show ?thesis by blast
qed

end
