(* ===== verification/Expr.thy ===== *)
theory Expr
  imports Processor
begin

text \<open>
  The operator of conditions, \<open>didagle_expr\<close> (\<open>processor/impl/expr.cpp\<close>): how the variables of an
  expression are read, its two functions, and what the operator returns. The parser and evaluator
  of expressions is the library ssexpr; here it is an argument.
\<close>

section \<open>Values\<close>

text \<open>
  \<open>ssexpr::Value\<close> as the code uses it; a pointer to parameters carries what it points to
  (\<open>None\<close> is the null pointer).
\<close>

datatype expr_value =
  EBool bool | EString string | EInt int | EDouble "64 word" | EPointer "params option" | EError

text \<open>The types that a variable may have in the data of the graph, and the contents of such objects.\<close>

datatype expr_type = TypeBool | TypeString | TypeInt | TypeDouble

record objects =
  ob_bool :: "nat \<Rightarrow> bool"
  ob_string :: "nat \<Rightarrow> string"
  ob_int :: "nat \<Rightarrow> int"
  ob_double :: "nat \<Rightarrow> 64 word"

text \<open>Equality of doubles: no NaN equals anything, and the two zeros are equal.\<close>

definition magnitude :: "64 word \<Rightarrow> 64 word" where
  "magnitude x = x AND 0x7FFFFFFFFFFFFFFF"

definition is_nan :: "64 word \<Rightarrow> bool" where
  "is_nan x = (magnitude x > 0x7FF0000000000000)"

definition double_eq :: "64 word \<Rightarrow> 64 word \<Rightarrow> bool" where
  "double_eq x y = (\<not> is_nan x \<and> \<not> is_nan y \<and> (x = y \<or> magnitude x = 0 \<and> magnitude y = 0))"

section \<open>Variables\<close>

text \<open>
  \<open>tid\<close> gives the type identifiers, \<open>a\<close> is the context of the operator. The order is bool, string,
  int64, double.
\<close>

definition data_var :: "(data_key \<Rightarrow> nat option) \<Rightarrow> (expr_type \<Rightarrow> nat) \<Rightarrow> objects \<Rightarrow> data_ctx list \<Rightarrow> caddr \<Rightarrow> string
    \<Rightarrow> expr_value option" where
  "data_var di tid ob cs a n =
    (let get = (\<lambda>t. DataGet di cs ByPointer (n, tid t) (-1) default_options a) in
     case get TypeBool of Some x \<Rightarrow> Some (EBool (ob_bool ob x))
     | None \<Rightarrow> (case get TypeString of Some x \<Rightarrow> Some (EString (ob_string ob x))
     | None \<Rightarrow> (case get TypeInt of Some x \<Rightarrow> Some (EInt (ob_int ob x))
     | None \<Rightarrow> (case get TypeDouble of Some x \<Rightarrow> Some (EDouble (ob_double ob x))
     | None \<Rightarrow> None))))"

fun walk :: "pheap \<Rightarrow> params \<Rightarrow> string list \<Rightarrow> params option" where
  "walk h p [] = Some p"
| "walk h p (n # ns) = Option.bind (Get h p n) (\<lambda>q. walk h q ns)"

definition params_value :: "params \<Rightarrow> expr_value" where
  "params_value p =
    (if IsInt p then EInt (iv p)
     else if IsDouble p then EDouble (dv p)
     else if IsBool p then EBool (bv p)
     else if IsString p then EString (str p)
     else if Valid p then EPointer (Some p)
     else EBool False)"

text \<open>The outer \<open>None\<close> is a lookup that does not return.\<close>

definition dynamic_var_access :: "(data_key \<Rightarrow> nat option) \<Rightarrow> (expr_type \<Rightarrow> nat) \<Rightarrow> objects \<Rightarrow> data_ctx list \<Rightarrow> caddr
    \<Rightarrow> pheap \<Rightarrow> params \<Rightarrow> string list \<Rightarrow> expr_value option" where
  "dynamic_var_access di tid ob cs a h root args =
    (case (if length args = 1 then data_var di tid ob cs a (hd args) else None) of
       Some v \<Rightarrow> Some v
     | None \<Rightarrow> map_option params_value (walk h root args))"

section \<open>Functions\<close>

fun has_param :: "pheap \<Rightarrow> expr_value list \<Rightarrow> expr_value option" where
  "has_param h (EPointer (Some p) # EString key # vs) = map_option EBool (Contains h p key)"
| "has_param h _ = Some (EBool False)"

text \<open>An element is compared in the field of the kind of the value, whatever kind it is itself.\<close>

fun same_value :: "params \<Rightarrow> expr_value \<Rightarrow> bool" where
  "same_value p (EInt n) = (iv p = n)"
| "same_value p (EString s) = (str p = s)"
| "same_value p (EDouble d) = double_eq (dv p) d"
| "same_value p (EBool b) = (bv p = b)"
| "same_value p _ = False"

fun has_value :: "expr_value list \<Rightarrow> expr_value" where
  "has_value [EPointer (Some p), v] = EBool (list_ex (\<lambda>i. same_value (index_const p i) v) [0..<Size p])"
| "has_value _ = EBool False"

section \<open>The operator\<close>

text \<open>
  \<open>Init\<close> and \<open>EvalDynamic\<close> of the library: what \<open>Init\<close> returns for a text, and the value of the text
  given how variables and the two functions are answered (\<open>None\<close> if it does not return).
\<close>

type_synonym evaluator = "(string list \<Rightarrow> expr_value option) \<Rightarrow> (string \<Rightarrow> expr_value list \<Rightarrow> expr_value option) \<Rightarrow> expr_value option"

record expr_library =
  el_init :: "string \<Rightarrow> int"
  el_eval :: "string \<Rightarrow> evaluator"

definition ExprSetup :: "expr_library \<Rightarrow> params \<Rightarrow> int \<times> string" where
  "ExprSetup L args = (el_init L (str args), str args)"

definition expr_functions :: "pheap \<Rightarrow> string \<Rightarrow> expr_value list \<Rightarrow> expr_value option" where
  "expr_functions h f vs =
    (if f = ''has_param'' then has_param h vs
     else if f = ''has_value'' then Some (has_value vs)
     else Some EError)"

definition ExprExecute :: "expr_library \<Rightarrow> string \<Rightarrow> (data_key \<Rightarrow> nat option) \<Rightarrow> (expr_type \<Rightarrow> nat) \<Rightarrow> objects \<Rightarrow> data_ctx list
    \<Rightarrow> caddr \<Rightarrow> pheap \<Rightarrow> params \<Rightarrow> int option" where
  "ExprExecute L cond di tid ob cs a h args =
    map_option (\<lambda>v. if v = EBool True then 0 else -1)
      (el_eval L cond (dynamic_var_access di tid ob cs a h args) (expr_functions h))"

section \<open>Properties\<close>

text \<open>The zero of each kind.\<close>

fun is_zero :: "expr_value \<Rightarrow> bool" where
  "is_zero (EInt n) = (n = 0)"
| "is_zero (EString s) = (s = [])"
| "is_zero (EDouble d) = (magnitude d = 0)"
| "is_zero (EBool b) = (\<not> b)"
| "is_zero _ = False"

lemma magnitude_zero [simp]: "magnitude 0 = 0"
  by (simp add: magnitude_def)

lemma same_value_default: "same_value (new_params nv) v = is_zero v"
  by (cases v) (auto simp: new_params_def double_eq_def is_nan_def)

lemma take_at: "(\<exists>i < n. i < length xs \<and> P (xs ! i)) \<longleftrightarrow> (\<exists>q \<in> set (take n xs). P q)"
proof
  assume "\<exists>i < n. i < length xs \<and> P (xs ! i)"
  then obtain i where i: "i < n" "i < length xs" "P (xs ! i)" by blast
  then have "xs ! i \<in> set (take n xs)" by (auto simp: in_set_conv_nth intro: exI[of _ i])
  with i(3) show "\<exists>q \<in> set (take n xs). P q" by blast
next
  assume "\<exists>q \<in> set (take n xs). P q"
  then obtain i where "i < length (take n xs)" "P (take n xs ! i)" by (metis in_set_conv_nth)
  then show "\<exists>i < n. i < length xs \<and> P (xs ! i)" by (intro exI[of _ i]) simp
qed

text \<open>
  \<open>has_value\<close> looks for an element that has the value in the field of the value's kind. The kind of
  the element is not asked, so that every text, table and list counts as the number 0; and a
  table, which has no elements but a size, has exactly the zeros of all kinds.
\<close>
theorem has_value_ignores_kinds:
  "has_value [EPointer (Some p), v] =
     EBool (if members p = [] then \<exists>q \<in> set (param_array p). same_value q v
            else (\<exists>q \<in> set (take (length (members p)) (param_array p)). same_value q v)
              \<or> length (param_array p) < length (members p) \<and> is_zero v)"
proof -
  have ex: "list_ex (\<lambda>i. same_value (index_const p i) v) [0..<n] \<longleftrightarrow>
      (\<exists>q \<in> set (take n (param_array p)). same_value q v) \<or> length (param_array p) < n \<and> is_zero v" for n
  proof -
    have "(\<exists>i < n. same_value (index_const p i) v) \<longleftrightarrow>
        (\<exists>i < n. i < length (param_array p) \<and> same_value (param_array p ! i) v)
        \<or> (\<exists>i < n. \<not> i < length (param_array p) \<and> is_zero v)"
      by (auto simp: index_const_def same_value_default split: if_splits)
    moreover have "(\<exists>i < n. i < length (param_array p) \<and> same_value (param_array p ! i) v) \<longleftrightarrow>
        (\<exists>q \<in> set (take n (param_array p)). same_value q v)"
      by (rule take_at)
    moreover have "(\<exists>i < n. \<not> i < length (param_array p) \<and> is_zero v) \<longleftrightarrow> length (param_array p) < n \<and> is_zero v"
      by (auto intro: exI[of _ "length (param_array p)"])
    ultimately show ?thesis by (auto simp: list_ex_iff)
  qed
  show ?thesis by (simp add: ex Size_def)
qed

lemma params_value_true: "params_value p = EBool True \<longleftrightarrow> IsBool p \<and> bv p"
  by (auto simp: params_value_def IsInt_def IsDouble_def IsBool_def IsString_def is_type_def Valid_def split: if_splits)

text \<open>
  C35: The condition that is a single name, for a library that evaluates a name to the value of the
  variable: the data of the graph come before the parameters of the run. The condition holds exactly
  if the first one that knows the name has the bool \<open>true\<close>; a name that nobody knows, or
  one of another kind, is a condition that does not hold, and no error.
\<close>
theorem condition_of_name:
  assumes "\<And>var fn. el_eval L n var fn = var [n]" and "chain h args qs"
  shows "ExprExecute L n di tid ob cs a h args =
    Some (if (case data_var di tid ob cs a n of
                Some v \<Rightarrow> v = EBool True
              | None \<Rightarrow> (case List.find (\<lambda>q. map_of (members q) n \<noteq> None) (args # qs) of
                   None \<Rightarrow> False
                 | Some q \<Rightarrow> IsBool (the (map_of (members q) n)) \<and> bv (the (map_of (members q) n))))
          then 0 else -1)"
proof (cases "data_var di tid ob cs a n")
  case (Some v)
  then show ?thesis by (simp add: ExprExecute_def assms(1) dynamic_var_access_def)
next
  case None
  have "\<not> IsBool (new_params True)" by (simp add: IsBool_def is_type_def new_params_def)
  then show ?thesis
    using None Get_chain[OF assms(2), of n]
    by (simp add: ExprExecute_def assms(1) dynamic_var_access_def params_value_true split: option.split)
qed

definition name_library :: expr_library where
  "name_library = \<lparr>el_init = (\<lambda>_. 0), el_eval = (\<lambda>c var fn. var [c])\<rparr>"

definition no_objects :: objects where
  "no_objects = \<lparr>ob_bool = (\<lambda>_. False), ob_string = (\<lambda>_. []), ob_int = (\<lambda>_. 0), ob_double = (\<lambda>_. 0)\<rparr>"

theorem condition_of_name_witness:
  "ExprExecute name_library ''on'' (\<lambda>_. None) (\<lambda>_. 0) no_objects [new_data_ctx] 0 Map.empty
     (PutBool ''on'' True (new_params False)) = Some 0"
proof -
  let ?p = "PutBool ''on'' True (new_params False)"
  have c: "chain Map.empty ?p []" by (rule chain_root) (simp add: PutBool_def put_with_def new_params_def)
  have l: "el_eval name_library ''on'' var fn = var [''on'']" for var fn by (simp add: name_library_def)
  have d: "DataGet (\<lambda>_. None) [new_data_ctx] ByPointer (n, k) (-1) default_options 0 = None" for n k
    by (simp add: DataGet_def new_data_ctx_def local_value_def GetDataValue_def default_options_def answer_def)
  then have n: "data_var (\<lambda>_. None) (\<lambda>_. 0) no_objects [new_data_ctx] 0 ''on'' = None" by (simp add: data_var_def)
  have "List.find (\<lambda>q. map_of (members q) ''on'' \<noteq> None) [?p] = Some ?p"
    and "IsBool (the (map_of (members ?p) ''on''))" "bv (the (map_of (members ?p) ''on''))"
    by (simp_all add: PutBool_def put_with_def new_params_def table_at_def IsBool_def is_type_def)
  with condition_of_name[OF l c, of "\<lambda>_. None" "\<lambda>_. 0" no_objects "[new_data_ctx]" 0] n show ?thesis by simp
qed

end
