(* ===== verification/ObjectInjection.thy ===== *)
theory ObjectInjection
  imports Registry
begin

text \<open>
  Objects with dependencies of their own (\<open>DIObject\<close>, \<open>DI_DEP\<close> and the last part of
  \<open>DIContainer::Get\<close>, \<open>di/container.h\<close> and \<open>di/container.cpp\<close>): an object that the container hands out gets
  its declared fields from the container first, once in its life.
\<close>

section \<open>Objects\<close>

text \<open>
  The fields of an object in the order in which its table of inject functions is walked (the code's
  is a hash table), and their values.
\<close>

record di_object =
  dj_input_ids :: "data_key list"
  dj_table :: "data_key list"
  dj_inited :: bool
  dj_field :: "string \<Rightarrow> nat option"

type_synonym di_world = "di_object list"

definition new_di_object :: di_object where
  "new_di_object = \<lparr>dj_input_ids = [], dj_table = [], dj_inited = False, dj_field = (\<lambda>_. None)\<rparr>"

text \<open>\<open>emplace\<close> leaves the table alone when it has the name.\<close>

definition RegisterInput :: "data_key \<Rightarrow> di_object \<Rightarrow> di_object" where
  "RegisterInput k x = x\<lparr>dj_input_ids := dj_input_ids x @ [k],
     dj_table := (if fst k \<in> fst ` set (dj_table x) then dj_table x else dj_table x @ [k])\<rparr>"

section \<open>Getting an object\<close>

definition set_field :: "nat \<Rightarrow> string \<Rightarrow> nat option \<Rightarrow> di_world \<Rightarrow> di_world" where
  "set_field a n v w = w[a := (w ! a)\<lparr>dj_field := (dj_field (w ! a))(n := v)\<rparr>]"

text \<open>\<open>get\<close> is \<open>DIContainer::Get\<close>; \<open>None\<close> is a recursion that is too deep.\<close>

fun DoInjectInputFields :: "(data_key \<Rightarrow> di_world \<Rightarrow> (nat option \<times> di_world) option) \<Rightarrow> nat \<Rightarrow> data_key list \<Rightarrow> di_world \<Rightarrow> di_world option" where
  "DoInjectInputFields get a [] w = Some w"
| "DoInjectInputFields get a (k # ks) w =
    Option.bind (get k w) (\<lambda>(v, w'). DoInjectInputFields get a ks (set_field a (fst k) v w'))"

definition InitDIFields :: "(data_key \<Rightarrow> di_world \<Rightarrow> (nat option \<times> di_world) option) \<Rightarrow> nat \<Rightarrow> di_world \<Rightarrow> di_world option" where
  "InitDIFields get a w =
    (if dj_inited (w ! a) then Some w
     else DoInjectInputFields get a (dj_table (w ! a)) (w[a := (w ! a)\<lparr>dj_inited := True\<rparr>]))"

text \<open>
  \<open>B\<close> is the table of builders with their functions, which may create objects; \<open>di\<close> tells which types
  are derived from \<open>DIObject\<close>. The fuel bounds the depth of the recursion.
\<close>

primrec GetObject :: "nat \<Rightarrow> (data_key \<Rightarrow> (di_world \<Rightarrow> nat option \<times> di_world) option) \<Rightarrow> (nat \<Rightarrow> bool) \<Rightarrow> data_key \<Rightarrow> di_world
    \<Rightarrow> (nat option \<times> di_world) option" where
  "GetObject 0 = (\<lambda>B di k w. None)"
| "GetObject (Suc n) = (\<lambda>B di k w.
    case B k of
      None \<Rightarrow> Some (None, w)
    | Some f \<Rightarrow>
        let (v, w1) = f w in
        case v of
          None \<Rightarrow> Some (None, w1)
        | Some a \<Rightarrow> if di (snd k) then map_option (Pair (Some a)) (InitDIFields (GetObject n B di) a w1)
                    else Some (Some a, w1))"

section \<open>Builders of fixed objects\<close>

text \<open>Every builder hands out an object that exists already, always the same one.\<close>

definition fixed_builders :: "(data_key \<Rightarrow> (di_world \<Rightarrow> nat option \<times> di_world) option) \<Rightarrow> (data_key \<Rightarrow> nat option) \<Rightarrow> nat \<Rightarrow> bool" where
  "fixed_builders B F m = (\<forall>k. (case B k of None \<Rightarrow> F k = None | Some f \<Rightarrow> \<forall>w. f w = (F k, w))
     \<and> (\<forall>a. F k = Some a \<longrightarrow> a < m))"

definition linked_field :: "(data_key \<Rightarrow> nat option) \<Rightarrow> (nat \<Rightarrow> bool) \<Rightarrow> di_world \<Rightarrow> nat \<Rightarrow> data_key \<Rightarrow> bool" where
  "linked_field F di w a k = (dj_field (w ! a) (fst k) = F k
     \<and> (\<forall>b. F k = Some b \<longrightarrow> di (snd k) \<longrightarrow> dj_inited (w ! b)))"

definition settled :: "(data_key \<Rightarrow> nat option) \<Rightarrow> (nat \<Rightarrow> bool) \<Rightarrow> di_world \<Rightarrow> nat \<Rightarrow> bool" where
  "settled F di w a = (\<forall>k \<in> set (dj_table (w ! a)). linked_field F di w a k)"

definition named :: "di_world \<Rightarrow> bool" where
  "named w = (\<forall>a < length w. distinct (map fst (dj_table (w ! a))))"

text \<open>All initialised objects but those of \<open>S\<close>, whose fields are being injected.\<close>

definition settled_but :: "nat set \<Rightarrow> (data_key \<Rightarrow> nat option) \<Rightarrow> (nat \<Rightarrow> bool) \<Rightarrow> di_world \<Rightarrow> bool" where
  "settled_but S F di w = (\<forall>a < length w. a \<notin> S \<longrightarrow> dj_inited (w ! a) \<longrightarrow> settled F di w a)"

definition fresh_count :: "di_world \<Rightarrow> nat" where
  "fresh_count w = card {a. a < length w \<and> \<not> dj_inited (w ! a)}"

text \<open>What a call does: it touches only objects that were not initialised.\<close>

definition advances :: "di_world \<Rightarrow> di_world \<Rightarrow> bool" where
  "advances w w' = (length w' = length w \<and> (\<forall>a. dj_inited (w ! a) \<longrightarrow> w' ! a = w ! a)
     \<and> (\<forall>a. dj_table (w' ! a) = dj_table (w ! a)))"

lemma advances_refl [simp]: "advances w w"
  by (simp add: advances_def)

lemma advances_trans: "advances u v \<Longrightarrow> advances v w \<Longrightarrow> advances u w"
  by (simp add: advances_def)

lemma advances_inited: "advances w w' \<Longrightarrow> dj_inited (w ! a) \<Longrightarrow> dj_inited (w' ! a)"
  by (simp add: advances_def)

lemma advances_count: "advances w w' \<Longrightarrow> fresh_count w' \<le> fresh_count w"
  unfolding fresh_count_def by (intro card_mono) (auto simp: advances_def)

lemma advances_named: "advances w w' \<Longrightarrow> named w \<Longrightarrow> named w'"
  by (simp add: advances_def named_def)

lemma linked_advances: "advances w w' \<Longrightarrow> dj_inited (w ! a) \<Longrightarrow> linked_field F di w a k \<Longrightarrow> linked_field F di w' a k"
  by (auto simp: linked_field_def advances_def)

definition getter_ok :: "(data_key \<Rightarrow> di_world \<Rightarrow> (nat option \<times> di_world) option) \<Rightarrow> (data_key \<Rightarrow> nat option) \<Rightarrow> (nat \<Rightarrow> bool) \<Rightarrow> nat \<Rightarrow> nat \<Rightarrow> bool" where
  "getter_ok get F di m n = (\<forall>k w S. named w \<longrightarrow> length w = m \<longrightarrow> fresh_count w < n \<longrightarrow> settled_but S F di w \<longrightarrow> (\<forall>b \<in> S. dj_inited (w ! b)) \<longrightarrow>
      (\<exists>w'. get k w = Some (F k, w') \<and> advances w w' \<and> settled_but S F di w'
        \<and> (\<forall>b. F k = Some b \<longrightarrow> di (snd k) \<longrightarrow> dj_inited (w' ! b))))"

text \<open>The loop over the fields of an object \<open>a\<close> in progress.\<close>

lemma inject_loop:
  assumes get: "getter_ok get F di m n"
  shows "named w \<Longrightarrow> length w = m \<Longrightarrow> fresh_count w < n \<Longrightarrow> settled_but (insert a S) F di w \<Longrightarrow> a < m \<Longrightarrow> (\<forall>b \<in> insert a S. dj_inited (w ! b)) \<Longrightarrow>
    dj_table (w ! a) = done @ ks \<Longrightarrow> (\<forall>k \<in> set done. linked_field F di w a k) \<Longrightarrow>
    \<exists>w'. DoInjectInputFields get a ks w = Some w' \<and> settled F di w' a \<and> settled_but (insert a S) F di w'
      \<and> length w' = length w \<and> (\<forall>b. b \<noteq> a \<longrightarrow> dj_inited (w ! b) \<longrightarrow> w' ! b = w ! b) \<and> dj_inited (w' ! a)
      \<and> (\<forall>b. dj_table (w' ! b) = dj_table (w ! b))"
proof (induction ks arbitrary: w "done")
  case Nil
  then show ?case by (simp add: settled_def)
next
  case (Cons k ks)
  obtain w1 where w1: "get k w = Some (F k, w1)" "advances w w1" "settled_but (insert a S) F di w1"
    "\<forall>b. F k = Some b \<longrightarrow> di (snd k) \<longrightarrow> dj_inited (w1 ! b)"
    using get Cons.prems(1-4,6) unfolding getter_ok_def by blast
  define w2 where "w2 = set_field a (fst k) (F k) w1"
  have a: "a < length w1" "dj_inited (w ! a)" "w1 ! a = w ! a" using w1(2) Cons.prems(2,5,6) by (auto simp: advances_def)
  have at: "w2 ! b = (if b = a then (w1 ! a)\<lparr>dj_field := (dj_field (w1 ! a))(fst k := F k)\<rparr> else w1 ! b)" "length w2 = length w1" for b
    using a by (simp_all add: w2_def set_field_def)
  have same: "dj_inited (w2 ! b) = dj_inited (w1 ! b)" "dj_table (w2 ! b) = dj_table (w1 ! b)" for b by (simp_all add: at)
  have dist: "distinct (map fst (done @ k # ks))" using Cons.prems(1,2,5,7) by (metis named_def)
  have keep: "linked_field F di w2 a k'" if "k' \<in> set done" for k'
  proof -
    have "fst k' \<noteq> fst k" using dist that by (auto simp: image_iff)
    moreover have "linked_field F di w1 a k'" using linked_advances[OF w1(2) a(2)] Cons.prems(8) that by blast
    ultimately show ?thesis by (simp add: linked_field_def at same)
  qed
  have "linked_field F di w2 a k" using w1(4) by (simp add: linked_field_def at same)
  then have all: "\<forall>k' \<in> set (done @ [k]). linked_field F di w2 a k'" using keep by simp
  have "fresh_count w2 = fresh_count w1" by (simp add: fresh_count_def at(2) same)
  then have cnt: "fresh_count w2 < n" using advances_count[OF w1(2)] Cons.prems(3) by simp
  have set2: "settled_but (insert a S) F di w2"
    using w1(3) by (auto simp: settled_but_def settled_def linked_field_def at)
  have named2: "named w2" using advances_named[OF w1(2) Cons.prems(1)] by (simp add: named_def at(2) same)
  have ini: "\<forall>b \<in> insert a S. dj_inited (w2 ! b)" using Cons.prems(6) advances_inited[OF w1(2)] by (simp add: same)
  have tab: "dj_table (w2 ! a) = (done @ [k]) @ ks" using Cons.prems(7) a(3) by (simp add: same)
  have len: "length w2 = m" using at(2) w1(2) Cons.prems(2) by (simp add: advances_def)
  obtain w' where w': "DoInjectInputFields get a ks w2 = Some w'" "settled F di w' a" "settled_but (insert a S) F di w'"
      "length w' = length w2" "\<forall>b. b \<noteq> a \<longrightarrow> dj_inited (w2 ! b) \<longrightarrow> w' ! b = w2 ! b" "dj_inited (w' ! a)"
      "\<forall>b. dj_table (w' ! b) = dj_table (w2 ! b)"
    using Cons.IH[OF named2 len cnt set2 Cons.prems(5) ini tab all] by blast
  have "w' ! b = w ! b" if "b \<noteq> a" "dj_inited (w ! b)" for b
    using w'(5) that advances_inited[OF w1(2)] w1(2) by (simp add: at advances_def)
  moreover have "dj_table (w' ! b) = dj_table (w ! b)" for b using w'(7) w1(2) by (simp add: same advances_def)
  moreover have "DoInjectInputFields get a (k # ks) w = Some w'" using w1(1) w'(1) by (simp add: w2_def)
  moreover have "length w' = length w" using w'(4) len Cons.prems(2) by simp
  ultimately show ?case using w'(2,3,6) by blast
qed

lemma fresh_count_update:
  assumes "a < length w" "\<not> dj_inited (w ! a)" "dj_inited x"
  shows "Suc (fresh_count (w[a := x])) = fresh_count w"
proof -
  let ?A = "{b. b < length w \<and> \<not> dj_inited (w ! b)}"
  have "{b. b < length (w[a := x]) \<and> \<not> dj_inited (w[a := x] ! b)} = ?A - {a}"
    using assms by (auto simp: nth_list_update split: if_splits)
  moreover have "a \<in> ?A" "finite ?A" using assms by simp_all
  ultimately have "Suc (card {b. b < length (w[a := x]) \<and> \<not> dj_inited (w[a := x] ! b)}) = card ?A"
    by (simp only: card_Suc_Diff1)
  then show ?thesis unfolding fresh_count_def .
qed

lemma GetObject_fixed:
  assumes B: "fixed_builders B F m"
  shows "named w \<Longrightarrow> length w = m \<Longrightarrow> fresh_count w < n \<Longrightarrow> settled_but S F di w \<Longrightarrow> (\<forall>b \<in> S. dj_inited (w ! b)) \<Longrightarrow>
      \<exists>w'. GetObject n B di k w = Some (F k, w') \<and> advances w w' \<and> settled_but S F di w'
        \<and> (\<forall>b. F k = Some b \<longrightarrow> di (snd k) \<longrightarrow> dj_inited (w' ! b))"
proof (induction n arbitrary: k w S)
  case (Suc n)
  have Bcase: "case B k of None \<Rightarrow> F k = None | Some f \<Rightarrow> \<forall>w. f w = (F k, w)"
    using B unfolding fixed_builders_def by blast
  have Bk: "GetObject (Suc n) B di k w =
      (case F k of None \<Rightarrow> Some (None, w)
       | Some a \<Rightarrow> if di (snd k) then map_option (Pair (Some a)) (InitDIFields (GetObject n B di) a w) else Some (Some a, w))"
  proof (cases "B k")
    case None
    then have "F k = None" using Bcase by simp
    with None show ?thesis by simp
  next
    case (Some f)
    then have "f w = (F k, w)" using Bcase by simp
    with Some show ?thesis by (simp add: Let_def split: option.split)
  qed
  show ?case
  proof (cases "F k")
    case None
    with Bk Suc.prems show ?thesis by simp
  next
    case (Some a)
    have a: "a < m" using B Some unfolding fixed_builders_def by blast
    show ?thesis
    proof (cases "di (snd k) \<and> \<not> dj_inited (w ! a)")
      case False
      with Bk Some Suc.prems show ?thesis by (auto simp: InitDIFields_def)
    next
      case True
      define w1 where "w1 = w[a := (w ! a)\<lparr>dj_inited := True\<rparr>]"
      have at: "w1 ! b = (if b = a then (w ! a)\<lparr>dj_inited := True\<rparr> else w ! b)" "length w1 = m" for b
        using a Suc.prems(2) by (simp_all add: w1_def)
      have cnt: "fresh_count w1 < n"
        using fresh_count_update[of a w "(w ! a)\<lparr>dj_inited := True\<rparr>"] True a Suc.prems(2,3) by (simp add: w1_def)
      have named1: "named w1" using Suc.prems(1,2) by (simp add: named_def at)
      have set1: "settled_but (insert a S) F di w1"
        using Suc.prems(2,4) by (auto simp: settled_but_def settled_def linked_field_def at)
      have ini: "\<forall>b \<in> insert a S. dj_inited (w1 ! b)" using Suc.prems(5) by (simp add: at)
      have tab: "dj_table (w1 ! a) = [] @ dj_table (w ! a)" by (simp add: at)
      have IH: "getter_ok (GetObject n B di) F di m n" using Suc.IH unfolding getter_ok_def by blast
      have nil: "\<forall>k \<in> set []. linked_field F di w1 a k" by simp
      obtain w' where w': "DoInjectInputFields (GetObject n B di) a (dj_table (w ! a)) w1 = Some w'" "settled F di w' a"
          "settled_but (insert a S) F di w'" "length w' = length w1"
          "\<forall>b. b \<noteq> a \<longrightarrow> dj_inited (w1 ! b) \<longrightarrow> w' ! b = w1 ! b" "dj_inited (w' ! a)"
          "\<forall>b. dj_table (w' ! b) = dj_table (w1 ! b)"
        using inject_loop[of "GetObject n B di" F di m n w1 a S "[]" "dj_table (w ! a)", OF IH named1 at(2) cnt set1 a ini tab nil]
        by (elim exE conjE) (rule that)
      have "GetObject (Suc n) B di k w = Some (F k, w')"
        using Bk Some True w'(1) by (simp add: InitDIFields_def w1_def)
      moreover have "advances w w'"
        using w'(4,5,7) True Suc.prems(2) by (auto simp: advances_def at)
      moreover have "settled_but S F di w'" using w'(2,3) by (auto simp: settled_but_def)
      ultimately show ?thesis using w'(6) Some by (intro exI[of _ w']) simp
    qed
  qed
qed simp

text \<open>
  C24: With builders that hand out fixed objects, whose dependencies may be cyclic, \<open>DIContainer::Get\<close>
  returns: the recursion is no deeper than the number of objects. It returns the builder's object; if
  that has dependencies, it is initialised, each field of it and of every object behind it has the
  object that the container has under its name and type, and an object that was initialised before is
  not touched again.
\<close>
theorem injection_complete:
  assumes "fixed_builders B F (length w)" and "named w" and "settled_but {} F di w"
  shows "\<exists>w'. GetObject (length w + 1) B di k w = Some (F k, w')
    \<and> (\<forall>a. F k = Some a \<longrightarrow> di (snd k) \<longrightarrow> dj_inited (w' ! a))
    \<and> settled_but {} F di w' \<and> (\<forall>a. dj_inited (w ! a) \<longrightarrow> w' ! a = w ! a)"
proof -
  have "fresh_count w \<le> card {..<length w}" unfolding fresh_count_def by (intro card_mono) auto
  then have "fresh_count w < length w + 1" by simp
  from GetObject_fixed[OF assms(1,2) refl this assms(3), of k] show ?thesis by (auto simp: advances_def)
qed

text \<open>Two objects that depend on each other.\<close>

definition partner :: "string \<Rightarrow> nat \<Rightarrow> di_object" where
  "partner n t = RegisterInput (n, t) new_di_object"

definition cyclic_world :: di_world where
  "cyclic_world = [partner ''b'' 2, partner ''a'' 1]"

definition cyclic_ids :: "data_key \<Rightarrow> nat option" where
  "cyclic_ids = [(''a'', 1) \<mapsto> 0, (''b'', 2) \<mapsto> 1]"

definition fixed_pair :: "data_key \<Rightarrow> (di_world \<Rightarrow> nat option \<times> di_world) option" where
  "fixed_pair k = map_option (\<lambda>a w. (Some a, w)) (cyclic_ids k)"

theorem injection_complete_witness:
  "\<exists>w'. GetObject 3 fixed_pair (\<lambda>_. True) (''a'', 1) cyclic_world = Some (Some 0, w')
     \<and> dj_inited (w' ! 0) \<and> settled_but {} cyclic_ids (\<lambda>_. True) w'"
proof -
  have b: "fixed_builders fixed_pair cyclic_ids (length cyclic_world)"
    by (auto simp: fixed_builders_def fixed_pair_def cyclic_ids_def cyclic_world_def split: option.split if_splits)
  have n: "named cyclic_world"
    by (auto simp: named_def cyclic_world_def partner_def RegisterInput_def new_di_object_def less_Suc_eq)
  have s: "settled_but {} cyclic_ids (\<lambda>_. True) cyclic_world"
    by (auto simp: settled_but_def cyclic_world_def partner_def RegisterInput_def new_di_object_def less_Suc_eq)
  have l: "length cyclic_world + 1 = 3" "cyclic_ids (''a'', 1) = Some 0" by (simp_all add: cyclic_world_def cyclic_ids_def)
  from injection_complete[OF b n s, of "(''a'', 1)"] show ?thesis unfolding l by auto
qed

text \<open>Builders that make a new object at each call, for the same two types.\<close>

definition new_pair :: "data_key \<Rightarrow> (di_world \<Rightarrow> nat option \<times> di_world) option" where
  "new_pair k =
    (if k = (''a'', 1) then Some (\<lambda>w. (Some (length w), w @ [partner ''b'' 2]))
     else if k = (''b'', 2) then Some (\<lambda>w. (Some (length w), w @ [partner ''a'' 1]))
     else None)"

text \<open>
  When builders make a new object at each call, two types that depend on each other make
  \<open>DIContainer::Get\<close> recurse without end, whatever the depth of the stack: the mark that stops the
  recursion is in the object, and each object is new.
\<close>
theorem new_objects_never_injected:
  "GetObject n new_pair (\<lambda>_. True) (''a'', 1) w = None \<and> GetObject n new_pair (\<lambda>_. True) (''b'', 2) w = None"
proof (induction n arbitrary: w)
  case (Suc n)
  have t: "dj_table (partner m t) = [(m, t)]" "\<not> dj_inited (partner m t)" for m t
    by (simp_all add: partner_def RegisterInput_def new_di_object_def)
  from Suc show ?case by (simp add: new_pair_def InitDIFields_def t)
qed simp

end
