(* ===== verification/ContextServices.thy ===== *)
theory ContextServices
  imports DataProps "HOL-Library.Multiset"
begin

text \<open>
  What a \<open>GraphDataContext\<close> carries beside its data (\<open>processor/api.h\<close>, \<open>processor/processor.cpp\<close>): the
  event tracker (\<open>trace/event.h\<close>), the memory arena and the user context. Each is looked up through
  the parents, and each is owned by a context that deletes it.

  A context that was destroyed is \<open>None\<close> in the list of all contexts. The lists of what was made, deleted
  and kept are the history; the code has no counterpart of them.
\<close>

section \<open>Contexts\<close>

text \<open>The events of a tracker, the latest first; a user context is its type and its object.\<close>

record service_ctx =
  sx_data :: data_ctx
  sx_tracker :: "nat list option"
  sx_arena :: "nat option"
  sx_own_arena :: "nat option"
  sx_user :: "(nat \<times> nat) option"
  sx_destroys :: bool

datatype resource = Event nat | Arena nat | UserObject nat

record services =
  sw_ctxs :: "service_ctx option list"
  sw_made :: "resource list"
  sw_deleted :: "resource list"
  sw_kept :: "resource list"

definition new_service_ctx :: service_ctx where
  "new_service_ctx = \<lparr>sx_data = new_data_ctx, sx_tracker = None, sx_arena = None, sx_own_arena = None,
     sx_user = None, sx_destroys = False\<rparr>"

definition new_services :: services where
  "new_services = \<lparr>sw_ctxs = [], sw_made = [], sw_deleted = [], sw_kept = []\<rparr>"

definition ctx_at :: "services \<Rightarrow> caddr \<Rightarrow> service_ctx option" where
  "ctx_at w a = (if a < length (sw_ctxs w) then sw_ctxs w ! a else None)"

text \<open>What the members of a context own: an arena that was given as a raw pointer is not owned.\<close>

definition own_events :: "service_ctx \<Rightarrow> resource list" where
  "own_events c = (case sx_tracker c of None \<Rightarrow> [] | Some es \<Rightarrow> map Event (rev es))"

definition own_arenas :: "service_ctx \<Rightarrow> resource list" where
  "own_arenas c = (case sx_own_arena c of None \<Rightarrow> [] | Some x \<Rightarrow> [Arena x])"

definition own_users :: "service_ctx \<Rightarrow> resource list" where
  "own_users c = (case sx_user c of None \<Rightarrow> [] | Some (t, u) \<Rightarrow> [UserObject u])"

section \<open>Operations\<close>

text \<open>Those that delete something return it, in the order of the deletions.\<close>

definition EnableEventTracker :: "service_ctx \<Rightarrow> service_ctx" where
  "EnableEventTracker c = (case sx_tracker c of None \<Rightarrow> c\<lparr>sx_tracker := Some []\<rparr> | Some es \<Rightarrow> c)"

definition SetRawArena :: "nat option \<Rightarrow> service_ctx \<Rightarrow> resource list \<times> service_ctx" where
  "SetRawArena x c = (own_arenas c, c\<lparr>sx_arena := x, sx_own_arena := None\<rparr>)"

definition SetOwnArena :: "nat \<Rightarrow> service_ctx \<Rightarrow> resource list \<times> service_ctx" where
  "SetOwnArena x c = (own_arenas c, c\<lparr>sx_own_arena := Some x, sx_arena := Some x\<rparr>)"

text \<open>\<open>u\<close> is the object that \<open>new T\<close> would make.\<close>

definition NewUserContext :: "nat \<Rightarrow> nat \<Rightarrow> service_ctx \<Rightarrow> nat option \<times> service_ctx" where
  "NewUserContext t u c =
    (if sx_user c \<noteq> None then (None, c) else (Some u, c\<lparr>sx_user := Some (t, u), sx_destroys := True\<rparr>))"

definition ResetService :: "service_ctx \<Rightarrow> resource list \<times> service_ctx" where
  "ResetService c =
    (let c1 = c\<lparr>sx_data := ResetData (sx_data c), sx_tracker := None\<rparr> in
     if sx_destroys c then (own_events c @ own_users c, c1\<lparr>sx_user := None\<rparr>) else (own_events c, c1))"

definition DestroyService :: "service_ctx \<Rightarrow> resource list" where
  "DestroyService c = (if sx_user c \<noteq> None \<and> sx_destroys c then own_users c else []) @ own_arenas c @ own_events c"

text \<open>\<open>keep\<close> is what the reporter answers for an event; it takes over those it keeps.\<close>

definition AddEvent :: "nat \<Rightarrow> service_ctx \<Rightarrow> service_ctx" where
  "AddEvent e c = c\<lparr>sx_tracker := map_option (Cons e) (sx_tracker c)\<rparr>"

definition SweepEvents :: "(nat \<Rightarrow> bool) \<Rightarrow> service_ctx \<Rightarrow> resource list \<times> resource list \<times> service_ctx" where
  "SweepEvents keep c =
    (case sx_tracker c of
       None \<Rightarrow> ([], [], c)
     | Some es \<Rightarrow> (map Event (filter (\<lambda>e. \<not> keep e) (rev es)), map Event (filter keep (rev es)), c\<lparr>sx_tracker := Some []\<rparr>))"

section \<open>Lookup through the parents\<close>

text \<open>
  The recursion of \<open>GetEventTracker\<close>, \<open>GetArena\<close> and \<open>GetUserContext\<close>. \<open>Crash\<close> is a parent that was
  destroyed, or a recursion deeper than the number of contexts, which is one without end.
\<close>

primrec nearest :: "nat \<Rightarrow> (caddr \<Rightarrow> service_ctx \<Rightarrow> 'r option) \<Rightarrow> services \<Rightarrow> caddr \<Rightarrow> (unit, 'r option) outcome" where
  "nearest 0 = (\<lambda>f w a. Crash)"
| "nearest (Suc n) = (\<lambda>f w a.
    case ctx_at w a of
      None \<Rightarrow> Crash
    | Some c \<Rightarrow>
        (case f a c of
           Some r \<Rightarrow> Ok (Some r)
         | None \<Rightarrow> (case dc_parent (sx_data c) of None \<Rightarrow> Ok None | Some p \<Rightarrow> nearest n f w p)))"

definition GetEventTracker :: "services \<Rightarrow> caddr \<Rightarrow> (unit, caddr option) outcome" where
  "GetEventTracker w a = nearest (length (sw_ctxs w)) (\<lambda>b c. map_option (\<lambda>_. b) (sx_tracker c)) w a"

definition GetArena :: "services \<Rightarrow> caddr \<Rightarrow> (unit, nat option) outcome" where
  "GetArena w a = nearest (length (sw_ctxs w)) (\<lambda>_. sx_arena) w a"

text \<open>The type that is asked for does not take part: the pointer is cast to it.\<close>

definition GetUserContext :: "nat \<Rightarrow> services \<Rightarrow> caddr \<Rightarrow> (unit, nat option) outcome" where
  "GetUserContext t w a = nearest (length (sw_ctxs w)) (\<lambda>_ c. map_option snd (sx_user c)) w a"

section \<open>Steps\<close>

definition with_ctx :: "caddr \<Rightarrow> service_ctx option \<Rightarrow> resource list \<Rightarrow> services \<Rightarrow> services" where
  "with_ctx a c dels w = w\<lparr>sw_ctxs := (sw_ctxs w)[a := c], sw_deleted := sw_deleted w @ dels\<rparr>"

definition made :: "resource \<Rightarrow> services \<Rightarrow> services" where
  "made r w = w\<lparr>sw_made := sw_made w @ [r]\<rparr>"

text \<open>
  The calls a program can make. What is handed over with its ownership, or made by the call, was not
  seen before. An event is added to the tracker that is found, and only if there is one.
\<close>

inductive service_step :: "services \<Rightarrow> services \<Rightarrow> bool" where
  step_new: "service_step w (w\<lparr>sw_ctxs := sw_ctxs w @ [Some new_service_ctx]\<rparr>)"
| step_parent: "ctx_at w a = Some c \<Longrightarrow>
    service_step w (with_ctx a (Some (c\<lparr>sx_data := (sx_data c)\<lparr>dc_parent := p\<rparr>\<rparr>)) [] w)"
| step_enable: "ctx_at w a = Some c \<Longrightarrow> service_step w (with_ctx a (Some (EnableEventTracker c)) [] w)"
| step_event: "GetEventTracker w a = Ok (Some b) \<Longrightarrow> ctx_at w b = Some c \<Longrightarrow> Event e \<notin> set (sw_made w) \<Longrightarrow>
    service_step w (made (Event e) (with_ctx b (Some (AddEvent e c)) [] w))"
| step_sweep: "ctx_at w a = Some c \<Longrightarrow> SweepEvents keep c = (dels, ks, c') \<Longrightarrow>
    service_step w ((with_ctx a (Some c') dels w)\<lparr>sw_kept := sw_kept w @ ks\<rparr>)"
| step_raw_arena: "ctx_at w a = Some c \<Longrightarrow> SetRawArena x c = (dels, c') \<Longrightarrow>
    service_step w (with_ctx a (Some c') dels w)"
| step_own_arena: "ctx_at w a = Some c \<Longrightarrow> Arena x \<notin> set (sw_made w) \<Longrightarrow> SetOwnArena x c = (dels, c') \<Longrightarrow>
    service_step w (made (Arena x) (with_ctx a (Some c') dels w))"
| step_user: "ctx_at w a = Some c \<Longrightarrow> UserObject u \<notin> set (sw_made w) \<Longrightarrow> NewUserContext t u c = (Some u, c') \<Longrightarrow>
    service_step w (made (UserObject u) (with_ctx a (Some c') [] w))"
| step_reset: "ctx_at w a = Some c \<Longrightarrow> ResetService c = (dels, c') \<Longrightarrow>
    service_step w (with_ctx a (Some c') dels w)"
| step_destroy: "ctx_at w a = Some c \<Longrightarrow> service_step w (with_ctx a None (DestroyService c) w)"

definition service_reachable :: "services \<Rightarrow> bool" where
  "service_reachable w = service_step\<^sup>*\<^sup>* new_services w"

section \<open>Ownership\<close>

definition owned :: "service_ctx option \<Rightarrow> resource list" where
  "owned c = (case c of None \<Rightarrow> [] | Some c \<Rightarrow> own_events c @ own_arenas c @ own_users c)"

definition held_by_contexts :: "services \<Rightarrow> resource list" where
  "held_by_contexts w = concat (map owned (sw_ctxs w))"

definition places_of :: "services \<Rightarrow> resource multiset" where
  "places_of w = mset (held_by_contexts w) + mset (sw_deleted w) + mset (sw_kept w)"

definition conserved :: "services \<Rightarrow> bool" where
  "conserved w = (places_of w = mset (sw_made w) \<and> distinct (sw_made w)
     \<and> (\<forall>a c. ctx_at w a = Some c \<longrightarrow> sx_user c \<noteq> None \<longrightarrow> sx_destroys c))"

lemma ctx_at_with: "ctx_at (with_ctx a c ds w) b = (if b = a \<and> a < length (sw_ctxs w) then c else ctx_at w b)"
  by (simp add: ctx_at_def with_ctx_def)

lemma mset_concat_update:
  "a < length xs \<Longrightarrow> mset (concat (map f (xs[a := y]))) + mset (f (xs ! a)) = mset (concat (map f xs)) + mset (f y)"
proof (induction xs arbitrary: a)
  case (Cons x xs)
  then show ?case by (cases a) (simp_all add: union_ac)
qed simp

text \<open>A change of one context moves what it gives up to the deleted ones.\<close>

lemma with_ctx_places:
  assumes "ctx_at w a = Some c" "mset (owned c') + mset ds + K = mset (owned (Some c)) + M"
  shows "places_of (with_ctx a c' ds w) + K = places_of w + M"
proof -
  have a: "a < length (sw_ctxs w)" "sw_ctxs w ! a = Some c" using assms(1) by (auto simp: ctx_at_def split: if_splits)
  have "mset (held_by_contexts (with_ctx a c' ds w)) + mset (owned (Some c)) = mset (held_by_contexts w) + mset (owned c')"
    using mset_concat_update[OF a(1), of owned c'] a(2) by (simp add: held_by_contexts_def with_ctx_def)
  then have "places_of (with_ctx a c' ds w) + K + mset (owned (Some c)) =
      places_of w + (mset (owned c') + mset ds + K)"
    by (simp add: places_of_def with_ctx_def union_ac)
  then show ?thesis unfolding assms(2) by (simp add: union_ac)
qed

lemma with_ctx_conserved:
  assumes "conserved w" "ctx_at w a = Some c" "mset (owned c') + mset ds = mset (owned (Some c))"
    and "\<And>d. c' = Some d \<Longrightarrow> sx_user d \<noteq> None \<Longrightarrow> sx_destroys d"
  shows "conserved (with_ctx a c' ds w)"
proof -
  have "places_of (with_ctx a c' ds w) = places_of w"
    using with_ctx_places[OF assms(2), of c' ds "{#}" "{#}"] assms(3) by simp
  then show ?thesis using assms(1,4) by (auto simp: conserved_def ctx_at_with) (simp_all add: with_ctx_def)
qed

lemma made_conserved:
  assumes "conserved w" "ctx_at w a = Some c" "r \<notin> set (sw_made w)"
    and "mset (owned (Some d)) + mset ds = add_mset r (mset (owned (Some c)))"
    and "sx_user d \<noteq> None \<Longrightarrow> sx_destroys d"
  shows "conserved (made r (with_ctx a (Some d) ds w))"
proof -
  have "places_of (with_ctx a (Some d) ds w) = add_mset r (places_of w)"
    using with_ctx_places[OF assms(2), of "Some d" ds "{#}" "{#r#}"] assms(4) by simp
  moreover have "places_of (made r v) = places_of v" "ctx_at (made r v) = ctx_at v" for v
    by (auto simp: places_of_def held_by_contexts_def made_def ctx_at_def)
  ultimately show ?thesis using assms(1,3,5) by (auto simp: conserved_def ctx_at_with) (simp_all add: made_def with_ctx_def)
qed

lemmas own_defs = owned_def own_events_def own_arenas_def own_users_def

lemma conserved_user: "conserved w \<Longrightarrow> ctx_at w a = Some c \<Longrightarrow> sx_user c \<noteq> None \<Longrightarrow> sx_destroys c"
  by (simp add: conserved_def)

lemma nearest_found: "nearest n f w a = Ok (Some r) \<Longrightarrow> \<exists>b c. ctx_at w b = Some c \<and> f b c = Some r"
  by (induction n arbitrary: a) (auto split: option.splits)

lemma tracker_found: "GetEventTracker w a = Ok (Some b) \<Longrightarrow> ctx_at w b = Some c \<Longrightarrow> \<exists>es. sx_tracker c = Some es"
  using nearest_found[of _ _ w a b] by (fastforce simp: GetEventTracker_def)

lemma sweep_split: "mset (map Event (filter (\<lambda>e. \<not> P e) es)) + mset (map Event (filter P es)) = mset (map Event es)"
  by (induction es) auto

lemma conserved_step: "conserved w \<Longrightarrow> service_step w w' \<Longrightarrow> conserved w'"
proof -
  assume inv: "conserved w" and st: "service_step w w'"
  from st show ?thesis
  proof cases
    case step_new
    have "ctx_at w' a = Some c \<Longrightarrow> ctx_at w a = Some c \<or> c = new_service_ctx" for a c
      using step_new by (auto simp: ctx_at_def nth_append split: if_splits)
    then show ?thesis
      using inv step_new by (fastforce simp: conserved_def places_of_def held_by_contexts_def own_defs new_service_ctx_def)
  next
    case (step_parent a c p)
    show ?thesis unfolding step_parent(1)
      by (rule with_ctx_conserved[OF inv step_parent(2)]) (use conserved_user[OF inv step_parent(2)] in \<open>auto simp: own_defs\<close>)
  next
    case (step_enable a c)
    show ?thesis unfolding step_enable(1)
      by (rule with_ctx_conserved[OF inv step_enable(2)])
        (use conserved_user[OF inv step_enable(2)] in \<open>auto simp: own_defs EnableEventTracker_def split: option.splits\<close>)
  next
    case (step_event a b c e)
    obtain es where "sx_tracker c = Some es" using tracker_found[OF step_event(2,3)] by blast
    then show ?thesis unfolding step_event(1)
      by (intro made_conserved[OF inv step_event(3,4)])
        (use conserved_user[OF inv step_event(3)] in \<open>auto simp: own_defs AddEvent_def\<close>)
  next
    case (step_sweep a c keep dels ks c')
    have "mset (owned (Some c')) + mset dels + mset ks = mset (owned (Some c))"
    proof (cases "sx_tracker c")
      case (Some es)
      have "own_events c = map Event (rev es)" "own_events c' = []" "own_arenas c' = own_arenas c" "own_users c' = own_users c"
        using step_sweep(3) Some by (auto simp: SweepEvents_def own_events_def own_arenas_def own_users_def)
      moreover have "dels = map Event (filter (\<lambda>e. \<not> keep e) (rev es))" "ks = map Event (filter keep (rev es))"
        using step_sweep(3) Some by (auto simp: SweepEvents_def)
      ultimately show ?thesis using sweep_split[of keep "rev es"] by (simp add: owned_def union_ac)
    qed (use step_sweep(3) in \<open>simp add: SweepEvents_def\<close>)
    then have "places_of (with_ctx a (Some c') dels w) + mset ks = places_of w"
      using with_ctx_places[OF step_sweep(2), of "Some c'" dels "mset ks" "{#}"] by simp
    moreover have "sx_user c' = sx_user c" "sx_destroys c' = sx_destroys c"
      using step_sweep(3) by (auto simp: SweepEvents_def split: option.splits)
    moreover have "places_of w' = places_of (with_ctx a (Some c') dels w) + mset ks" "sw_made w' = sw_made w"
        "\<And>b. ctx_at w' b = ctx_at (with_ctx a (Some c') dels w) b"
      unfolding step_sweep(1) by (simp_all add: places_of_def held_by_contexts_def ctx_at_def with_ctx_def)
    ultimately show ?thesis
      using inv conserved_user[OF inv step_sweep(2)] by (auto simp: conserved_def ctx_at_with)
  next
    case (step_raw_arena a c x dels c')
    show ?thesis unfolding step_raw_arena(1)
      by (rule with_ctx_conserved[OF inv step_raw_arena(2)])
        (use step_raw_arena(3) conserved_user[OF inv step_raw_arena(2)] in \<open>auto simp: own_defs SetRawArena_def\<close>)
  next
    case (step_own_arena a c x dels c')
    show ?thesis unfolding step_own_arena(1)
      by (rule made_conserved[OF inv step_own_arena(2,3)])
        (use step_own_arena(4) conserved_user[OF inv step_own_arena(2)] in \<open>auto simp: own_defs SetOwnArena_def\<close>)
  next
    case (step_user a c u t c')
    show ?thesis unfolding step_user(1)
      by (rule made_conserved[OF inv step_user(2,3)])
        (use step_user(4) in \<open>auto simp: own_defs NewUserContext_def split: if_splits option.splits\<close>)
  next
    case (step_reset a c dels c')
    show ?thesis unfolding step_reset(1)
      by (rule with_ctx_conserved[OF inv step_reset(2)])
        (use step_reset(3) conserved_user[OF inv step_reset(2)] in
          \<open>auto simp: own_defs ResetService_def Let_def split: if_splits option.splits\<close>)
  next
    case (step_destroy a c)
    show ?thesis unfolding step_destroy(1)
      by (rule with_ctx_conserved[OF inv step_destroy(2)])
        (use conserved_user[OF inv step_destroy(2)] in \<open>auto simp: own_defs DestroyService_def split: option.splits\<close>)
  qed
qed

interpretation service_system: invariant_system service_step new_services conserved
proof unfold_locales
  show "conserved new_services"
    by (simp add: conserved_def new_services_def places_of_def held_by_contexts_def ctx_at_def)
qed (rule conserved_step)

section \<open>The chain of parents\<close>

inductive lineage :: "services \<Rightarrow> caddr \<Rightarrow> caddr list \<Rightarrow> bool" for w where
  lineage_root: "ctx_at w a = Some c \<Longrightarrow> dc_parent (sx_data c) = None \<Longrightarrow> lineage w a [a]"
| lineage_link: "ctx_at w a = Some c \<Longrightarrow> dc_parent (sx_data c) = Some p \<Longrightarrow> lineage w p as \<Longrightarrow> lineage w a (a # as)"

inductive_cases lineageE: "lineage w a as"

lemma lineage_unique: "lineage w a as \<Longrightarrow> lineage w a bs \<Longrightarrow> as = bs"
proof (induction arbitrary: bs rule: lineage.induct)
  case (lineage_root a c)
  from lineage_root(3) show ?case by cases (use lineage_root(1,2) in simp_all)
next
  case (lineage_link a c p as)
  from lineage_link(5) show ?case by cases (use lineage_link(1,2,4) in auto)
qed

lemma lineage_member: "lineage w a as \<Longrightarrow> b \<in> set as \<Longrightarrow> \<exists>bs. lineage w b bs \<and> length bs \<le> length as"
proof (induction rule: lineage.induct)
  case (lineage_link a c p as)
  then show ?case
    by (metis lineage.lineage_link length_Cons le_SucI order_refl set_ConsD)
qed (auto intro: lineage.intros)

lemma lineage_distinct: "lineage w a as \<Longrightarrow> distinct as"
proof (induction rule: lineage.induct)
  case (lineage_link a c p as)
  have "a \<notin> set as"
  proof
    assume "a \<in> set as"
    then obtain bs where bs: "lineage w a bs" "length bs \<le> length as" using lineage_member lineage_link(3) by blast
    moreover have "bs = a # as" using lineage_unique bs(1) lineage.lineage_link lineage_link(1,2,3) by blast
    ultimately show False by simp
  qed
  then show ?case using lineage_link by simp
qed simp

lemma lineage_bound: "lineage w a as \<Longrightarrow> length as \<le> length (sw_ctxs w)"
proof -
  assume l: "lineage w a as"
  have "set as \<subseteq> {..<length (sw_ctxs w)}"
  proof
    fix b assume "b \<in> set as"
    then obtain bs where "lineage w b bs" using lineage_member l by blast
    then show "b \<in> {..<length (sw_ctxs w)}" by cases (auto simp: ctx_at_def split: if_splits)
  qed
  then have "card (set as) \<le> length (sw_ctxs w)" using card_mono[of "{..<length (sw_ctxs w)}"] by simp
  then show ?thesis using distinct_card[OF lineage_distinct[OF l]] by simp
qed

text \<open>The first context of a chain that answers.\<close>

fun first_answer :: "(caddr \<Rightarrow> service_ctx \<Rightarrow> 'r option) \<Rightarrow> services \<Rightarrow> caddr list \<Rightarrow> 'r option" where
  "first_answer f w [] = None"
| "first_answer f w (a # as) =
    (case f a (the (ctx_at w a)) of Some r \<Rightarrow> Some r | None \<Rightarrow> first_answer f w as)"

lemma nearest_lineage: "lineage w a as \<Longrightarrow> length as \<le> n \<Longrightarrow> nearest n f w a = Ok (first_answer f w as)"
proof (induction arbitrary: n rule: lineage.induct)
  case (lineage_root a c)
  then show ?case by (cases n) (auto split: option.split)
next
  case (lineage_link a c p as)
  then obtain m where m: "n = Suc m" by (cases n) auto
  then have "nearest m f w p = Ok (first_answer f w as)" using lineage_link by simp
  then show ?case using lineage_link(1,2) m by (simp split: option.split)
qed

section \<open>Properties\<close>

text \<open>
  C26: Whatever calls are made, every event, arena and user context that was made or handed over is in one
  place: it belongs to one context that is alive, or it was deleted once, or the reporter of events kept
  it. So nothing is deleted twice, nothing is lost, and nothing that a living context owns was deleted.
  The user context that a lookup answers is owned by a living context, and the tracker that it answers is
  that of a living context. Nothing is claimed for the arena that a lookup answers, as a context may have it as a
  raw pointer whose owner is not known (see \<open>raw_arena_dangles\<close>), nor for a lookup that goes on to a parent
  that was destroyed, which has no answer.
\<close>
theorem resources_conserved:
  assumes "service_reachable w"
  shows "distinct (held_by_contexts w @ sw_deleted w @ sw_kept w)
    \<and> set (held_by_contexts w @ sw_deleted w @ sw_kept w) = set (sw_made w)
    \<and> (\<forall>t a u. GetUserContext t w a = Ok (Some u) \<longrightarrow> UserObject u \<in> set (held_by_contexts w) \<and> UserObject u \<notin> set (sw_deleted w))
    \<and> (\<forall>a b. GetEventTracker w a = Ok (Some b) \<longrightarrow> (\<exists>c. ctx_at w b = Some c \<and> sx_tracker c \<noteq> None))"
proof -
  have c: "conserved w" using assms unfolding service_reachable_def by (rule service_system.always_inv)
  then have m: "mset (held_by_contexts w @ sw_deleted w @ sw_kept w) = mset (sw_made w)"
    by (simp add: conserved_def places_of_def union_ac)
  have d: "distinct (held_by_contexts w @ sw_deleted w @ sw_kept w)"
    using mset_eq_imp_distinct_iff[OF m] c unfolding conserved_def by blast
  have u: "UserObject u \<in> set (held_by_contexts w)" if ans: "GetUserContext t w a = Ok (Some u)" for t a u
  proof -
    obtain b x where x: "ctx_at w b = Some x" "map_option snd (sx_user x) = Some u"
      using nearest_found[OF ans[unfolded GetUserContext_def]] by blast
    from x(2) have "UserObject u \<in> set (owned (Some x))" by (auto simp: own_defs)
    moreover have "Some x \<in> set (sw_ctxs w)" using x(1) by (auto simp: ctx_at_def in_set_conv_nth split: if_splits)
    ultimately show ?thesis unfolding held_by_contexts_def by auto
  qed
  have e: "\<exists>x. ctx_at w b = Some x \<and> sx_tracker x \<noteq> None" if "GetEventTracker w a = Ok (Some b)" for a b
    using nearest_found[OF that[unfolded GetEventTracker_def]] by auto
  have n: "UserObject u \<notin> set (sw_deleted w)" if "GetUserContext t w a = Ok (Some u)" for t a u
    using u[OF that] d by auto
  show ?thesis by (intro conjI allI impI) (use mset_eq_setD[OF m] d u n e in blast)+
qed

text \<open>
  A context that is given the pointer of the arena it owns, as by \<open>SetArena(GetArena())\<close>, deletes
  this arena and answers it from then on.
\<close>
lemma raw_arena_dangles:
  assumes "ctx_at w a = Some c" and "sx_own_arena c = Some x" and "SetRawArena (Some x) c = (dels, c')"
  shows "Arena x \<in> set (sw_deleted (with_ctx a (Some c') dels w)) \<and> GetArena (with_ctx a (Some c') dels w) a = Ok (Some x)"
proof -
  have a: "a < length (sw_ctxs w)" using assms(1) by (auto simp: ctx_at_def split: if_splits)
  then obtain n where n: "length (sw_ctxs w) = Suc n" by (cases "length (sw_ctxs w)") auto
  have c': "dels = [Arena x]" "sx_arena c' = Some x" using assms(2,3) by (auto simp: SetRawArena_def own_arenas_def)
  have "ctx_at (with_ctx a (Some c') dels w) a = Some c'" using a by (simp add: ctx_at_with)
  moreover have "length (sw_ctxs (with_ctx a (Some c') dels w)) = Suc n" using n by (simp add: with_ctx_def)
  ultimately have "GetArena (with_ctx a (Some c') dels w) a = Ok (Some x)" using c'(2) by (simp add: GetArena_def)
  then show ?thesis by (simp add: with_ctx_def c'(1))
qed

text \<open>A context gets a user context and is reset.\<close>

definition one_user :: services where
  "one_user = \<lparr>sw_ctxs = [Some (new_service_ctx\<lparr>sx_user := Some (3, 5), sx_destroys := True\<rparr>)],
     sw_made = [UserObject 5], sw_deleted = [], sw_kept = []\<rparr>"

lemma one_user_reachable: "service_reachable (with_ctx 0 (Some (new_service_ctx\<lparr>sx_destroys := True\<rparr>)) [UserObject 5] one_user)"
proof -
  let ?w0 = "new_services\<lparr>sw_ctxs := [Some new_service_ctx]\<rparr>"
  have 1: "service_step new_services ?w0" using step_new[of new_services] by (simp add: new_services_def)
  have "service_step ?w0 (made (UserObject 5) (with_ctx 0 (Some (new_service_ctx\<lparr>sx_user := Some (3, 5), sx_destroys := True\<rparr>)) [] ?w0))"
    by (rule step_user[of _ _ new_service_ctx _ 3])
      (simp_all add: ctx_at_def new_services_def NewUserContext_def new_service_ctx_def)
  then have 2: "service_step ?w0 one_user" by (simp add: one_user_def made_def with_ctx_def new_services_def)
  have 3: "service_step one_user (with_ctx 0 (Some (new_service_ctx\<lparr>sx_destroys := True\<rparr>)) [UserObject 5] one_user)"
    by (rule step_reset[of _ _ "new_service_ctx\<lparr>sx_user := Some (3, 5), sx_destroys := True\<rparr>"])
      (simp_all add: ctx_at_def one_user_def ResetService_def new_service_ctx_def ResetData_def new_data_ctx_def own_defs)
  from 1 2 3 show ?thesis unfolding service_reachable_def by (meson converse_rtranclp_into_rtranclp rtranclp.rtrancl_refl)
qed

theorem resources_conserved_witness:
  "\<exists>w. service_reachable w \<and> UserObject 5 \<in> set (sw_deleted w) \<and> UserObject 5 \<notin> set (held_by_contexts w)"
proof -
  let ?w = "with_ctx 0 (Some (new_service_ctx\<lparr>sx_destroys := True\<rparr>)) [UserObject 5] one_user"
  have "UserObject 5 \<in> set (sw_deleted ?w)" by (simp add: with_ctx_def)
  with resources_conserved[OF one_user_reachable] one_user_reachable show ?thesis by auto
qed

text \<open>
  As long as the chain of parents ends and nobody on it was destroyed, the tracker, the arena and the
  user context are those of the nearest context on the chain that has one, starting with the context
  itself; the user context is handed out whatever type it is asked for. The recursion is never deeper
  than the number of contexts.
\<close>
theorem services_inherited:
  "lineage w a as \<Longrightarrow>
    GetEventTracker w a = Ok (List.find (\<lambda>b. sx_tracker (the (ctx_at w b)) \<noteq> None) as)
    \<and> GetArena w a = Ok (Option.bind (List.find (\<lambda>b. sx_arena (the (ctx_at w b)) \<noteq> None) as) (\<lambda>b. sx_arena (the (ctx_at w b))))
    \<and> GetUserContext t w a = Ok (Option.bind (List.find (\<lambda>b. sx_user (the (ctx_at w b)) \<noteq> None) as)
        (\<lambda>b. map_option snd (sx_user (the (ctx_at w b)))))"
proof -
  assume l: "lineage w a as"
  have t: "first_answer (\<lambda>b c. map_option (\<lambda>_. b) (sx_tracker c)) w as = List.find (\<lambda>b. sx_tracker (the (ctx_at w b)) \<noteq> None) as" for as
    by (induction as) (auto split: option.split)
  have a: "first_answer (\<lambda>_. sx_arena) w as =
      Option.bind (List.find (\<lambda>b. sx_arena (the (ctx_at w b)) \<noteq> None) as) (\<lambda>b. sx_arena (the (ctx_at w b)))" for as
    by (induction as) (auto split: option.split)
  have u: "first_answer (\<lambda>_ c. map_option snd (sx_user c)) w as =
      Option.bind (List.find (\<lambda>b. sx_user (the (ctx_at w b)) \<noteq> None) as) (\<lambda>b. map_option snd (sx_user (the (ctx_at w b))))" for as
    by (induction as) (auto split: option.split)
  show ?thesis
    unfolding GetEventTracker_def GetArena_def GetUserContext_def nearest_lineage[OF l lineage_bound[OF l]] t a u by simp
qed

theorem services_inherited_witness:
  "GetUserContext 9 (one_user\<lparr>sw_ctxs := sw_ctxs one_user @ [Some (new_service_ctx\<lparr>sx_data := new_data_ctx\<lparr>dc_parent := Some 0\<rparr>\<rparr>)]\<rparr>) 1
     = Ok (Some 5)"
proof -
  let ?w = "one_user\<lparr>sw_ctxs := sw_ctxs one_user @ [Some (new_service_ctx\<lparr>sx_data := new_data_ctx\<lparr>dc_parent := Some 0\<rparr>\<rparr>)]\<rparr>"
  have "lineage ?w 0 [0]" by (rule lineage_root) (auto simp: ctx_at_def one_user_def new_service_ctx_def new_data_ctx_def)
  then have "lineage ?w 1 [1, 0]"
    by (rule lineage_link[rotated 2]) (auto simp: ctx_at_def one_user_def new_service_ctx_def new_data_ctx_def)
  from services_inherited[OF this, of 9] show ?thesis
    by (simp add: ctx_at_def one_user_def new_service_ctx_def)
qed

text \<open>
  Resetting a context empties the entries that were registered in a setup and no others: the values of
  a context that a caller made, which \<open>Set\<close> enters without registering them, are all still there.
\<close>
theorem reset_misses_unregistered:
  "dom (map_of (dc_table c)) \<supseteq> set (dc_array c) \<Longrightarrow>
    local_value [ResetData c] h k (-1) 0 = (if k \<in> set (dc_array c) then None else local_value [c] h k (-1) 0)"
proof -
  assume s: "dom (map_of (dc_table c)) \<supseteq> set (dc_array c)"
  have v: "value_at (ResetData c) k = (if k \<in> set (dc_array c) then ResetDataValue (value_at c k) else value_at c k)"
    using value_at_reset_fold[of "dc_array c" c k] by (simp add: ResetData_def value_at_def)
  have d: "dom (map_of (dc_table (ResetData c))) = dom (map_of (dc_table c))"
    using reset_fold_fields(3)[of "dc_array c" c] s by (auto simp: ResetData_def)
  then have "map_of (dc_table (ResetData c)) k \<noteq> None \<longleftrightarrow> map_of (dc_table c) k \<noteq> None" by (auto simp: dom_def)
  then show ?thesis using v s by (cases h) (auto simp: local_value_def GetDataValue_def ResetDataValue_def)
qed

theorem reset_misses_unregistered_witness:
  "local_value [ResetData (snd (SetData ByPointer (''user'', 1) (Some 8) (-1) new_data_ctx))] ByPointer (''user'', 1) (-1) 0 = Some 8"
proof -
  let ?c = "snd (SetData ByPointer (''user'', 1) (Some 8) (-1) new_data_ctx)"
  have a: "dc_array ?c = []" by code_simp
  have v: "local_value [?c] ByPointer (''user'', 1) (-1) 0 = Some 8" by code_simp
  show ?thesis using reset_misses_unregistered[of ?c ByPointer "(''user'', 1)"] a v by simp
qed

end
