(* ===== verification/StoreDrain.thy ===== *)
theory StoreDrain
  imports StoreProps
begin

text \<open>
  How a store comes to rest: releasing a context releases the contexts that its vertices took, and
  those that theirs took, and no others; when every data context is gone and every posted release ran,
  all contexts are back in their pools and the destructor of the store, which waits for the count of
  running graphs, returns.
\<close>

section \<open>What a release gives back\<close>

text \<open>The effect of a release on the contexts that vertices hold.\<close>

primrec release_edges :: "nat \<Rightarrow> nat \<Rightarrow> (nat \<times> nat) list \<Rightarrow> (nat \<times> nat) list" where
  "release_edges 0 c E = E"
| "release_edges (Suc n) c E =
    fold (\<lambda>x E. if (c, x) \<in> set E then release_edges n x (remove1 (c, x) E) else E) (map snd (filter (\<lambda>p. fst p = c) E)) E"

lemma enqueue_sub [simp]: "s_sub (enqueue c s) = s_sub s"
  by (simp add: enqueue_def modify_handle_def)

lemma ReleaseContext_sub: "s_sub (ReleaseContext n c s) = release_edges n c (s_sub s)"
proof (induction n arbitrary: c s)
  case (Suc n)
  have "s_sub (fold (\<lambda>x s. if (c, x) \<in> set (s_sub s) then ReleaseContext n x (s\<lparr>s_sub := remove1 (c, x) (s_sub s)\<rparr>) else s) xs t) =
      fold (\<lambda>x E. if (c, x) \<in> set E then release_edges n x (remove1 (c, x) E) else E) xs (s_sub t)" for xs t
    by (induction xs arbitrary: t) (simp_all add: Suc)
  then show ?case by simp
qed simp

text \<open>What is left after the children \<open>X\<close> of \<open>c\<close> were released.\<close>

definition left_after :: "nat \<Rightarrow> nat set \<Rightarrow> (nat \<times> nat) set \<Rightarrow> (nat \<times> nat) set" where
  "left_after c X E = {(p, y) \<in> E. \<not> (p = c \<and> y \<in> X) \<and> (\<forall>x \<in> X. (x, p) \<notin> E\<^sup>*)}"

lemma left_path:
  assumes "(p, y) \<in> left_after c X E" "(c, x) \<in> E" "X \<subseteq> {x. (c, x) \<in> E}" "(u, p) \<in> E\<^sup>*"
    and "D = left_after c X E - {(c, x)}"
  shows "(u, p) \<in> D\<^sup>* \<or> (x, p) \<in> D\<^sup>*"
  using assms(4)
proof (induction rule: converse_rtrancl_induct)
  case (step u v)
  show ?case
  proof (cases "(u, v) \<in> D")
    case True
    with step.IH show ?thesis by (meson converse_rtrancl_into_rtrancl)
  next
    case False
    have "\<not> (u = c \<and> v \<in> X)" using assms(1) step(2) by (auto simp: left_after_def)
    moreover have "(x', u) \<notin> E\<^sup>*" if "x' \<in> X" for x'
      using assms(1) that step(1,2) by (auto simp: left_after_def dest: rtrancl_trans converse_rtrancl_into_rtrancl)
    ultimately have "(u, v) = (c, x)" using False step(1) by (auto simp: assms(5) left_after_def)
    with step.IH show ?thesis by simp
  qed
qed simp

lemma left_after_next:
  assumes "(c, x) \<in> E" "X \<subseteq> {x. (c, x) \<in> E}" "(c, x) \<in> left_after c X E" "D = left_after c X E - {(c, x)}"
  shows "{(p, y) \<in> D. (x, p) \<notin> D\<^sup>*} = left_after c (insert x X) E"
proof -
  have sub: "D \<subseteq> E" by (auto simp: assms(4) left_after_def)
  have iff: "(x, p) \<in> D\<^sup>* \<longleftrightarrow> (x, p) \<in> E\<^sup>*" if "(p, y) \<in> D" for p y
    using left_path[of p y c X E x x, OF _ assms(1,2) _ assms(4)] that assms(4) rtrancl_mono[OF sub] by blast
  have "z \<in> {(p, y) \<in> D. (x, p) \<notin> D\<^sup>*} \<longleftrightarrow> z \<in> left_after c (insert x X) E" for z
  proof (cases z)
    case (Pair p y)
    have "z \<in> left_after c (insert x X) E \<longleftrightarrow> (p, y) \<in> D \<and> (x, p) \<notin> E\<^sup>*"
      unfolding Pair by (auto simp: left_after_def assms(4))
    then show ?thesis using iff[of p y] Pair by auto
  qed
  then show ?thesis by blast
qed

lemma left_after_gone:
  assumes "(c, x) \<in> E" "(c, x) \<notin> left_after c X E"
  shows "left_after c (insert x X) E = left_after c X E"
proof -
  consider "x \<in> X" | x' where "x' \<in> X" "(x', c) \<in> E\<^sup>*" using assms by (auto simp: left_after_def)
  then show ?thesis
  proof cases
    case 2
    have "\<exists>x' \<in> X. (x', p) \<in> E\<^sup>*" if "(x, p) \<in> E\<^sup>*" for p
      using 2 assms(1) that by (meson rtrancl.rtrancl_into_rtrancl rtrancl_trans)
    then show ?thesis using 2 by (auto simp: left_after_def)
  qed (simp add: insert_absorb)
qed

lemma left_after_all: "left_after c {x. (c, x) \<in> E} E = {(p, y) \<in> E. (c, p) \<notin> E\<^sup>*}"
proof -
  have "(c, p) \<in> E\<^sup>* \<longleftrightarrow> c = p \<or> (\<exists>x. (c, x) \<in> E \<and> (x, p) \<in> E\<^sup>*)" for p
    by (auto elim: converse_rtranclE intro: converse_rtrancl_into_rtrancl)
  then show ?thesis by (auto simp: left_after_def)
qed

text \<open>A release takes away exactly the edges behind the context.\<close>

lemma release_edges_exact:
  "length E \<le> n \<Longrightarrow> distinct E \<Longrightarrow>
    distinct (release_edges n c E) \<and> length (release_edges n c E) \<le> length E
    \<and> set (release_edges n c E) = {(p, y) \<in> set E. (c, p) \<notin> (set E)\<^sup>*}"
proof (induction n arbitrary: c E)
  case (Suc n)
  let ?f = "\<lambda>x D. if (c, x) \<in> set D then release_edges n x (remove1 (c, x) D) else D"
  have loop: "distinct (fold ?f xs D) \<and> length (fold ?f xs D) \<le> length E
      \<and> set (fold ?f xs D) = left_after c (X \<union> set xs) (set E)"
    if "distinct D" "length D \<le> length E" "set D = left_after c X (set E)" "X \<union> set xs \<subseteq> {x. (c, x) \<in> set E}" for xs D X
    using that
  proof (induction xs arbitrary: D X)
    case (Cons x xs)
    have x: "(c, x) \<in> set E" "X \<subseteq> {x. (c, x) \<in> set E}" using Cons.prems(4) by auto
    have "distinct (?f x D) \<and> length (?f x D) \<le> length E \<and> set (?f x D) = left_after c (insert x X) (set E)"
    proof (cases "(c, x) \<in> set D")
      case True
      let ?D = "remove1 (c, x) D"
      have D: "set ?D = left_after c X (set E) - {(c, x)}" using Cons.prems(1,3) by simp
      have "length ?D \<le> n" using True Cons.prems(2) Suc.prems(1) by (simp add: length_remove1)
      moreover have "length ?D \<le> length E" using Cons.prems(2) by (auto simp: length_remove1)
      ultimately show ?thesis
        using Suc.IH[of ?D x] Cons.prems(1) left_after_next[OF x _ D] True Cons.prems(3) by auto
    next
      case False
      then show ?thesis using Cons.prems(1,2,3) left_after_gone[OF x(1)] by simp
    qed
    then show ?case using Cons.IH[of "?f x D" "insert x X"] Cons.prems(4) by simp
  qed simp
  have "set E = left_after c {} (set E)" by (auto simp: left_after_def)
  moreover have "set (map snd (filter (\<lambda>p. fst p = c) E)) = {x. (c, x) \<in> set E}" by force
  ultimately show ?case
    using loop[of E "{}" "map snd (filter (\<lambda>p. fst p = c) E)"] Suc.prems(2) by (simp add: left_after_all)
qed simp

section \<open>No context is lost\<close>

definition roots :: "graph_store \<Rightarrow> nat set" where
  "roots s = snd ` set (s_release s) \<union> set (s_posted s)"

text \<open>Whoever holds a context is itself waiting to be released, or held by one that is.\<close>

definition rooted :: "graph_store \<Rightarrow> bool" where
  "rooted s = (\<forall>(p, x) \<in> set (s_sub s). \<exists>r \<in> roots s. (r, p) \<in> (set (s_sub s))\<^sup>*)"

lemma rooted_grows: "rooted s \<Longrightarrow> s_sub t = s_sub s \<Longrightarrow> roots s \<subseteq> roots t \<Longrightarrow> rooted t"
  unfolding rooted_def by fastforce

lemma ReleaseContext_fields:
  "s_release (ReleaseContext n c s) = s_release s \<and> s_posted (ReleaseContext n c s) = s_posted s"
proof (induction n arbitrary: c s)
  case 0
  show ?case by (simp add: enqueue_def modify_handle_def)
next
  case (Suc n)
  let ?f = "\<lambda>x s. if (c, x) \<in> set (s_sub s) then ReleaseContext n x (s\<lparr>s_sub := remove1 (c, x) (s_sub s)\<rparr>) else s"
  have "s_release (fold ?f xs t) = s_release t \<and> s_posted (fold ?f xs t) = s_posted t" for xs t
    by (induction xs arbitrary: t) (simp_all add: Suc)
  then show ?case by (simp add: enqueue_def modify_handle_def)
qed

lemma RunRelease_fields:
  "s_release (RunRelease c s) = s_release s" "s_posted (RunRelease c s) = remove1 c (s_posted s)"
  "s_sub (RunRelease c s) = release_edges (length (s_sub s)) c (s_sub s)"
  by (simp_all add: RunRelease_def Let_def ReleaseContext_fields ReleaseContext_sub)

lemma distinct_sub: "store_inv s \<Longrightarrow> distinct (s_sub s)"
proof -
  assume "store_inv s"
  then have "mset (pool_ctxs s @ map snd (s_release s) @ s_posted s @ map snd (s_sub s)) = mset [0..<length (s_home s)]"
    by (simp add: store_inv_def pool_inv_def places_def union_ac)
  then have "distinct (pool_ctxs s @ map snd (s_release s) @ s_posted s @ map snd (s_sub s))"
    using mset_eq_imp_distinct_iff distinct_upt by blast
  then show ?thesis by (simp add: distinct_map)
qed

lemma rooted_release:
  assumes "store_inv s" "rooted s" "c \<in> set (s_posted s)"
  shows "rooted (RunRelease c s)"
  unfolding rooted_def
proof (intro ballI, clarify)
  let ?E = "set (s_sub s)" and ?t = "RunRelease c s"
  have E: "set (s_sub ?t) = {(p, y) \<in> ?E. (c, p) \<notin> ?E\<^sup>*}"
    using release_edges_exact[of "s_sub s" "length (s_sub s)" c] distinct_sub[OF assms(1)] by (simp add: RunRelease_fields)
  fix p x assume "(p, x) \<in> set (s_sub ?t)"
  then have px: "(p, x) \<in> ?E" "(c, p) \<notin> ?E\<^sup>*" by (simp_all add: E)
  then obtain r where r: "r \<in> roots s" "(r, p) \<in> ?E\<^sup>*" using assms(2) unfolding rooted_def by blast
  have "r \<noteq> c" using r(2) px(2) by blast
  then have "r \<in> roots ?t" using r(1) by (auto simp: roots_def RunRelease_fields)
  moreover have "(r, p) \<in> (set (s_sub ?t))\<^sup>*"
    using r(2)
  proof (induction rule: converse_rtrancl_induct)
    case (step u v)
    have "(c, u) \<notin> ?E\<^sup>*" using step(1,2) px(2) by (meson converse_rtrancl_into_rtrancl rtrancl_trans)
    then have "(u, v) \<in> set (s_sub ?t)" using step(1) by (simp add: E)
    with step.IH show ?case by (meson converse_rtrancl_into_rtrancl)
  qed simp
  ultimately show "\<exists>r \<in> roots ?t. (r, p) \<in> (set (s_sub ?t))\<^sup>*" by blast
qed

lemma rooted_borrow:
  assumes "careful_inv s" "rooted s" "p \<in> (fst \<circ> snd) ` set (s_busy s) \<union> snd ` set (s_sub s)"
  shows "rooted (BorrowContext p cluster s)"
proof (cases "GetGraphClusterContext cluster s")
  case (Pair r s1)
  have si: "pool_inv s" and ma: "matched s" using assms(1) by (simp_all add: careful_inv_def store_inv_def)
  note e = GetGraphClusterContext_effect[OF si Pair]
  show ?thesis
  proof (cases r)
    case None
    then show ?thesis using e assms(2) Pair by (simp add: BorrowContext_def)
  next
    case (Some c)
    let ?t = "BorrowContext p cluster s" and ?E = "set (s_sub s)"
    have t: "set (s_sub ?t) = insert (p, c) ?E" "roots ?t = roots s"
      using e Some Pair by (simp_all add: BorrowContext_def roots_def)
    have up: "\<exists>r \<in> roots s. (r, p) \<in> ?E\<^sup>*"
    proof (cases "p \<in> snd ` ?E")
      case True
      then obtain q where q: "(q, p) \<in> ?E" by force
      then obtain r where "r \<in> roots s" "(r, q) \<in> ?E\<^sup>*" using assms(2) unfolding rooted_def by blast
      with q show ?thesis by (meson rtrancl.rtrancl_into_rtrancl)
    next
      case False
      then obtain i d where b: "(i, p, d) \<in> set (s_busy s)" using assms(3) by force
      then have "map_of (s_release s) d = Some p" using ma by (auto simp: matched_def)
      then have "p \<in> roots s" using map_of_SomeD by (force simp: roots_def)
      then show ?thesis by blast
    qed
    have mono: "?E\<^sup>* \<subseteq> (insert (p, c) ?E)\<^sup>*" by (rule rtrancl_mono) blast
    show ?thesis using assms(2) up mono unfolding rooted_def t by fastforce
  qed
qed

lemma SetReleaseClosure_roots: "roots s \<subseteq> roots (SetReleaseClosure d c s)"
proof (cases "map_of (s_release s) d")
  case None
  from arg_cong[OF release_update_new[OF None, of c], of set_mset] show ?thesis
    using None by (auto simp: SetReleaseClosure_def Let_def roots_def)
next
  case (Some c0)
  from arg_cong[OF release_update_old[OF Some, of c], of set_mset]
  have "snd ` set (s_release s) \<subseteq> insert c0 (snd ` set (AList.update d c (s_release s)))" by auto
  then show ?thesis using Some by (auto simp: SetReleaseClosure_def Let_def roots_def)
qed

lemma rooted_execute:
  assumes "store_inv s" "rooted s" "r \<notin> fst ` set (s_busy s) \<union> fst ` set (s_done s)"
  shows "rooted (snd (StoreExecute has_executor finds r data cluster graph s))"
proof -
  have pi: "pool_inv s" using assms(1) by (simp add: store_inv_def)
  have out: "rooted t" if "s_sub t = s_sub (SetReleaseClosure d c (s1\<lparr>s_running := k\<rparr>))"
      "s_release t = s_release (SetReleaseClosure d c (s1\<lparr>s_running := k\<rparr>))"
      "s_posted t = s_posted (SetReleaseClosure d c (s1\<lparr>s_running := k\<rparr>))"
      "GetGraphClusterContext cluster s = (Some c, s1)" for t d c s1 k
  proof (rule rooted_grows[OF assms(2)])
    note e = GetGraphClusterContext_effect[OF pi that(4)]
    have dis: "distinct (map fst (s_release (s1\<lparr>s_running := k\<rparr>)))" using pi e by (simp add: pool_inv_def)
    show "s_sub t = s_sub s" using e that(1) SetReleaseClosure_effect[OF dis, of d c] by simp
    have "roots s = roots (s1\<lparr>s_running := k\<rparr>)" using e by (simp add: roots_def)
    also have "\<dots> \<subseteq> roots (SetReleaseClosure d c (s1\<lparr>s_running := k\<rparr>))" by (rule SetReleaseClosure_roots)
    finally show "roots s \<subseteq> roots t" using that(2,3) by (simp add: roots_def)
  qed
  show ?thesis
    using refl[of "snd (StoreExecute has_executor finds r data cluster graph s)"] assms(1)
  proof (cases rule: StoreExecute_cases)
    case refused
    then show ?thesis using assms(2) by (simp add: rooted_def roots_def call_done_def)
  next
    case (missing x c s1)
    show ?thesis unfolding missing(3) by (rule out[OF _ _ _ missing(2)]) (simp_all add: call_done_def)
  next
    case (started x c s1)
    show ?thesis unfolding started(3) by (rule out[OF _ _ _ started(2)]) simp_all
  qed
qed

lemma delete_values: "distinct (map fst r) \<Longrightarrow> map_of r d = Some c \<Longrightarrow> snd ` set r = insert c (snd ` set (AList.delete d r))"
proof -
  assume d: "distinct (map fst r)" "map_of r d = Some c"
  from arg_cong[OF release_delete[OF d], of set_mset] show ?thesis by simp
qed

definition calm_inv :: "graph_store \<Rightarrow> bool" where
  "calm_inv s = (careful_inv s \<and> rooted s)"

lemma calm_step: "calm_inv s \<Longrightarrow> store_step True s t \<Longrightarrow> calm_inv t"
proof -
  assume inv: "calm_inv s" and st: "store_step True s t"
  have ca: "careful_inv s" and ro: "rooted s" and si: "store_inv s" using inv by (simp_all add: calm_inv_def careful_inv_def)
  from st have "rooted t"
  proof cases
    case (execute r data has_executor finds cluster graph)
    then show ?thesis using rooted_execute[OF si ro] by simp
  next
    case (borrow p cluster)
    then show ?thesis using rooted_borrow[OF ca ro] by simp
  next
    case (destroy d)
    have "roots (DestroyData d s) = roots s"
      using delete_values[of "s_release s" d] si
      by (auto simp: DestroyData_def roots_def store_inv_def pool_inv_def split: option.split)
    moreover have "s_sub (DestroyData d s) = s_sub s" by (simp add: DestroyData_def split: option.split)
    ultimately show ?thesis using rooted_grows[OF ro, of t] destroy(1) by simp
  next
    case (release c)
    then show ?thesis using rooted_release[OF si ro] by simp
  qed (use ro in \<open>simp_all add: rooted_def roots_def put_handle_def Let_def GraphDone_def call_done_def\<close>)
  then show ?thesis using careful_step[OF ca st] by (simp add: calm_inv_def)
qed

interpretation calm_system: invariant_system "store_step True" new_store calm_inv
proof unfold_locales
  have "careful_inv new_store" by (simp add: careful_inv_def store_inv_new) (simp add: matched_def new_store_def)
  then show "calm_inv new_store" by (simp add: calm_inv_def rooted_def) (simp add: new_store_def)
qed (rule calm_step)

section \<open>Shutting down\<close>

text \<open>The last owner of a data context lets it go, and the background worker runs what was posted.\<close>

inductive drain_step :: "graph_store \<Rightarrow> graph_store \<Rightarrow> bool" where
  drain_destroy: "d \<in> fst ` set (s_release s) \<Longrightarrow> d \<notin> set (s_held s) \<Longrightarrow> d \<notin> (snd \<circ> snd) ` set (s_busy s) \<Longrightarrow>
    drain_step s (DestroyData d s)"
| drain_release: "c \<in> set (s_posted s) \<Longrightarrow> drain_step s (RunRelease c s)"

lemma drain_is_step: "drain_step s t \<Longrightarrow> store_step disc s t"
proof (induction rule: drain_step.induct)
  case (drain_destroy d s)
  show ?case by (rule destroy[OF drain_destroy(2,3)])
next
  case (drain_release c s)
  show ?case by (rule release[OF drain_release])
qed

definition drain_left :: "graph_store \<Rightarrow> nat" where
  "drain_left s = 2 * length (s_release s) + length (s_posted s)"

lemma delete_length: "distinct (map fst r) \<Longrightarrow> map_of r d = Some c \<Longrightarrow> Suc (length (AList.delete d r)) = length r"
proof -
  assume d: "distinct (map fst r)" "map_of r d = Some c"
  from arg_cong[OF release_delete[OF d], of size] show ?thesis by simp
qed

lemma drain_less: "store_inv s \<Longrightarrow> drain_step s t \<Longrightarrow> Suc (drain_left t) = drain_left s"
proof -
  assume si: "store_inv s" and st: "drain_step s t"
  have dis: "distinct (map fst (s_release s))" using si by (simp add: store_inv_def pool_inv_def)
  from st show ?thesis
  proof cases
    case (drain_destroy d)
    then obtain c where c: "map_of (s_release s) d = Some c" by (metis map_of_eq_None_iff not_None_eq)
    then show ?thesis unfolding drain_destroy(1) using delete_length[OF dis c] by (simp add: DestroyData_def drain_left_def)
  next
    case (drain_release c)
    have "0 < length (s_posted s)" using drain_release(2) by (rule length_pos_if_in_set)
    then show ?thesis unfolding drain_release(1) using drain_release(2) by (simp add: drain_left_def RunRelease_fields length_remove1)
  qed
qed

lemma drain_keeps: "drain_step s t \<Longrightarrow> store_inv s \<Longrightarrow> s_held t = s_held s \<and> s_busy t = s_busy s"
proof (induction rule: drain_step.induct)
  case (drain_destroy d s)
  then show ?case by (simp add: DestroyData_def split: option.split)
next
  case (drain_release c s)
  let ?s = "s\<lparr>s_posted := remove1 c (s_posted s)\<rparr>"
  have pl: "places s = mset [0..<length (s_home s)]" and homes: "homes_ok s"
    using drain_release(2) by (simp_all add: store_inv_def pool_inv_def)
  have c: "c \<in># places s" using drain_release(1) by (simp add: places_def)
  have sub: "snd p \<in># places s" if "p \<in> set (s_sub s)" for p using that by (auto simp: places_def)
  have "release_keeps ?s (ReleaseContext (length (s_sub s)) c ?s)"
    using ReleaseContext_effect[of ?s c] homes c sub unfolding pl by (simp add: homes_ok_def)
  then show ?case by (simp add: RunRelease_def Let_def release_keeps_def)
qed

text \<open>
  C10: When callers have let go of their data contexts, no graph runs any more and the data context of a
  busy request was never given to another one, destroying the data contexts and releasing what is
  posted takes a bounded number of steps, in whatever order; and when nothing is left to do, the
  count for which the destructor of the store waits is 0 and every cluster context ever made is back in its
  pool, also those that vertices of other contexts took for their subgraphs.
\<close>
theorem shutdown_returns_all:
  assumes "store_reachable True s" and "s_held s = []" and "s_busy s = []" and "(drain_step ^^ n) s t"
  shows "n \<le> 2 * length (s_release s) + length (s_posted s)
    \<and> ((\<nexists>u. drain_step t u) \<longrightarrow> s_running t = 0 \<and> s_sub t = [] \<and> mset (pool_ctxs t) = mset [0..<length (s_home t)])"
proof -
  have run: "calm_inv t \<and> s_held t = [] \<and> s_busy t = [] \<and> n + drain_left t = drain_left s"
    using assms(4)
  proof (induction n arbitrary: t)
    case 0
    have "calm_inv s" using assms(1) unfolding store_reachable_def by (rule calm_system.always_inv)
    with 0 assms(2,3) show ?case by simp
  next
    case (Suc n)
    then obtain u where u: "(drain_step ^^ n) s u" "drain_step u t" by auto
    note IH = Suc.IH[OF u(1)]
    then have si: "store_inv u" by (simp add: calm_inv_def careful_inv_def)
    have "calm_inv t" using calm_step[of u t] IH drain_is_step[OF u(2)] by blast
    then show ?case using drain_less[OF si u(2)] drain_keeps[OF u(2) si] IH by simp
  qed
  have "s_running t = 0 \<and> s_sub t = [] \<and> mset (pool_ctxs t) = mset [0..<length (s_home t)]" if stop: "\<nexists>u. drain_step t u"
  proof -
    have r: "s_release t = []" using stop drain_destroy[of _ t] run by (cases "s_release t") auto
    have p: "s_posted t = []" using stop drain_release[of _ t] by (cases "s_posted t") auto
    have "e \<notin> set (s_sub t)" for e using run r p by (cases e) (auto simp: calm_inv_def rooted_def roots_def)
    then have "s_sub t = []" by (cases "s_sub t") auto
    moreover have "pool_inv t" using run by (simp add: calm_inv_def careful_inv_def store_inv_def)
    ultimately show ?thesis using r p by (simp add: pool_inv_def places_def u32_def)
  qed
  then show ?thesis using run by (simp add: drain_left_def)
qed

text \<open>A request that ended, whose data context then goes away.\<close>

theorem shutdown_returns_all_witness:
  "\<exists>s t. s_release s \<noteq> [] \<and> drain_step s t \<and> 1 \<le> 2 * length (s_release s) + length (s_posted s)"
proof -
  obtain h where h: "HandleBuild Map.empty 0 (\<lambda>_. True) 0 small_cluster = Some h" "h_contexts h = []" using small_handle by blast
  let ?a = "step_execute 0 (loaded h)"
  let ?b = "GraphDone (0, 0, 0) 0 ?a"
  let ?s = "?b\<lparr>s_held := removeAll 0 (s_held ?b)\<rparr>"
  have e: "store_reachable True ?a" "s_busy ?a = [(0, 0, 0)]" using executed_reachable[OF h, of True] by simp_all
  have v: "s_release ?a = [(0, 0)]" "s_held ?a = [0]"
    using h(2) by (simp_all add: step_execute_def loaded_def put_handle_def new_store_def Let_def StoreExecute_def
        GetGraphClusterContext_def FindGraphClusterByName_def GetContext_def SetReleaseClosure_def)
  have "store_step True ?a ?b" by (rule finish) (use e in simp)
  moreover have "store_step True ?b ?s" by (rule drop)
  ultimately have re: "store_reachable True ?s" using e(1) unfolding store_reachable_def by (meson rtranclp.rtrancl_into_rtrancl)
  have f: "s_held ?s = []" "s_busy ?s = []" "s_release ?s = [(0, 0)]" using e v by (simp_all add: GraphDone_def call_done_def)
  have st: "drain_step ?s (DestroyData 0 ?s)" by (rule drain_destroy) (use f in simp_all)
  then have "(drain_step ^^ 1) ?s (DestroyData 0 ?s)" unfolding relpowp_1 .
  from shutdown_returns_all[OF re f(1,2) this]
  have "1 \<le> 2 * length (s_release ?s) + length (s_posted ?s)" by (rule conjunct1)
  then show ?thesis using st f(3) by (intro exI[of _ ?s] exI[of _ "DestroyData 0 ?s"]) simp
qed

end
