(* ===== verification/Nested.thy ===== *)
theory Nested
  imports Executor
begin

text \<open>
  Graphs that run other graphs (\<open>VertexContext::ExecuteSubGraph\<close>, \<open>store/vertex_context.cpp\<close>): a vertex
  without an operator starts the graph that the store finds for it and goes on when the closure of that
  graph is called, with its code. The state is the list of all graphs that were started, each with its
  executor; their steps interleave.

  The rounds of a while graph run the graph of its body again in the context of the round before; the
  properties below are about graphs that are no while graphs, in which a vertex starts once; \<open>Rounds\<close> has the rounds.
\<close>

section \<open>State and steps\<close>

text \<open>What the store and the clusters find, and the operators of each graph.\<close>

record nest_env =
  ne_cluster :: "string \<Rightarrow> bool"
  ne_graph :: "string \<Rightarrow> string \<Rightarrow> graph option"
  ne_procs :: "graph \<Rightarrow> vref \<Rightarrow> processor_info option"

record frame =
  fr_graph :: graph
  fr_engine :: engine
  fr_caller :: "(nat \<times> vref) option"

definition new_frame :: "nest_env \<Rightarrow> graph \<Rightarrow> (nat \<times> vref) option \<Rightarrow> frame" where
  "new_frame E g caller =
    \<lparr>fr_graph = g, fr_engine = start (the (SetupContexts g (ne_procs E g))), fr_caller = caller\<rparr>"

definition subgraph_of :: "nest_env \<Rightarrow> graph \<Rightarrow> vref \<Rightarrow> graph option" where
  "subgraph_of E g v = ne_graph E (v_cluster (deref g v)) (v_graph (deref g v))"

text \<open>The code with which the closure of a graph was called.\<close>

definition closure_code :: "frame \<Rightarrow> int option" where
  "closure_code f = (case en_log (fr_engine f) of EvDone rc # l \<Rightarrow> Some rc | _ \<Rightarrow> None)"

text \<open>The decisions of a step that the rest of the state makes.\<close>

definition finds_as :: "nest_env \<Rightarrow> graph \<Rightarrow> task \<Rightarrow> choice \<Rightarrow> bool" where
  "finds_as E g t ch =
    (case t of
       TExecute v \<Rightarrow> ch_cluster_found ch = ne_cluster E (v_cluster (deref g v))
         \<and> ch_graph_found ch = (subgraph_of E g v \<noteq> None)
     | _ \<Rightarrow> True)"

definition returns_as :: "nest_env \<Rightarrow> frame list \<Rightarrow> nat \<Rightarrow> task \<Rightarrow> choice \<Rightarrow> bool" where
  "returns_as E ns i t ch =
    (case t of
       TProcess v \<Rightarrow>
         if ne_procs E (fr_graph (ns ! i)) v = None
         then list_ex (\<lambda>f. fr_caller f = Some (i, v) \<and> map_option Returned (closure_code f) = Some (ch_outcome ch)) ns
         else ch_outcome ch \<noteq> FutureFailed
     | _ \<Rightarrow> True)"

definition called :: "nest_env \<Rightarrow> nat \<Rightarrow> task \<Rightarrow> choice \<Rightarrow> frame \<Rightarrow> frame list" where
  "called E i t ch f =
    (case t of
       TExecute v \<Rightarrow>
         (let (gc, ts, evs) = Execute (fr_graph f) ch v (en_ctx (fr_engine f)) in
          if ts = [TProcess v] \<and> ne_procs E (fr_graph f) v = None
          then (case subgraph_of E (fr_graph f) v of Some h \<Rightarrow> [new_frame E h (Some (i, v))] | None \<Rightarrow> [])
          else [])
     | _ \<Rightarrow> [])"

text \<open>Operators return; one that returns a future which fails keeps its graph from ever ending.\<close>

inductive nested_step :: "nest_env \<Rightarrow> frame list \<Rightarrow> frame list \<Rightarrow> bool" for E where
  frame_step: "i < length ns \<Longrightarrow> t \<in># en_tasks (fr_engine (ns ! i)) \<Longrightarrow> enabled ch t (en_ctx (fr_engine (ns ! i))) \<Longrightarrow>
    finds_as E (fr_graph (ns ! i)) t ch \<Longrightarrow> returns_as E ns i t ch \<Longrightarrow>
    nested_step E ns (ns[i := (ns ! i)\<lparr>fr_engine := after (fr_graph (ns ! i)) ch t (fr_engine (ns ! i))\<rparr>]
      @ called E i t ch (ns ! i))"

definition nest_start :: "nest_env \<Rightarrow> graph \<Rightarrow> frame list" where
  "nest_start E g = [new_frame E g None]"

text \<open>
  The graphs of \<open>G\<close> call only each other, and never one that could call them back.
\<close>

definition calls_ranked :: "nest_env \<Rightarrow> graph set \<Rightarrow> (graph \<Rightarrow> nat) \<Rightarrow> bool" where
  "calls_ranked E G rank = (\<forall>g \<in> G. runnable g \<and> \<not> g_is_gen_while_graph g
     \<and> (\<forall>v h. valid_ref g v \<longrightarrow> subgraph_of E g v = Some h \<longrightarrow> h \<in> G \<and> rank h < rank g))"

section \<open>One graph\<close>

definition frame_ok :: "nest_env \<Rightarrow> graph set \<Rightarrow> frame \<Rightarrow> bool" where
  "frame_ok E G f = (fr_graph f \<in> G \<and> reachable (fr_graph f) (ne_procs E (fr_graph f)) (fr_engine f)
     \<and> lossless (en_tasks (fr_engine f)) \<and> gc_while_ctx (en_ctx (fr_engine f)) = None
     \<and> (\<forall>v. valid_ref (fr_graph f) v \<longrightarrow> vx_subgraph_ctx (gc_ctx (en_ctx (fr_engine f)) v) \<longrightarrow> subgraph_of E (fr_graph f) v \<noteq> None))"

lemma handle_subgraph_ctx:
  assumes "handle g ch t gc = (gc', ts, evs)" "vx_subgraph_ctx (gc_ctx gc' w)"
  shows "vx_subgraph_ctx (gc_ctx gc w) \<or> t = TExecute w \<and> ch_graph_found ch"
proof -
  let ?s = "\<lambda>gc. vx_subgraph_ctx (gc_ctx gc w)"
  have f: "?s (fst (FinishVertexProcess g v c a gc)) = ?s gc" for v c a gc
    by (simp add: FinishVertexProcess_def Let_def modify_ctx_def SetEarlyExitCode_def)
  have skip: "?s (fst (skip_vertex g v gc)) = ?s gc" for v gc
    by (simp add: skip_vertex_def Let_def case_prod_unfold f) (simp add: modify_ctx_def)
  have p: "?s (fst (ExecuteProcessor g ch v gc)) = ?s gc" for v gc
    by (simp add: ExecuteProcessor_def Let_def case_prod_unfold f)
  have sg: "?s (fst (ExecuteSubGraph g ch v gc)) \<Longrightarrow> ?s gc \<or> v = w \<and> ch_graph_found ch" for v gc
    by (auto simp: ExecuteSubGraph_def Let_def case_prod_unfold f modify_ctx_def split: if_splits)
  have m: "?s (modify_ctx v (\<lambda>c. c\<lparr>vx_subgraph_cluster := x\<rparr>) gc) = ?s gc" for v x gc by (simp add: modify_ctx_def)
  have e: "?s (modify_ctx v (\<lambda>c. c\<lparr>vx_exec_rc := x\<rparr>) gc) = ?s gc" for v x gc by (simp add: modify_ctx_def)
  have s: "?s (fst (handle g ch t gc))" using assms by simp
  show ?thesis
  proof (cases t)
    case (TExecute v)
    with s show ?thesis by (auto simp: Execute_def Let_def skip p m dest: sg split: if_splits)
  next
    case (TProcess v)
    with s show ?thesis by (auto simp: EndProcess_def Let_def case_prod_unfold f e split: op_outcome.splits if_splits)
  next
    case (TDone v)
    with s show ?thesis
      by (auto simp: OnVertexDone_def Let_def case_prod_unfold ResetStateGraph_def ResetState_def split: if_splits)
  next
    case (TNotify v i ready)
    with s show ?thesis
      by (auto simp: Notify_def SetDependencyResult_def Let_def case_prod_unfold modify_ctx_def split: if_splits)
  qed (use s in simp)
qed

lemma new_frame_ok:
  assumes "calls_ranked E G rank" "g \<in> G"
  shows "frame_ok E G (new_frame E g c)" "TProcess v \<notin># en_tasks (fr_engine (new_frame E g c))"
    "fr_graph (new_frame E g c) = g" "fr_caller (new_frame E g c) = c"
proof -
  have g: "runnable g" "\<not> g_is_gen_while_graph g" using assms by (auto simp: calls_ranked_def)
  obtain gc where gc: "SetupContexts g (ne_procs E g) = Some gc" using SetupContexts_total[OF g(1)] by blast
  note ok = SetupContexts_ok(1)[OF g(1) gc]
  have ts: "en_tasks (start gc) = mset (map TExecute (gc_start_ctxs gc))" using start_tasks[OF ok] by (simp add: start_def)
  have sub: "\<not> vx_subgraph_ctx (gc_ctx gc v)" if "valid_ref g v" for v
  proof -
    from gc obtain gc1 where "gc = ResetGraph g gc1"
      unfolding SetupContexts_def Let_def by (auto simp: bind_eq_Some_conv split: if_splits)
    moreover have "v \<in> set (gc_vertexs gc)" using ok that by (simp add: static_ok_def)
    ultimately show ?thesis by (auto simp: ResetGraph_def ResetVertex_def)
  qed
  have w: "gc_while_ctx gc = None" by (rule SetupContexts_while[OF gc g(2)])
  show "frame_ok E G (new_frame E g c)"
    using reachable_start[OF gc] assms(2) lossless_executes[of "gc_start_ctxs gc"] sub w ts
    by (simp add: frame_ok_def new_frame_def gc) (simp add: start_def)
  show "TProcess v \<notin># en_tasks (fr_engine (new_frame E g c))" using ts by (auto simp: new_frame_def gc)
  show "fr_graph (new_frame E g c) = g" "fr_caller (new_frame E g c) = c" by (simp_all add: new_frame_def)
qed

text \<open>Only a vertex that is executed begins to run.\<close>

lemma process_from_execute:
  assumes inv: "engine_inv g procs gc (add_mset t rest) l" and g: "runnable g"
    and run: "handle g ch t gc = (gc', ts, evs)" and new: "TProcess v \<in> set ts"
  shows "t = TExecute v \<and> ts = [TProcess v]"
proof -
  have r: "t = TExecute v \<and> ts = [TProcess v]" if "t \<in> {TExecute u, TProcess u}" for u
    using handle_run[OF inv that run] new that by (auto simp: run_effect_def next_task_def)
  have no: "\<not> (\<exists>ws. mset ts = mset (map TExecute ws))"
  proof
    assume "\<exists>ws. mset ts = mset (map TExecute ws)"
    then obtain ws where "set ts = TExecute ` set ws" by (metis list.set_map mset_eq_setD)
    with new show False by auto
  qed
  show ?thesis
  proof (cases t)
    case (TDone u)
    have x: "OnVertexDone g u gc = (gc', ts, evs)" using run TDone by simp
    from inv[unfolded TDone] g x show ?thesis
      by (cases rule: OnVertexDone_cases) (use no new in \<open>auto simp: reports_def split: if_splits\<close>)
  next
    case (TNotify u i ready)
    have x: "Notify u i ready gc = (gc', ts, evs)" using run TNotify by simp
    from Notify_effect[OF inv[unfolded TNotify] runnable_edges[OF g] x]
    obtain ready' where "mset ts = told_tasks g u i ready'" by blast
    then have "TProcess v \<in># told_tasks g u i ready'" using new by (metis set_mset_mset)
    then show ?thesis by (auto simp: told_tasks_def split: if_splits)
  next
    case (TLost u)
    with run new show ?thesis by auto
  qed (use r in auto)
qed

text \<open>What a step does to the graph that makes it.\<close>

lemma frame_step_facts:
  assumes f: "frame_ok E G f" and G: "calls_ranked E G rank" and t: "t \<in># en_tasks (fr_engine f)"
    and en: "enabled ch t (en_ctx (fr_engine f))" and fi: "finds_as E (fr_graph f) t ch" and out: "ch_outcome ch \<noteq> FutureFailed"
  defines "e' \<equiv> after (fr_graph f) ch t (fr_engine f)"
  shows "frame_ok E G (f\<lparr>fr_engine := e'\<rparr>)" "left (fr_graph f) e' < left (fr_graph f) (fr_engine f)"
    and "TProcess v \<in># en_tasks e' \<Longrightarrow> ne_procs E (fr_graph f) v = None \<Longrightarrow> TProcess v \<in># en_tasks (fr_engine f)
      \<or> (\<exists>h. subgraph_of E (fr_graph f) v = Some h \<and> called E i t ch f = [new_frame E h (Some (i, v))])"
    and "called E i t ch f = [] \<or> (\<exists>v h. valid_ref (fr_graph f) v \<and> subgraph_of E (fr_graph f) v = Some h
      \<and> called E i t ch f = [new_frame E h (Some (i, v))])"
proof -
  let ?g = "fr_graph f" and ?e = "fr_engine f" and ?procs = "ne_procs E (fr_graph f)"
  have g: "runnable ?g" and r: "reachable ?g ?procs ?e" and lo: "lossless (en_tasks ?e)"
    and w: "gc_while_ctx (en_ctx ?e) = None" and inG: "?g \<in> G"
    and sub: "\<And>v. valid_ref ?g v \<Longrightarrow> vx_subgraph_ctx (gc_ctx (en_ctx ?e) v) \<Longrightarrow> subgraph_of E ?g v \<noteq> None"
    using f G by (auto simp: frame_ok_def calls_ranked_def)
  obtain rest where rest: "en_tasks ?e = add_mset t rest" using t by (meson multi_member_split)
  obtain gc ts evs where h: "handle ?g ch t (en_ctx ?e) = (gc, ts, evs)" by (metis prod_cases3)
  have e': "en_ctx e' = gc" "en_tasks e' = rest + mset ts" "en_log e' = rev evs @ en_log ?e"
    using h rest by (simp_all add: e'_def after_def)
  have st: "step ?g ?e e'" unfolding e'_def using t en by (rule step.intros)
  note inv0 = reachable_inv[OF r g]
  have inv: "engine_inv ?g ?procs (en_ctx ?e) (add_mset t rest) (en_log ?e)" using inv0 rest by simp
  have task: "task_ok ?g (en_log ?e) t" using engine_invD(5)[OF inv] by (simp add: tasks_ok_def)
  have "lossless (en_tasks e')" unfolding e' using handle_lossless[OF inv h g en out] lo rest by simp
  moreover have "gc_while_ctx (en_ctx e') = None" unfolding e' using handle_while[OF h] w by simp
  moreover have "subgraph_of E ?g v \<noteq> None" if "valid_ref ?g v" "vx_subgraph_ctx (gc_ctx (en_ctx e') v)" for v
  proof -
    from handle_subgraph_ctx[OF h, of v] that(2) consider "vx_subgraph_ctx (gc_ctx (en_ctx ?e) v)" | "t = TExecute v" "ch_graph_found ch"
      by (auto simp: e')
    then show ?thesis using sub[OF that(1)] fi by cases (simp_all add: finds_as_def)
  qed
  ultimately show "frame_ok E G (f\<lparr>fr_engine := e'\<rparr>)"
    using inG reachable_step[OF r st] by (simp add: frame_ok_def)
  have "loops (en_log e') = loops (en_log ?e)" unfolding e' by (rule handle_loops[OF inv h g en w])
  then show "left ?g e' < left ?g ?e" using step_left[OF inv0 g st] by simp
  have start: "\<exists>k. subgraph_of E ?g v = Some k \<and> called E i t ch f = [new_frame E k (Some (i, v))]"
    if "t = TExecute v" "ts = [TProcess v]" "?procs v = None" for v
  proof -
    have x: "Execute ?g ch v (en_ctx ?e) = (gc, ts, evs)" using h that(1) by simp
    have v: "valid_ref ?g v" using task that(1) by simp
    have p: "vx_processor (gc_ctx (en_ctx ?e) v) = None" using engine_invD(1)[OF inv] v that(3) by (simp add: static_ok_def)
    have "vx_subgraph_ctx (gc_ctx gc v)"
      using x that(2) p by (auto simp: Execute_def ExecuteSubGraph_def skip_vertex_def modify_ctx_def Let_def case_prod_unfold split: if_splits)
    with handle_subgraph_ctx[OF h this] sub[OF v] fi that(1) have "subgraph_of E ?g v \<noteq> None" by (auto simp: finds_as_def)
    then show ?thesis using x that by (auto simp: called_def)
  qed
  show "TProcess v \<in># en_tasks ?e \<or> (\<exists>h. subgraph_of E ?g v = Some h \<and> called E i t ch f = [new_frame E h (Some (i, v))])"
    if "TProcess v \<in># en_tasks e'" "?procs v = None" for v
  proof (cases "TProcess v \<in># rest")
    case False
    then have new: "TProcess v \<in> set ts" using that(1) by (simp add: e')
    have "t = TExecute v \<and> ts = [TProcess v]" using process_from_execute[OF inv g h new] .
    then show ?thesis using start that(2) by blast
  qed (simp add: rest)
  show "called E i t ch f = [] \<or> (\<exists>v h. valid_ref ?g v \<and> subgraph_of E ?g v = Some h
      \<and> called E i t ch f = [new_frame E h (Some (i, v))])"
  proof (cases "\<exists>v. t = TExecute v \<and> ts = [TProcess v] \<and> ?procs v = None")
    case True
    then obtain v where v: "t = TExecute v" "ts = [TProcess v]" "?procs v = None" by blast
    moreover have "valid_ref ?g v" using task v(1) by simp
    ultimately show ?thesis using start by blast
  next
    case False
    then have "called E i t ch f = []" using h by (auto simp: called_def split: task.splits)
    then show ?thesis by simp
  qed
qed

section \<open>All graphs together\<close>

text \<open>A subgraph that runs has an entry behind that of its caller.\<close>

definition callee :: "frame list \<Rightarrow> nat \<Rightarrow> vref \<Rightarrow> bool" where
  "callee ns i v = (\<exists>j < length ns. i < j \<and> fr_caller (ns ! j) = Some (i, v))"

definition nest_inv :: "nest_env \<Rightarrow> graph set \<Rightarrow> frame list \<Rightarrow> bool" where
  "nest_inv E G ns = (ns \<noteq> [] \<and> (\<forall>i < length ns. frame_ok E G (ns ! i)
     \<and> (\<forall>v. TProcess v \<in># en_tasks (fr_engine (ns ! i)) \<longrightarrow> ne_procs E (fr_graph (ns ! i)) v = None \<longrightarrow> callee ns i v)))"

lemma nest_invD:
  "nest_inv E G ns \<Longrightarrow> i < length ns \<Longrightarrow> frame_ok E G (ns ! i)"
  "nest_inv E G ns \<Longrightarrow> i < length ns \<Longrightarrow> TProcess v \<in># en_tasks (fr_engine (ns ! i)) \<Longrightarrow>
    ne_procs E (fr_graph (ns ! i)) v = None \<Longrightarrow> callee ns i v"
  by (simp_all add: nest_inv_def)

lemma callee_extend: "callee ns i v \<Longrightarrow> callee (ns[k := (ns ! k)\<lparr>fr_engine := e\<rparr>] @ cs) i v"
proof -
  assume "callee ns i v"
  then obtain j where j: "j < length ns" "i < j" "fr_caller (ns ! j) = Some (i, v)" by (auto simp: callee_def)
  let ?m = "ns[k := (ns ! k)\<lparr>fr_engine := e\<rparr>] @ cs"
  have "fr_caller (?m ! j) = Some (i, v)" using j by (cases "j = k") (simp_all add: nth_append)
  then show ?thesis using j unfolding callee_def by (intro exI[of _ j]) simp
qed

text \<open>The decisions that a task does not read may be any.\<close>

definition plain_choice :: "task \<Rightarrow> choice \<Rightarrow> choice" where
  "plain_choice t ch = (case t of TProcess v \<Rightarrow> ch | _ \<Rightarrow> ch\<lparr>ch_outcome := Returned 0\<rparr>)"

lemma plain_choice_same:
  "after g (plain_choice t ch) t s = after g ch t s" "enabled (plain_choice t ch) t gc = enabled ch t gc"
  "finds_as E g t (plain_choice t ch) = finds_as E g t ch" "called E i t (plain_choice t ch) f = called E i t ch f"
proof -
  have x: "Execute g (ch\<lparr>ch_outcome := out\<rparr>) v gc = Execute g ch v gc" for out v gc g
    by (simp add: Execute_def ExecuteProcessor_def ExecuteSubGraph_def Let_def)
  show "after g (plain_choice t ch) t s = after g ch t s" "enabled (plain_choice t ch) t gc = enabled ch t gc"
    "finds_as E g t (plain_choice t ch) = finds_as E g t ch" "called E i t (plain_choice t ch) f = called E i t ch f"
    by (cases t; simp add: after_def plain_choice_def finds_as_def called_def x)+
qed

lemma nested_step_cases:
  assumes "nested_step E ns ns'" "nest_inv E G ns" "calls_ranked E G rank"
  obtains i e' cs where "i < length ns" "ns' = ns[i := (ns ! i)\<lparr>fr_engine := e'\<rparr>] @ cs"
    "frame_ok E G ((ns ! i)\<lparr>fr_engine := e'\<rparr>)" "left (fr_graph (ns ! i)) e' < left (fr_graph (ns ! i)) (fr_engine (ns ! i))"
    "\<And>v. TProcess v \<in># en_tasks e' \<Longrightarrow> ne_procs E (fr_graph (ns ! i)) v = None \<Longrightarrow>
      TProcess v \<in># en_tasks (fr_engine (ns ! i)) \<or> (\<exists>h. cs = [new_frame E h (Some (i, v))])"
    "cs = [] \<or> (\<exists>v h. valid_ref (fr_graph (ns ! i)) v \<and> subgraph_of E (fr_graph (ns ! i)) v = Some h
      \<and> cs = [new_frame E h (Some (i, v))])"
  using assms(1)
proof cases
  case (frame_step i t ch)
  let ?ch = "plain_choice t ch" and ?f = "ns ! i"
  have f: "frame_ok E G ?f" using nest_invD(1)[OF assms(2) frame_step(2)] .
  have en: "enabled ?ch t (en_ctx (fr_engine ?f))" and fi: "finds_as E (fr_graph ?f) t ?ch"
    using frame_step(4,5) by (simp_all add: plain_choice_same)
  have out: "ch_outcome ?ch \<noteq> FutureFailed"
  proof (cases t)
    case (TProcess v)
    then show ?thesis using frame_step(4,6) by (auto simp: plain_choice_def returns_as_def list_ex_iff split: if_splits)
  qed (simp_all add: plain_choice_def)
  note facts = frame_step_facts[OF f assms(3) frame_step(3) en fi out, unfolded plain_choice_same]
  show thesis
    by (rule that[OF frame_step(2) frame_step(1) facts(1,2) _ facts(4)]) (use facts(3) in blast)
qed

lemma nested_step_inv:
  assumes "nested_step E ns ns'" "nest_inv E G ns" "calls_ranked E G rank"
  shows "nest_inv E G ns'"
  using assms
proof (cases rule: nested_step_cases)
  case (1 i e' cs)
  note st = this
  let ?f = "(ns ! i)\<lparr>fr_engine := e'\<rparr>"
  have at: "ns' ! k = (if k = i then ?f else if k < length ns then ns ! k else cs ! (k - length ns))" for k
    using st(1) by (simp add: st(2) nth_append)
  have inG: "fr_graph (ns ! i) \<in> G" using nest_invD(1)[OF assms(2) st(1)] by (simp add: frame_ok_def)
  have new: "frame_ok E G f \<and> (\<forall>v. TProcess v \<notin># en_tasks (fr_engine f))" if c: "f \<in> set cs" for f
  proof -
    have "cs \<noteq> []" using c by auto
    then obtain v h where v: "valid_ref (fr_graph (ns ! i)) v" "subgraph_of E (fr_graph (ns ! i)) v = Some h"
        "cs = [new_frame E h (Some (i, v))]"
      using st(6) by blast
    then have "f = new_frame E h (Some (i, v))" using c by simp
    note v = v(1,2) this
    have "h \<in> G" using assms(3) inG v(1,2) unfolding calls_ranked_def by blast
    then show ?thesis using new_frame_ok(1,2)[OF assms(3)] v(3) by blast
  qed
  have "frame_ok E G (ns' ! k) \<and> (\<forall>v. TProcess v \<in># en_tasks (fr_engine (ns' ! k)) \<longrightarrow>
      ne_procs E (fr_graph (ns' ! k)) v = None \<longrightarrow> callee ns' k v)" if k: "k < length ns'" for k
  proof -
    consider "k = i" | "k \<noteq> i" "k < length ns" | "length ns \<le> k" by linarith
    then show ?thesis
    proof cases
      case 1
      have "callee ns' i v" if v: "TProcess v \<in># en_tasks e'" "ne_procs E (fr_graph (ns ! i)) v = None" for v
        using st(5)[OF v]
      proof
        assume "TProcess v \<in># en_tasks (fr_engine (ns ! i))"
        then show ?thesis using nest_invD(2)[OF assms(2) st(1) _ v(2)] callee_extend unfolding st(2) by blast
      next
        assume "\<exists>h. cs = [new_frame E h (Some (i, v))]"
        then show ?thesis using st(1) unfolding callee_def st(2)
          by (intro exI[of _ "length ns"]) (auto simp: nth_append new_frame_def)
      qed
      then show ?thesis using st(3) by (simp add: at 1)
    next
      case 2
      then show ?thesis using nest_invD[OF assms(2) 2(2)] callee_extend unfolding at by (auto simp: st(2))
    next
      case 3
      then have "ns' ! k \<in> set cs" using k st(1) by (simp add: at) (simp add: st(2))
      with new show ?thesis by blast
    qed
  qed
  moreover have "ns' \<noteq> []" using st(1) unfolding st(2) by auto
  ultimately show ?thesis by (simp add: nest_inv_def)
qed

section \<open>Every run ends\<close>

definition frame_pair :: "(graph \<Rightarrow> nat) \<Rightarrow> frame \<Rightarrow> nat \<times> nat" where
  "frame_pair rank f = (rank (fr_graph f), left (fr_graph f) (fr_engine f))"

definition nest_order :: "(graph \<Rightarrow> nat) \<Rightarrow> (frame list \<times> frame list) set" where
  "nest_order rank = inv_image (mult (less_than <*lex*> less_than)) (\<lambda>ns. mset (map (frame_pair rank) ns))"

lemma wf_nest_order: "wf (nest_order rank)"
  unfolding nest_order_def by (intro wf_inv_image wf_mult wf_lex_prod wf_less_than)

lemma nested_step_less:
  assumes "nested_step E ns ns'" "nest_inv E G ns" "calls_ranked E G rank"
  shows "(ns', ns) \<in> nest_order rank"
  using assms
proof (cases rule: nested_step_cases)
  case (1 i e' cs)
  let ?f = "(ns ! i)\<lparr>fr_engine := e'\<rparr>" and ?p = "frame_pair rank" and ?r = "less_than <*lex*> less_than"
  have inG: "fr_graph (ns ! i) \<in> G" using nest_invD(1)[OF assms(2) 1(1)] by (simp add: frame_ok_def)
  obtain M where M: "mset (map ?p ns) = add_mset (?p (ns ! i)) M"
    using 1(1) by (metis in_set_conv_nth length_map multi_member_split nth_map set_mset_mset)
  have "mset (map ?p (ns[i := ?f])) + {#?p (ns ! i)#} = mset (map ?p ns) + {#?p ?f#}"
    using 1(1) by (simp add: map_update mset_update M)
  then have M': "mset (map ?p (ns[i := ?f])) = add_mset (?p ?f) M" unfolding M by simp
  have "(?p ?f, ?p (ns ! i)) \<in> ?r" using 1(4) by (simp add: frame_pair_def)
  moreover have "(?p c, ?p (ns ! i)) \<in> ?r" if c: "c \<in> set cs" for c
  proof -
    have "cs \<noteq> []" using c by auto
    then obtain v h where v: "valid_ref (fr_graph (ns ! i)) v" "subgraph_of E (fr_graph (ns ! i)) v = Some h"
        "cs = [new_frame E h (Some (i, v))]"
      using 1(6) by blast
    then have "c = new_frame E h (Some (i, v))" using c by simp
    note v = v(1,2) this
    have "rank h < rank (fr_graph (ns ! i))" using assms(3) inG v(1,2) unfolding calls_ranked_def by blast
    then show ?thesis using v(3) by (simp add: frame_pair_def new_frame_def)
  qed
  ultimately have "(b, ?p (ns ! i)) \<in> ?r" if "b \<in># add_mset (?p ?f) (mset (map ?p cs))" for b using that by auto
  then have "(M + add_mset (?p ?f) (mset (map ?p cs)), add_mset (?p (ns ! i)) M) \<in> mult1 ?r"
    by (rule mult1I[OF refl refl])
  moreover have "mset (map ?p ns') = M + add_mset (?p ?f) (mset (map ?p cs))" unfolding 1(2) map_append mset_append M' by simp
  ultimately have "(mset (map ?p ns'), mset (map ?p ns)) \<in> mult ?r" unfolding M mult_def by (simp only: r_into_trancl)
  then show ?thesis by (simp only: nest_order_def in_inv_image)
qed

text \<open>As long as a graph is not done, some graph can make a step.\<close>

lemma closed_code: "frame_ok E G f \<Longrightarrow> calls_ranked E G rank \<Longrightarrow> en_tasks (fr_engine f) = {#} \<Longrightarrow> \<exists>rc. closure_code f = Some rc"
proof -
  assume f: "frame_ok E G f" and G: "calls_ranked E G rank" and e: "en_tasks (fr_engine f) = {#}"
  let ?g = "fr_graph f" and ?l = "en_log (fr_engine f)"
  have g: "runnable ?g" and r: "reachable ?g (ne_procs E ?g) (fr_engine f)" using f G by (auto simp: frame_ok_def calls_ranked_def)
  have "dom (finished ?l) = vertices ?g" using no_tasks_all_done[OF reachable_inv[OF r g, unfolded e] g] .
  then have "closed ?l" by (rule all_done_closed[OF r g])
  moreover have "legal ?g (gc_while_ctx (en_ctx (fr_engine f))) ?l" by (rule reachable_legal[OF r g])
  ultimately show ?thesis by (cases ?l) (auto simp: closure_code_def split: event.splits)
qed

lemma nested_progress:
  assumes inv: "nest_inv E G ns" and G: "calls_ranked E G rank" and i: "i < length ns" "en_tasks (fr_engine (ns ! i)) \<noteq> {#}"
  shows "\<exists>ns'. nested_step E ns ns'"
proof -
  let ?busy = "\<lambda>i. i < length ns \<and> en_tasks (fr_engine (ns ! i)) \<noteq> {#}"
  have top: "?busy (GREATEST i. ?busy i)"
    by (rule GreatestI_nat[where P = ?busy and k = i and b = "length ns"]) (use i in auto)
  define k where "k = (GREATEST i. ?busy i)"
  have k: "k < length ns" "en_tasks (fr_engine (ns ! k)) \<noteq> {#}" using top by (simp_all add: k_def)
  have above: "en_tasks (fr_engine (ns ! j)) = {#}" if "k < j" "j < length ns" for j
  proof (rule ccontr)
    assume "en_tasks (fr_engine (ns ! j)) \<noteq> {#}"
    then have "j \<le> k" unfolding k_def
      by (intro Greatest_le_nat[where P = ?busy and b = "length ns"]) (use that in auto)
    with that show False by simp
  qed
  obtain t where t: "t \<in># en_tasks (fr_engine (ns ! k))" using k(2) by auto
  let ?g = "fr_graph (ns ! k)"
  have f: "frame_ok E G (ns ! k)" using nest_invD(1)[OF inv k(1)] .
  then have lost: "t \<noteq> TLost v" for v using t by (auto simp: frame_ok_def lossless_def)
  define ch where "ch rc = (returns rc)\<lparr>ch_cluster_found := ne_cluster E (v_cluster (deref ?g (subject t))),
      ch_graph_found := (subgraph_of E ?g (subject t) \<noteq> None)\<rparr>" for rc
  have ok: "enabled (ch rc) t (en_ctx (fr_engine (ns ! k)))" "finds_as E ?g t (ch rc)" for rc
    using lost by (cases t; simp add: ch_def returns_def allowed_outcome_def finds_as_def)+
  have "\<exists>rc. returns_as E ns k t (ch rc)"
  proof (cases "\<exists>v. t = TProcess v \<and> ne_procs E ?g v = None")
    case True
    then obtain v where v: "t = TProcess v" "ne_procs E ?g v = None" by blast
    then have "callee ns k v" using nest_invD(2)[OF inv k(1)] t by blast
    then obtain j where j: "j < length ns" "k < j" "fr_caller (ns ! j) = Some (k, v)" by (auto simp: callee_def)
    obtain rc where "closure_code (ns ! j) = Some rc" using closed_code[OF nest_invD(1)[OF inv j(1)] G above[OF j(2,1)]] by blast
    then have "returns_as E ns k t (ch rc)" using v j nth_mem[OF j(1)] by (auto simp: returns_as_def list_ex_iff ch_def returns_def)
    then show ?thesis by blast
  next
    case False
    then show ?thesis by (intro exI[of _ 0]) (auto simp: returns_as_def ch_def returns_def split: task.splits)
  qed
  then show ?thesis using frame_step[OF k(1) t ok] by blast
qed

lemma nest_start_inv: "calls_ranked E G rank \<Longrightarrow> g \<in> G \<Longrightarrow> nest_inv E G (nest_start E g)"
  using new_frame_ok(1,2)[of E G rank g] by (simp add: nest_inv_def nest_start_def)

lemma nested_run_inv: "(nested_step E)\<^sup>*\<^sup>* ns ns' \<Longrightarrow> calls_ranked E G rank \<Longrightarrow> nest_inv E G ns \<Longrightarrow> nest_inv E G ns'"
  by (induction rule: rtranclp_induct) (use nested_step_inv in blast)+

section \<open>Properties\<close>

text \<open>
  C5: A graph whose vertices run other graphs, at any depth, ends under every schedule when no graph can
  call itself again, operators return and none of the graphs is a while graph: there is no run without end,
  and a run that cannot go on has all its graphs done and each of their closures called, that of the
  first graph too. No graph is left waiting for one that it called.
\<close>
theorem nested_completes:
  assumes "calls_ranked E G rank" and "g \<in> G"
  shows "\<not> (\<exists>f. f 0 = nest_start E g \<and> (\<forall>n :: nat. nested_step E (f n) (f (Suc n))))
    \<and> (\<forall>ns. (nested_step E)\<^sup>*\<^sup>* (nest_start E g) ns \<longrightarrow> (\<nexists>ns'. nested_step E ns ns') \<longrightarrow>
          (\<forall>f \<in> set ns. en_tasks (fr_engine f) = {#} \<and> (\<exists>rc. closure_code f = Some rc)))"
proof (intro conjI notI allI impI ballI)
  note start = nest_start_inv[OF assms]
  assume "\<exists>f. f 0 = nest_start E g \<and> (\<forall>n :: nat. nested_step E (f n) (f (Suc n)))"
  then obtain f where f: "f 0 = nest_start E g" "\<And>n. nested_step E (f n) (f (Suc n))" by blast
  have inv: "nest_inv E G (f n)" for n
    by (induction n) (use f start nested_step_inv[OF _ _ assms(1)] in auto)
  have "(f (Suc n), f n) \<in> nest_order rank" for n by (rule nested_step_less[OF f(2) inv assms(1)])
  then show False using wf_nest_order[of rank] unfolding wf_iff_no_infinite_down_chain by blast
next
  fix ns f assume r: "(nested_step E)\<^sup>*\<^sup>* (nest_start E g) ns" and stop: "\<nexists>ns'. nested_step E ns ns'" and f: "f \<in> set ns"
  have inv: "nest_inv E G ns" by (rule nested_run_inv[OF r assms(1) nest_start_inv[OF assms]])
  obtain i where i: "i < length ns" "f = ns ! i" using f by (metis in_set_conv_nth)
  show e: "en_tasks (fr_engine f) = {#}" using nested_progress[OF inv assms(1) i(1)] stop i(2) by blast
  show "\<exists>rc. closure_code f = Some rc" using closed_code[OF nest_invD(1)[OF inv i(1)] assms(1)] e i(2) by blast
qed

text \<open>
  Each graph of the nest behaves as it does alone: it is a run of its own executor, so that every
  property of the executor holds at every depth, its log is a legal schedule, and the code that a
  vertex gets from its subgraph is the code with which the closure of that graph was called.
\<close>
theorem nested_simulates:
  assumes "calls_ranked E G rank" and "g \<in> G" and "(nested_step E)\<^sup>*\<^sup>* (nest_start E g) ns" and "f \<in> set ns"
  shows "reachable (fr_graph f) (ne_procs E (fr_graph f)) (fr_engine f)
    \<and> legal (fr_graph f) None (en_log (fr_engine f))"
proof -
  have inv: "nest_inv E G ns" by (rule nested_run_inv[OF assms(3,1) nest_start_inv[OF assms(1,2)]])
  have ok: "frame_ok E G f" using nest_invD(1)[OF inv] assms(4) by (metis in_set_conv_nth)
  then have r: "reachable (fr_graph f) (ne_procs E (fr_graph f)) (fr_engine f)" "runnable (fr_graph f)"
    "gc_while_ctx (en_ctx (fr_engine f)) = None"
    using assms(1) by (auto simp: frame_ok_def calls_ranked_def)
  then show ?thesis using reachable_legal[OF r(1,2)] by simp
qed

section \<open>Example\<close>

text \<open>A graph whose only vertex runs the graph of the other examples.\<close>

definition outer_graph :: graph where
  "outer_graph = single_graph\<lparr>g_vertex := [new_vertex\<lparr>v_cluster := ''c'', v_graph := ''inner''\<rparr>]\<rparr>"

definition outer_env :: nest_env where
  "outer_env = \<lparr>ne_cluster = (\<lambda>c. c = ''c''),
     ne_graph = (\<lambda>c n. if c = ''c'' \<and> n = ''inner'' then Some early_graph else None),
     ne_procs = (\<lambda>g v. if g = outer_graph then None else Some \<lparr>pi_mode = EXEC_SYNC, pi_is_io = False\<rparr>)\<rparr>"

lemma outer_fields: "g_vertex outer_graph = [new_vertex\<lparr>v_cluster := ''c'', v_graph := ''inner''\<rparr>]" "g_gen_vertex outer_graph = []"
  "g_nodes outer_graph = [(''a'', VertexRef 0)]" "\<not> g_is_gen_while_graph outer_graph"
  "deref outer_graph (VertexRef 0) = new_vertex\<lparr>v_cluster := ''c'', v_graph := ''inner''\<rparr>"
  "valid_ref outer_graph p \<longleftrightarrow> p = VertexRef 0"
  by (simp_all add: outer_graph_def single_graph_def deref_def new_graph_def valid_ref_def split: vref.split)

lemma outer_runnable: "runnable outer_graph"
proof -
  have d: "succs outer_graph (VertexRef 0) = []" "deps_idx outer_graph (VertexRef 0) = []"
      "v_deps_expected_results (deref outer_graph (VertexRef 0)) = []"
    by (simp_all add: outer_fields new_vertex_def)
  then have "edge_rel outer_graph = {}" by (auto simp: edge_rel_def outer_fields)
  moreover have "edges_ok outer_graph"
    unfolding edges_ok_def outer_fields(6) by (simp add: d vertex_edges_ok_def depends_def)
  ultimately show ?thesis by (simp add: runnable_def outer_fields acyclic_def)
qed

lemma outer_ranked: "calls_ranked outer_env {outer_graph, early_graph} (\<lambda>g. if g = outer_graph then 1 else 0)"
proof -
  have "subgraph_of outer_env outer_graph (VertexRef 0) = Some early_graph"
    by (simp add: subgraph_of_def outer_env_def outer_fields)
  moreover have "subgraph_of outer_env early_graph (VertexRef 0) = None"
    by (simp add: subgraph_of_def outer_env_def early_fields new_vertex_def)
  moreover have "early_graph \<noteq> outer_graph"
    using early_fields(1) outer_fields(1) by (auto simp: new_vertex_def)
  ultimately show ?thesis
    using outer_runnable early_runnable by (auto simp: calls_ranked_def outer_fields early_fields)
qed

theorem nested_completes_witness:
  "\<not> (\<exists>f. f 0 = nest_start outer_env outer_graph \<and> (\<forall>n :: nat. nested_step outer_env (f n) (f (Suc n))))"
  using nested_completes[OF outer_ranked, of outer_graph] by blast

theorem nested_simulates_witness:
  "legal outer_graph None (en_log (fr_engine (new_frame outer_env outer_graph None)))"
  using nested_simulates[OF outer_ranked, of outer_graph "nest_start outer_env outer_graph" "new_frame outer_env outer_graph None"]
  by (simp add: nest_start_def new_frame_def)

end
