(* ===== verification/ParamsWrite.thy ===== *)
theory ParamsWrite
  imports Params
begin

text \<open>
  Writing through a name: \<open>p[name]\<close> on a parameter object that is not constant (\<open>graph/params.cpp\<close>).
  The reference it returns belongs to whoever on the chain of parents has the name; only when nobody
  has it, or what is found is not valid, the object itself gets it.
\<close>

primrec put_in_place :: "(string \<times> params) list \<Rightarrow> params \<Rightarrow> params" where
  "put_in_place m' (Params t s i d b nv m a p) = Params t s i d b nv m' a p"

text \<open>The object in which \<open>Get\<close> finds the name; the outer \<open>None\<close> is a chain without end.\<close>

partial_function (option) holder :: "pheap \<Rightarrow> paddr \<Rightarrow> string \<Rightarrow> paddr option option" where
  "holder h a name =
    (case h a of
       None \<Rightarrow> None
     | Some p \<Rightarrow>
         if map_of (members p) name \<noteq> None then Some (Some a)
         else (case parent p of None \<Rightarrow> Some None | Some b \<Rightarrow> holder h b name))"

text \<open>\<open>(*this)[name]\<close> followed by a change \<open>f\<close> of what the reference names.\<close>

definition name_ref :: "pheap \<Rightarrow> paddr \<Rightarrow> string \<Rightarrow> (params \<Rightarrow> params) \<Rightarrow> pheap option" where
  "name_ref h this name f =
    Option.bind (holder h this name) (\<lambda>r.
      let found = (case r of None \<Rightarrow> new_params True | Some b \<Rightarrow> the (map_of (members (the (h b))) name)) in
      if Valid found
      then (case r of
              Some b \<Rightarrow> Some (h(b \<mapsto> put_in_place (AList.update name (f found) (members (the (h b)))) (the (h b))))
            | None \<Rightarrow> None)
      else Some (h(this \<mapsto> put_with f name (the (h this)))))"

section \<open>Along the chain\<close>

definition has_name :: "pheap \<Rightarrow> string \<Rightarrow> paddr \<Rightarrow> bool" where
  "has_name h name b = (map_of (members (the (h b))) name \<noteq> None)"

lemma put_in_place_simps [simp]: "members (put_in_place m p) = m" "parent (put_in_place m p) = parent p"
  by (cases p; simp)+

lemma put_with_simps: "members (put_with f n p) = AList.update n (f (table_at (members p) n)) (members p)"
    "parent (put_with f n p) = parent p"
  by (simp_all add: put_with_def)

lemma Get_at:
  "achain h a bs \<Longrightarrow> Get h (the (h a)) name =
    Some (case List.find (has_name h name) (a # bs) of None \<Rightarrow> new_params True | Some b \<Rightarrow> the (map_of (members (the (h b))) name))"
proof (induction rule: achain.induct)
  case (achain_root a p)
  then show ?case by (subst Get.simps) (auto simp: has_name_def split: option.split)
next
  case (achain_link a p b bs)
  obtain q where "h b = Some q" using achain_mapped[OF achain_link(3), of b] by auto
  moreover have "has_name h name a = (map_of (members p) name \<noteq> None)" using achain_link(1) by (simp add: has_name_def)
  ultimately show ?case using achain_link by (subst Get.simps) (simp split: option.split)
qed

lemma holder_at: "achain h a bs \<Longrightarrow> holder h a name = Some (List.find (has_name h name) (a # bs))"
proof (induction rule: achain.induct)
  case (achain_root a p)
  then show ?case by (subst holder.simps) (auto simp: has_name_def)
next
  case (achain_link a p b bs)
  have "has_name h name a = (map_of (members p) name \<noteq> None)" using achain_link(1) by (simp add: has_name_def)
  then show ?case using achain_link by (subst holder.simps) simp
qed

lemma achain_update: "achain h a bs \<Longrightarrow> h b = Some p \<Longrightarrow> parent q = parent p \<Longrightarrow> achain (h(b \<mapsto> q)) a bs"
proof (induction rule: achain.induct)
  case (achain_root a r)
  then show ?case by (intro achain.achain_root[where p = "if a = b then q else r"]) auto
next
  case (achain_link a r c cs)
  then show ?case by (intro achain.achain_link[where p = "if a = b then q else r"]) auto
qed

lemma find_first: "List.find P xs = Some b \<Longrightarrow> P b \<and> b \<in> set xs"
  by (induction xs) (auto split: if_splits)

text \<open>
  C34: A write through a name changes one object only: the first on the chain of parents that has the
  name, if what it has is valid, and otherwise the object itself; all other objects, the object itself
  and other parents included, stay as they are. The changed object keeps its parent and its other members,
  and under the name it has the changed value. So the value is read back through the name, other names read as
  before, and whoever else has the changed object among its parents sees the new value too.
\<close>
theorem name_ref_reads_back:
  assumes "achain h a bs" and "Get h (the (h a)) name = Some old"
  shows "\<exists>h' b. name_ref h a name f = Some h'
    \<and> (if Valid old then List.find (has_name h name) (a # bs) = Some b else b = a)
    \<and> (\<forall>c. c \<noteq> b \<longrightarrow> h' c = h c)
    \<and> parent (the (h' b)) = parent (the (h b))
    \<and> map_of (members (the (h' b))) =
        (map_of (members (the (h b))))(name \<mapsto> f (if Valid old then old else table_at (members (the (h a))) name))
    \<and> Get h' (the (h' a)) name = Some (f (if Valid old then old else table_at (members (the (h a))) name))
    \<and> (\<forall>n. n \<noteq> name \<longrightarrow> Get h' (the (h' a)) n = Get h (the (h a)) n)"
proof -
  let ?find = "List.find (has_name h name) (a # bs)"
  define g where "g = (case ?find of None \<Rightarrow> new_params True | Some b \<Rightarrow> the (map_of (members (the (h b))) name))"
  have old: "old = g" using assms(2) unfolding g_def Get_at[OF assms(1)] by simp
  have fresh: "\<not> Valid (new_params True)" by (simp add: Valid_def new_params_def)
  have other: "Get (h(b \<mapsto> q)) (the ((h(b \<mapsto> q)) a)) n = Get h (the (h a)) n"
    if "h b = Some p" "parent q = parent p" "map_of (members q) n = map_of (members p) n" for b p q n
  proof -
    have e: "the ((h(b \<mapsto> q)) c) = (if c = b then q else the (h c))" for c by simp
    have m: "map_of (members (the ((h(b \<mapsto> q)) c))) n = map_of (members (the (h c))) n" for c using that(1,3) by simp
    have "has_name (h(b \<mapsto> q)) n = has_name h n" by (rule ext) (simp only: has_name_def m)
    then show ?thesis unfolding Get_at[OF achain_update[OF assms(1) that(1,2)]] Get_at[OF assms(1)] m by simp
  qed
  show ?thesis
  proof (cases "Valid g")
    case True
    then obtain b where b: "?find = Some b" unfolding g_def using fresh by (cases ?find) auto
    have bp: "has_name h name b" "b \<in> set (a # bs)" using find_first[OF b] by auto
    obtain p where p: "h b = Some p" using achain_mapped[OF assms(1) bp(2)] by auto
    have gp: "g = the (map_of (members p) name)" unfolding g_def b using p by simp
    let ?q = "put_in_place (AList.update name (f g) (members p)) p"
    let ?h = "h(b \<mapsto> ?q)"
    have r: "name_ref h a name f = Some ?h"
      unfolding name_ref_def holder_at[OF assms(1)] b using True p by (simp add: gp[symmetric])
    have "has_name ?h name = has_name h name"
      using bp(1) p by (intro ext) (auto simp: has_name_def update_conv')
    then have "Get ?h (the (?h a)) name = Some (f g)"
      unfolding Get_at[OF achain_update[OF assms(1) p put_in_place_simps(2)]] by (simp add: b[simplified] update_conv')
    moreover have "Get ?h (the (?h a)) n = Get h (the (h a)) n" if "n \<noteq> name" for n
      by (rule other[OF p]) (use that in \<open>simp_all add: update_conv'\<close>)
    moreover have "map_of (members (the (?h b))) = (map_of (members (the (h b))))(name \<mapsto> f g)"
      "parent (the (?h b)) = parent (the (h b))" "\<forall>c. c \<noteq> b \<longrightarrow> ?h c = h c"
      using p by (simp_all add: update_conv')
    ultimately show ?thesis
      using r True b by (intro exI[of _ ?h] exI[of _ b]) (simp only: old if_True, blast)
  next
    case False
    obtain p where p: "h a = Some p" using achain_mapped[OF assms(1), of a] by auto
    let ?q = "put_with f name p"
    let ?h = "h(a \<mapsto> ?q)"
    have r: "name_ref h a name f = Some ?h"
      unfolding name_ref_def holder_at[OF assms(1)] using False p by (simp add: g_def Let_def)
    have "has_name ?h name a" by (simp add: has_name_def put_with_simps update_conv')
    then have "Get ?h (the (?h a)) name = Some (f (table_at (members p) name))"
      unfolding Get_at[OF achain_update[OF assms(1) p put_with_simps(2)]] by (simp add: put_with_simps update_conv')
    moreover have "Get ?h (the (?h a)) n = Get h (the (h a)) n" if "n \<noteq> name" for n
      by (rule other[OF p]) (use that in \<open>simp_all add: put_with_simps update_conv'\<close>)
    moreover have "map_of (members (the (?h a))) = (map_of (members (the (h a))))(name \<mapsto> f (table_at (members p) name))"
      "parent (the (?h a)) = parent (the (h a))" "\<forall>c. c \<noteq> a \<longrightarrow> ?h c = h c"
      using p by (simp_all add: put_with_simps update_conv')
    ultimately show ?thesis
      using r False p by (intro exI[of _ ?h] exI[of _ a]) (simp only: old if_False option.sel, blast)
  qed
qed

text \<open>
  A default value that is shared with other objects is overwritten for all of them: the name is in
  the last of three objects, and the one between them stays as it is.
\<close>

definition shared_heap :: pheap where
  "shared_heap = [0 \<mapsto> PutInt ''limit'' 5 (new_params False), 1 \<mapsto> set_parent (Some 2) (new_params False),
     2 \<mapsto> set_parent (Some 0) (new_params False)]"

theorem name_ref_reads_back_witness:
  "\<exists>h'. name_ref shared_heap 1 ''limit'' (SetInt 9) = Some h' \<and> h' 1 = shared_heap 1 \<and> h' 2 = shared_heap 2
     \<and> map_of (members (the (h' 0))) ''limit'' = Some (SetInt 9 (SetInt 5 (new_params False)))
     \<and> Get h' (the (h' 1)) ''limit'' = Some (SetInt 9 (SetInt 5 (new_params False)))"
proof -
  have c2: "achain shared_heap 2 [0]"
    by (rule achain_link[where b = 0]) (auto simp: shared_heap_def new_params_def PutInt_def put_with_def intro: achain_root)
  have c: "achain shared_heap 1 [2, 0]"
    by (rule achain_link[OF _ _ c2]) (auto simp: shared_heap_def new_params_def)
  have g: "Get shared_heap (the (shared_heap 1)) ''limit'' = Some (SetInt 5 (new_params False))"
    unfolding Get_at[OF c] by (simp add: has_name_def shared_heap_def new_params_def PutInt_def put_with_def table_at_def)
  have v: "Valid (SetInt 5 (new_params False))"
    by (simp add: Valid_def new_params_def)
  have f: "List.find (has_name shared_heap ''limit'') [1, 2, 0] = Some 0"
    by (simp add: has_name_def shared_heap_def new_params_def PutInt_def put_with_def table_at_def)
  from name_ref_reads_back[OF c g, of "SetInt 9"] v f show ?thesis by auto
qed

end
