(* ===== verification/Rounds.thy ===== *)
theory Rounds
  imports Nested
begin

text \<open>
  The rounds of a while graph (\<open>GraphContext::OnVertexDone\<close>, \<open>ResetState\<close>), together with the graphs
  that run below it. At the end of a round the while graph resets the state of its vertices, of the
  contexts of their subgraphs (\<open>_subgraph_ctx->ResetState()\<close>), and so on downwards; a vertex that had
  started a subgraph before starts it again in the context it has (\<open>ExecuteSubGraph\<close>, first branch).
  \<open>ResetState\<close> leaves \<open>early_exist_rc_\<close> as it is: a context that ended early keeps its code.

  The state is the list of frames of \<open>Nested\<close>. A step is labelled with whether it begins another round.
\<close>

section \<open>Steps\<close>

text \<open>The log of a context starts anew with each round; what remains is the code of an early exit.\<close>

definition stored_log :: "graph_ctx \<Rightarrow> event list" where
  "stored_log gc = (if gc_early_exist_rc gc = 0 then [] else [EvEarly (gc_early_exist_rc gc)])"

definition reset_frame :: "frame \<Rightarrow> frame" where
  "reset_frame f =
    (let gc = ResetStateGraph (fr_graph f) (en_ctx (fr_engine f))
     in f\<lparr>fr_engine := \<lparr>en_ctx = gc, en_tasks = en_tasks (fr_engine f), en_log = stored_log gc\<rparr>\<rparr>)"

definition restart_frame :: "frame \<Rightarrow> frame" where
  "restart_frame f =
    (let e = fr_engine f; gc = en_ctx e
     in f\<lparr>fr_engine := e\<lparr>en_tasks := en_tasks e + mset (ExecuteReadyVertexs gc (gc_start_ctxs gc))\<rparr>\<rparr>)"

text \<open>The vertex that starts its subgraph in a step, and whether a step begins another round.\<close>

definition begins :: "nest_env \<Rightarrow> task \<Rightarrow> choice \<Rightarrow> frame \<Rightarrow> vref option" where
  "begins E t ch f =
    (case t of
       TExecute v \<Rightarrow>
         (let (gc, ts, evs) = Execute (fr_graph f) ch v (en_ctx (fr_engine f))
          in if ts = [TProcess v] \<and> ne_procs E (fr_graph f) v = None then Some v else None)
     | _ \<Rightarrow> None)"

definition next_round :: "task \<Rightarrow> choice \<Rightarrow> frame \<Rightarrow> bool" where
  "next_round t ch f = (EvLoop \<in> set (snd (snd (handle (fr_graph f) ch t (en_ctx (fr_engine f))))))"

text \<open>Frame \<open>j\<close> was started by frame \<open>i\<close>, or by one that is below it.\<close>

function below :: "frame list \<Rightarrow> nat \<Rightarrow> nat \<Rightarrow> bool" where
  "below ns i j =
    (case fr_caller (ns ! j) of
       None \<Rightarrow> False
     | Some (k, v) \<Rightarrow> if k < j then k = i \<or> below ns i k else False)"
  by pat_completeness auto
termination by (relation "measure (\<lambda>(ns, i, j). j)") auto

declare below.simps [simp del]

definition moved :: "task \<Rightarrow> choice \<Rightarrow> frame \<Rightarrow> frame" where
  "moved t ch f = f\<lparr>fr_engine := after (fr_graph f) ch t (fr_engine f)\<rparr>"

definition round_after :: "nest_env \<Rightarrow> nat \<Rightarrow> task \<Rightarrow> choice \<Rightarrow> frame list \<Rightarrow> frame list" where
  "round_after E i t ch ns =
    (let f = ns ! i; ns1 = ns[i := moved t ch f] in
     if next_round t ch f then map (\<lambda>j. if below ns i j then reset_frame (ns ! j) else ns1 ! j) [0..<length ns]
     else case begins E t ch f of
         None \<Rightarrow> ns1
       | Some v \<Rightarrow>
           if vx_subgraph_ctx (gc_ctx (en_ctx (fr_engine f)) v)
           then map (\<lambda>h. if fr_caller h = Some (i, v) then restart_frame h else h) ns1
           else ns1 @ (case subgraph_of E (fr_graph f) v of Some h \<Rightarrow> [new_frame E h (Some (i, v))] | None \<Rightarrow> []))"

inductive round_step :: "nest_env \<Rightarrow> bool \<Rightarrow> frame list \<Rightarrow> frame list \<Rightarrow> bool" for E where
  round_move: "i < length ns \<Longrightarrow> t \<in># en_tasks (fr_engine (ns ! i)) \<Longrightarrow> enabled ch t (en_ctx (fr_engine (ns ! i))) \<Longrightarrow>
    finds_as E (fr_graph (ns ! i)) t ch \<Longrightarrow> returns_as E ns i t ch \<Longrightarrow>
    round_step E (next_round t ch (ns ! i)) ns (round_after E i t ch ns)"

text \<open>The graphs of \<open>G\<close> call only each other, and never one that could call them back; they may be while graphs.\<close>

definition calls_below :: "nest_env \<Rightarrow> graph set \<Rightarrow> (graph \<Rightarrow> nat) \<Rightarrow> bool" where
  "calls_below E G rank = (\<forall>g \<in> G. runnable g
     \<and> (\<forall>v h. valid_ref g v \<longrightarrow> subgraph_of E g v = Some h \<longrightarrow> h \<in> G \<and> rank h < rank g))"

lemma calls_belowD:
  assumes "calls_below E G rank" "g \<in> G"
  shows "runnable g" "valid_ref g v \<Longrightarrow> subgraph_of E g v = Some h \<Longrightarrow> h \<in> G \<and> rank h < rank g"
  using assms unfolding calls_below_def by blast+

section \<open>One graph\<close>

text \<open>A frame runs, or has ended, in its round; or it waits, reset, for its caller to start it again.\<close>

definition live :: "nest_env \<Rightarrow> graph set \<Rightarrow> frame \<Rightarrow> bool" where
  "live E G f = (fr_graph f \<in> G \<and> inv_of (fr_graph f) (ne_procs E (fr_graph f)) (fr_engine f)
     \<and> lossless (en_tasks (fr_engine f))
     \<and> legal (fr_graph f) (gc_while_ctx (en_ctx (fr_engine f))) (en_log (fr_engine f))
     \<and> (dom (finished (en_log (fr_engine f))) = vertices (fr_graph f) \<longrightarrow> closed (en_log (fr_engine f))))"

definition idle :: "nest_env \<Rightarrow> graph set \<Rightarrow> frame \<Rightarrow> bool" where
  "idle E G f = (fr_graph f \<in> G \<and> en_tasks (fr_engine f) = {#}
     \<and> static_ok (fr_graph f) (ne_procs E (fr_graph f)) (en_ctx (fr_engine f))
     \<and> reset_ok (fr_graph f) (en_ctx (fr_engine f))
     \<and> en_log (fr_engine f) = stored_log (en_ctx (fr_engine f)))"

text \<open>A vertex that has not run in this round.\<close>

definition untouched :: "frame \<Rightarrow> vref \<Rightarrow> bool" where
  "untouched f v = (TProcess v \<notin># en_tasks (fr_engine f) \<and> vx_result (gc_ctx (en_ctx (fr_engine f)) v) = V_RESULT_INVALID)"

abbreviation has_ctx :: "frame \<Rightarrow> vref \<Rightarrow> bool" where
  "has_ctx f v \<equiv> vx_subgraph_ctx (gc_ctx (en_ctx (fr_engine f)) v)"

lemma handle_subgraph_ctx_eq:
  assumes "handle g ch t gc = (gc', ts, evs)"
  shows "vx_subgraph_ctx (gc_ctx gc' w) \<longleftrightarrow>
    vx_subgraph_ctx (gc_ctx gc w) \<or> t = TExecute w \<and> ts = [TProcess w] \<and> vx_processor (gc_ctx gc w) = None"
proof -
  let ?s = "\<lambda>gc. vx_subgraph_ctx (gc_ctx gc w)"
  have f: "?s (fst (FinishVertexProcess g v c a gc)) = ?s gc" for v c a gc
    by (simp add: FinishVertexProcess_def Let_def modify_ctx_def SetEarlyExitCode_def)
  have skip: "?s (fst (skip_vertex g v gc)) = ?s gc" for v gc
    by (simp add: skip_vertex_def Let_def case_prod_unfold f) (simp add: modify_ctx_def)
  have p: "?s (fst (ExecuteProcessor g ch v gc)) = ?s gc" for v gc
    by (simp add: ExecuteProcessor_def Let_def case_prod_unfold f)
  have sg: "?s (fst (ExecuteSubGraph g ch v gc)) \<longleftrightarrow> ?s gc \<or> v = w \<and> fst (snd (ExecuteSubGraph g ch v gc)) = [TProcess w]" for v gc
    by (auto simp: ExecuteSubGraph_def Let_def case_prod_unfold f modify_ctx_def)
  have m: "?s (modify_ctx v (\<lambda>c. c\<lparr>vx_subgraph_cluster := x\<rparr>) gc) = ?s gc" for v x gc by (simp add: modify_ctx_def)
  have mp: "vx_processor (gc_ctx (modify_ctx v (\<lambda>c. c\<lparr>vx_subgraph_cluster := x\<rparr>) gc) u) = vx_processor (gc_ctx gc u)" for u v x gc
    by (simp add: modify_ctx_def)
  have e: "?s (modify_ctx v (\<lambda>c. c\<lparr>vx_exec_rc := x\<rparr>) gc) = ?s gc" for v x gc by (simp add: modify_ctx_def)
  have s: "fst (snd (skip_vertex g v gc)) \<noteq> [TProcess u]" for u v gc
    by (simp add: skip_vertex_def Let_def case_prod_unfold)
  have x: "fst (handle g ch t gc) = gc'" "fst (snd (handle g ch t gc)) = ts" using assms by simp_all
  show ?thesis
  proof (cases t)
    case (TExecute v)
    show ?thesis unfolding x[symmetric] TExecute
      by (auto simp: Execute_def Let_def skip p m mp sg s split: if_splits)
  next
    case (TProcess v)
    show ?thesis unfolding x[symmetric] TProcess
      by (simp add: EndProcess_def Let_def case_prod_unfold f e split: op_outcome.splits)
  next
    case (TDone v)
    show ?thesis unfolding x[symmetric] TDone
      by (simp add: OnVertexDone_def Let_def case_prod_unfold ResetStateGraph_def ResetState_def)
  next
    case (TNotify v i ready)
    show ?thesis unfolding x[symmetric] TNotify
      by (simp add: Notify_def SetDependencyResult_def Let_def case_prod_unfold modify_ctx_def)
  qed (use assms in simp)
qed


lemma live_parts:
  assumes "live E G f" "calls_below E G rank"
  shows "runnable (fr_graph f)" "inv_of (fr_graph f) (ne_procs E (fr_graph f)) (fr_engine f)"
    "lossless (en_tasks (fr_engine f))" "fr_graph f \<in> G"
  using assms calls_belowD(1)[OF assms(2)] by (simp_all add: live_def)

lemma moved_simps [simp]:
  "fr_graph (moved t ch f) = fr_graph f" "fr_caller (moved t ch f) = fr_caller f"
  "fr_engine (moved t ch f) = after (fr_graph f) ch t (fr_engine f)"
  by (simp_all add: moved_def)

text \<open>A step of one frame, taken apart.\<close>

lemma moved_parts:
  assumes "live E G f" "calls_below E G rank" "t \<in># en_tasks (fr_engine f)"
  obtains rest gc ts evs where "en_tasks (fr_engine f) = add_mset t rest"
    "handle (fr_graph f) ch t (en_ctx (fr_engine f)) = (gc, ts, evs)"
    "engine_inv (fr_graph f) (ne_procs E (fr_graph f)) (en_ctx (fr_engine f)) (add_mset t rest) (en_log (fr_engine f))"
    "en_ctx (fr_engine (moved t ch f)) = gc" "en_tasks (fr_engine (moved t ch f)) = rest + mset ts"
    "en_log (fr_engine (moved t ch f)) = rev evs @ en_log (fr_engine f)" "next_round t ch f \<longleftrightarrow> EvLoop \<in> set evs"
proof -
  obtain rest where rest: "en_tasks (fr_engine f) = add_mset t rest" using assms(3) by (meson multi_member_split)
  obtain gc ts evs where h: "handle (fr_graph f) ch t (en_ctx (fr_engine f)) = (gc, ts, evs)" by (metis prod_cases3)
  show thesis by (rule that[OF rest h])
    (use live_parts(2)[OF assms(1,2)] h rest in \<open>simp_all add: after_def next_round_def\<close>)
qed

lemma live_step:
  assumes f: "live E G f" and G: "calls_below E G rank" and t: "t \<in># en_tasks (fr_engine f)"
    and en: "enabled ch t (en_ctx (fr_engine f))" and out: "ch_outcome ch \<noteq> FutureFailed"
  shows "live E G (moved t ch f)"
proof -
  note p = live_parts[OF f G]
  have st: "step (fr_graph f) (fr_engine f) (fr_engine (moved t ch f))" unfolding moved_simps using t en by (rule step.intros)
  obtain rest gc ts evs where h: "en_tasks (fr_engine f) = add_mset t rest"
    "handle (fr_graph f) ch t (en_ctx (fr_engine f)) = (gc, ts, evs)"
    "engine_inv (fr_graph f) (ne_procs E (fr_graph f)) (en_ctx (fr_engine f)) (add_mset t rest) (en_log (fr_engine f))"
    "en_tasks (fr_engine (moved t ch f)) = rest + mset ts"
    by (rule moved_parts[OF f G t, of ch]) blast
  have "lossless (en_tasks (fr_engine (moved t ch f)))"
    unfolding h(4) using handle_lossless[OF h(3,2) p(1) en out] p(3) h(1) by simp
  moreover have "legal (fr_graph f) (gc_while_ctx (en_ctx (fr_engine (moved t ch f)))) (en_log (fr_engine (moved t ch f)))"
    using step_legal[OF p(2,1) st] f by (simp add: live_def)
  moreover have "closed (en_log (fr_engine (moved t ch f)))"
    if "dom (finished (en_log (fr_engine (moved t ch f)))) = vertices (fr_graph f)"
    using step_all_done[OF p(2,1) st _ that] f by (simp add: live_def)
  ultimately show ?thesis unfolding live_def using p(4) step_inv[OF p(2,1) st] by simp
qed

lemma loop_task:
  assumes inv: "engine_inv g procs gc (add_mset t rest) l" and g: "runnable g"
    and run: "handle g ch t gc = (gc', ts, evs)" and loop: "EvLoop \<in> set evs"
  obtains v where "t = TDone v" "rest = {#}" "gc' = ResetStateGraph g (gc\<lparr>gc_join_vertex_num := gc_join_vertex_num gc - 1\<rparr>)"
    "mset ts = mset (map TExecute (gc_start_ctxs gc'))"
proof -
  have q: False if "t \<in> {TExecute v, TProcess v}" for v
    using handle_run[OF inv that run] loop by (auto simp: run_effect_def quiet_def)
  show thesis
  proof (cases t)
    case (TDone v)
    have x: "OnVertexDone g v gc = (gc', ts, evs)" using run TDone by simp
    from inv[unfolded TDone] g x show thesis
    proof (cases rule: OnVertexDone_cases)
      case 1
      then have "rev evs = [EvFinish v (vx_result (gc_ctx gc v)) (vx_code (gc_ctx gc v))]"
        using append_same_eq[of "rev evs" l "[EvFinish v (vx_result (gc_ctx gc v)) (vx_code (gc_ctx gc v))]"] by simp
      then have "set evs = {EvFinish v (vx_result (gc_ctx gc v)) (vx_code (gc_ctx gc v))}" by (metis list.set set_rev)
      with loop show thesis by simp
    next
      case 2
      then show thesis using that TDone by simp
    next
      case 3
      let ?k = "[EvDone (gc_early_exist_rc gc), EvFinish v (vx_result (gc_ctx gc v)) (vx_code (gc_ctx gc v))]"
      have "rev evs = ?k" using append_same_eq[of "rev evs" l ?k] 3(6) by simp
      then have "set evs = set ?k" by (metis set_rev)
      with loop show thesis by simp
    qed
  next
    case (TNotify v i ready)
    with run have "evs = []" by (auto simp: Notify_def Let_def split: prod.splits if_splits)
    with loop show thesis by simp
  next
    case (TLost v)
    with run loop show thesis by simp
  qed (use q in blast)+
qed


lemma begins_iff:
  "begins E t ch f = Some v \<longleftrightarrow> t = TExecute v \<and> ne_procs E (fr_graph f) v = None
    \<and> fst (snd (handle (fr_graph f) ch t (en_ctx (fr_engine f)))) = [TProcess v]"
  by (auto simp: begins_def split: task.splits prod.splits if_splits)

text \<open>Another round: nothing runs below the while graph, and all of its vertices wait again.\<close>

lemma next_round_facts:
  assumes f: "live E G f" and G: "calls_below E G rank" and t: "t \<in># en_tasks (fr_engine f)"
    and n: "next_round t ch f"
  shows "TProcess v \<notin># en_tasks (fr_engine f)" "TProcess v \<notin># en_tasks (fr_engine (moved t ch f))"
    "valid_ref (fr_graph f) v \<Longrightarrow> untouched (moved t ch f) v" "has_ctx (moved t ch f) v = has_ctx f v"
proof -
  note p = live_parts[OF f G]
  obtain rest gc ts evs where h: "en_tasks (fr_engine f) = add_mset t rest"
    "handle (fr_graph f) ch t (en_ctx (fr_engine f)) = (gc, ts, evs)"
    "engine_inv (fr_graph f) (ne_procs E (fr_graph f)) (en_ctx (fr_engine f)) (add_mset t rest) (en_log (fr_engine f))"
    "en_ctx (fr_engine (moved t ch f)) = gc"
    "en_tasks (fr_engine (moved t ch f)) = rest + mset ts" "EvLoop \<in> set evs"
    by (rule moved_parts[OF f G t, of ch]) (use n in blast)
  obtain u where u: "t = TDone u" "rest = {#}"
    "gc = ResetStateGraph (fr_graph f) ((en_ctx (fr_engine f))\<lparr>gc_join_vertex_num := gc_join_vertex_num (en_ctx (fr_engine f)) - 1\<rparr>)"
    "mset ts = mset (map TExecute (gc_start_ctxs gc))"
    by (rule loop_task[OF h(3) p(1) h(2,6)])
  show "TProcess v \<notin># en_tasks (fr_engine f)" by (simp add: h(1) u(1,2))
  show no: "TProcess v \<notin># en_tasks (fr_engine (moved t ch f))" unfolding h(5) u(2,4) by auto
  have "static_ok (fr_graph f) (ne_procs E (fr_graph f)) ((en_ctx (fr_engine f))\<lparr>gc_join_vertex_num := gc_join_vertex_num (en_ctx (fr_engine f)) - 1\<rparr>)"
    using engine_invD(1)[OF h(3)] by (simp add: static_ok_def)
  then have "reset_ok (fr_graph f) gc" unfolding u(3) by (rule ResetStateGraph_ok(2)[OF p(1)])
  then show "valid_ref (fr_graph f) v \<Longrightarrow> untouched (moved t ch f) v"
    using no by (simp only: untouched_def h(4)) (simp add: reset_ok_def)
  show "has_ctx (moved t ch f) v = has_ctx f v" using handle_subgraph_ctx_eq[OF h(2), of v] by (simp only: h(4)) (simp add: u(1))
qed

text \<open>The while vertex of a graph that begins another round has ended with code 0.\<close>

lemma next_round_code:
  assumes f: "live E G f" and G: "calls_below E G rank" and t: "t \<in># en_tasks (fr_engine f)"
    and n: "next_round t ch f"
  obtains w where "gc_while_ctx (en_ctx (fr_engine f)) = Some w" "vx_code (gc_ctx (en_ctx (fr_engine f)) w) = 0"
    "vx_result (gc_ctx (en_ctx (fr_engine f)) w) \<noteq> V_RESULT_INVALID" "valid_ref (fr_graph f) w"
proof -
  note p = live_parts[OF f G]
  let ?g = "fr_graph f" and ?gc = "en_ctx (fr_engine f)" and ?l = "en_log (fr_engine f)"
  obtain rest gc ts evs where h: "handle ?g ch t ?gc = (gc, ts, evs)"
    "engine_inv ?g (ne_procs E ?g) ?gc (add_mset t rest) ?l" "EvLoop \<in> set evs"
    by (rule moved_parts[OF f G t, of ch]) (use n in blast)
  obtain v where v: "t = TDone v" by (rule loop_task[OF h(2) p(1) h(1,3)])
  have x: "OnVertexDone ?g v ?gc = (gc, ts, evs)" using h(1) v by simp
  have good: "vx_result (gc_ctx ?gc w) \<noteq> V_RESULT_INVALID" if "valid_ref ?g w" "w = v \<or> finished ?l w \<noteq> None" for w
    using engine_invD(6)[OF h(2)] that v
    by (auto simp: results_ok_def result_ok_def good_result_def split: option.splits if_splits dest!: spec[of _ w])
  have again: "while_again ?gc \<and> dom (finished (EvFinish v (vx_result (gc_ctx ?gc v)) (vx_code (gc_ctx ?gc v)) # ?l)) = vertices ?g"
    using h(2)[unfolded v] p(1) x
  proof (cases rule: OnVertexDone_cases)
    case 1
    then have "rev evs = [EvFinish v (vx_result (gc_ctx ?gc v)) (vx_code (gc_ctx ?gc v))]"
      using append_same_eq[of "rev evs" ?l "[EvFinish v (vx_result (gc_ctx ?gc v)) (vx_code (gc_ctx ?gc v))]"] by simp
    then have "set evs = {EvFinish v (vx_result (gc_ctx ?gc v)) (vx_code (gc_ctx ?gc v))}" by (metis list.set set_rev)
    with h(3) show ?thesis by simp
  next
    case 2
    have "while_again (gc0\<lparr>gc_join_vertex_num := k\<rparr>) = while_again gc0" for gc0 :: graph_ctx and k
      by (simp add: while_again_def split: option.split)
    with 2(1,2) show ?thesis by simp
  next
    case 3
    let ?k = "[EvDone (gc_early_exist_rc ?gc), EvFinish v (vx_result (gc_ctx ?gc v)) (vx_code (gc_ctx ?gc v))]"
    have "rev evs = ?k" using append_same_eq[of "rev evs" ?l ?k] 3(6) by simp
    then have "set evs = set ?k" by (metis set_rev)
    with h(3) show ?thesis by simp
  qed
  obtain w where w: "gc_while_ctx ?gc = Some w" "vx_code (gc_ctx ?gc w) = 0"
    using again by (auto simp: while_again_def split: option.splits)
  have vw: "valid_ref ?g w" using engine_invD(1)[OF h(2)] w(1) by (simp add: static_ok_def)
  have "w \<in> vertices ?g" using vw by simp
  then have "w \<in> dom (finished (EvFinish v (vx_result (gc_ctx ?gc v)) (vx_code (gc_ctx ?gc v)) # ?l))"
    using conjunct2[OF again] by (simp only:)
  then have "w = v \<or> finished ?l w \<noteq> None" by (auto split: if_splits)
  then show thesis using that[OF w good[OF vw] vw] by blast
qed

text \<open>A step leaves the results of a vertex alone, unless it executes or ends that vertex.\<close>

lemma vertex_kept:
  assumes f: "live E G f" and G: "calls_below E G rank" and t: "t \<in># en_tasks (fr_engine f)"
    and en: "enabled ch t (en_ctx (fr_engine f))" and n: "\<not> next_round t ch f"
    and u: "t \<noteq> TExecute u" "t \<noteq> TProcess u"
  shows "vx_result (gc_ctx (en_ctx (fr_engine (moved t ch f))) u) = vx_result (gc_ctx (en_ctx (fr_engine f)) u)"
    "vx_code (gc_ctx (en_ctx (fr_engine (moved t ch f))) u) = vx_code (gc_ctx (en_ctx (fr_engine f)) u)"
    "TProcess u \<in># en_tasks (fr_engine (moved t ch f)) \<longleftrightarrow> TProcess u \<in># en_tasks (fr_engine f)"
proof -
  note p = live_parts[OF f G]
  let ?g = "fr_graph f" and ?gc = "en_ctx (fr_engine f)"
  obtain rest gc ts evs where h: "en_tasks (fr_engine f) = add_mset t rest"
    "handle ?g ch t ?gc = (gc, ts, evs)"
    "engine_inv ?g (ne_procs E ?g) ?gc (add_mset t rest) (en_log (fr_engine f))"
    "en_ctx (fr_engine (moved t ch f)) = gc"
    "en_tasks (fr_engine (moved t ch f)) = rest + mset ts" "EvLoop \<notin> set evs"
    by (rule moved_parts[OF f G t, of ch]) (use n in blast)
  have run: "vx_result (gc_ctx gc u) = vx_result (gc_ctx ?gc u) \<and> vx_code (gc_ctx gc u) = vx_code (gc_ctx ?gc u) \<and> TProcess u \<notin> set ts"
    if tv: "t \<in> {TExecute v, TProcess v}" for v
    using handle_run[OF h(3) tv h(2)] u tv by (auto simp: run_effect_def next_task_def local_effect_def)
  have main: "vx_result (gc_ctx gc u) = vx_result (gc_ctx ?gc u) \<and> vx_code (gc_ctx gc u) = vx_code (gc_ctx ?gc u) \<and> TProcess u \<notin> set ts"
  proof (cases t)
    case (TDone v)
    have x: "OnVertexDone ?g v ?gc = (gc, ts, evs)" using h(2) TDone by simp
    from h(3)[unfolded TDone] p(1) x show ?thesis
    proof (cases rule: OnVertexDone_cases)
      case 1
      have "TProcess u \<notin># mset ts" unfolding 1(3) by simp
      then have "TProcess u \<notin> set ts" by simp
      then show ?thesis using 1(2) by simp
    next
      case 2
      have "EvLoop \<in> set (rev evs)"
        using append_same_eq[of "rev evs" "en_log (fr_engine f)" "[EvLoop, EvFinish v (vx_result (gc_ctx ?gc v)) (vx_code (gc_ctx ?gc v))]"] 2(6)
        by simp
      with h(6) show ?thesis by simp
    qed simp
  next
    case (TNotify v i ready)
    have x: "Notify v i ready ?gc = (gc, ts, evs)" using h(2) TNotify by simp
    note pre = notify_pre[OF h(3)[unfolded TNotify] runnable_edges[OF p(1)]]
    obtain w k r ready' where e: "gc = modify_ctx w (\<lambda>c. c\<lparr>vx_deps_results := (vx_deps_results c)[k := r],
        vx_waiting_num := vx_waiting_num c - 1\<rparr>) ?gc" "mset ts = told_tasks ?g v i ready'"
      using Notify_effect[OF h(3)[unfolded TNotify] runnable_edges[OF p(1)] x] by blast
    have "TProcess u \<notin># mset ts" unfolding e(2) using told_tasks_simps(5)[OF pre(5)] .
    then show ?thesis by (simp add: e(1) modify_ctx_def)
  next
    case (TLost v)
    with en show ?thesis by simp
  qed (use run in blast)+
  then show "vx_result (gc_ctx (en_ctx (fr_engine (moved t ch f))) u) = vx_result (gc_ctx ?gc u)"
    "vx_code (gc_ctx (en_ctx (fr_engine (moved t ch f))) u) = vx_code (gc_ctx ?gc u)" unfolding h(4) by blast+
  show "TProcess u \<in># en_tasks (fr_engine (moved t ch f)) \<longleftrightarrow> TProcess u \<in># en_tasks (fr_engine f)"
    unfolding h(1,5) using main u by auto
qed

text \<open>Any other step changes what one vertex does.\<close>

lemma step_facts:
  assumes f: "live E G f" and G: "calls_below E G rank" and t: "t \<in># en_tasks (fr_engine f)"
    and en: "enabled ch t (en_ctx (fr_engine f))" and out: "ch_outcome ch \<noteq> FutureFailed" and n: "\<not> next_round t ch f"
    and u: "valid_ref (fr_graph f) u" "ne_procs E (fr_graph f) u = None"
  shows "has_ctx (moved t ch f) u \<longleftrightarrow> has_ctx f u \<or> begins E t ch f = Some u"
    and "TProcess u \<in># en_tasks (fr_engine (moved t ch f)) \<longleftrightarrow>
      TProcess u \<in># en_tasks (fr_engine f) \<and> t \<noteq> TProcess u \<or> begins E t ch f = Some u"
    and "untouched (moved t ch f) u \<Longrightarrow> untouched f u"
    and "begins E t ch f = Some u \<Longrightarrow> untouched f u"
proof -
  note p = live_parts[OF f G]
  obtain rest gc ts evs where h: "en_tasks (fr_engine f) = add_mset t rest"
    "handle (fr_graph f) ch t (en_ctx (fr_engine f)) = (gc, ts, evs)"
    "engine_inv (fr_graph f) (ne_procs E (fr_graph f)) (en_ctx (fr_engine f)) (add_mset t rest) (en_log (fr_engine f))"
    "en_ctx (fr_engine (moved t ch f)) = gc"
    "en_tasks (fr_engine (moved t ch f)) = rest + mset ts" "EvLoop \<notin> set evs"
    by (rule moved_parts[OF f G t, of ch]) (use n in blast)
  let ?g = "fr_graph f" and ?gc = "en_ctx (fr_engine f)"
  have b: "begins E t ch f = Some u \<longleftrightarrow> t = TExecute u \<and> ts = [TProcess u]" using u(2) h(2) by (simp add: begins_iff)
  have pr: "vx_processor (gc_ctx ?gc u) = None" using engine_invD(1)[OF h(3)] u by (simp add: static_ok_def)
  show "has_ctx (moved t ch f) u \<longleftrightarrow> has_ctx f u \<or> begins E t ch f = Some u"
    unfolding h(4) b handle_subgraph_ctx_eq[OF h(2)] using pr by simp
  have task: "task_ok ?g (en_log (fr_engine f)) t" using engine_invD(5)[OF h(3)] by (simp add: tasks_ok_def)
  have single: "TProcess u \<notin># rest" if "t \<in> {TExecute u, TProcess u}"
  proof -
    have "tokens u rest = 0" using single_token(4)[OF h(3) u(1)] that by auto
    then show ?thesis by (rule no_token) simp
  qed
  have run: "\<exists>t'. ts = [t'] \<and> t' \<in> {TProcess v, TDone v} \<and> (u \<noteq> v \<longrightarrow> gc_ctx gc u = gc_ctx ?gc u)
      \<and> vx_result (gc_ctx ?gc v) = V_RESULT_INVALID
      \<and> (t' = TDone v \<longrightarrow> vx_result (gc_ctx gc v) \<noteq> V_RESULT_INVALID) \<and> (t = TProcess v \<longrightarrow> t' \<noteq> TProcess v)"
    if tv: "t \<in> {TExecute v, TProcess v}" for v
  proof -
    obtain t' where t': "ts = [t']" "run_effect v ?gc gc t' evs" "t = TProcess v \<longrightarrow> t' \<noteq> TProcess v"
      using handle_run[OF h(3) tv h(2)] by blast
    have "lossless (rest + mset ts)" using handle_lossless[OF h(3,2) p(1) en out] p(3) h(1) by simp
    then have "t' \<noteq> TLost v" using t'(1) by (auto simp: lossless_def)
    then show ?thesis using t' running_invalid[OF h(3) tv]
      by (auto simp: run_effect_def next_task_def local_effect_def good_result_def split: if_splits)
  qed
  show "TProcess u \<in># en_tasks (fr_engine (moved t ch f)) \<longleftrightarrow>
      TProcess u \<in># en_tasks (fr_engine f) \<and> t \<noteq> TProcess u \<or> begins E t ch f = Some u"
    unfolding h(1,5) b
  proof (cases "\<exists>v. t \<in> {TExecute v, TProcess v}")
    case True
    then obtain v where v: "t \<in> {TExecute v, TProcess v}" by blast
    then show "TProcess u \<in># rest + mset ts \<longleftrightarrow> TProcess u \<in># add_mset t rest \<and> t \<noteq> TProcess u \<or> t = TExecute u \<and> ts = [TProcess u]"
      using run[OF v] single by (cases "u = v") auto
  next
    case False
    then have other: "t \<noteq> TProcess u" "t \<noteq> TExecute u" by blast+
    then show "TProcess u \<in># rest + mset ts \<longleftrightarrow> TProcess u \<in># add_mset t rest \<and> t \<noteq> TProcess u \<or> t = TExecute u \<and> ts = [TProcess u]"
      using vertex_kept(3)[OF f G t en n other(2,1)] unfolding h(1,5) by blast
  qed
  show "untouched f u" if "untouched (moved t ch f) u"
  proof (cases "\<exists>v. t \<in> {TExecute v, TProcess v}")
    case True
    then obtain v where v: "t \<in> {TExecute v, TProcess v}" by blast
    show ?thesis
      using that run[OF v] v unfolding untouched_def h(1,4,5) by (cases "u = v") auto
  next
    case False
    then have other: "t \<noteq> TExecute u" "t \<noteq> TProcess u" by blast+
    show ?thesis using that vertex_kept(1,3)[OF f G t en n other] unfolding untouched_def by simp
  qed
  show "untouched f u" if "begins E t ch f = Some u"
    using that single running_invalid[OF h(3), of u] unfolding untouched_def h(1) b by auto
qed

end
