(* ===== verification/RoundsInv.thy ===== *)
theory RoundsInv
  imports Rounds
begin

text \<open>
  The graphs of a nest, through all rounds: the invariant that ties the state of a frame to that of
  the vertex that started it, and what follows from it.
\<close>

section \<open>Resetting and starting again\<close>

lemma stored_log_simps [simp]:
  "finished (stored_log gc) = Map.empty" "started (stored_log gc) = {}"
  "early_code (stored_log gc) = gc_early_exist_rc gc" "\<not> closed (stored_log gc)" "legal g wh (stored_log gc)"
  by (simp_all add: stored_log_def)

lemma reset_frame_simps [simp]:
  "fr_graph (reset_frame f) = fr_graph f" "fr_caller (reset_frame f) = fr_caller f"
  "en_tasks (fr_engine (reset_frame f)) = en_tasks (fr_engine f)" "has_ctx (reset_frame f) v = has_ctx f v"
  by (simp_all add: reset_frame_def Let_def ResetStateGraph_def ResetState_def)

lemma restart_frame_simps [simp]:
  "fr_graph (restart_frame f) = fr_graph f" "fr_caller (restart_frame f) = fr_caller f"
  "en_ctx (fr_engine (restart_frame f)) = en_ctx (fr_engine f)" "en_log (fr_engine (restart_frame f)) = en_log (fr_engine f)"
  by (simp_all add: restart_frame_def Let_def)

lemma reset_idle:
  assumes f: "live E G f \<or> idle E G f" and G: "calls_below E G rank" and ts: "en_tasks (fr_engine f) = {#}"
  shows "idle E G (reset_frame f)"
proof -
  have inG: "fr_graph f \<in> G" and st: "static_ok (fr_graph f) (ne_procs E (fr_graph f)) (en_ctx (fr_engine f))"
    using f engine_invD(1) by (auto simp: live_def idle_def)
  show ?thesis
    using ResetStateGraph_ok(1,2)[OF calls_belowD(1)[OF G inG] st] inG ts
    by (simp add: idle_def) (simp add: reset_frame_def Let_def)
qed

lemma idle_start:
  assumes f: "idle E G f" and G: "calls_below E G rank"
  shows "en_tasks (fr_engine (restart_frame f)) = mset (map TExecute (gc_start_ctxs (en_ctx (fr_engine f))))"
    "live E G (restart_frame f)"
proof -
  let ?gc = "en_ctx (fr_engine f)" and ?g = "fr_graph f"
  have st: "static_ok ?g (ne_procs E ?g) ?gc" "reset_ok ?g ?gc" "en_log (fr_engine f) = stored_log ?gc"
    "en_tasks (fr_engine f) = {#}" "?g \<in> G" using f by (simp_all add: idle_def)
  show ts: "en_tasks (fr_engine (restart_frame f)) = mset (map TExecute (gc_start_ctxs ?gc))"
    using start_tasks[OF st(1)] st(4) by (simp add: restart_frame_def Let_def)
  have "inv_of ?g (ne_procs E ?g) (fr_engine (restart_frame f))"
    unfolding ts restart_frame_simps by (rule round_inv[OF st(1,2)]) (simp_all add: st(3))
  moreover have "{} \<noteq> vertices ?g" using vertices_nonempty[OF calls_belowD(1)[OF G st(5)]] by blast
  ultimately show "live E G (restart_frame f)"
    unfolding live_def using st(3,5) lossless_executes[of "gc_start_ctxs ?gc"] ts by simp
qed

lemma new_frame_facts:
  assumes G: "calls_below E G rank" and g: "g \<in> G"
  shows "live E G (new_frame E g c)" "TProcess v \<notin># en_tasks (fr_engine (new_frame E g c))"
    "valid_ref g v \<Longrightarrow> \<not> has_ctx (new_frame E g c) v" "fr_graph (new_frame E g c) = g" "fr_caller (new_frame E g c) = c"
proof -
  note r = calls_belowD(1)[OF G g]
  obtain gc where gc: "SetupContexts g (ne_procs E g) = Some gc" using SetupContexts_total[OF r] by blast
  note ok = SetupContexts_ok[OF r gc]
  have ts: "en_tasks (start gc) = mset (map TExecute (gc_start_ctxs gc))" using start_tasks[OF ok(1)] by (simp add: start_def)
  have e: "fr_engine (new_frame E g c) = start gc" by (simp add: new_frame_def gc)
  have "{} \<noteq> vertices g" using vertices_nonempty[OF r] by blast
  then show "live E G (new_frame E g c)"
    unfolding live_def e using start_inv[OF r gc] lossless_executes[of "gc_start_ctxs gc"] g ts
    by (simp add: new_frame_def) (simp add: start_def)
  show "TProcess v \<notin># en_tasks (fr_engine (new_frame E g c))" unfolding e ts by auto
  show "\<not> has_ctx (new_frame E g c) v" if "valid_ref g v"
  proof -
    from gc obtain gc1 where "gc = ResetGraph g gc1"
      unfolding SetupContexts_def Let_def by (auto simp: bind_eq_Some_conv split: if_splits)
    moreover have "v \<in> set (gc_vertexs gc)" using ok(1) that by (simp add: static_ok_def)
    ultimately show ?thesis unfolding e start_def by (auto simp: ResetGraph_def ResetVertex_def)
  qed
  show "fr_graph (new_frame E g c) = g" "fr_caller (new_frame E g c) = c" by (simp_all add: new_frame_def)
qed

section \<open>All graphs together\<close>

text \<open>What holds between a vertex \<open>v\<close> of a frame and the frame \<open>h\<close> of its subgraph.\<close>

definition child_ok :: "nest_env \<Rightarrow> graph set \<Rightarrow> frame \<Rightarrow> vref \<Rightarrow> frame \<Rightarrow> bool" where
  "child_ok E G f v h = (valid_ref (fr_graph f) v \<and> ne_procs E (fr_graph f) v = None
     \<and> subgraph_of E (fr_graph f) v = Some (fr_graph h) \<and> has_ctx f v
     \<and> (if TProcess v \<in># en_tasks (fr_engine f) then live E G h else en_tasks (fr_engine h) = {#})
     \<and> (untouched f v \<longrightarrow> idle E G h))"

definition called_ok :: "nest_env \<Rightarrow> graph set \<Rightarrow> frame list \<Rightarrow> nat \<Rightarrow> bool" where
  "called_ok E G ns j = (\<exists>i v. i < j \<and> fr_caller (ns ! j) = Some (i, v) \<and> child_ok E G (ns ! i) v (ns ! j))"

definition rounds_inv :: "nest_env \<Rightarrow> graph set \<Rightarrow> frame list \<Rightarrow> bool" where
  "rounds_inv E G ns = (ns \<noteq> [] \<and> live E G (ns ! 0) \<and> fr_caller (ns ! 0) = None \<and> distinct (map fr_caller ns)
     \<and> (\<forall>i < length ns. live E G (ns ! i) \<or> idle E G (ns ! i))
     \<and> (\<forall>j < length ns. j \<noteq> 0 \<longrightarrow> called_ok E G ns j)
     \<and> (\<forall>i < length ns. \<forall>v. valid_ref (fr_graph (ns ! i)) v \<longrightarrow> has_ctx (ns ! i) v \<longrightarrow>
          (\<exists>j < length ns. fr_caller (ns ! j) = Some (i, v)))
     \<and> (\<forall>i < length ns. \<forall>v. TProcess v \<in># en_tasks (fr_engine (ns ! i)) \<longrightarrow> ne_procs E (fr_graph (ns ! i)) v = None \<longrightarrow>
          has_ctx (ns ! i) v))"

lemma rounds_invD:
  assumes "rounds_inv E G ns"
  shows "ns \<noteq> []" "live E G (ns ! 0)" "fr_caller (ns ! 0) = None" "distinct (map fr_caller ns)"
    "i < length ns \<Longrightarrow> live E G (ns ! i) \<or> idle E G (ns ! i)"
    "j < length ns \<Longrightarrow> j \<noteq> 0 \<Longrightarrow> called_ok E G ns j"
    "i < length ns \<Longrightarrow> valid_ref (fr_graph (ns ! i)) v \<Longrightarrow> has_ctx (ns ! i) v \<Longrightarrow>
      \<exists>j < length ns. fr_caller (ns ! j) = Some (i, v)"
    "i < length ns \<Longrightarrow> TProcess v \<in># en_tasks (fr_engine (ns ! i)) \<Longrightarrow> ne_procs E (fr_graph (ns ! i)) v = None \<Longrightarrow>
      has_ctx (ns ! i) v"
  using assms unfolding rounds_inv_def by blast+

lemma rounds_child:
  assumes "rounds_inv E G ns" "j < length ns" "fr_caller (ns ! j) = Some (i, v)"
  shows "i < j" "child_ok E G (ns ! i) v (ns ! j)"
proof -
  have "j \<noteq> 0" using assms(3) rounds_invD(3)[OF assms(1)] by (cases j) auto
  then show "i < j" "child_ok E G (ns ! i) v (ns ! j)"
    using rounds_invD(6)[OF assms(1,2)] assms(3) by (auto simp: called_ok_def)
qed

lemma caller_unique:
  assumes "rounds_inv E G ns" "j < length ns" "k < length ns" "fr_caller (ns ! j) = fr_caller (ns ! k)"
  shows "j = k"
  using rounds_invD(4)[OF assms(1)] assms(2-4) by (simp add: distinct_conv_nth) metis

text \<open>A frame with a task is running, and so is the vertex that started it.\<close>

lemma busy_live:
  assumes "rounds_inv E G ns" "i < length ns" "en_tasks (fr_engine (ns ! i)) \<noteq> {#}"
  shows "live E G (ns ! i)"
  using rounds_invD(5)[OF assms(1,2)] assms(3) by (auto simp: idle_def)

lemma task_live:
  assumes "rounds_inv E G ns" "i < length ns" "t \<in># en_tasks (fr_engine (ns ! i))"
  shows "live E G (ns ! i)"
proof -
  have "en_tasks (fr_engine (ns ! i)) \<noteq> {#}" using assms(3) by auto
  then show ?thesis by (rule busy_live[OF assms(1,2)])
qed

lemma busy_caller:
  assumes "rounds_inv E G ns" "j < length ns" "en_tasks (fr_engine (ns ! j)) \<noteq> {#}" "fr_caller (ns ! j) = Some (i, v)"
  shows "TProcess v \<in># en_tasks (fr_engine (ns ! i))" "\<not> untouched (ns ! i) v"
  using rounds_child(2)[OF assms(1,2,4)] assms(3) by (auto simp: child_ok_def untouched_def split: if_splits)

text \<open>A step that keeps the frames and their calls.\<close>

lemma same_shape_inv:
  assumes inv: "rounds_inv E G ns" and len: "length ns' = length ns"
    and shape: "\<And>j. j < length ns \<Longrightarrow> fr_caller (ns' ! j) = fr_caller (ns ! j) \<and> fr_graph (ns' ! j) = fr_graph (ns ! j)"
    and ctx: "\<And>j v. j < length ns \<Longrightarrow> valid_ref (fr_graph (ns ! j)) v \<Longrightarrow> has_ctx (ns' ! j) v \<Longrightarrow> has_ctx (ns ! j) v"
    and frames: "\<And>j. j < length ns \<Longrightarrow> live E G (ns' ! j) \<or> idle E G (ns' ! j)" and root: "live E G (ns' ! 0)"
    and children: "\<And>j i v. j < length ns \<Longrightarrow> i < j \<Longrightarrow> fr_caller (ns ! j) = Some (i, v) \<Longrightarrow>
      child_ok E G (ns ! i) v (ns ! j) \<Longrightarrow> child_ok E G (ns' ! i) v (ns' ! j)"
    and runs: "\<And>j v. j < length ns \<Longrightarrow> TProcess v \<in># en_tasks (fr_engine (ns' ! j)) \<Longrightarrow>
      ne_procs E (fr_graph (ns ! j)) v = None \<Longrightarrow> has_ctx (ns' ! j) v"
  shows "rounds_inv E G ns'"
proof -
  note d = rounds_invD[OF inv]
  have "map fr_caller ns' = map fr_caller ns" using len shape by (intro nth_equalityI) auto
  then have "distinct (map fr_caller ns')" using d(4) by simp
  moreover have "called_ok E G ns' j" if j: "j < length ns'" "j \<noteq> 0" for j
  proof -
    obtain i v where c: "i < j" "fr_caller (ns ! j) = Some (i, v)" "child_ok E G (ns ! i) v (ns ! j)"
      using d(6)[of j] j len by (auto simp: called_ok_def)
    then show ?thesis using children[OF _ c] shape[of j] j len by (auto simp: called_ok_def)
  qed
  moreover have "\<exists>j < length ns'. fr_caller (ns' ! j) = Some (i, v)"
    if iv: "i < length ns'" "valid_ref (fr_graph (ns' ! i)) v" "has_ctx (ns' ! i) v" for i v
  proof -
    have "\<exists>j < length ns. fr_caller (ns ! j) = Some (i, v)" using d(7)[of i v] ctx[of i v] shape[of i] iv len by simp
    then show ?thesis using shape len by auto
  qed
  moreover have "ns' \<noteq> []" "fr_caller (ns' ! 0) = None" using d(1,3) shape[of 0] len by auto
  ultimately show ?thesis unfolding rounds_inv_def using frames root runs shape len by auto
qed


section \<open>Every step keeps the invariant\<close>

lemma below_less: "below ns i j \<Longrightarrow> i < j"
proof (induction j rule: less_induct)
  case (less j)
  show ?case using less.prems less.IH
    by (subst (asm) below.simps) (fastforce split: option.splits prod.splits if_splits)
qed

lemma below_caller: "fr_caller (ns ! j) = Some (k, v) \<Longrightarrow> k < j \<Longrightarrow> below ns i j \<longleftrightarrow> k = i \<or> below ns i k"
  by (subst below.simps) simp

lemma next_round_tasks:
  assumes inv: "rounds_inv E G ns" and G: "calls_below E G rank" and i: "i < length ns"
    and t: "t \<in># en_tasks (fr_engine (ns ! i))" and n: "next_round t ch (ns ! i)"
  shows "j < length ns \<Longrightarrow> below ns i j \<Longrightarrow> en_tasks (fr_engine (ns ! j)) = {#}"
proof (induction j rule: less_induct)
  case (less j)
  have f: "live E G (ns ! i)" by (rule task_live[OF inv i t])
  have "j \<noteq> 0" using below_less[OF less.prems(2)] by simp
  then obtain k v where c: "k < j" "fr_caller (ns ! j) = Some (k, v)" "child_ok E G (ns ! k) v (ns ! j)"
    using rounds_invD(6)[OF inv less.prems(1)] by (auto simp: called_ok_def)
  have "TProcess v \<notin># en_tasks (fr_engine (ns ! k))"
  proof (cases "k = i")
    case True
    then show ?thesis using next_round_facts(1)[OF f G t n] by simp
  next
    case False
    then have "below ns i k" using below_caller[OF c(2,1)] less.prems(2) by simp
    then show ?thesis using less.IH[OF c(1)] c(1) less.prems(1) by simp
  qed
  then show ?case using c(3) by (simp add: child_ok_def)
qed

text \<open>Another round.\<close>

lemma loop_keeps:
  assumes inv: "rounds_inv E G ns" and G: "calls_below E G rank" and i: "i < length ns"
    and t: "t \<in># en_tasks (fr_engine (ns ! i))" and en: "enabled ch t (en_ctx (fr_engine (ns ! i)))"
    and out: "ch_outcome ch \<noteq> FutureFailed" and n: "next_round t ch (ns ! i)"
  shows "rounds_inv E G (round_after E i t ch ns)"
proof -
  let ?f = "ns ! i" and ?m = "moved t ch (ns ! i)"
  define ns' where "ns' = round_after E i t ch ns"
  have f: "live E G ?f" by (rule task_live[OF inv i t])
  have m: "live E G ?m" by (rule live_step[OF f G t en out])
  have len: "length ns' = length ns" using n by (simp add: ns'_def round_after_def Let_def)
  have at: "ns' ! j = (if below ns i j then reset_frame (ns ! j) else if j = i then ?m else ns ! j)" if "j < length ns" for j
    using n that i by (simp add: ns'_def round_after_def Let_def)
  have self: "\<not> below ns i i" using below_less by blast
  note quiet = next_round_tasks[OF inv G i t n] and new = next_round_facts[OF f G t n]
  have idle_below: "idle E G (reset_frame (ns ! j))" if "below ns i j" "j < length ns" for j
    using reset_idle[OF rounds_invD(5)[OF inv that(2)] G quiet[OF that(2,1)]] .
  have "rounds_inv E G ns'"
  proof (rule same_shape_inv[OF inv len])
    show "fr_caller (ns' ! j) = fr_caller (ns ! j) \<and> fr_graph (ns' ! j) = fr_graph (ns ! j)" if "j < length ns" for j
      using at[OF that] by simp
    show "has_ctx (ns ! j) v" if "j < length ns" "valid_ref (fr_graph (ns ! j)) v" "has_ctx (ns' ! j) v" for j v
      using that(3) new(4)[of v] unfolding at[OF that(1)] by (auto split: if_splits)
    show "live E G (ns' ! j) \<or> idle E G (ns' ! j)" if "j < length ns" for j
      using idle_below[OF _ that] m rounds_invD(5)[OF inv that] unfolding at[OF that] by auto
    show "live E G (ns' ! 0)"
      using m rounds_invD(1,2)[OF inv] below_less[of ns i 0] by (auto simp: at)
    show "has_ctx (ns' ! j) v" if j: "j < length ns" and v: "TProcess v \<in># en_tasks (fr_engine (ns' ! j))"
      "ne_procs E (fr_graph (ns ! j)) v = None" for j v
      using v(1) quiet[OF j] new(2)[of v] rounds_invD(8)[OF inv j _ v(2)] unfolding at[OF j]
      by (simp split: if_splits)
    show "child_ok E G (ns' ! k) v (ns' ! j)"
      if j: "j < length ns" and k: "k < j" and c: "fr_caller (ns ! j) = Some (k, v)" and ok: "child_ok E G (ns ! k) v (ns ! j)" for j k v
    proof -
      have k': "k < length ns" using k j by simp
      note b = below_caller[OF c k, of i]
      show ?thesis
      proof (cases "below ns i j")
        case True
        have h: "idle E G (ns' ! j)" "en_tasks (fr_engine (ns' ! j)) = {#}"
          using idle_below[OF True j] quiet[OF j True] True by (simp_all add: at[OF j])
        have "TProcess v \<notin># en_tasks (fr_engine (ns' ! k))" "has_ctx (ns' ! k) v" "fr_graph (ns' ! k) = fr_graph (ns ! k)"
          using b True self new(2,4) quiet[OF k'] ok unfolding at[OF k'] by (auto simp: child_ok_def)
        then show ?thesis using h ok unfolding child_ok_def by (simp add: at[OF j] True)
      next
        case False
        then have old: "ns' ! k = ns ! k" using b by (simp add: at[OF k'])
        show ?thesis
        proof (cases "j = i")
          case True
          have "en_tasks (fr_engine (ns ! j)) \<noteq> {#}" using t True by auto
          note bc = busy_caller[OF inv j this c]
          have "ns' ! j = ?m" using at[OF j] False True by simp
          then show ?thesis using ok bc m True unfolding old child_ok_def by simp
        next
          case ne: False
          then have "ns' ! j = ns ! j" using False by (simp add: at[OF j])
          then show ?thesis using ok old by simp
        qed
      qed
    qed
  qed
  then show ?thesis by (simp add: ns'_def)
qed

text \<open>A step of one frame in which no subgraph starts.\<close>

lemma returns_closed:
  assumes inv: "rounds_inv E G ns" and i: "i < length ns" and ret: "returns_as E ns i (TProcess v) ch"
    and t: "TProcess v \<in># en_tasks (fr_engine (ns ! i))" and p: "ne_procs E (fr_graph (ns ! i)) v = None"
    and j: "j < length ns" "fr_caller (ns ! j) = Some (i, v)"
  shows "en_tasks (fr_engine (ns ! j)) = {#}"
proof -
  obtain k where k: "k < length ns" "fr_caller (ns ! k) = Some (i, v)" "closure_code (ns ! k) \<noteq> None"
    using ret p by (auto simp: returns_as_def list_ex_iff in_set_conv_nth)
  have "j = k" using caller_unique[OF inv j(1) k(1)] j(2) k(2) by simp
  then have "closed (en_log (fr_engine (ns ! j)))" using k(3) by (auto simp: closure_code_def split: list.splits event.splits)
  moreover have "live E G (ns ! j)" using rounds_child(2)[OF inv j] t by (simp add: child_ok_def)
  ultimately show ?thesis using engine_invD(8) by (auto simp: live_def log_ok_def)
qed

lemma plain_keeps:
  assumes inv: "rounds_inv E G ns" and G: "calls_below E G rank" and i: "i < length ns"
    and t: "t \<in># en_tasks (fr_engine (ns ! i))" and en: "enabled ch t (en_ctx (fr_engine (ns ! i)))"
    and out: "ch_outcome ch \<noteq> FutureFailed" and n: "\<not> next_round t ch (ns ! i)" and b: "begins E t ch (ns ! i) = None"
    and ret: "returns_as E ns i t ch"
  shows "rounds_inv E G (round_after E i t ch ns)"
proof -
  let ?f = "ns ! i" and ?m = "moved t ch (ns ! i)"
  define ns' where "ns' = round_after E i t ch ns"
  have f: "live E G ?f" by (rule task_live[OF inv i t])
  have m: "live E G ?m" by (rule live_step[OF f G t en out])
  have ns': "ns' = ns[i := ?m]" using n b by (simp add: ns'_def round_after_def Let_def)
  note facts = step_facts(1-3)[OF f G t en out n]
  have "rounds_inv E G ns'"
  proof (rule same_shape_inv[OF inv])
    show "length ns' = length ns" by (simp add: ns')
    show "fr_caller (ns' ! j) = fr_caller (ns ! j) \<and> fr_graph (ns' ! j) = fr_graph (ns ! j)" if "j < length ns" for j
      using that by (cases "j = i") (simp_all add: ns')
    show "live E G (ns' ! j) \<or> idle E G (ns' ! j)" if "j < length ns" for j
      using that m rounds_invD(5)[OF inv that] by (cases "j = i") (simp_all add: ns')
    show "live E G (ns' ! 0)" using m rounds_invD(2)[OF inv] by (cases "i = 0") (use i in \<open>simp_all add: ns'\<close>)
    show "has_ctx (ns ! j) v" if j: "j < length ns" and v: "valid_ref (fr_graph (ns ! j)) v" "has_ctx (ns' ! j) v" for j v
    proof (cases "j = i")
      case True
      obtain rest gc ts evs where h: "handle (fr_graph ?f) ch t (en_ctx (fr_engine ?f)) = (gc, ts, evs)"
        "en_ctx (fr_engine ?m) = gc"
        "engine_inv (fr_graph ?f) (ne_procs E (fr_graph ?f)) (en_ctx (fr_engine ?f)) (add_mset t rest) (en_log (fr_engine ?f))"
        by (rule moved_parts[OF f G t, of ch]) blast
      have "vx_processor (gc_ctx (en_ctx (fr_engine ?f)) v) = ne_procs E (fr_graph ?f) v"
        using engine_invD(1)[OF h(3)] v(1) True by (simp add: static_ok_def)
      then show ?thesis
        using v(2) b handle_subgraph_ctx_eq[OF h(1), of v] h(1) i True begins_iff[of E t ch ?f v]
        by (simp only: ns' nth_list_update_eq h(2)) auto
    qed (use v(2) in \<open>simp add: ns'\<close>)
    show "has_ctx (ns' ! j) v" if j: "j < length ns" and v: "TProcess v \<in># en_tasks (fr_engine (ns' ! j))"
      "ne_procs E (fr_graph (ns ! j)) v = None" for j v
    proof (cases "j = i")
      case True
      have tm: "TProcess v \<in># en_tasks (fr_engine ?m)" using v(1) i by (simp add: ns' True)
      have p: "ne_procs E (fr_graph ?f) v = None" using v(2) True by simp
      have "task_ok (fr_graph ?f) (en_log (fr_engine ?m)) (TProcess v)"
        using m tm engine_invD(5) by (fastforce simp: live_def tasks_ok_def)
      then have "valid_ref (fr_graph ?f) v" by simp
      note g = facts[OF this p, unfolded b, simplified]
      have "has_ctx ?f v" using rounds_invD(8)[OF inv i _ p] g(2) tm by simp
      then show ?thesis using g(1) i by (simp add: ns' True)
    next
      case False
      then show ?thesis using v rounds_invD(8)[OF inv j] by (simp add: ns')
    qed
    show "child_ok E G (ns' ! k) v (ns' ! j)"
      if j: "j < length ns" and k: "k < j" and c: "fr_caller (ns ! j) = Some (k, v)" and ok: "child_ok E G (ns ! k) v (ns ! j)" for j k v
    proof (cases "j = i")
      case True
      have "en_tasks (fr_engine (ns ! j)) \<noteq> {#}" using t True by auto
      note bc = busy_caller[OF inv j this c]
      show ?thesis using ok bc m True k i unfolding child_ok_def by (simp add: ns')
    next
      case ne: False
      show ?thesis
      proof (cases "k = i")
        case True
        have v: "valid_ref (fr_graph ?f) v" "ne_procs E (fr_graph ?f) v = None" using ok True by (simp_all add: child_ok_def)
        note g = facts[OF v, unfolded b, simplified]
        have "en_tasks (fr_engine (ns ! j)) = {#}" if "t = TProcess v"
          using returns_closed[OF inv i ret[unfolded that] t[unfolded that] v(2) j] c True by simp
        then show ?thesis using ok g True ne i unfolding child_ok_def by (auto simp: ns' split: if_splits)
      next
        case False
        then show ?thesis using ok ne by (simp add: ns')
      qed
    qed
  qed
  then show ?thesis by (simp add: ns'_def)
qed


text \<open>A subgraph starts, again in the context it had, or for the first time.\<close>

lemma begins_facts:
  assumes f: "live E G f" and G: "calls_below E G rank" and t: "t \<in># en_tasks (fr_engine f)"
    and en: "enabled ch t (en_ctx (fr_engine f))" and out: "ch_outcome ch \<noteq> FutureFailed"
    and n: "\<not> next_round t ch f" and b: "begins E t ch f = Some v"
  shows "t = TExecute v" "valid_ref (fr_graph f) v" "ne_procs E (fr_graph f) v = None" "untouched f v"
    "TProcess v \<in># en_tasks (fr_engine (moved t ch f))" "has_ctx (moved t ch f) v" "TProcess v \<notin># en_tasks (fr_engine f)"
    "\<not> untouched (moved t ch f) v"
proof -
  show t': "t = TExecute v" and p: "ne_procs E (fr_graph f) v = None" using b by (simp_all add: begins_iff)
  have "task_ok (fr_graph f) (en_log (fr_engine f)) t"
    using f t engine_invD(5) by (fastforce simp: live_def tasks_ok_def)
  then show v: "valid_ref (fr_graph f) v" by (simp add: t')
  note g = step_facts[OF f G t en out n v p]
  show u: "untouched f v" by (rule g(4)[OF b])
  show "TProcess v \<notin># en_tasks (fr_engine f)" using u by (simp add: untouched_def)
  show r: "TProcess v \<in># en_tasks (fr_engine (moved t ch f))" using g(2) b by blast
  show "has_ctx (moved t ch f) v" using g(1) b by blast
  show "\<not> untouched (moved t ch f) v" using r unfolding untouched_def by blast
qed

text \<open>What the step does to the frames that other vertices started.\<close>

lemma other_child:
  assumes inv: "rounds_inv E G ns" and G: "calls_below E G rank" and i: "i < length ns"
    and t: "t \<in># en_tasks (fr_engine (ns ! i))" and en: "enabled ch t (en_ctx (fr_engine (ns ! i)))"
    and out: "ch_outcome ch \<noteq> FutureFailed" and n: "\<not> next_round t ch (ns ! i)" and b: "begins E t ch (ns ! i) = Some v"
    and ok: "child_ok E G (ns ! i) u h" and ne: "u \<noteq> v"
  shows "child_ok E G (moved t ch (ns ! i)) u h"
proof -
  have u: "valid_ref (fr_graph (ns ! i)) u" "ne_procs E (fr_graph (ns ! i)) u = None" using ok by (simp_all add: child_ok_def)
  note f = task_live[OF inv i t]
  note g = step_facts(1-3)[OF f G t en out n u] and t' = begins_facts(1)[OF f G t en out n b]
  show ?thesis using ok g ne b t' unfolding child_ok_def by (auto split: if_splits)
qed

lemma moved_ctx:
  assumes f: "live E G f" and G: "calls_below E G rank" and t: "t \<in># en_tasks (fr_engine f)"
    and v: "valid_ref (fr_graph f) v" "has_ctx (moved t ch f) v"
  shows "has_ctx f v \<or> begins E t ch f = Some v"
proof -
  obtain rest gc ts evs where h: "handle (fr_graph f) ch t (en_ctx (fr_engine f)) = (gc, ts, evs)"
    "en_ctx (fr_engine (moved t ch f)) = gc"
    "engine_inv (fr_graph f) (ne_procs E (fr_graph f)) (en_ctx (fr_engine f)) (add_mset t rest) (en_log (fr_engine f))"
    by (rule moved_parts[OF f G t, of ch]) blast
  have "vx_processor (gc_ctx (en_ctx (fr_engine f)) v) = ne_procs E (fr_graph f) v"
    using engine_invD(1)[OF h(3)] v(1) by (simp add: static_ok_def)
  then show ?thesis
    using v(2) handle_subgraph_ctx_eq[OF h(1), of v] h(1) begins_iff[of E t ch f v] by (simp only: h(2)) auto
qed

lemma runs_ctx:
  assumes inv: "rounds_inv E G ns" and G: "calls_below E G rank" and i: "i < length ns"
    and t: "t \<in># en_tasks (fr_engine (ns ! i))" and en: "enabled ch t (en_ctx (fr_engine (ns ! i)))"
    and out: "ch_outcome ch \<noteq> FutureFailed" and n: "\<not> next_round t ch (ns ! i)"
    and r: "TProcess v \<in># en_tasks (fr_engine (moved t ch (ns ! i)))" "ne_procs E (fr_graph (ns ! i)) v = None"
  shows "has_ctx (moved t ch (ns ! i)) v"
proof -
  note f = task_live[OF inv i t]
  have "task_ok (fr_graph (ns ! i)) (en_log (fr_engine (moved t ch (ns ! i)))) (TProcess v)"
    using live_step[OF f G t en out] r(1) engine_invD(5) by (fastforce simp: live_def tasks_ok_def)
  then have "valid_ref (fr_graph (ns ! i)) v" by simp
  note g = step_facts(1,2)[OF f G t en out n this r(2)]
  show ?thesis using rounds_invD(8)[OF inv i _ r(2)] g r(1) by blast
qed

lemma restart_keeps:
  assumes inv: "rounds_inv E G ns" and G: "calls_below E G rank" and i: "i < length ns"
    and t: "t \<in># en_tasks (fr_engine (ns ! i))" and en: "enabled ch t (en_ctx (fr_engine (ns ! i)))"
    and out: "ch_outcome ch \<noteq> FutureFailed" and n: "\<not> next_round t ch (ns ! i)" and b: "begins E t ch (ns ! i) = Some v"
    and has: "has_ctx (ns ! i) v"
  shows "rounds_inv E G (round_after E i t ch ns)"
proof -
  let ?f = "ns ! i" and ?m = "moved t ch (ns ! i)"
  define ns' where "ns' = round_after E i t ch ns"
  note f = task_live[OF inv i t]
  note m = live_step[OF f G t en out] and bf = begins_facts[OF f G t en out n b]
  have notself: "fr_caller (ns ! i) \<noteq> Some (i, v)" using rounds_child(1)[OF inv i] by blast
  have len: "length ns' = length ns" using n b has by (simp add: ns'_def round_after_def Let_def)
  have at: "ns' ! j = (if fr_caller (ns ! j) = Some (i, v) then restart_frame (ns ! j) else if j = i then ?m else ns ! j)"
    if "j < length ns" for j
    using n b has that i notself by (cases "j = i") (simp_all add: ns'_def round_after_def Let_def)
  have again: "idle E G (ns ! j)" "live E G (restart_frame (ns ! j))"
      "TProcess u \<notin># en_tasks (fr_engine (restart_frame (ns ! j)))" "TProcess u \<notin># en_tasks (fr_engine (ns ! j))"
    if "fr_caller (ns ! j) = Some (i, v)" "j < length ns" for j u
  proof -
    show h: "idle E G (ns ! j)" using rounds_child(2)[OF inv that(2,1)] bf(4) by (simp add: child_ok_def)
    show "live E G (restart_frame (ns ! j))" by (rule idle_start(2)[OF h G])
    show "TProcess u \<notin># en_tasks (fr_engine (restart_frame (ns ! j)))" unfolding idle_start(1)[OF h G] by auto
    show "TProcess u \<notin># en_tasks (fr_engine (ns ! j))" using h by (simp add: idle_def)
  qed
  have "rounds_inv E G ns'"
  proof (rule same_shape_inv[OF inv len])
    show "fr_caller (ns' ! j) = fr_caller (ns ! j) \<and> fr_graph (ns' ! j) = fr_graph (ns ! j)" if "j < length ns" for j
      using at[OF that] by simp
    show "live E G (ns' ! j) \<or> idle E G (ns' ! j)" if "j < length ns" for j
      using again(2)[OF _ that] m rounds_invD(5)[OF inv that] unfolding at[OF that] by auto
    show "live E G (ns' ! 0)" using m rounds_invD(1-3)[OF inv] by (auto simp: at)
    show "has_ctx (ns ! j) u" if j: "j < length ns" and u: "valid_ref (fr_graph (ns ! j)) u" "has_ctx (ns' ! j) u" for j u
      using u moved_ctx[OF f G t, of u ch] b has unfolding at[OF j] by (auto split: if_splits)
    show "has_ctx (ns' ! j) u" if j: "j < length ns" and u: "TProcess u \<in># en_tasks (fr_engine (ns' ! j))"
      "ne_procs E (fr_graph (ns ! j)) u = None" for j u
      using u again(3)[OF _ j] runs_ctx[OF inv G i t en out n, of u] rounds_invD(8)[OF inv j, of u] unfolding at[OF j]
      by (auto split: if_splits)
    show "child_ok E G (ns' ! k) u (ns' ! j)"
      if j: "j < length ns" and k: "k < j" and c: "fr_caller (ns ! j) = Some (k, u)" and ok: "child_ok E G (ns ! k) u (ns ! j)" for j k u
    proof -
      have k': "k < length ns" using k j by simp
      consider (started) "k = i" "u = v" | (sibling) "k = i" "u \<noteq> v" | (self) "j = i" "k \<noteq> i" | (other) "k \<noteq> i" "j \<noteq> i" by blast
      then show ?thesis
      proof cases
        case started
        have h: "ns' ! k = ?m" "ns' ! j = restart_frame (ns ! j)" using at[OF k'] at[OF j] notself started c by auto
        show ?thesis unfolding h using ok bf again(2)[OF _ j] c started unfolding child_ok_def by auto
      next
        case sibling
        have h: "ns' ! k = ?m" "ns' ! j = ns ! j" using at[OF k'] at[OF j] notself sibling c k by auto
        show ?thesis unfolding h using other_child[OF inv G i t en out n b _ sibling(2)] ok sibling(1) by simp
      next
        case self
        have "fr_caller (ns ! k) \<noteq> Some (i, v)" using rounds_child(1)[OF inv k'] self k by auto
        then have h: "ns' ! k = ns ! k" "ns' ! j = ?m" using at[OF k'] at[OF j] notself self by auto
        have "en_tasks (fr_engine (ns ! j)) \<noteq> {#}" using t self by auto
        note bc = busy_caller[OF inv j this c]
        show ?thesis unfolding h using ok bc m self unfolding child_ok_def by simp
      next
        case other
        have h: "ns' ! j = ns ! j" using at[OF j] other c by auto
        show ?thesis
        proof (cases "fr_caller (ns ! k) = Some (i, v)")
          case True
          have "ns' ! k = restart_frame (ns ! k)" using at[OF k'] True by simp
          then show ?thesis using ok again(3,4)[OF True k', of u] h unfolding child_ok_def untouched_def by simp
        next
          case False
          then have "ns' ! k = ns ! k" using at[OF k'] other by simp
          then show ?thesis using ok h by simp
        qed
      qed
    qed
  qed
  then show ?thesis by (simp add: ns'_def)
qed


lemma begins_finds:
  assumes "live E G f" "calls_below E G rank" "t \<in># en_tasks (fr_engine f)" "has_ctx (moved t ch f) v" "\<not> has_ctx f v"
    and "finds_as E (fr_graph f) t ch"
  obtains h where "subgraph_of E (fr_graph f) v = Some h"
proof -
  obtain gc ts evs where h: "handle (fr_graph f) ch t (en_ctx (fr_engine f)) = (gc, ts, evs)"
    "en_ctx (fr_engine (moved t ch f)) = gc"
    by (rule moved_parts[OF assms(1-3), of ch]) blast
  have "t = TExecute v \<and> ch_graph_found ch" using handle_subgraph_ctx[OF h(1), of v] assms(4,5) unfolding h(2) by blast
  then show thesis using that assms(6) by (auto simp: finds_as_def)
qed

lemma first_start_keeps:
  assumes inv: "rounds_inv E G ns" and G: "calls_below E G rank" and i: "i < length ns"
    and t: "t \<in># en_tasks (fr_engine (ns ! i))" and en: "enabled ch t (en_ctx (fr_engine (ns ! i)))"
    and out: "ch_outcome ch \<noteq> FutureFailed" and n: "\<not> next_round t ch (ns ! i)" and b: "begins E t ch (ns ! i) = Some v"
    and has: "\<not> has_ctx (ns ! i) v" and s: "subgraph_of E (fr_graph (ns ! i)) v = Some h"
  shows "rounds_inv E G (round_after E i t ch ns)"
proof -
  let ?f = "ns ! i" and ?m = "moved t ch (ns ! i)" and ?new = "new_frame E h (Some (i, v))"
  define ns' where "ns' = round_after E i t ch ns"
  note f = task_live[OF inv i t] and d = rounds_invD[OF inv]
  note m = live_step[OF f G t en out] and bf = begins_facts[OF f G t en out n b]
  have ns': "ns' = ns[i := ?m] @ [?new]" using n b has s by (simp add: ns'_def round_after_def Let_def)
  have "fr_graph ?f \<in> G" using f by (simp add: live_def)
  then have "h \<in> G" using calls_belowD(2)[OF G _ bf(2) s] by blast
  note new = new_frame_facts[OF G this, where c = "Some (i, v)"]
  have at: "ns' ! j = (if j = i then ?m else if j < length ns then ns ! j else ?new)" if "j \<le> length ns" for j
    using that i by (auto simp: ns' nth_append)
  have len: "length ns' = Suc (length ns)" by (simp add: ns')
  have no: "fr_caller (ns ! j) \<noteq> Some (i, v)" if "j < length ns" for j
    using rounds_child(2)[OF inv that] has by (auto simp: child_ok_def)
  have old: "map fr_caller (ns[i := ?m]) = map fr_caller ns" by (rule nth_equalityI) (use i in \<open>auto simp: nth_list_update\<close>)
  have "Some (i, v) \<notin> set (map fr_caller ns)" using no by (metis in_set_conv_nth length_map nth_map)
  then have "distinct (map fr_caller ns')"
    unfolding ns' map_append old using d(4) by (simp add: new(5))
  moreover have "live E G (ns' ! 0)" "fr_caller (ns' ! 0) = None"
    using m d(1-3) by (auto simp: at)
  moreover have "live E G (ns' ! j) \<or> idle E G (ns' ! j)" if "j < length ns'" for j
    using that m new(1) d(5)[of j] by (auto simp: at len)
  moreover have "\<exists>j < length ns'. fr_caller (ns' ! j) = Some (k, u)"
    if k: "k < length ns'" and u: "valid_ref (fr_graph (ns' ! k)) u" "has_ctx (ns' ! k) u" for k u
  proof (cases "k = i \<and> u = v")
    case True
    then show ?thesis using new(5) i by (intro exI[of _ "length ns"]) (simp add: at len)
  next
    case False
    have "k \<noteq> length ns" using u new(3,4) i by (auto simp: at)
    then have k': "k < length ns" using k len by simp
    have "valid_ref (fr_graph (ns ! k)) u" "has_ctx (ns ! k) u"
      using u k' moved_ctx[OF f G t, of u ch] b False by (auto simp: at split: if_splits)
    then obtain j where j: "j < length ns" "fr_caller (ns ! j) = Some (k, u)" using d(7)[OF k'] by blast
    then show ?thesis by (intro exI[of _ j]) (auto simp: at len)
  qed
  moreover have "has_ctx (ns' ! k) u"
    if k: "k < length ns'" and u: "TProcess u \<in># en_tasks (fr_engine (ns' ! k))" "ne_procs E (fr_graph (ns' ! k)) u = None" for k u
  proof (cases "k = i")
    case True
    have "ns' ! i = ?m" using at[of i] i by simp
    then show ?thesis using u runs_ctx[OF inv G i t en out n, of u] True by simp
  next
    case False
    have "k \<noteq> length ns" using u(1) new(2)[of u] i by (auto simp: at)
    then have k': "k < length ns" "ns' ! k = ns ! k" using k len False by (auto simp: at)
    show ?thesis using u d(8)[OF k'(1)] unfolding k'(2) by blast
  qed
  moreover have "called_ok E G ns' j" if j: "j < length ns'" "j \<noteq> 0" for j
  proof (cases "j = length ns")
    case True
    have "child_ok E G ?m v ?new" using bf s new(1,4) unfolding child_ok_def by simp
    then show ?thesis unfolding called_ok_def using True i new(5) by (intro exI[of _ i] exI[of _ v]) (simp add: at)
  next
    case False
    then have j': "j < length ns" using j(1) len by simp
    obtain k u where c: "k < j" "fr_caller (ns ! j) = Some (k, u)" "child_ok E G (ns ! k) u (ns ! j)"
      using d(6)[OF j' j(2)] by (auto simp: called_ok_def)
    have k': "k < length ns" using c(1) j' by simp
    have "child_ok E G (ns' ! k) u (ns' ! j)"
    proof (cases "k = i")
      case True
      then have h: "ns' ! k = ?m" "ns' ! j = ns ! j" using c(1) j' k' by (auto simp: at)
      have "u \<noteq> v" using no[OF j'] c(2) True by auto
      then show ?thesis unfolding h using other_child[OF inv G i t en out n b] c(3) True by simp
    next
      case ne: False
      then have hk: "ns' ! k = ns ! k" using k' by (simp add: at)
      show ?thesis
      proof (cases "j = i")
        case True
        have "en_tasks (fr_engine (ns ! j)) \<noteq> {#}" using t True by auto
        note bc = busy_caller[OF inv j' this c(2)]
        have "ns' ! j = ?m" using True i by (simp add: at)
        then show ?thesis unfolding hk using c(3) bc m True unfolding child_ok_def by simp
      next
        case False
        then show ?thesis using c(3) j' hk by (simp add: at)
      qed
    qed
    moreover have "fr_caller (ns' ! j) = fr_caller (ns ! j)" using j' by (simp add: at)
    ultimately show ?thesis unfolding called_ok_def using c(1,2) by auto
  qed
  moreover have "ns' \<noteq> []" by (simp add: ns')
  ultimately have "rounds_inv E G ns'" unfolding rounds_inv_def by blast
  then show ?thesis by (simp add: ns'_def)
qed


text \<open>The decisions that a task does not read may be any.\<close>

lemma plain_handle: "handle g (plain_choice t ch) t gc = handle g ch t gc"
proof -
  have x: "Execute g (ch\<lparr>ch_outcome := out\<rparr>) v gc = Execute g ch v gc" for out v gc g
    by (simp add: Execute_def ExecuteProcessor_def ExecuteSubGraph_def Let_def)
  show ?thesis by (cases t; simp add: plain_choice_def x)
qed

lemma plain_rounds:
  "moved t (plain_choice t ch) f = moved t ch f" "next_round t (plain_choice t ch) f = next_round t ch f"
  "begins E t (plain_choice t ch) f = begins E t ch f" "round_after E i t (plain_choice t ch) ns = round_after E i t ch ns"
  "returns_as E ns i t (plain_choice t ch) = returns_as E ns i t ch"
proof -
  show m: "moved t (plain_choice t ch) f = moved t ch f" for f by (simp add: moved_def plain_choice_same)
  show n: "next_round t (plain_choice t ch) f = next_round t ch f" for f by (simp add: next_round_def plain_handle)
  show b: "begins E t (plain_choice t ch) f = begins E t ch f" for f
  proof -
    have "begins E t (plain_choice t ch) f = Some v \<longleftrightarrow> begins E t ch f = Some v" for v
      by (simp add: begins_iff plain_handle)
    then show ?thesis by (metis not_Some_eq)
  qed
  show "round_after E i t (plain_choice t ch) ns = round_after E i t ch ns" unfolding round_after_def m n b ..
  show "returns_as E ns i t (plain_choice t ch) = returns_as E ns i t ch"
    by (cases t) (simp_all add: returns_as_def plain_choice_def)
qed

text \<open>The four kinds of steps.\<close>

inductive_cases round_stepE: "round_step E w ns ns'"

lemma round_step_cases:
  assumes st: "round_step E w ns ns'" and inv: "rounds_inv E G ns" and G: "calls_below E G rank"
  obtains i t ch where "i < length ns" "t \<in># en_tasks (fr_engine (ns ! i))" "enabled ch t (en_ctx (fr_engine (ns ! i)))"
    "ch_outcome ch \<noteq> FutureFailed" "w = next_round t ch (ns ! i)" "ns' = round_after E i t ch ns"
    "finds_as E (fr_graph (ns ! i)) t ch" "returns_as E ns i t ch" "rounds_inv E G ns'"
proof -
  from st obtain i t ch0 where i: "i < length ns" "t \<in># en_tasks (fr_engine (ns ! i))"
    and en0: "enabled ch0 t (en_ctx (fr_engine (ns ! i)))" and fi0: "finds_as E (fr_graph (ns ! i)) t ch0"
    and ret0: "returns_as E ns i t ch0" and w0: "w = next_round t ch0 (ns ! i)" and ns0: "ns' = round_after E i t ch0 ns"
    by (auto elim: round_stepE)
  define ch where "ch = plain_choice t ch0"
  have c: "enabled ch t (en_ctx (fr_engine (ns ! i)))" "finds_as E (fr_graph (ns ! i)) t ch" "returns_as E ns i t ch"
    "w = next_round t ch (ns ! i)" "ns' = round_after E i t ch ns"
    using en0 fi0 ret0 w0 ns0 by (simp_all add: ch_def plain_rounds plain_choice_same)
  have out: "ch_outcome ch \<noteq> FutureFailed"
  proof (cases t)
    case (TProcess v)
    then show ?thesis using ret0 by (auto simp: ch_def plain_choice_def returns_as_def list_ex_iff split: if_splits)
  qed (simp_all add: ch_def plain_choice_def)
  have "rounds_inv E G ns'"
  proof (cases "next_round t ch (ns ! i)")
    case True
    then show ?thesis unfolding c(5) by (rule loop_keeps[OF inv G i c(1) out])
  next
    case n: False
    show ?thesis
    proof (cases "begins E t ch (ns ! i)")
      case None
      then show ?thesis unfolding c(5) by (rule plain_keeps[OF inv G i c(1) out n _ c(3)])
    next
      case (Some v)
      note f = task_live[OF inv i]
      show ?thesis
      proof (cases "has_ctx (ns ! i) v")
        case True
        then show ?thesis unfolding c(5) by (rule restart_keeps[OF inv G i c(1) out n Some])
      next
        case False
        have "has_ctx (moved t ch (ns ! i)) v" using begins_facts(6)[OF f G i(2) c(1) out n Some] .
        then obtain h where "subgraph_of E (fr_graph (ns ! i)) v = Some h"
          by (rule begins_finds[OF f G i(2) _ False c(2)])
        then show ?thesis unfolding c(5) by (rule first_start_keeps[OF inv G i c(1) out n Some False])
      qed
    qed
  qed
  with i c out show thesis using that by blast
qed

lemma round_step_inv: "round_step E w ns ns' \<Longrightarrow> rounds_inv E G ns \<Longrightarrow> calls_below E G rank \<Longrightarrow> rounds_inv E G ns'"
  by (erule (2) round_step_cases)

lemma rounds_start_inv: "calls_below E G rank \<Longrightarrow> g \<in> G \<Longrightarrow> rounds_inv E G (nest_start E g)"
  using new_frame_facts[where E = E and G = G and rank = rank and g = g and c = None] by (auto simp: rounds_inv_def nest_start_def)

end
