(* ===== verification/RoundsProps.thy ===== *)
theory RoundsProps
  imports RoundsInv Cluster
begin

text \<open>
  What the rounds of while graphs do and do not change: every graph still keeps to legal schedules,
  none waits for ever for another, and only further rounds can keep a run from ending. A nest without
  while graphs behaves as the model of \<open>Nested\<close> says.
\<close>

section \<open>Between two rounds a run makes progress\<close>

lemma loops_none: "EvLoop \<notin> set evs \<Longrightarrow> loops (rev evs @ l) = loops l"
proof (induction evs rule: rev_induct)
  case (snoc e evs)
  then show ?case by (cases e) auto
qed simp

lemma moved_left:
  assumes f: "live E G f" and G: "calls_below E G rank" and t: "t \<in># en_tasks (fr_engine f)"
    and en: "enabled ch t (en_ctx (fr_engine f))" and n: "\<not> next_round t ch f"
  shows "left (fr_graph f) (fr_engine (moved t ch f)) < left (fr_graph f) (fr_engine f)"
proof -
  note p = live_parts[OF f G]
  have st: "step (fr_graph f) (fr_engine f) (fr_engine (moved t ch f))" unfolding moved_simps using t en by (rule step.intros)
  obtain evs where h: "en_log (fr_engine (moved t ch f)) = rev evs @ en_log (fr_engine f)" "next_round t ch f \<longleftrightarrow> EvLoop \<in> set evs"
    by (rule moved_parts[OF f G t, of ch]) blast
  then have "loops (en_log (fr_engine (moved t ch f))) = loops (en_log (fr_engine f))" using loops_none n by simp
  then show ?thesis using step_left[OF p(2,1) st] by simp
qed

text \<open>A list becomes smaller when one element is replaced by smaller ones, and others with it.\<close>

lemma mult_dominated:
  assumes i: "i < length xs" "ys ! i \<noteq> xs ! i" "length xs \<le> length ys"
    and d: "\<And>k. k < length ys \<Longrightarrow> k < length xs \<and> ys ! k = xs ! k \<or> (ys ! k, xs ! i) \<in> r"
  shows "(mset ys, mset xs) \<in> mult r"
proof -
  define zs where "zs = zip xs ys"
  define A where "A = filter (\<lambda>(a, b). a = b) zs"
  define B where "B = filter (\<lambda>(a, b). a \<noteq> b) zs"
  have "mset (filter P us) + mset (filter (\<lambda>x. \<not> P x) us) = mset us" for P and us :: "('a \<times> 'a) list"
    by (induction us) auto
  from this[of "\<lambda>(a, b). a = b" zs] have part: "mset zs = mset A + mset B" by (simp add: A_def B_def case_prod_unfold)
  have "xs = map fst zs" using i(3) by (simp add: zs_def map_fst_zip_take)
  then have xs: "mset xs = mset (map fst A) + mset (map fst B)" using arg_cong[OF part, of "image_mset fst"] by simp
  have "map snd A = map fst A" unfolding A_def by (rule map_cong) auto
  then have same: "mset (map snd A) = mset (map fst A)" by (rule arg_cong)
  have "take (length xs) ys = map snd zs" using i(3) by (simp add: zs_def map_snd_zip_take min_def)
  then have "mset (take (length xs) ys) = mset (map snd A) + mset (map snd B)" using arg_cong[OF part, of "image_mset snd"] by simp
  moreover have "mset ys = mset (take (length xs) ys) + mset (drop (length xs) ys)"
    by (metis append_take_drop_id mset_append)
  ultimately have ys: "mset ys = mset (map fst A) + (mset (map snd B) + mset (drop (length xs) ys))"
    unfolding same by (simp only: add.assoc)
  have "zs ! i = (xs ! i, ys ! i)" "i < length zs" using i by (simp_all add: zs_def)
  then have "(xs ! i, ys ! i) \<in> set zs" by (metis nth_mem)
  then have J: "xs ! i \<in># mset (map fst B)" using i(2) by (force simp: B_def image_iff)
  have K: "(y, xs ! i) \<in> r" if y: "y \<in># mset (map snd B) + mset (drop (length xs) ys)" for y
  proof -
    from y consider a where "(a, y) \<in> set zs" "a \<noteq> y" | "y \<in> set (drop (length xs) ys)" by (auto simp: B_def)
    then show ?thesis
    proof cases
      case 1
      then obtain k where k: "k < length xs" "k < length ys" "xs ! k = a" "ys ! k = y" by (auto simp: zs_def in_set_zip)
      then show ?thesis using d[OF k(2)] 1(2) by auto
    next
      case 2
      then obtain k where k: "k < length ys - length xs" "drop (length xs) ys ! k = y" by (auto simp: in_set_conv_nth)
      then show ?thesis using d[of "length xs + k"] by auto
    qed
  qed
  have "mset (map fst B) \<noteq> {#}" using J by auto
  then show ?thesis unfolding xs ys by (rule one_step_implies_mult) (use J K in blast)
qed

lemma frame_pair_of: "frame_pair rank f = (rank (fr_graph f), left (fr_graph f) (fr_engine f))"
  by (simp add: frame_pair_def)

lemma round_step_less:
  assumes st: "round_step E False ns ns'" and inv: "rounds_inv E G ns" and G: "calls_below E G rank"
  shows "(ns', ns) \<in> nest_order rank"
  using st inv G
proof (cases rule: round_step_cases)
  case (1 i t ch)
  note st = this
  let ?m = "moved t ch (ns ! i)" and ?p = "frame_pair rank" and ?r = "less_than <*lex*> less_than"
  note f = task_live[OF inv st(1,2)]
  have n: "\<not> next_round t ch (ns ! i)" using st(5) by simp
  have less: "(?p ?m, ?p (ns ! i)) \<in> ?r" using moved_left[OF f G st(2,3) n] by (simp add: frame_pair_of)
  have ne: "?p ?m \<noteq> ?p (ns ! i)" using moved_left[OF f G st(2,3) n] by (simp add: frame_pair_of)
  have child: "(?p h, ?p (ns ! i)) \<in> ?r"
    if "valid_ref (fr_graph (ns ! i)) v" "subgraph_of E (fr_graph (ns ! i)) v = Some (fr_graph h)" for v h
  proof -
    have "fr_graph (ns ! i) \<in> G" using f by (simp add: live_def)
    then have "rank (fr_graph h) < rank (fr_graph (ns ! i))" using calls_belowD(2)[OF G _ that] by blast
    then show ?thesis by (simp add: frame_pair_of)
  qed
  have main: "length ns \<le> length ns' \<and> ns' ! i = ?m \<and>
      (\<forall>k < length ns'. k < length ns \<and> ns' ! k = ns ! k \<or> (?p (ns' ! k), ?p (ns ! i)) \<in> ?r)"
  proof (cases "begins E t ch (ns ! i)")
    case None
    then have "ns' = ns[i := ?m]" using n st(6) by (simp add: round_after_def Let_def)
    then show ?thesis using less st(1) by (auto simp: nth_list_update)
  next
    case (Some v)
    note b = begins_facts[OF f G st(2-4) n Some]
    have notself: "fr_caller (ns ! i) \<noteq> Some (i, v)" using rounds_child(1)[OF inv st(1)] by blast
    show ?thesis
    proof (cases "has_ctx (ns ! i) v")
      case True
      have ns': "ns' = map (\<lambda>h. if fr_caller h = Some (i, v) then restart_frame h else h) (ns[i := ?m])"
        using n st(6) Some True by (simp add: round_after_def Let_def)
      have "k < length ns \<and> ns' ! k = ns ! k \<or> (?p (ns' ! k), ?p (ns ! i)) \<in> ?r" if k: "k < length ns" for k
      proof (cases "fr_caller (ns ! k) = Some (i, v)")
        case True
        then have "subgraph_of E (fr_graph (ns ! i)) v = Some (fr_graph (ns ! k))"
          using rounds_child(2)[OF inv k] by (simp add: child_ok_def)
        moreover have "ns' ! k = restart_frame (ns ! k)" using True k notself by (cases "k = i") (simp_all add: ns')
        ultimately show ?thesis using child[OF b(2), of "ns' ! k"] by simp
      next
        case False
        then show ?thesis using k less by (cases "k = i") (simp_all add: ns')
      qed
      then show ?thesis using notself st(1) by (simp add: ns')
    next
      case False
      have "has_ctx ?m v" using b(6) .
      then obtain h where h: "subgraph_of E (fr_graph (ns ! i)) v = Some h" by (rule begins_finds[OF f G st(2) _ False st(7)])
      have ns': "ns' = ns[i := ?m] @ [new_frame E h (Some (i, v))]"
        using n st(6) Some False h by (simp add: round_after_def Let_def)
      have new: "(?p (new_frame E h (Some (i, v))), ?p (ns ! i)) \<in> ?r" using child[OF b(2)] h by (simp add: new_frame_def)
      have "k < length ns \<and> ns' ! k = ns ! k \<or> (?p (ns' ! k), ?p (ns ! i)) \<in> ?r" if k: "k < length ns'" for k
      proof -
        consider "k = i" | "k \<noteq> i" "k < length ns" | "k = length ns" using k by (fastforce simp: ns')
        then show ?thesis using new less st(1) by cases (simp_all add: ns' nth_append)
      qed
      then show ?thesis using st(1) by (simp add: ns' nth_append)
    qed
  qed
  then have "length ns \<le> length ns'" "ns' ! i = ?m" by blast+
  have "(mset (map ?p ns'), mset (map ?p ns)) \<in> mult ?r"
  proof (rule mult_dominated)
    show "i < length (map ?p ns)" "length (map ?p ns) \<le> length (map ?p ns')" using st(1) main by simp_all
    show "map ?p ns' ! i \<noteq> map ?p ns ! i" using st(1) main ne by simp
    fix k assume "k < length (map ?p ns')"
    then show "k < length (map ?p ns) \<and> map ?p ns' ! k = map ?p ns ! k \<or> (map ?p ns' ! k, map ?p ns ! i) \<in> ?r"
      using main st(1) by auto
  qed
  then show ?thesis by (simp only: nest_order_def in_inv_image)
qed

text \<open>As long as a graph is not done, some graph can make a step.\<close>

lemma live_closed:
  assumes f: "live E G f" and G: "calls_below E G rank" and e: "en_tasks (fr_engine f) = {#}"
  shows "\<exists>rc. closure_code f = Some rc"
proof -
  note p = live_parts[OF f G]
  have "dom (finished (en_log (fr_engine f))) = vertices (fr_graph f)"
    using no_tasks_all_done[OF p(2)[unfolded e] p(1)] .
  then have "closed (en_log (fr_engine f))" using f by (simp add: live_def)
  moreover have "legal (fr_graph f) (gc_while_ctx (en_ctx (fr_engine f))) (en_log (fr_engine f))" using f by (simp add: live_def)
  ultimately show ?thesis by (cases "en_log (fr_engine f)") (auto simp: closure_code_def split: event.splits)
qed

lemma rounds_progress:
  assumes inv: "rounds_inv E G ns" and G: "calls_below E G rank" and i: "i < length ns" "en_tasks (fr_engine (ns ! i)) \<noteq> {#}"
  shows "\<exists>w ns'. round_step E w ns ns'"
proof -
  let ?busy = "\<lambda>i. i < length ns \<and> en_tasks (fr_engine (ns ! i)) \<noteq> {#}"
  have top: "?busy (GREATEST i. ?busy i)"
    by (rule GreatestI_nat[where P = ?busy and k = i and b = "length ns"]) (use i in auto)
  define k where "k = (GREATEST i. ?busy i)"
  have k: "k < length ns" "en_tasks (fr_engine (ns ! k)) \<noteq> {#}" using top by (simp_all add: k_def)
  have above: "en_tasks (fr_engine (ns ! j)) = {#}" if "k < j" "j < length ns" for j
  proof (rule ccontr)
    assume "en_tasks (fr_engine (ns ! j)) \<noteq> {#}"
    then have "j \<le> k" unfolding k_def
      by (intro Greatest_le_nat[where P = ?busy and b = "length ns"]) (use that in auto)
    with that show False by simp
  qed
  obtain t where t: "t \<in># en_tasks (fr_engine (ns ! k))" using k(2) by auto
  let ?g = "fr_graph (ns ! k)"
  note f = task_live[OF inv k(1) t]
  then have lost: "t \<noteq> TLost v" for v using t by (auto simp: live_def lossless_def)
  define ch where "ch rc = (returns rc)\<lparr>ch_cluster_found := ne_cluster E (v_cluster (deref ?g (subject t))),
      ch_graph_found := (subgraph_of E ?g (subject t) \<noteq> None)\<rparr>" for rc
  have ok: "enabled (ch rc) t (en_ctx (fr_engine (ns ! k)))" "finds_as E ?g t (ch rc)" for rc
    using lost by (cases t; simp add: ch_def returns_def allowed_outcome_def finds_as_def)+
  have "\<exists>rc. returns_as E ns k t (ch rc)"
  proof (cases "\<exists>v. t = TProcess v \<and> ne_procs E ?g v = None")
    case True
    then obtain v where v: "t = TProcess v" "ne_procs E ?g v = None" by blast
    have "task_ok ?g (en_log (fr_engine (ns ! k))) t"
      using f t engine_invD(5) by (fastforce simp: live_def tasks_ok_def)
    then have vr: "valid_ref ?g v" by (simp add: v(1))
    obtain j where j: "j < length ns" "fr_caller (ns ! j) = Some (k, v)"
      using rounds_invD(7)[OF inv k(1) vr] rounds_invD(8)[OF inv k(1) _ v(2)] t v(1) by blast
    have "live E G (ns ! j)" using rounds_child(2)[OF inv j] t v(1) by (simp add: child_ok_def)
    then obtain rc where "closure_code (ns ! j) = Some rc"
      using live_closed[OF _ G above[OF rounds_child(1)[OF inv j] j(1)]] by blast
    then have "returns_as E ns k t (ch rc)" using v j nth_mem[OF j(1)] by (auto simp: returns_as_def list_ex_iff ch_def returns_def)
    then show ?thesis by blast
  next
    case False
    then show ?thesis by (intro exI[of _ 0]) (auto simp: returns_as_def ch_def returns_def split: task.splits)
  qed
  then show ?thesis using round_move[OF k(1) t ok] by blast
qed

abbreviation some_round_step :: "nest_env \<Rightarrow> frame list \<Rightarrow> frame list \<Rightarrow> bool" where
  "some_round_step E ns ns' \<equiv> \<exists>w. round_step E w ns ns'"

lemma rounds_run_inv:
  "(some_round_step E)\<^sup>*\<^sup>* ns ns' \<Longrightarrow> calls_below E G rank \<Longrightarrow> rounds_inv E G ns \<Longrightarrow> rounds_inv E G ns'"
  by (induction rule: rtranclp_induct) (use round_step_inv in blast)+


lemma rounds_reach:
  "calls_below E G rank \<Longrightarrow> g \<in> G \<Longrightarrow> (some_round_step E)\<^sup>*\<^sup>* (nest_start E g) ns \<Longrightarrow> rounds_inv E G ns"
  using rounds_run_inv rounds_start_inv by blast

section \<open>A code that was stored stays\<close>

lemma early_code_keep: "early_code l \<noteq> 0 \<Longrightarrow> early_code (k @ l) = early_code l"
proof (induction k)
  case (Cons e k)
  then show ?case by (cases e) simp_all
qed simp

abbreviation stored_code :: "frame \<Rightarrow> int" where
  "stored_code f \<equiv> gc_early_exist_rc (en_ctx (fr_engine f))"

lemma live_stored: "live E G f \<Longrightarrow> stored_code f = early_code (en_log (fr_engine f))"
  using engine_invD(8) by (auto simp: live_def log_ok_def)

lemma moved_stored:
  assumes f: "live E G f" and G: "calls_below E G rank" and t: "t \<in># en_tasks (fr_engine f)"
    and en: "enabled ch t (en_ctx (fr_engine f))" and out: "ch_outcome ch \<noteq> FutureFailed" and c: "stored_code f \<noteq> 0"
  shows "stored_code (moved t ch f) = stored_code f"
    "EvStart v \<in> set (en_log (fr_engine (moved t ch f))) \<Longrightarrow> EvStart v \<in> set (en_log (fr_engine f))"
proof -
  note m = live_step[OF f G t en out]
  have c': "early_code (en_log (fr_engine f)) \<noteq> 0" using c live_stored[OF f] by simp
  obtain evs where h: "en_log (fr_engine (moved t ch f)) = rev evs @ en_log (fr_engine f)"
    by (rule moved_parts[OF f G t, of ch]) blast
  show "stored_code (moved t ch f) = stored_code f"
    using live_stored[OF m] live_stored[OF f] early_code_keep[OF c', of "rev evs"] h by simp
  show "EvStart v \<in> set (en_log (fr_engine f))" if "EvStart v \<in> set (en_log (fr_engine (moved t ch f)))"
  proof (rule ccontr)
    assume "EvStart v \<notin> set (en_log (fr_engine f))"
    then have "EvStart v \<in> set (rev evs)" using that h by simp
    then obtain k2 k1 where k: "rev evs = k2 @ EvStart v # k1" by (meson split_list)
    have "legal (fr_graph f) (gc_while_ctx (en_ctx (fr_engine (moved t ch f)))) (k2 @ EvStart v # k1 @ en_log (fr_engine f))"
      using m h k by (simp add: live_def)
    from legal_suffix[OF this] have "early_code (k1 @ en_log (fr_engine f)) = 0" by (simp add: may_start_def)
    then show False using early_code_keep[OF c', of k1] c' by simp
  qed
qed

lemma step_stored:
  assumes st: "round_step E w ns ns'" and inv: "rounds_inv E G ns" and G: "calls_below E G rank"
    and j: "j < length ns" and c: "stored_code (ns ! j) \<noteq> 0"
  shows "j < length ns' \<and> stored_code (ns' ! j) = stored_code (ns ! j)
    \<and> (\<forall>v. EvStart v \<in> set (en_log (fr_engine (ns' ! j))) \<longrightarrow> EvStart v \<in> set (en_log (fr_engine (ns ! j))))"
  using st inv G
proof (cases rule: round_step_cases)
  case (1 i t ch)
  note st = this
  let ?m = "moved t ch (ns ! i)"
  note f = task_live[OF inv st(1,2)]
  have "j < length ns' \<and> (ns' ! j = ns ! j \<or> ns' ! j = reset_frame (ns ! j) \<or> ns' ! j = restart_frame (ns ! j)
      \<or> i = j \<and> (ns' ! j = ?m \<or> ns' ! j = reset_frame ?m \<or> ns' ! j = restart_frame ?m))"
  proof (cases "next_round t ch (ns ! i)")
    case True
    then show ?thesis using j st(1) unfolding st(6) round_after_def Let_def by (cases "i = j") simp_all
  next
    case n: False
    let ?ns1 = "ns[i := ?m]"
    have at: "?ns1 ! j = (if i = j then ?m else ns ! j)" "j < length ?ns1" using j by simp_all
    show ?thesis
    proof (cases "begins E t ch (ns ! i)")
      case None
      then have "ns' = ?ns1" unfolding st(6) round_after_def Let_def by (simp only: n if_False option.case)
      then show ?thesis using at by (cases "i = j") simp_all
    next
      case (Some v)
      then have "ns' = map (\<lambda>h. if fr_caller h = Some (i, v) then restart_frame h else h) ?ns1 \<or> (\<exists>cs. ns' = ?ns1 @ cs)"
        unfolding st(6) round_after_def Let_def by (simp only: n if_False option.case) (simp split: if_split)
      then show ?thesis using at by (cases "i = j") (auto simp: nth_append)
    qed
  qed
  moreover have "stored_code (reset_frame h) = stored_code h" "EvStart v \<notin> set (en_log (fr_engine (reset_frame h)))" for h v
    by (simp_all add: reset_frame_def Let_def ResetStateGraph_def stored_log_def)
  moreover note moved_stored[OF f G st(2-4)]
  ultimately show ?thesis using c by fastforce
qed

section \<open>Nests without while graphs\<close>

lemma loops_more: "EvLoop \<in> set k \<Longrightarrow> loops l < loops (k @ l)"
proof (induction k)
  case (Cons e k)
  have "loops l \<le> loops (k @ l)" for k by (induction k rule: loops.induct) simp_all
  then show ?case using Cons by (cases e) (auto simp: less_Suc_eq_le)
qed simp

lemma live_not_idle:
  assumes f: "live E G f" and G: "calls_below E G rank"
  shows "\<not> idle E G f"
proof
  assume i: "idle E G f"
  note p = live_parts[OF f G]
  have e: "en_tasks (fr_engine f) = {#}" using i by (simp add: idle_def)
  have "dom (finished (en_log (fr_engine f))) = vertices (fr_graph f)"
    using no_tasks_all_done[OF p(2)[unfolded e] p(1)] .
  moreover have "finished (en_log (fr_engine f)) = Map.empty" using i by (simp add: idle_def)
  ultimately show False using vertices_nonempty[OF p(1)] by auto
qed

definition first_round :: "nest_env \<Rightarrow> graph set \<Rightarrow> frame list \<Rightarrow> bool" where
  "first_round E G ns = (rounds_inv E G ns \<and> (\<forall>f \<in> set ns. live E G f \<and> gc_while_ctx (en_ctx (fr_engine f)) = None))"

lemma ranked_below: "calls_ranked E G rank \<Longrightarrow> calls_below E G rank"
  unfolding calls_ranked_def calls_below_def by blast

lemma called_begins: "called E i t ch f =
    (case begins E t ch f of None \<Rightarrow> []
     | Some v \<Rightarrow> (case subgraph_of E (fr_graph f) v of Some h \<Rightarrow> [new_frame E h (Some (i, v))] | None \<Rightarrow> []))"
  by (cases t) (simp_all add: called_def begins_def case_prod_unfold)

lemma first_round_step:
  assumes r: "first_round E G ns" and G: "calls_below E G rank" and i: "i < length ns"
    and t: "t \<in># en_tasks (fr_engine (ns ! i))" and en0: "enabled ch0 t (en_ctx (fr_engine (ns ! i)))"
  shows "\<not> next_round t ch0 (ns ! i)"
    "round_after E i t ch0 ns = ns[i := moved t ch0 (ns ! i)] @ called E i t ch0 (ns ! i)"
proof -
  let ?f = "ns ! i"
  define ch where "ch = (if \<exists>v. t = TExecute v then plain_choice t ch0 else ch0)"
  have same: "moved t ch ?f = moved t ch0 ?f" "next_round t ch ?f = next_round t ch0 ?f" "begins E t ch ?f = begins E t ch0 ?f"
    "round_after E i t ch ns = round_after E i t ch0 ns" "called E i t ch ?f = called E i t ch0 ?f"
    "enabled ch t (en_ctx (fr_engine ?f))"
    using en0 by (simp_all add: ch_def plain_rounds plain_choice_same)
  have inv: "rounds_inv E G ns" and f: "live E G ?f" and w: "gc_while_ctx (en_ctx (fr_engine ?f)) = None"
    using r i by (simp_all add: first_round_def)
  note p = live_parts[OF f G]
  obtain rest gc ts evs where h: "en_tasks (fr_engine ?f) = add_mset t rest"
    "handle (fr_graph ?f) ch t (en_ctx (fr_engine ?f)) = (gc, ts, evs)"
    "engine_inv (fr_graph ?f) (ne_procs E (fr_graph ?f)) (en_ctx (fr_engine ?f)) (add_mset t rest) (en_log (fr_engine ?f))"
    "next_round t ch ?f \<longleftrightarrow> EvLoop \<in> set evs"
    by (rule moved_parts[OF f G t, of ch]) blast
  have "EvLoop \<notin> set (rev evs)" using handle_loops[OF h(3,2) p(1) same(6) w] loops_more[of "rev evs" "en_log (fr_engine ?f)"] by auto
  then have n: "\<not> next_round t ch ?f" using h(4) by simp
  then show "\<not> next_round t ch0 ?f" by (simp add: same)
  have "round_after E i t ch ns = ns[i := moved t ch ?f] @ called E i t ch ?f"
  proof (cases "begins E t ch ?f")
    case None
    then show ?thesis using n by (simp add: round_after_def Let_def called_begins)
  next
    case (Some v)
    have tv: "t = TExecute v" using Some by (simp add: begins_iff)
    then have out: "ch_outcome ch \<noteq> FutureFailed" by (simp add: ch_def plain_choice_def)
    note b = begins_facts[OF f G t same(6) out n Some]
    have "\<not> has_ctx ?f v"
    proof
      assume "has_ctx ?f v"
      then obtain j where j: "j < length ns" "fr_caller (ns ! j) = Some (i, v)" using rounds_invD(7)[OF inv i b(2)] by blast
      then have "idle E G (ns ! j)" using rounds_child(2)[OF inv] b(4) by (simp add: child_ok_def)
      moreover have "live E G (ns ! j)" using r j(1) by (simp add: first_round_def)
      ultimately show False using live_not_idle[OF _ G] by blast
    qed
    then show ?thesis using Some n by (simp add: round_after_def Let_def called_begins)
  qed
  then show "round_after E i t ch0 ns = ns[i := moved t ch0 ?f] @ called E i t ch0 ?f" by (simp add: same)
qed

lemma first_round_agree:
  assumes r: "first_round E G ns" and G: "calls_ranked E G rank"
  shows "nested_step E ns ns' \<longleftrightarrow> some_round_step E ns ns'"
proof
  assume "nested_step E ns ns'"
  then show "some_round_step E ns ns'"
  proof cases
    case (frame_step i t ch)
    have "ns' = round_after E i t ch ns"
      using first_round_step(2)[OF r ranked_below[OF G] frame_step(2-4)] frame_step(1) by (simp add: moved_def)
    then show ?thesis using round_move[OF frame_step(2-6)] by blast
  qed
next
  assume "some_round_step E ns ns'"
  then obtain w where "round_step E w ns ns'" by blast
  then show "nested_step E ns ns'"
  proof cases
    case (round_move i t ch)
    have "ns' = ns[i := (ns ! i)\<lparr>fr_engine := after (fr_graph (ns ! i)) ch t (fr_engine (ns ! i))\<rparr>] @ called E i t ch (ns ! i)"
      using first_round_step(2)[OF r ranked_below[OF G] round_move(3-5)] round_move(2) by (simp add: moved_def)
    then show ?thesis using frame_step[OF round_move(3-7)] by simp
  qed
qed

lemma first_round_keeps:
  assumes r: "first_round E G ns" and G: "calls_ranked E G rank" and st: "some_round_step E ns ns'"
  shows "first_round E G ns'"
proof -
  note B = ranked_below[OF G]
  have inv: "rounds_inv E G ns" using r by (simp add: first_round_def)
  obtain w where "round_step E w ns ns'" using st by blast
  then show ?thesis using inv B
  proof (cases rule: round_step_cases)
    case (1 i t ch)
    note f = task_live[OF inv 1(1,2)]
    note m = live_step[OF f B 1(2-4)]
    have w: "gc_while_ctx (en_ctx (fr_engine (moved t ch (ns ! i)))) = None"
    proof -
      obtain gc ts evs where h: "handle (fr_graph (ns ! i)) ch t (en_ctx (fr_engine (ns ! i))) = (gc, ts, evs)"
        "en_ctx (fr_engine (moved t ch (ns ! i))) = gc" by (rule moved_parts[OF f B 1(2), of ch]) blast
      show ?thesis unfolding h(2) using handle_while[OF h(1)] r 1(1) by (simp add: first_round_def)
    qed
    have "live E G c \<and> gc_while_ctx (en_ctx (fr_engine c)) = None" if c: "c \<in> set (called E i t ch (ns ! i))" for c
    proof -
      obtain v where v: "begins E t ch (ns ! i) = Some v"
        using c by (cases "begins E t ch (ns ! i)") (simp_all add: called_begins)
      obtain h where h: "subgraph_of E (fr_graph (ns ! i)) v = Some h"
        using c v by (cases "subgraph_of E (fr_graph (ns ! i)) v") (simp_all add: called_begins)
      have "c = new_frame E h (Some (i, v))" using c v h by (simp add: called_begins)
      note v = v h this
      have n: "\<not> next_round t ch (ns ! i)" using first_round_step(1)[OF r B 1(1-3)] .
      have "fr_graph (ns ! i) \<in> G" using f by (simp add: live_def)
      then have hG: "h \<in> G" using calls_belowD(2)[OF B _ begins_facts(2)[OF f B 1(2-4) n v(1)] v(2)] by blast
      show ?thesis unfolding v(3) using new_frame_facts(1)[OF B hG] new_frame_ok(1)[OF G hG] by (simp add: frame_ok_def)
    qed
    moreover have "ns' = ns[i := moved t ch (ns ! i)] @ called E i t ch (ns ! i)"
      using first_round_step(2)[OF r B 1(1-3)] 1(6) by simp
    moreover have "set (ns[i := moved t ch (ns ! i)]) \<subseteq> insert (moved t ch (ns ! i)) (set ns)" by (rule set_update_subset_insert)
    ultimately show ?thesis using r m w 1(9) unfolding first_round_def by auto
  qed
qed

lemma first_round_start: "calls_ranked E G rank \<Longrightarrow> g \<in> G \<Longrightarrow> first_round E G (nest_start E g)"
  using rounds_start_inv[OF ranked_below] new_frame_facts(1)[OF ranked_below, where c = None] new_frame_ok(1)[where c = None]
  by (simp add: first_round_def frame_ok_def nest_start_def)


section \<open>Properties\<close>

text \<open>
  C6: For graphs none of which calls itself again, directly or through the graphs it calls
  (\<open>calls_below\<close>: each calls graphs of lower rank only), and whose operators return, while graphs included: such a
  nest never blocks, and only rounds without end keep it from ending. A run without end begins another
  round infinitely often, and a run that cannot go on has no task left in any graph and has called the
  closure of the first one. (A graph that calls itself is no such nest: it can run for ever without a second round.)
\<close>
theorem rounds_end:
  assumes "calls_below E G rank" and "g \<in> G"
  shows "(\<forall>f b. f 0 = nest_start E g \<longrightarrow> (\<forall>n :: nat. round_step E (b n) (f n) (f (Suc n))) \<longrightarrow> infinite {n. b n})
    \<and> (\<forall>ns. (some_round_step E)\<^sup>*\<^sup>* (nest_start E g) ns \<longrightarrow> (\<nexists>w ns'. round_step E w ns ns') \<longrightarrow>
          (\<forall>f \<in> set ns. en_tasks (fr_engine f) = {#}) \<and> (\<exists>rc. closure_code (ns ! 0) = Some rc))"
proof (intro conjI allI impI notI)
  fix f b assume f: "f 0 = nest_start E g" "\<forall>n :: nat. round_step E (b n) (f n) (f (Suc n))" and fin: "finite {n. b n}"
  have inv: "rounds_inv E G (f n)" for n
    by (induction n) (use f rounds_start_inv[OF assms] round_step_inv[OF _ _ assms(1)] in auto)
  obtain m where "\<forall>n \<in> {n. b n}. n < m" using fin finite_nat_set_iff_bounded by blast
  then have quiet: "\<not> b (m + n)" for n by auto
  have "(f (m + Suc n), f (m + n)) \<in> nest_order rank" for n
    using round_step_less[OF _ inv assms(1)] f(2) quiet[of n] by (metis add_Suc_right)
  then show False using wf_nest_order[of rank] unfolding wf_iff_no_infinite_down_chain by (auto dest: spec[of _ "\<lambda>n. f (m + n)"])
next
  fix ns assume r: "(some_round_step E)\<^sup>*\<^sup>* (nest_start E g) ns" and stop: "\<nexists>w ns'. round_step E w ns ns'"
  note inv = rounds_reach[OF assms r]
  show e: "\<forall>f \<in> set ns. en_tasks (fr_engine f) = {#}"
    using rounds_progress[OF inv assms(1)] stop by (metis in_set_conv_nth)
  have "ns ! 0 \<in> set ns" using rounds_invD(1)[OF inv] by simp
  then show "\<exists>rc. closure_code (ns ! 0) = Some rc"
    using live_closed[OF rounds_invD(2)[OF inv] assms(1)] e by blast
qed

text \<open>
  C11: For graphs none of which calls itself again, directly or through others: in every round each graph of the nest keeps to a legal schedule, and it runs only while the vertex
  that started it waits for it: no subgraph of an earlier round overlaps with a later one.
\<close>
theorem rounds_legal:
  assumes "calls_below E G rank" and "g \<in> G" and "(some_round_step E)\<^sup>*\<^sup>* (nest_start E g) ns" and "j < length ns"
  shows "legal (fr_graph (ns ! j)) (gc_while_ctx (en_ctx (fr_engine (ns ! j)))) (en_log (fr_engine (ns ! j)))
    \<and> (en_tasks (fr_engine (ns ! j)) \<noteq> {#} \<longrightarrow>
         (case fr_caller (ns ! j) of None \<Rightarrow> j = 0 | Some (i, v) \<Rightarrow> i < j \<and> TProcess v \<in># en_tasks (fr_engine (ns ! i))))"
proof -
  note inv = rounds_reach[OF assms(1-3)]
  have "legal (fr_graph (ns ! j)) (gc_while_ctx (en_ctx (fr_engine (ns ! j)))) (en_log (fr_engine (ns ! j)))"
    using rounds_invD(5)[OF inv assms(4)] by (auto simp: live_def idle_def)
  moreover have "j = 0" if "fr_caller (ns ! j) = None"
    using rounds_invD(6)[OF inv assms(4)] that by (auto simp: called_ok_def)
  ultimately show ?thesis
    using busy_caller(1)[OF inv assms(4)] rounds_child(1)[OF inv assms(4)] by (auto split: option.split)
qed

text \<open>
  C38: For graphs none of which calls itself again, directly or through others: the code of an early exit is never cleared between rounds: once a graph has ended early, no vertex of
  it starts again, in this round or in any later one, and its closure reports the same code each time.
\<close>
theorem early_exit_stays:
  assumes "calls_below E G rank" and "g \<in> G" and "(some_round_step E)\<^sup>*\<^sup>* (nest_start E g) ns"
    and "j < length ns" and "stored_code (ns ! j) = c" and "c \<noteq> 0" and "(some_round_step E)\<^sup>*\<^sup>* ns ns'"
  shows "(\<forall>v. EvStart v \<in> set (en_log (fr_engine (ns' ! j))) \<longrightarrow> EvStart v \<in> set (en_log (fr_engine (ns ! j))))
    \<and> (\<forall>rc. closure_code (ns' ! j) = Some rc \<longrightarrow> rc = c)"
proof -
  note inv = rounds_reach[OF assms(1-3)]
  have "rounds_inv E G ns' \<and> j < length ns' \<and> stored_code (ns' ! j) = c
    \<and> (\<forall>v. EvStart v \<in> set (en_log (fr_engine (ns' ! j))) \<longrightarrow> EvStart v \<in> set (en_log (fr_engine (ns ! j))))"
    using assms(7)
  proof (induction rule: rtranclp_induct)
    case (step ns1 ns2)
    then obtain w where "round_step E w ns1 ns2" by blast
    then show ?case using step.IH step_stored[OF _ _ assms(1), of w ns1 ns2 j] round_step_inv[OF _ _ assms(1)] assms(6) by auto
  qed (use inv assms(4-6) in simp)
  note end_inv = this
  have "rc = c" if cl: "closure_code (ns' ! j) = Some rc" for rc
  proof -
    obtain l where l: "en_log (fr_engine (ns' ! j)) = EvDone rc # l"
      using cl by (auto simp: closure_code_def split: list.splits event.splits)
    have "\<not> idle E G (ns' ! j)" by (auto simp: idle_def l stored_log_def)
    then have f: "live E G (ns' ! j)" using end_inv rounds_invD(5) by blast
    then have "rc = early_code l" by (simp add: live_def l)
    moreover have "early_code (EvDone rc # l) = c" using live_stored[OF f] end_inv l by simp
    ultimately show ?thesis by simp
  qed
  with end_inv show ?thesis by blast
qed

text \<open>
  For nests in which no graph is a while graph the two models of nested graphs agree: they reach the
  same states.
\<close>
lemma rounds_agree:
  assumes "calls_ranked E G rank" and "g \<in> G"
  shows "(nested_step E)\<^sup>*\<^sup>* (nest_start E g) ns \<longleftrightarrow> (some_round_step E)\<^sup>*\<^sup>* (nest_start E g) ns"
proof
  assume "(nested_step E)\<^sup>*\<^sup>* (nest_start E g) ns"
  then have "(some_round_step E)\<^sup>*\<^sup>* (nest_start E g) ns \<and> first_round E G ns"
  proof (induction rule: rtranclp_induct)
    case (step ns1 ns2)
    have st: "some_round_step E ns1 ns2" using step.hyps(2) first_round_agree[OF step.IH[THEN conjunct2] assms(1)] by blast
    show ?case
      using rtranclp.rtrancl_into_rtrancl[OF step.IH[THEN conjunct1] st] first_round_keeps[OF step.IH[THEN conjunct2] assms(1) st] ..
  qed (use first_round_start[OF assms] in simp)
  then show "(some_round_step E)\<^sup>*\<^sup>* (nest_start E g) ns" by blast
next
  assume "(some_round_step E)\<^sup>*\<^sup>* (nest_start E g) ns"
  then have "(nested_step E)\<^sup>*\<^sup>* (nest_start E g) ns \<and> first_round E G ns"
  proof (induction rule: rtranclp_induct)
    case (step ns1 ns2)
    have st: "nested_step E ns1 ns2" using step.hyps(2) first_round_agree[OF step.IH[THEN conjunct2] assms(1)] by blast
    show ?case
      using rtranclp.rtrancl_into_rtrancl[OF step.IH[THEN conjunct1] st] first_round_keeps[OF step.IH[THEN conjunct2] assms(1) step.hyps(2)] ..
  qed (use first_round_start[OF assms] in simp)
  then show "(nested_step E)\<^sup>*\<^sup>* (nest_start E g) ns" by blast
qed

section \<open>Example\<close>

text \<open>
  The graph that the cluster generates for a vertex with a while condition: an operator that is the
  condition, and a body that runs the graph \<open>inner\<close>.
\<close>

definition loop_source :: graph where
  "loop_source = while_graph example_cluster new_graph 0
     (new_vertex\<lparr>v_while_cond := ''op'', v_cluster := ''c'', v_graph := ''inner''\<rparr>)"

definition loop_graph :: graph where
  "loop_graph = (case GraphBuild example_cluster example_factory loop_source of Ok g \<Rightarrow> g | _ \<Rightarrow> new_graph)"

definition loop_env :: nest_env where
  "loop_env = \<lparr>ne_cluster = (\<lambda>c. c = ''c''),
     ne_graph = (\<lambda>c n. if c = ''c'' \<and> n = ''inner'' then Some early_graph else None),
     ne_procs = (\<lambda>g v. if g_is_gen_while_graph g \<and> v = VertexRef 1 then None else Some \<lparr>pi_mode = EXEC_SYNC, pi_is_io = False\<rparr>)\<rparr>"

lemma loop_fields: "fresh_graph loop_source" "GraphBuild example_cluster example_factory loop_source = Ok loop_graph"
  "no_collision loop_graph" "length (g_vertex loop_graph) = 2" "g_gen_vertex loop_graph = []" "g_is_gen_while_graph loop_graph"
  "v_cluster (deref loop_graph (VertexRef 0)) = []" "v_cluster (deref loop_graph (VertexRef 1)) = ''c''"
  "v_graph (deref loop_graph (VertexRef 1)) = ''inner''"
  by code_simp+

lemma loop_runnable: "runnable loop_graph"
  by (rule built_runnable[OF loop_fields(1-3)]) (simp add: loop_fields(4,5))

lemma loop_calls: "calls_below loop_env {loop_graph, early_graph} (\<lambda>g. if g = loop_graph then 1 else 0)"
proof -
  have ne: "early_graph \<noteq> loop_graph" using loop_fields(6) early_fields(5) by metis
  have sub: "subgraph_of loop_env early_graph (VertexRef 0) = None"
    by (simp add: subgraph_of_def loop_env_def early_fields new_vertex_def)
  have "v = VertexRef 0 \<or> v = VertexRef 1" if "valid_ref loop_graph v" for v
    using that by (cases v) (auto simp: valid_ref_def loop_fields)
  moreover have "subgraph_of loop_env loop_graph (VertexRef 0) = None"
    "subgraph_of loop_env loop_graph (VertexRef 1) = Some early_graph"
    using loop_fields(7-9) by (simp_all add: subgraph_of_def loop_env_def)
  ultimately have inner: "h = early_graph" if "valid_ref loop_graph v" "subgraph_of loop_env loop_graph v = Some h" for v h
    using that by fastforce
  have "runnable g \<and> (\<forall>v h. valid_ref g v \<longrightarrow> subgraph_of loop_env g v = Some h \<longrightarrow>
      h \<in> {loop_graph, early_graph} \<and> (if h = loop_graph then 1 else 0) < (if g = loop_graph then 1 else 0 :: nat))"
    if "g \<in> {loop_graph, early_graph}" for g
  proof (cases "g = loop_graph")
    case True
    then show ?thesis using loop_runnable ne by (auto dest: inner)
  next
    case False
    then have "g = early_graph" using that by simp
    then show ?thesis using early_runnable sub by (auto simp: early_fields(7))
  qed
  then show ?thesis unfolding calls_below_def by blast
qed


text \<open>A run of one graph is a run of a nest that has no other graph.\<close>

lemma no_loop_event: "gc_while_ctx gc = None \<Longrightarrow> EvLoop \<notin> set (snd (snd (handle g ch t gc)))"
proof (cases t)
  case (TExecute v)
  have f: "EvLoop \<notin> set (snd (FinishVertexProcess g v c a gc))" for c a gc by (simp add: FinishVertexProcess_def Let_def)
  show ?thesis using f by (simp add: TExecute Execute_def skip_vertex_def ExecuteProcessor_def ExecuteSubGraph_def Let_def case_prod_unfold)
next
  case (TProcess v)
  have f: "EvLoop \<notin> set (snd (FinishVertexProcess g v c a gc))" for c a gc by (simp add: FinishVertexProcess_def Let_def)
  show ?thesis using f by (simp add: TProcess EndProcess_def Let_def case_prod_unfold split: op_outcome.split)
next
  case (TDone v)
  assume "gc_while_ctx gc = None"
  then show ?thesis by (simp add: TDone OnVertexDone_def Let_def case_prod_unfold while_again_def)
next
  case (TNotify v i ready)
  then show ?thesis by (simp add: Notify_def Let_def case_prod_unfold)
qed simp

lemma alone_run:
  assumes "run g ms e = Some e'" "\<And>v. ne_procs E g v \<noteq> None" "gc_while_ctx (en_ctx e) = None"
    "list_all (\<lambda>(t, ch). finds_as E g t ch \<and> ch_outcome ch \<noteq> FutureFailed) ms"
  shows "(some_round_step E)\<^sup>*\<^sup>* [\<lparr>fr_graph = g, fr_engine = e, fr_caller = None\<rparr>] [\<lparr>fr_graph = g, fr_engine = e', fr_caller = None\<rparr>]"
  using assms(1,3,4)
proof (induction ms arbitrary: e)
  case (Cons m ms)
  let ?f = "\<lambda>e. \<lparr>fr_graph = g, fr_engine = e, fr_caller = None\<rparr>"
  obtain t ch where m: "m = (t, ch)" by fastforce
  have t: "t \<in># en_tasks e" "enabled ch t (en_ctx e)" and r: "run g ms (after g ch t e) = Some e'"
    using Cons.prems(1) m by (auto split: if_splits)
  have c: "finds_as E g t ch" "ch_outcome ch \<noteq> FutureFailed" using Cons.prems(3) m by simp_all
  have "returns_as E [?f e] 0 t ch" using c(2) assms(2) by (auto simp: returns_as_def split: task.split)
  moreover have "begins E t ch (?f e) = None" using assms(2) begins_iff[of E t ch "?f e"] by (metis frame.select_convs(1) not_Some_eq)
  then have "round_after E 0 t ch [?f e] = [?f (after g ch t e)]"
    using no_loop_event[OF Cons.prems(2)] by (simp add: round_after_def Let_def next_round_def moved_def)
  ultimately have st: "some_round_step E [?f e] [?f (after g ch t e)]"
    using round_move[of 0 "[?f e]" t ch E] t c(1) by auto
  have "gc_while_ctx (en_ctx (after g ch t e)) = None"
    using handle_while[of g ch t "en_ctx e"] Cons.prems(2) by (auto simp: after_def split: prod.split)
  then have "(some_round_step E)\<^sup>*\<^sup>* [?f (after g ch t e)] [?f e']" using Cons.IH[OF r] Cons.prems(3) by simp
  then show ?case using st by (rule converse_rtranclp_into_rtranclp[rotated])
qed simp


text \<open>The graph \<open>inner\<close> on its own ends early with code 7.\<close>

lemma inner_ends_early:
  obtains ns where "(some_round_step loop_env)\<^sup>*\<^sup>* (nest_start loop_env early_graph) ns" "length ns = 1" "stored_code (ns ! 0) = 7"
    "en_tasks (fr_engine (ns ! 0)) = {#}" "closure_code (ns ! 0) = Some 7"
proof -
  obtain gc s where gc: "SetupContexts early_graph example_procs = Some gc" and r: "run early_graph early_moves (start gc) = Some s"
    and l: "en_log s = [EvDone 7, EvFinish (VertexRef 0) V_RESULT_ERR 7, EvMove (VertexRef 0), EvEarly 7, EvStart (VertexRef 0)]"
    by (rule early_moves_run)
  have p: "ne_procs loop_env early_graph = example_procs" by (rule ext) (simp add: loop_env_def example_procs_def early_fields)
  have st: "nest_start loop_env early_graph = [\<lparr>fr_graph = early_graph, fr_engine = start gc, fr_caller = None\<rparr>]"
    by (simp add: nest_start_def new_frame_def p gc)
  have w: "gc_while_ctx (en_ctx (start gc)) = None" using SetupContexts_while[OF gc early_fields(5)] by (simp add: start_def)
  have "list_all (\<lambda>(t, ch). finds_as loop_env early_graph t ch \<and> ch_outcome ch \<noteq> FutureFailed) early_moves"
    by (simp add: early_moves_def finds_as_def returns_def loop_env_def subgraph_of_def early_fields new_vertex_def)
  then have run: "(some_round_step loop_env)\<^sup>*\<^sup>* (nest_start loop_env early_graph) [\<lparr>fr_graph = early_graph, fr_engine = s, fr_caller = None\<rparr>]"
    unfolding st by (intro alone_run[OF r _ w]) (simp_all add: p example_procs_def)
  have "rounds_inv loop_env {loop_graph, early_graph} [\<lparr>fr_graph = early_graph, fr_engine = s, fr_caller = None\<rparr>]"
    using rounds_reach[OF loop_calls _ run] by simp
  then have "live loop_env {loop_graph, early_graph} \<lparr>fr_graph = early_graph, fr_engine = s, fr_caller = None\<rparr>"
    using rounds_invD(2) by fastforce
  note f = this
  from live_stored[OF f] have "gc_early_exist_rc (en_ctx s) = 7" by (simp add: l)
  moreover have "en_tasks s = {#}"
    using engine_invD(8)[OF live_parts(2)[OF f loop_calls]] by (simp add: log_ok_def l)
  ultimately show thesis by (intro that[OF run]) (simp_all add: closure_code_def l)
qed

theorem rounds_end_witness:
  "(\<nexists>f b. f 0 = nest_start loop_env loop_graph \<and> (\<forall>n :: nat. round_step loop_env (b n) (f n) (f (Suc n))) \<and> finite {n. b n})
    \<and> (\<exists>ns rc. (some_round_step loop_env)\<^sup>*\<^sup>* (nest_start loop_env early_graph) ns
          \<and> en_tasks (fr_engine (ns ! 0)) = {#} \<and> closure_code (ns ! 0) = Some rc)"
proof
  show "\<nexists>f b. f 0 = nest_start loop_env loop_graph \<and> (\<forall>n :: nat. round_step loop_env (b n) (f n) (f (Suc n))) \<and> finite {n. b n}"
    using rounds_end[OF loop_calls, of loop_graph, THEN conjunct1] by blast
  show "\<exists>ns rc. (some_round_step loop_env)\<^sup>*\<^sup>* (nest_start loop_env early_graph) ns
      \<and> en_tasks (fr_engine (ns ! 0)) = {#} \<and> closure_code (ns ! 0) = Some rc"
  proof (rule inner_ends_early)
    fix ns assume ns: "(some_round_step loop_env)\<^sup>*\<^sup>* (nest_start loop_env early_graph) ns" "length ns = 1"
      "en_tasks (fr_engine (ns ! 0)) = {#}"
    have "\<nexists>w ns'. round_step loop_env w ns ns'"
    proof
      assume "\<exists>w ns'. round_step loop_env w ns ns'"
      then obtain w ns' where "round_step loop_env w ns ns'" by blast
      then show False by cases (use ns(2,3) in simp)
    qed
    then have "(\<forall>f \<in> set ns. en_tasks (fr_engine f) = {#}) \<and> (\<exists>rc. closure_code (ns ! 0) = Some rc)"
      using rounds_end[OF loop_calls, of early_graph, THEN conjunct2] ns(1) by blast
    then show ?thesis using ns(1,3) by blast
  qed
qed

theorem rounds_legal_witness:
  "legal loop_graph (gc_while_ctx (en_ctx (fr_engine (new_frame loop_env loop_graph None))))
     (en_log (fr_engine (new_frame loop_env loop_graph None)))"
  using rounds_legal[OF loop_calls, of loop_graph "nest_start loop_env loop_graph" 0] by (simp add: nest_start_def new_frame_def)

theorem early_exit_stays_witness:
  "\<exists>ns. (some_round_step loop_env)\<^sup>*\<^sup>* (nest_start loop_env early_graph) ns \<and> stored_code (ns ! 0) = 7
     \<and> (\<exists>rc. closure_code (ns ! 0) = Some rc \<and> rc = 7)"
proof (rule inner_ends_early)
  fix ns assume ns: "(some_round_step loop_env)\<^sup>*\<^sup>* (nest_start loop_env early_graph) ns" "length ns = 1" "stored_code (ns ! 0) = 7"
    "closure_code (ns ! 0) = Some 7"
  have "(7::int) \<noteq> 0" by simp
  from early_exit_stays[OF loop_calls _ ns(1) _ ns(3) this, of ns] ns show ?thesis by auto
qed

end
