(* ===== verification/TimeLimit.thy ===== *)
theory TimeLimit
  imports RoundsProps ClusterContext
begin

text \<open>
  The time limit of a run (\<open>time_out_ms\<close> of \<open>GraphStore::Execute\<close>, \<open>_end_ustime\<close> of
  \<open>GraphClusterContext\<close>). The store computes the end time when the run begins; the context of a
  subgraph takes over the end time of its caller (\<open>ExecuteSubGraph\<close>); \<open>VertexContext::Execute\<close> reads
  the clock and skips the vertex when the end time has come. The clock (\<open>ustime\<close>) is that of the machine,
  in microseconds; each step has the time at which it is made, and these may be any.
\<close>

section \<open>Times\<close>

text \<open>The end time that the store sets; without a limit it stays 0, as \<open>Reset\<close> left it.\<close>

definition end_time :: "64 word \<Rightarrow> 64 word \<Rightarrow> 64 word" where
  "end_time now time_out_ms = (if time_out_ms \<noteq> 0 then now + time_out_ms * 1000 else 0)"

text \<open>
  The store sets it in the context that it took from the pool; contexts go back to the pool reset.
\<close>

definition set_limit :: "64 word \<Rightarrow> 64 word \<Rightarrow> cluster_ctx \<Rightarrow> cluster_ctx" where
  "set_limit now time_out_ms k = (if time_out_ms \<noteq> 0 then SetEndTime (now + time_out_ms * 1000) k else k)"

lemma limit_of_reset: "cc_end_ustime (set_limit now time_out_ms (fst (ResetCluster f s))) = end_time now time_out_ms"
  by (simp add: set_limit_def SetEndTime_def end_time_def ResetCluster_def Let_def case_prod_unfold)

definition time_is_up :: "64 word \<Rightarrow> 64 word \<Rightarrow> bool" where
  "time_is_up end_ustime now = (end_ustime \<noteq> 0 \<and> end_ustime \<le> now)"

section \<open>Steps under a time limit\<close>

text \<open>The frames of a nest and, for each, the end time of its cluster context.\<close>

record timed_nest =
  tn_frames :: "frame list"
  tn_ends :: "64 word list"

definition clock_says :: "64 word \<Rightarrow> 64 word \<Rightarrow> task \<Rightarrow> choice \<Rightarrow> bool" where
  "clock_says end_ustime now t ch =
    (case t of TExecute v \<Rightarrow> ch_timeout ch = time_is_up end_ustime now | _ \<Rightarrow> True)"

definition timed_after :: "nest_env \<Rightarrow> nat \<Rightarrow> task \<Rightarrow> choice \<Rightarrow> timed_nest \<Rightarrow> timed_nest" where
  "timed_after E i t ch s =
    (let ns = round_after E i t ch (tn_frames s)
     in \<lparr>tn_frames = ns, tn_ends = tn_ends s @ replicate (length ns - length (tn_frames s)) (tn_ends s ! i)\<rparr>)"

inductive timed_step :: "nest_env \<Rightarrow> 64 word \<Rightarrow> timed_nest \<Rightarrow> timed_nest \<Rightarrow> bool" for E now where
  timed_move: "i < length (tn_frames s) \<Longrightarrow> t \<in># en_tasks (fr_engine (tn_frames s ! i)) \<Longrightarrow>
    enabled ch t (en_ctx (fr_engine (tn_frames s ! i))) \<Longrightarrow> finds_as E (fr_graph (tn_frames s ! i)) t ch \<Longrightarrow>
    returns_as E (tn_frames s) i t ch \<Longrightarrow> clock_says (tn_ends s ! i) now t ch \<Longrightarrow>
    timed_step E now s (timed_after E i t ch s)"

definition timed_start :: "nest_env \<Rightarrow> graph \<Rightarrow> 64 word \<Rightarrow> timed_nest" where
  "timed_start E g end_ustime = \<lparr>tn_frames = nest_start E g, tn_ends = [end_ustime]\<rparr>"

text \<open>Runs in which every step is made at a time in \<open>T\<close>.\<close>

inductive timed_run :: "nest_env \<Rightarrow> 64 word set \<Rightarrow> timed_nest \<Rightarrow> timed_nest \<Rightarrow> bool" for E T s where
  timed_none: "timed_run E T s s"
| timed_more: "timed_run E T s s' \<Longrightarrow> now \<in> T \<Longrightarrow> timed_step E now s' s'' \<Longrightarrow> timed_run E T s s''"

section \<open>All contexts have the same end time\<close>

definition timed_inv :: "nest_env \<Rightarrow> graph set \<Rightarrow> 64 word \<Rightarrow> timed_nest \<Rightarrow> bool" where
  "timed_inv E G d s = (rounds_inv E G (tn_frames s) \<and> tn_ends s = replicate (length (tn_frames s)) d)"

lemma timed_step_frames:
  assumes "timed_step E now s s'"
  shows "some_round_step E (tn_frames s) (tn_frames s')"
  using assms
proof cases
  case (timed_move i t ch)
  have "tn_frames s' = round_after E i t ch (tn_frames s)" by (simp add: timed_move(1) timed_after_def Let_def)
  then show ?thesis using round_move[OF timed_move(2-6)] by auto
qed

lemma round_after_length: "i < length ns \<Longrightarrow> length ns \<le> length (round_after E i t ch ns)"
  by (simp add: round_after_def Let_def split: option.split)

lemma timed_step_inv:
  assumes st: "timed_step E now s s'" and inv: "timed_inv E G d s" and G: "calls_below E G rank"
  shows "timed_inv E G d s'"
proof -
  have "rounds_inv E G (tn_frames s')"
    using timed_step_frames[OF st] round_step_inv[OF _ _ G] inv by (auto simp: timed_inv_def)
  moreover have "tn_ends s' = replicate (length (tn_frames s')) d"
    using st
  proof cases
    case 1: (timed_move i t ch)
    have "tn_ends s ! i = d" using inv 1(2) by (simp add: timed_inv_def)
    moreover have "length (tn_frames s) \<le> length (round_after E i t ch (tn_frames s))" using round_after_length[OF 1(2)] .
    ultimately show ?thesis using inv by (simp add: 1(1) timed_inv_def timed_after_def Let_def replicate_add[symmetric])
  qed
  ultimately show ?thesis by (simp add: timed_inv_def)
qed

lemma timed_start_inv: "calls_below E G rank \<Longrightarrow> g \<in> G \<Longrightarrow> timed_inv E G d (timed_start E g d)"
  using rounds_start_inv by (simp add: timed_inv_def timed_start_def) (simp add: nest_start_def)

lemma timed_run_inv:
  "timed_run E T s s' \<Longrightarrow> timed_inv E G d s \<Longrightarrow> calls_below E G rank \<Longrightarrow> timed_inv E G d s'"
  by (induction rule: timed_run.induct) (use timed_step_inv in blast)+

lemma timed_run_frames: "timed_run E T s s' \<Longrightarrow> (some_round_step E)\<^sup>*\<^sup>* (tn_frames s) (tn_frames s')"
proof (induction rule: timed_run.induct)
  case (timed_more s' now s'')
  show ?case by (rule rtranclp.rtrancl_into_rtrancl[OF timed_more.IH timed_step_frames[OF timed_more.hyps(3)]])
qed simp

text \<open>A step, with the decisions that its task does not read left open.\<close>

lemma timed_step_cases:
  assumes st: "timed_step E now s s'" and inv: "timed_inv E G d s" and G: "calls_below E G rank"
  obtains i t ch where "i < length (tn_frames s)" "t \<in># en_tasks (fr_engine (tn_frames s ! i))"
    "enabled ch t (en_ctx (fr_engine (tn_frames s ! i)))" "ch_outcome ch \<noteq> FutureFailed"
    "tn_frames s' = round_after E i t ch (tn_frames s)" "clock_says d now t ch" "live E G (tn_frames s ! i)"
    "finds_as E (fr_graph (tn_frames s ! i)) t ch"
  using st
proof cases
  case 1: (timed_move i t ch0)
  let ?ch = "plain_choice t ch0"
  have out: "ch_outcome ?ch \<noteq> FutureFailed"
  proof (cases t)
    case (TProcess v)
    then show ?thesis using 1(6) by (auto simp: plain_choice_def returns_as_def list_ex_iff split: if_splits)
  qed (simp_all add: plain_choice_def)
  have ends: "tn_ends s ! i = d" using inv 1(2) by (simp add: timed_inv_def)
  have clock: "clock_says d now t ?ch" using 1(7) ends by (cases t) (simp_all add: clock_says_def plain_choice_def)
  have "live E G (tn_frames s ! i)" using task_live[OF _ 1(2,3)] inv by (simp add: timed_inv_def)
  moreover have "tn_frames s' = round_after E i t ?ch (tn_frames s)" by (simp add: 1(1) timed_after_def Let_def plain_rounds)
  moreover have "enabled ?ch t (en_ctx (fr_engine (tn_frames s ! i)))" "finds_as E (fr_graph (tn_frames s ! i)) t ?ch"
    using 1(4,5) by (simp_all add: plain_choice_same)
  ultimately show thesis using that[OF 1(2,3)] out clock by blast
qed

section \<open>After the deadline\<close>

text \<open>A vertex whose time is up is skipped: nothing starts, no code is stored, and its own code is not 0.\<close>

lemma late_execute:
  assumes "ch_timeout ch" "Execute g ch v gc = (gc', ts, evs)" "vx_result (gc_ctx gc v) = V_RESULT_INVALID"
  shows "ts = [TDone v]" "set evs \<subseteq> {EvMove v, EvChild v}" "vx_result (gc_ctx gc' v) \<noteq> V_RESULT_INVALID"
    "vx_code (gc_ctx gc' v) \<noteq> 0"
proof -
  define gc1 where "gc1 = (if v_cluster (deref g v) \<noteq> [] \<and> \<not> vx_subgraph_cluster (gc_ctx gc v)
               then modify_ctx v (\<lambda>c. c\<lparr>vx_subgraph_cluster := ch_cluster_found ch\<rparr>) gc else gc)"
  have x: "skip_vertex g v gc1 = (gc', ts, evs)" using assms(1,2) by (simp add: Execute_def Let_def gc1_def)
  have c: "V_CODE_SKIP \<noteq> 0" by (simp add: V_CODE_SKIP_def)
  show "ts = [TDone v]" "set evs \<subseteq> {EvMove v, EvChild v}" "vx_result (gc_ctx gc' v) \<noteq> V_RESULT_INVALID"
    "vx_code (gc_ctx gc' v) \<noteq> 0"
    using x c by (auto simp: skip_vertex_def FinishVertexProcess_def Let_def modify_ctx_def split: if_splits)
qed

lemma late_step:
  assumes f: "live E G f" and G: "calls_below E G rank" and t: "t \<in># en_tasks (fr_engine f)"
    and late: "time_is_up d now" and clock: "clock_says d now t ch"
  shows "begins E t ch f = None" "EvStart v \<in> set (en_log (fr_engine (moved t ch f))) \<Longrightarrow> EvStart v \<in> set (en_log (fr_engine f))"
proof -
  note p = live_parts[OF f G]
  obtain rest gc ts evs where h: "handle (fr_graph f) ch t (en_ctx (fr_engine f)) = (gc, ts, evs)"
    "engine_inv (fr_graph f) (ne_procs E (fr_graph f)) (en_ctx (fr_engine f)) (add_mset t rest) (en_log (fr_engine f))"
    "en_log (fr_engine (moved t ch f)) = rev evs @ en_log (fr_engine f)"
    by (rule moved_parts[OF f G t, of ch]) blast
  have main: "begins E t ch f = None \<and> EvStart v \<notin> set evs"
  proof (cases t)
    case (TExecute u)
    have "ch_timeout ch" using clock late TExecute by (simp add: clock_says_def)
    moreover have "Execute (fr_graph f) ch u (en_ctx (fr_engine f)) = (gc, ts, evs)" using h(1) TExecute by simp
    moreover have "vx_result (gc_ctx (en_ctx (fr_engine f)) u) = V_RESULT_INVALID" using running_invalid[OF h(2)] TExecute by simp
    ultimately have "ts = [TDone u]" "set evs \<subseteq> {EvMove u, EvChild u}" by (rule late_execute)+
    then show ?thesis using h(1) TExecute by (auto simp: begins_def)
  next
    case (TProcess u)
    have "t \<in> {TExecute u, TProcess u}" by (simp add: TProcess)
    from handle_run[OF h(2) this h(1)] have "quiet u evs" "EvStart u \<notin> set evs" by (auto simp: run_effect_def TProcess)
    then have "EvStart v \<notin> set evs" by (auto simp: quiet_def)
    then show ?thesis by (simp add: begins_def TProcess)
  next
    case (TDone u)
    have "EvStart v \<notin> set evs" using h(1) TDone by (auto simp: OnVertexDone_def Let_def case_prod_unfold split: if_splits)
    then show ?thesis by (simp add: begins_def TDone)
  next
    case (TNotify u i ready)
    have "evs = []" using h(1) TNotify by (auto simp: Notify_def Let_def split: prod.splits if_splits)
    then show ?thesis by (simp add: begins_def TNotify)
  qed (use h(1) in \<open>simp add: begins_def\<close>)
  then show "begins E t ch f = None" by simp
  show "EvStart v \<in> set (en_log (fr_engine (moved t ch f))) \<Longrightarrow> EvStart v \<in> set (en_log (fr_engine f))"
    using main unfolding h(3) by auto
qed


text \<open>
  Whether a while graph can still begin another round after the deadline: its while vertex is running,
  or has ended with code 0, in this round.
\<close>

definition spare :: "frame \<Rightarrow> nat" where
  "spare f =
    (case gc_while_ctx (en_ctx (fr_engine f)) of
       None \<Rightarrow> 0
     | Some w \<Rightarrow> if untouched f w \<or> vx_result (gc_ctx (en_ctx (fr_engine f)) w) \<noteq> V_RESULT_INVALID
                      \<and> vx_code (gc_ctx (en_ctx (fr_engine f)) w) \<noteq> 0 then 0 else 1)"

lemma moved_while:
  assumes "live E G f" "calls_below E G rank" "t \<in># en_tasks (fr_engine f)"
  shows "gc_while_ctx (en_ctx (fr_engine (moved t ch f))) = gc_while_ctx (en_ctx (fr_engine f))"
proof -
  obtain gc ts evs where h: "handle (fr_graph f) ch t (en_ctx (fr_engine f)) = (gc, ts, evs)"
    "en_ctx (fr_engine (moved t ch f)) = gc" by (rule moved_parts[OF assms, of ch]) blast
  show ?thesis unfolding h(2) by (rule handle_while[OF h(1)])
qed

lemma spare_round:
  assumes f: "live E G f" and G: "calls_below E G rank" and t: "t \<in># en_tasks (fr_engine f)" and n: "next_round t ch f"
  shows "spare f = 1" "spare (moved t ch f) = 0"
proof -
  obtain w where w: "gc_while_ctx (en_ctx (fr_engine f)) = Some w" "vx_code (gc_ctx (en_ctx (fr_engine f)) w) = 0"
    "vx_result (gc_ctx (en_ctx (fr_engine f)) w) \<noteq> V_RESULT_INVALID" "valid_ref (fr_graph f) w"
    by (rule next_round_code[OF f G t n])
  show "spare f = 1" using w by (simp add: spare_def untouched_def)
  show "spare (moved t ch f) = 0"
    using next_round_facts(3)[OF f G t n w(4)] moved_while[OF f G t, of ch] w(1) unfolding spare_def by simp
qed

lemma spare_late:
  assumes f: "live E G f" and G: "calls_below E G rank" and t: "t \<in># en_tasks (fr_engine f)"
    and en: "enabled ch t (en_ctx (fr_engine f))" and n: "\<not> next_round t ch f"
    and late: "time_is_up d now" and clock: "clock_says d now t ch"
  shows "spare (moved t ch f) \<le> spare f"
proof (cases "gc_while_ctx (en_ctx (fr_engine f))")
  case None
  then show ?thesis using moved_while[OF f G t, of ch] by (simp add: spare_def)
next
  case (Some w)
  let ?m = "moved t ch f"
  have w': "gc_while_ctx (en_ctx (fr_engine ?m)) = Some w" using moved_while[OF f G t, of ch] Some by simp
  obtain rest gc ts evs where h: "en_tasks (fr_engine f) = add_mset t rest"
    "handle (fr_graph f) ch t (en_ctx (fr_engine f)) = (gc, ts, evs)"
    "engine_inv (fr_graph f) (ne_procs E (fr_graph f)) (en_ctx (fr_engine f)) (add_mset t rest) (en_log (fr_engine f))"
    "en_ctx (fr_engine ?m) = gc"
    by (rule moved_parts[OF f G t, of ch]) blast
  consider (run) "t = TExecute w" | (ends) "t = TProcess w" | (other) "t \<noteq> TExecute w" "t \<noteq> TProcess w" by blast
  then show ?thesis
  proof cases
    case run
    have "ch_timeout ch" using clock late run by (simp add: clock_says_def)
    moreover have "Execute (fr_graph f) ch w (en_ctx (fr_engine f)) = (gc, ts, evs)" using h(2) run by simp
    moreover have "vx_result (gc_ctx (en_ctx (fr_engine f)) w) = V_RESULT_INVALID" using running_invalid[OF h(3)] run by simp
    ultimately have "vx_result (gc_ctx gc w) \<noteq> V_RESULT_INVALID" "vx_code (gc_ctx gc w) \<noteq> 0" by (rule late_execute)+
    then have "spare ?m = 0" using w' by (simp add: spare_def h(4) del: moved_simps)
    then show ?thesis by simp
  next
    case ends
    have "vx_result (gc_ctx (en_ctx (fr_engine f)) w) = V_RESULT_INVALID" using running_invalid[OF h(3)] ends by simp
    moreover have "\<not> untouched f w" using t ends by (simp add: untouched_def)
    ultimately have "spare f = 1" by (simp add: spare_def Some)
    then show ?thesis by (simp add: spare_def split: option.split)
  next
    case other
    note k = vertex_kept[OF f G t en n other]
    have "untouched ?m w \<longleftrightarrow> untouched f w" unfolding untouched_def k(1,3) ..
    then show ?thesis unfolding spare_def w' Some option.case k(1,2) by simp
  qed
qed

lemma below_rank:
  assumes inv: "rounds_inv E G ns" and G: "calls_below E G rank"
  shows "j < length ns \<Longrightarrow> below ns i j \<Longrightarrow> rank (fr_graph (ns ! j)) < rank (fr_graph (ns ! i))"
proof (induction j rule: less_induct)
  case (less j)
  have "j \<noteq> 0" using below_less[OF less.prems(2)] by simp
  then obtain k v where c: "k < j" "fr_caller (ns ! j) = Some (k, v)" "child_ok E G (ns ! k) v (ns ! j)"
    using rounds_invD(6)[OF inv less.prems(1)] by (auto simp: called_ok_def)
  have k: "k < length ns" using c(1) less.prems(1) by simp
  have "fr_graph (ns ! k) \<in> G" using rounds_invD(5)[OF inv k] by (auto simp: live_def idle_def)
  then have lower: "rank (fr_graph (ns ! j)) < rank (fr_graph (ns ! k))"
    using calls_belowD(2)[OF G, of "fr_graph (ns ! k)" v "fr_graph (ns ! j)"] c(3) by (simp add: child_ok_def)
  show ?case
  proof (cases "k = i")
    case False
    then have "below ns i k" using below_caller[OF c(2,1)] less.prems(2) by simp
    then show ?thesis using less.IH[OF c(1) k] lower by simp
  qed (use lower in simp)
qed

definition late_order :: "(graph \<Rightarrow> nat) \<Rightarrow> (frame list \<times> frame list) set" where
  "late_order rank = inv_image (mult (less_than <*lex*> less_than <*lex*> less_than))
    (\<lambda>ns. mset (map (\<lambda>f. (rank (fr_graph f), spare f, left (fr_graph f) (fr_engine f))) ns))"

lemma wf_late_order: "wf (late_order rank)"
  unfolding late_order_def by (intro wf_inv_image wf_mult wf_lex_prod wf_less_than)

lemma late_less:
  assumes st: "timed_step E now s s'" and inv: "timed_inv E G d s" and G: "calls_below E G rank" and late: "time_is_up d now"
  shows "(tn_frames s', tn_frames s) \<in> late_order rank"
  using st inv G
proof (cases rule: timed_step_cases)
  case 1: (1 i t ch)
  let ?ns = "tn_frames s" and ?ns' = "tn_frames s'" and ?r = "less_than <*lex*> less_than <*lex*> less_than"
  let ?m = "moved t ch (?ns ! i)" and ?p = "\<lambda>f. (rank (fr_graph f), spare f, left (fr_graph f) (fr_engine f))"
  note f = 1(7)
  have ri: "rounds_inv E G ?ns" using inv by (simp add: timed_inv_def)
  have b: "begins E t ch (?ns ! i) = None" by (rule late_step(1)[OF f G 1(2) late 1(6)])
  have less: "(?p ?m, ?p (?ns ! i)) \<in> ?r \<and> ?p ?m \<noteq> ?p (?ns ! i)"
  proof (cases "next_round t ch (?ns ! i)")
    case True
    then show ?thesis using spare_round[OF f G 1(2)] by simp
  next
    case False
    then show ?thesis using spare_late[OF f G 1(2,3) False late 1(6)] moved_left[OF f G 1(2,3) False] by auto
  qed
  have main: "length ?ns' = length ?ns \<and> ?ns' ! i = ?m \<and>
      (\<forall>k < length ?ns. ?ns' ! k = ?ns ! k \<or> (?p (?ns' ! k), ?p (?ns ! i)) \<in> ?r)"
  proof (cases "next_round t ch (?ns ! i)")
    case True
    have len: "length ?ns' = length ?ns" using True by (simp add: 1(5) round_after_def Let_def)
    have at: "?ns' ! j = (if below ?ns i j then reset_frame (?ns ! j) else if j = i then ?m else ?ns ! j)" if "j < length ?ns" for j
      using True that 1(1) by (simp add: 1(5) round_after_def Let_def)
    have "?ns' ! i = ?m" using at[OF 1(1)] below_less[of ?ns i i] by auto
    moreover have "?ns' ! k = ?ns ! k \<or> (?p (?ns' ! k), ?p (?ns ! i)) \<in> ?r" if k: "k < length ?ns" for k
      using at[OF k] below_rank[OF ri G k, of i] less by (auto split: if_splits)
    ultimately show ?thesis using len by blast
  next
    case False
    then have "?ns' = ?ns[i := ?m]" using b by (simp add: 1(5) round_after_def Let_def)
    then show ?thesis using less 1(1) by (auto simp: nth_list_update)
  qed
  have "(mset (map ?p ?ns'), mset (map ?p ?ns)) \<in> mult ?r"
  proof (rule mult_dominated)
    show "i < length (map ?p ?ns)" "length (map ?p ?ns) \<le> length (map ?p ?ns')" using 1(1) main by simp_all
    show "map ?p ?ns' ! i \<noteq> map ?p ?ns ! i" using 1(1) main less by simp
    fix k assume "k < length (map ?p ?ns')"
    then have k: "k < length ?ns" "k < length ?ns'" using main by simp_all
    then have "?ns' ! k = ?ns ! k \<or> (?p (?ns' ! k), ?p (?ns ! i)) \<in> ?r" using main by blast
    then show "k < length (map ?p ?ns) \<and> map ?p ?ns' ! k = map ?p ?ns ! k \<or> (map ?p ?ns' ! k, map ?p ?ns ! i) \<in> ?r"
      using k 1(1) by auto
  qed
  then show ?thesis by (simp only: late_order_def in_inv_image)
qed


section \<open>A run that begins too late\<close>

lemma early_code_none: "(\<And>c. EvEarly c \<notin> set k) \<Longrightarrow> early_code (k @ l) = early_code l"
proof (induction k)
  case (Cons e k)
  then have "early_code (k @ l) = early_code l" by simp
  then show ?case using Cons.prems by (cases e) auto
qed simp

lemma late_quiet:
  assumes f: "live E G f" and G: "calls_below E G rank" and t: "t \<in># en_tasks (fr_engine f)"
    and late: "time_is_up d now" and clock: "clock_says d now t ch" and no: "\<forall>v. TProcess v \<notin># en_tasks (fr_engine f)"
  shows "TProcess v \<notin># en_tasks (fr_engine (moved t ch f))"
    "early_code (en_log (fr_engine (moved t ch f))) = early_code (en_log (fr_engine f))"
proof -
  note p = live_parts[OF f G]
  obtain rest gc ts evs where h: "en_tasks (fr_engine f) = add_mset t rest"
    "handle (fr_graph f) ch t (en_ctx (fr_engine f)) = (gc, ts, evs)"
    "engine_inv (fr_graph f) (ne_procs E (fr_graph f)) (en_ctx (fr_engine f)) (add_mset t rest) (en_log (fr_engine f))"
    "en_tasks (fr_engine (moved t ch f)) = rest + mset ts"
    "en_log (fr_engine (moved t ch f)) = rev evs @ en_log (fr_engine f)"
    by (rule moved_parts[OF f G t, of ch]) blast
  have main: "TProcess v \<notin> set ts \<and> (\<forall>c. EvEarly c \<notin> set evs)" for v
  proof (cases t)
    case (TExecute u)
    have "ch_timeout ch" using clock late TExecute by (simp add: clock_says_def)
    moreover have "Execute (fr_graph f) ch u (en_ctx (fr_engine f)) = (gc, ts, evs)" using h(2) TExecute by simp
    moreover have "vx_result (gc_ctx (en_ctx (fr_engine f)) u) = V_RESULT_INVALID" using running_invalid[OF h(3)] TExecute by simp
    ultimately have "ts = [TDone u]" "set evs \<subseteq> {EvMove u, EvChild u}" by (rule late_execute)+
    then show ?thesis by auto
  next
    case (TProcess u)
    then show ?thesis using no t by blast
  next
    case (TDone u)
    have "TProcess v \<notin> set ts" using process_from_execute[OF h(3) p(1) h(2), of v] TDone by blast
    then show ?thesis using h(2) TDone by (auto simp: OnVertexDone_def Let_def case_prod_unfold split: if_splits)
  next
    case (TNotify u i ready)
    have "TProcess v \<notin> set ts" using process_from_execute[OF h(3) p(1) h(2), of v] TNotify by blast
    then show ?thesis using h(2) TNotify by (auto simp: Notify_def Let_def split: prod.splits if_splits)
  next
    case (TLost u)
    then show ?thesis using f t by (auto simp: live_def lossless_def)
  qed
  show "TProcess v \<notin># en_tasks (fr_engine (moved t ch f))" using main no unfolding h(4) h(1) by auto
  show "early_code (en_log (fr_engine (moved t ch f))) = early_code (en_log (fr_engine f))"
    unfolding h(5) by (rule early_code_none) (use main in simp)
qed

definition silent :: "timed_nest \<Rightarrow> bool" where
  "silent s = (\<exists>f. tn_frames s = [f] \<and> (\<forall>v. TProcess v \<notin># en_tasks (fr_engine f)
     \<and> EvStart v \<notin> set (en_log (fr_engine f))) \<and> early_code (en_log (fr_engine f)) = 0)"

lemma silent_step:
  assumes st: "timed_step E now s s'" and inv: "timed_inv E G d s" and G: "calls_below E G rank" and late: "time_is_up d now"
    and q: "silent s"
  shows "silent s'"
  using st inv G
proof (cases rule: timed_step_cases)
  case 1: (1 i t ch)
  obtain f where f: "tn_frames s = [f]" "\<forall>v. TProcess v \<notin># en_tasks (fr_engine f)"
    "\<forall>v. EvStart v \<notin> set (en_log (fr_engine f))" "early_code (en_log (fr_engine f)) = 0" using q by (auto simp: silent_def)
  have i: "i = 0" using 1(1) f(1) by simp
  note lv = 1(7)[unfolded i f(1), simplified] and t = 1(2)[unfolded i f(1), simplified]
  note b = late_step[OF lv G t late 1(6)] and k = late_quiet[OF lv G t late 1(6) f(2)]
  have "\<not> below [f] 0 0" using below_less by blast
  then have "tn_frames s' = [moved t ch f]" using b(1) by (simp add: 1(5) i f(1) round_after_def Let_def)
  then show ?thesis unfolding silent_def using b(2) k f(3,4) by (intro exI[of _ "moved t ch f"]) auto
qed

section \<open>Properties\<close>

lemma timed_can_step:
  assumes "some_round_step E (tn_frames s) ns'"
  shows "\<exists>s'. timed_step E now s s'"
proof -
  obtain w where "round_step E w (tn_frames s) ns'" using assms by blast
  then show ?thesis
  proof cases
    case (round_move i t ch)
    let ?ch = "ch\<lparr>ch_timeout := time_is_up (tn_ends s ! i) now\<rparr>"
    have "enabled ?ch t gc = enabled ch t gc" "finds_as E h t ?ch = finds_as E h t ch"
      "returns_as E ns i t ?ch = returns_as E ns i t ch" "clock_says (tn_ends s ! i) now t ?ch" for gc h ns
      by (cases t; simp add: finds_as_def returns_as_def clock_says_def)+
    then show ?thesis using timed_move[OF round_move(3,4), of ?ch E now] round_move(5-7) by auto
  qed
qed

text \<open>
  C18: A time limit only takes runs away and blocks none: a run under a limit is a run of the nest, every
  context in it has the end time of the first one, and as long as some step is possible one is possible
  at any time that the clock may show. (No graph calls itself again, directly or through others.)
\<close>
theorem limit_refines:
  assumes "calls_below E G rank" and "g \<in> G" and "timed_run E T (timed_start E g d) s"
  shows "(some_round_step E)\<^sup>*\<^sup>* (nest_start E g) (tn_frames s) \<and> tn_ends s = replicate (length (tn_frames s)) d
    \<and> ((\<exists>ns'. some_round_step E (tn_frames s) ns') \<longrightarrow> (\<forall>now. \<exists>s'. timed_step E now s s'))"
proof (intro conjI impI allI)
  show "(some_round_step E)\<^sup>*\<^sup>* (nest_start E g) (tn_frames s)"
    using timed_run_frames[OF assms(3)] by (simp add: timed_start_def)
  show "tn_ends s = replicate (length (tn_frames s)) d"
    using timed_run_inv[OF assms(3) timed_start_inv[OF assms(1,2)] assms(1)] by (simp add: timed_inv_def)
  fix now assume "\<exists>ns'. some_round_step E (tn_frames s) ns'"
  then show "\<exists>s'. timed_step E now s s'" using timed_can_step by blast
qed

text \<open>
  C20: When the end time has come nothing starts any more, at any depth: a step that is made then, by whatever
  graph, takes no context for another subgraph, and in no context has a vertex started after it that had not
  started before it. This holds in every state that a nest with a limit can reach, when no graph calls
  itself again, directly or through others.
\<close>
theorem deadline_stops:
  assumes "calls_below E G rank" and "g \<in> G" and "timed_run E T (timed_start E g d) s"
    and "timed_step E now s s'" and "time_is_up d now"
  shows "length (tn_frames s') = length (tn_frames s)
    \<and> (\<forall>j < length (tn_frames s). \<forall>v. EvStart v \<in> set (en_log (fr_engine (tn_frames s' ! j))) \<longrightarrow>
          EvStart v \<in> set (en_log (fr_engine (tn_frames s ! j))))"
proof -
  have inv: "timed_inv E G d s" by (rule timed_run_inv[OF assms(3) timed_start_inv[OF assms(1,2)] assms(1)])
  show ?thesis using assms(4) inv assms(1)
  proof (cases rule: timed_step_cases)
    case 1: (1 i t ch)
    let ?m = "moved t ch (tn_frames s ! i)"
    note b = late_step[OF 1(7) assms(1) 1(2) assms(5) 1(6)]
    have reset: "EvStart v \<notin> set (en_log (fr_engine (reset_frame h)))" for h v
      by (simp add: reset_frame_def Let_def stored_log_def)
    show ?thesis
    proof (cases "next_round t ch (tn_frames s ! i)")
      case True
      then show ?thesis using b(2) reset 1(1) by (auto simp: 1(5) round_after_def Let_def nth_list_update split: if_splits)
    next
      case False
      then show ?thesis using b 1(1) by (auto simp: 1(5) round_after_def Let_def nth_list_update split: if_splits)
    qed
  qed
qed

text \<open>
  C12: A time limit ends every loop: no run goes on for ever once the clock stays past the end time, whatever
  the conditions of its while graphs say, provided that operators return and
  that no graph calls itself again, directly or through others.
\<close>
theorem deadline_ends:
  assumes "calls_below E G rank" and "g \<in> G" and "timed_run E T (timed_start E g d) (f 0)"
  shows "\<not> ((\<forall>n. timed_step E (now n) (f n) (f (Suc n))) \<and> (\<exists>m. \<forall>n \<ge> m. time_is_up d (now n)))"
proof
  assume "(\<forall>n. timed_step E (now n) (f n) (f (Suc n))) \<and> (\<exists>m. \<forall>n \<ge> m. time_is_up d (now n))"
  then obtain m where f: "\<And>n. timed_step E (now n) (f n) (f (Suc n))" and late: "\<And>n. m \<le> n \<Longrightarrow> time_is_up d (now n)" by blast
  have start: "timed_inv E G d (f 0)" by (rule timed_run_inv[OF assms(3) timed_start_inv[OF assms(1,2)] assms(1)])
  have inv: "timed_inv E G d (f n)" for n
    by (induction n) (use start timed_step_inv[OF f _ assms(1)] in auto)
  have "(tn_frames (f (m + Suc n)), tn_frames (f (m + n))) \<in> late_order rank" for n
    using late_less[OF f inv assms(1) late, of "m + n"] by simp
  then show False using wf_late_order[of rank] unfolding wf_iff_no_infinite_down_chain
    by (auto dest: spec[of _ "\<lambda>n. tn_frames (f (m + n))"])
qed

text \<open>
  C30: The end time in 64 bits. As long as the limit fits, the time is up exactly when the limit has passed,
  and never without a limit. The largest number of milliseconds, however, wraps around: with the limit
  that looks like no limit at all the time is up at once.
\<close>
theorem limit_bounds:
  "(time_out_ms = 0 \<longrightarrow> \<not> time_is_up (end_time now time_out_ms) later)
    \<and> (time_out_ms \<noteq> 0 \<longrightarrow> unat now + unat time_out_ms * 1000 < 2 ^ 64 \<longrightarrow>
        (time_is_up (end_time now time_out_ms) later \<longleftrightarrow> unat now + unat time_out_ms * 1000 \<le> unat later))
    \<and> (1000 < now \<longrightarrow> now \<le> later \<longrightarrow> time_is_up (end_time now (- 1)) later)"
proof (intro conjI impI)
  show "\<not> time_is_up (end_time now time_out_ms) later" if "time_out_ms = 0"
    using that by (simp add: time_is_up_def end_time_def)
next
  assume ms: "time_out_ms \<noteq> 0" and fits: "unat now + unat time_out_ms * 1000 < 2 ^ 64"
  have m: "unat (time_out_ms * 1000) = unat time_out_ms * 1000"
    using fits by (simp add: unat_word_ariths)
  then have e: "unat (now + time_out_ms * 1000) = unat now + unat time_out_ms * 1000"
    using fits by (simp add: unat_word_ariths)
  have "unat time_out_ms \<noteq> 0" using ms by (simp add: unat_eq_0)
  then have "now + time_out_ms * 1000 \<noteq> 0" using e by (metis add_is_0 mult_is_0 unat_0 zero_neq_numeral)
  then show "time_is_up (end_time now time_out_ms) later \<longleftrightarrow> unat now + unat time_out_ms * 1000 \<le> unat later"
    using ms e by (simp add: time_is_up_def end_time_def word_le_nat_alt)
next
  assume n: "1000 < now" "now \<le> later"
  have "end_time now (- 1) = now - 1000" by (simp add: end_time_def)
  moreover have "unat (now - 1000) = unat now - 1000" using n(1) by (simp add: unat_sub word_less_nat_alt word_le_nat_alt)
  moreover have "1000 < unat now" using n(1) by (simp add: word_less_nat_alt)
  ultimately show "time_is_up (end_time now (- 1)) later"
    using n(2) by (auto simp: time_is_up_def word_le_nat_alt unat_eq_0[symmetric])
qed

text \<open>
  A run whose time is up from the beginning reports success: it starts no vertex and no subgraph, and
  its closure is called with code 0, as after a run that did all its work.
\<close>
theorem timed_out_is_silent:
  assumes "calls_below E G rank" and "g \<in> G" and "timed_run E {now. time_is_up d now} (timed_start E g d) s"
  shows "length (tn_frames s) = 1 \<and> (\<forall>v. EvStart v \<notin> set (en_log (fr_engine (tn_frames s ! 0))))
    \<and> (\<forall>rc. closure_code (tn_frames s ! 0) = Some rc \<longrightarrow> rc = 0)"
proof -
  note new = new_frame_facts[OF assms(1,2), where c = None]
  have "silent (timed_start E g d)"
    using new(2) by (simp add: silent_def timed_start_def nest_start_def) (simp add: new_frame_def start_def)
  with assms(3) have "silent s \<and> timed_inv E G d s"
  proof (induction rule: timed_run.induct)
    case timed_none
    then show ?case using timed_start_inv[OF assms(1,2)] by simp
  next
    case (timed_more s' now s'')
    have "silent s'" "timed_inv E G d s'" using timed_more.IH timed_more.prems by simp_all
    then show ?case
      using silent_step[OF timed_more.hyps(3) _ assms(1)] timed_step_inv[OF timed_more.hyps(3) _ assms(1)] timed_more.hyps(2) by simp
  qed
  then obtain f where f: "tn_frames s = [f]" "\<forall>v. EvStart v \<notin> set (en_log (fr_engine f))"
    "early_code (en_log (fr_engine f)) = 0" and inv: "rounds_inv E G [f]" by (auto simp: silent_def timed_inv_def)
  have lv: "live E G f" using rounds_invD(2)[OF inv] by simp
  have "rc = 0" if c: "closure_code f = Some rc" for rc
  proof -
    obtain l where l: "en_log (fr_engine f) = EvDone rc # l"
      using c by (auto simp: closure_code_def split: list.splits event.splits)
    then have "rc = early_code l" using lv by (simp add: live_def)
    then show ?thesis using f(3) l by simp
  qed
  then show ?thesis using f by simp
qed

section \<open>Examples\<close>

theorem limit_refines_witness:
  "(some_round_step loop_env)\<^sup>*\<^sup>* (nest_start loop_env loop_graph) (tn_frames (timed_start loop_env loop_graph 5))
    \<and> tn_ends (timed_start loop_env loop_graph 5) = [5]"
  using limit_refines[where g = loop_graph and T = UNIV and d = 5, OF loop_calls _ timed_none] by (simp add: timed_start_def nest_start_def)

theorem deadline_ends_witness:
  "\<not> (\<exists>f. f 0 = timed_start loop_env loop_graph 5 \<and> (\<forall>n. timed_step loop_env 7 (f n) (f (Suc n))))"
proof
  assume "\<exists>f. f 0 = timed_start loop_env loop_graph 5 \<and> (\<forall>n. timed_step loop_env 7 (f n) (f (Suc n)))"
  then obtain f where f: "f 0 = timed_start loop_env loop_graph 5" "\<forall>n. timed_step loop_env 7 (f n) (f (Suc n))" by blast
  have run: "timed_run loop_env UNIV (timed_start loop_env loop_graph 5) (f 0)" unfolding f(1) by (rule timed_none)
  have up: "time_is_up 5 7" by (simp add: time_is_up_def)
  show False using deadline_ends[where f = f and now = "\<lambda>_. 7", OF loop_calls _ run] f(2) up by auto
qed

theorem limit_bounds_witness:
  "time_is_up (end_time 1000000 5) 1005000 \<and> \<not> time_is_up (end_time 1000000 5) 1004999 \<and> time_is_up (end_time 1000000 (- 1)) 1000000"
  using limit_bounds[of 5 1000000 1005000] limit_bounds[of 5 1000000 1004999] limit_bounds[of 5 1000000 1000000] by simp

theorem timed_out_is_silent_witness:
  "length (tn_frames (timed_start loop_env loop_graph 5)) = 1"
  using timed_out_is_silent[where g = loop_graph and d = 5, OF loop_calls _ timed_none] by simp

theorem deadline_stops_witness:
  "\<exists>s'. timed_step loop_env 7 (timed_start loop_env loop_graph 5) s' \<and> length (tn_frames s') = 1"
proof -
  let ?s = "timed_start loop_env loop_graph 5"
  have inv: "rounds_inv loop_env {loop_graph, early_graph} (nest_start loop_env loop_graph)"
    by (rule rounds_start_inv[OF loop_calls]) simp
  have "en_tasks (fr_engine (nest_start loop_env loop_graph ! 0)) \<noteq> {#}"
  proof
    assume "en_tasks (fr_engine (nest_start loop_env loop_graph ! 0)) = {#}"
    from live_closed[OF rounds_invD(2)[OF inv] loop_calls this]
    show False by (auto simp: nest_start_def new_frame_def start_def closure_code_def)
  qed
  then obtain w ns' where "round_step loop_env w (nest_start loop_env loop_graph) ns'"
    using rounds_progress[OF inv loop_calls, of 0] by (auto simp: nest_start_def)
  then have "\<exists>ns'. some_round_step loop_env (tn_frames ?s) ns'" by (auto simp: timed_start_def)
  then obtain s' where s': "timed_step loop_env 7 ?s s'"
    using timed_can_step by blast
  have up: "time_is_up 5 7" by (simp add: time_is_up_def)
  show ?thesis using deadline_stops[where T = UNIV, OF loop_calls _ timed_none s' up] s' by (auto simp: timed_start_def nest_start_def)
qed

end
