(* ===== verification/OpDeclare.thy ===== *)
theory OpDeclare
  imports Registry Engine
begin

text \<open>
  How an operator class comes about (\<open>processor/api.h\<close>, the registering functions of
  \<open>processor/processor.cpp\<close>): each declaration macro adds to the lists of inputs, outputs and parameters,
  and to those of the functions that set, prepare and reset the members; the operations of an operator run
  these functions in the order of the declarations. \<open>Processor\<close> has the same operations over the
  declarations alone; here they are shown to be the same.
\<close>

section \<open>Registering\<close>

record param_info =
  pmi_name :: string
  pmi_type :: string
  pmi_default_value :: string
  pmi_desc :: string

record registered =
  rg_input_ids :: "input_info list"
  rg_output_ids :: "output_info list"
  rg_params :: "param_info list"
  rg_params_settings :: "(pheap \<Rightarrow> params \<Rightarrow> op_state \<Rightarrow> op_state option) list"
  rg_reset_funcs :: "(op_state \<Rightarrow> op_state) list"
  rg_prepare_funcs :: "((string \<Rightarrow> nat) \<Rightarrow> op_state \<Rightarrow> op_state) list"

definition nothing_registered :: registered where
  "nothing_registered = \<lparr>rg_input_ids = [], rg_output_ids = [], rg_params = [], rg_params_settings = [],
     rg_reset_funcs = [], rg_prepare_funcs = []\<rparr>"

text \<open>The returned numbers are the sizes of the lists.\<close>

definition RegisterParam :: "string \<Rightarrow> string \<Rightarrow> string \<Rightarrow> string \<Rightarrow> (pheap \<Rightarrow> params \<Rightarrow> op_state \<Rightarrow> op_state option)
    \<Rightarrow> registered \<Rightarrow> nat \<times> registered" where
  "RegisterParam name type default_value desc f r =
    (let info = \<lparr>pmi_name = name, pmi_type = type, pmi_default_value = default_value, pmi_desc = desc\<rparr>;
         r' = r\<lparr>rg_params := rg_params r @ [info], rg_params_settings := rg_params_settings r @ [f]\<rparr>
     in (length (rg_params r'), r'))"

definition RegisterOpInput :: "input_info \<Rightarrow> registered \<Rightarrow> nat \<times> registered" where
  "RegisterOpInput info r =
    (let r' = r\<lparr>rg_input_ids := rg_input_ids r @ [info]\<rparr> in (length (rg_input_ids r'), r'))"

definition RegisterOpOutput :: "output_info \<Rightarrow> registered \<Rightarrow> nat \<times> registered" where
  "RegisterOpOutput info r =
    (let r' = r\<lparr>rg_output_ids := rg_output_ids r @ [info]\<rparr> in (length (rg_output_ids r'), r'))"

definition AddResetFunc :: "(op_state \<Rightarrow> op_state) \<Rightarrow> registered \<Rightarrow> nat \<times> registered" where
  "AddResetFunc f r =
    (let r' = r\<lparr>rg_reset_funcs := rg_reset_funcs r @ [f]\<rparr> in (length (rg_reset_funcs r'), r'))"

definition AddPrepareFunc :: "((string \<Rightarrow> nat) \<Rightarrow> op_state \<Rightarrow> op_state) \<Rightarrow> registered \<Rightarrow> nat \<times> registered" where
  "AddPrepareFunc f r =
    (let r' = r\<lparr>rg_prepare_funcs := rg_prepare_funcs r @ [f]\<rparr> in (length (rg_prepare_funcs r'), r'))"

section \<open>The declaration macros\<close>

text \<open>
  A field is declared with its type (a number that stands for the type, and how the member holds it) and
  its name; \<open>GRAPH_OP_INPUT\<close> and \<open>GRAPH_OP_IN_OUT\<close> have a variant for data from outside of the graph. A
  parameter has its default, the text of the default in the source (for a string the default itself), a name
  and a description.
\<close>

datatype op_field =
    GRAPH_OP_INPUT bool nat hold string
  | GRAPH_OP_MAP_INPUT nat hold string
  | GRAPH_OP_OUTPUT nat hold output_kind string
  | GRAPH_OP_ARENA_OUTPUT nat string
  | GRAPH_OP_IN_OUT bool nat hold string
  | GRAPH_PARAMS param_value string string string

definition declared_input :: "bool \<Rightarrow> bool \<Rightarrow> bool \<Rightarrow> nat \<Rightarrow> hold \<Rightarrow> input_kind \<Rightarrow> string \<Rightarrow> input_info" where
  "declared_input ext agg in_out type h kind name =
    \<lparr>fi_name = name, fi_id = type, fi_is_extern = ext, fi_is_aggregate = agg, fi_is_in_out = in_out,
     fi_member = name, fi_hold = h, fi_kind = kind\<rparr>"

definition declared_output :: "nat \<Rightarrow> hold \<Rightarrow> output_kind \<Rightarrow> bool \<Rightarrow> string \<Rightarrow> output_info" where
  "declared_output type h kind arena name =
    \<lparr>fi_name = name, fi_id = type, fi_is_extern = False, fi_is_aggregate = False, fi_is_in_out = False,
     fo_member = name, fo_hold = h, fo_kind = kind, fo_arena = arena\<rparr>"

text \<open>The type that \<open>GRAPH_PARAMS\<close> writes down; a list of booleans is described as \<open>vector<int>\<close>.\<close>

fun declared_type :: "param_value \<Rightarrow> string" where
  "declared_type (StringValue _) = ''string''" | "declared_type (StringList _) = ''vector<string>''"
| "declared_type (IntValue _) = ''int''" | "declared_type (IntList _) = ''vector<int>''"
| "declared_type (BoolValue _) = ''bool''" | "declared_type (BoolList _) = ''vector<int>''"
| "declared_type (DoubleValue _) = ''double''" | "declared_type (DoubleList _) = ''vector<double>''"

definition default_text :: "param_value \<Rightarrow> string \<Rightarrow> string" where
  "default_text v txt = (case v of StringValue s \<Rightarrow> s | _ \<Rightarrow> txt)"

fun declare_field :: "op_field \<Rightarrow> registered \<Rightarrow> registered" where
  "declare_field (GRAPH_OP_INPUT ext type h name) r =
    (let i = declared_input ext False False type h OpInput name
     in snd (AddResetFunc (reset_input i) (snd (RegisterOpInput i r))))"
| "declare_field (GRAPH_OP_MAP_INPUT type h name) r =
    (let i = declared_input False True False type h OpMapInput name
     in snd (AddResetFunc (reset_input i) (snd (RegisterOpInput i r))))"
| "declare_field (GRAPH_OP_OUTPUT type h kind name) r =
    (let o1 = declared_output type h kind False name
     in snd (AddResetFunc (reset_output o1) (snd (RegisterOpOutput o1 r))))"
| "declare_field (GRAPH_OP_ARENA_OUTPUT type name) r =
    (let o1 = declared_output type ByPointer FromMember True name
     in snd (AddPrepareFunc (\<lambda>arena. set_member name (Some (arena name)))
          (snd (AddResetFunc (set_member name None) (snd (RegisterOpOutput o1 r))))))"
| "declare_field (GRAPH_OP_IN_OUT ext type h name) r =
    (let i = declared_input ext False True type h OpInOut name;
         o1 = declared_output type h FromMember False name
     in snd (AddResetFunc (set_member name None) (snd (RegisterOpOutput o1 (snd (RegisterOpInput i r))))))"
| "declare_field (GRAPH_PARAMS default_value txt name desc) r =
    (let d = \<lparr>pd_name = name, pd_default = default_value\<rparr>
     in snd (AddResetFunc (set_op_param name default_value)
          (snd (RegisterParam name (declared_type default_value) (default_text default_value txt) desc (\<lambda>h args. set_param h args d) r))))"

definition declare_fields :: "op_field list \<Rightarrow> registered" where
  "declare_fields ds = fold declare_field ds nothing_registered"

text \<open>The same declarations as the list of inputs, outputs and parameters that \<open>Processor\<close> works with.\<close>

fun input_of :: "op_field \<Rightarrow> input_info list" where
  "input_of (GRAPH_OP_INPUT e t h n) = [declared_input e False False t h OpInput n]"
| "input_of (GRAPH_OP_MAP_INPUT t h n) = [declared_input False True False t h OpMapInput n]"
| "input_of (GRAPH_OP_IN_OUT e t h n) = [declared_input e False True t h OpInOut n]"
| "input_of _ = []"

fun output_of :: "op_field \<Rightarrow> output_info list" where
  "output_of (GRAPH_OP_OUTPUT t h k n) = [declared_output t h k False n]"
| "output_of (GRAPH_OP_ARENA_OUTPUT t n) = [declared_output t ByPointer FromMember True n]"
| "output_of (GRAPH_OP_IN_OUT e t h n) = [declared_output t h FromMember False n]"
| "output_of _ = []"

fun param_of :: "op_field \<Rightarrow> param_decl list" where
  "param_of (GRAPH_PARAMS v x n d) = [\<lparr>pd_name = n, pd_default = v\<rparr>]"
| "param_of _ = []"

definition processor_of :: "op_field list \<Rightarrow> processor" where
  "processor_of ds = \<lparr>pr_inputs = concat (map input_of ds), pr_outputs = concat (map output_of ds),
     pr_params = concat (map param_of ds)\<rparr>"

section \<open>The operations over what is registered\<close>

definition PrepareRegistered :: "registered \<Rightarrow> (string \<Rightarrow> nat) \<Rightarrow> (op_state \<Rightarrow> int \<times> op_state) \<Rightarrow> op_state \<Rightarrow> int \<times> op_state" where
  "PrepareRegistered r arena OnPrepare st = OnPrepare (fold (\<lambda>prepare. prepare arena) (rg_prepare_funcs r) st)"

definition ResetRegistered :: "registered \<Rightarrow> (op_state \<Rightarrow> op_state) \<Rightarrow> op_state \<Rightarrow> op_state" where
  "ResetRegistered r OnReset st = fold (\<lambda>reset. reset) (rg_reset_funcs r) (OnReset st)"

fun run_settings :: "(pheap \<Rightarrow> params \<Rightarrow> op_state \<Rightarrow> op_state option) list \<Rightarrow> pheap \<Rightarrow> params \<Rightarrow> op_state \<Rightarrow> op_state option" where
  "run_settings [] h args st = Some st"
| "run_settings (f # fs) h args st = Option.bind (f h args st) (run_settings fs h args)"

text \<open>
  The forms of \<open>Execute\<close>: each sets the parameters and then calls its own virtual function, whose default
  returns \<open>ERR_UNIMPLEMENTED\<close> (\<open>None\<close>: not overridden). A future is taken together with its value.
\<close>

definition ERR_UNIMPLEMENTED :: int where "ERR_UNIMPLEMENTED = -7890"

type_synonym op_body = "(params \<Rightarrow> op_state \<Rightarrow> int \<times> op_state) option"

record op_bodies =
  OnExecute :: op_body
  OnCoroExecute :: op_body
  OnFutureExecute :: op_body
  OnAExecute :: op_body

definition call_body :: "op_body \<Rightarrow> params \<Rightarrow> op_state \<Rightarrow> int \<times> op_state" where
  "call_body b args st = (case b of None \<Rightarrow> (ERR_UNIMPLEMENTED, st) | Some f \<Rightarrow> f args st)"

definition ExecuteRegistered :: "registered \<Rightarrow> pheap \<Rightarrow> params \<Rightarrow> op_bodies \<Rightarrow> op_state \<Rightarrow> (int \<times> op_state) option" where
  "ExecuteRegistered r h args b st = map_option (call_body (OnExecute b) args) (run_settings (rg_params_settings r) h args st)"

definition FutureExecute :: "registered \<Rightarrow> pheap \<Rightarrow> params \<Rightarrow> op_bodies \<Rightarrow> op_state \<Rightarrow> (int \<times> op_state) option" where
  "FutureExecute r h args b st = map_option (call_body (OnFutureExecute b) args) (run_settings (rg_params_settings r) h args st)"

definition AExecute :: "registered \<Rightarrow> pheap \<Rightarrow> params \<Rightarrow> op_bodies \<Rightarrow> op_state \<Rightarrow> (int \<times> op_state) option" where
  "AExecute r h args b st = map_option (call_body (OnAExecute b) args) (run_settings (rg_params_settings r) h args st)"

text \<open>
  The form that \<open>VertexContext::ExecuteProcessor\<close> calls for a mode. The branch of \<open>EXEC_STD_COROUTINE\<close> is
  compiled only with \<open>ISPINE_HAS_COROUTINES\<close>, which nothing defines: such an operator takes the default branch.
\<close>

definition ExecuteByMode :: "exec_mode \<Rightarrow> registered \<Rightarrow> pheap \<Rightarrow> params \<Rightarrow> op_bodies \<Rightarrow> op_state \<Rightarrow> (int \<times> op_state) option" where
  "ExecuteByMode mode =
    (case mode of EXEC_ASYNC_FUTURE \<Rightarrow> FutureExecute | EXEC_ADAPTIVE \<Rightarrow> AExecute | _ \<Rightarrow> ExecuteRegistered)"

section \<open>The frame of an operator class\<close>

text \<open>\<open>GRAPH_OP_BEGIN\<close> and its variants, with one or two arguments; \<open>GRAPH_OP_END\<close> registers the class.\<close>

record op_head =
  oh_name :: string
  oh_desc :: string
  oh_mode :: exec_mode

definition GRAPH_OP_BEGIN :: "string list \<Rightarrow> op_head" where
  "GRAPH_OP_BEGIN args = \<lparr>oh_name = args ! 0,
     oh_desc = (if length args = 2 then args ! 1 else ''Empty Description''), oh_mode = EXEC_SYNC\<rparr>"

definition GRAPH_CORO_OP_BEGIN :: "string list \<Rightarrow> op_head" where
  "GRAPH_CORO_OP_BEGIN args = (GRAPH_OP_BEGIN args)\<lparr>oh_mode := EXEC_STD_COROUTINE\<rparr>"

definition GRAPH_AUTO_OP_BEGIN :: "string list \<Rightarrow> op_head" where
  "GRAPH_AUTO_OP_BEGIN args = (GRAPH_OP_BEGIN args)\<lparr>oh_mode := EXEC_ADAPTIVE\<rparr>"

definition GRAPH_FUTURE_OP_BEGIN :: "string list \<Rightarrow> op_head" where
  "GRAPH_FUTURE_OP_BEGIN args = (GRAPH_OP_BEGIN args)\<lparr>oh_mode := EXEC_ASYNC_FUTURE\<rparr>"

definition declared_class :: "op_field list \<Rightarrow> (params \<Rightarrow> op_state \<Rightarrow> int \<times> op_state) \<Rightarrow> op_bodies \<Rightarrow> op_class" where
  "declared_class ds OnSetup b = \<lparr>oc_processor = processor_of ds, oc_setup = OnSetup, oc_execute = call_body (OnExecute b)\<rparr>"

definition GRAPH_OP_END :: "op_head \<Rightarrow> op_class \<Rightarrow> creators \<Rightarrow> bool \<times> creators" where
  "GRAPH_OP_END head c t = RegisterProcessor (oh_name head) c t"

text \<open>The operators of the library without fields (\<open>processor/impl/noop.cpp\<close>, \<open>switch.cpp\<close>).\<close>

definition only_execute :: "(params \<Rightarrow> op_state \<Rightarrow> int \<times> op_state) \<Rightarrow> op_bodies" where
  "only_execute f = \<lparr>OnExecute = Some f, OnCoroExecute = None, OnFutureExecute = None, OnAExecute = None\<rparr>"

definition didagle_noop :: "creators \<Rightarrow> bool \<times> creators" where
  "didagle_noop t = GRAPH_OP_END (GRAPH_OP_BEGIN [''didagle_noop''])
     (declared_class [] (\<lambda>_ st. (0, st)) (only_execute (\<lambda>args st. (0, st)))) t"

definition didagle_switch :: "creators \<Rightarrow> bool \<times> creators" where
  "didagle_switch t = GRAPH_OP_END (GRAPH_OP_BEGIN [''didagle_switch''])
     (declared_class [] (\<lambda>_ st. (0, st)) (only_execute (\<lambda>args st. (0, st)))) t"

section \<open>Resetting in any order\<close>

lemmas registering = RegisterParam_def RegisterOpInput_def RegisterOpOutput_def AddResetFunc_def AddPrepareFunc_def Let_def

lemma declare_snoc: "declare_fields (ds @ [d]) = declare_field d (declare_fields ds)"
  by (simp add: declare_fields_def)

lemma processor_snoc:
  "pr_inputs (processor_of (ds @ [d])) = pr_inputs (processor_of ds) @ input_of d"
  "pr_outputs (processor_of (ds @ [d])) = pr_outputs (processor_of ds) @ output_of d"
  "pr_params (processor_of (ds @ [d])) = pr_params (processor_of ds) @ param_of d"
  by (simp_all add: processor_of_def)

lemma set_member_idem [simp]: "set_member n None (set_member n None st) = set_member n None st"
  by (simp add: set_member_def)

lemma set_member_twist: "set_member n None (set_member m None st) = set_member m None (set_member n None st)"
  by (cases "m = n") (simp_all add: set_member_def fun_upd_twist)

definition clear_map :: "string \<Rightarrow> op_state \<Rightarrow> op_state" where
  "clear_map m st = st\<lparr>op_map := (op_map st)(m := [])\<rparr>"

lemma reset_input_cases: "reset_input i st = (if fi_kind i = OpMapInput then clear_map (fi_member i) st else set_member (fi_member i) None st)"
  by (simp add: clear_map_def)

lemma reset_output_cases: "reset_output i st = (if fo_kind i = FromMember then set_member (fo_member i) None st else st)"
  by (simp add: reset_output_def split: output_kind.split)

lemma params_later:
  "set_member n v (fold (\<lambda>d. set_op_param (pd_name d) (pd_default d)) ds st) =
    fold (\<lambda>d. set_op_param (pd_name d) (pd_default d)) ds (set_member n v st)"
  "clear_map n (fold (\<lambda>d. set_op_param (pd_name d) (pd_default d)) ds st) =
    fold (\<lambda>d. set_op_param (pd_name d) (pd_default d)) ds (clear_map n st)"
  by (rule fold_commute_apply, simp add: fun_eq_iff set_member_def set_op_param_def clear_map_def)+

lemma outputs_later:
  "set_member n None (fold reset_output outs st) = fold reset_output outs (set_member n None st)"
  "clear_map n (fold reset_output outs st) = fold reset_output outs (clear_map n st)"
  by (rule fold_commute_apply, simp add: fun_eq_iff reset_output_cases set_member_twist,
      rule fold_commute_apply, simp add: fun_eq_iff reset_output_cases set_member_def clear_map_def)

definition reset_all :: "processor \<Rightarrow> op_state \<Rightarrow> op_state" where
  "reset_all p st = fold (\<lambda>d. set_op_param (pd_name d) (pd_default d)) (pr_params p)
     (fold reset_output (pr_outputs p) (fold reset_input (pr_inputs p) st))"

lemma reset_registered: "fold (\<lambda>reset. reset) (rg_reset_funcs (declare_fields ds)) st = reset_all (processor_of ds) st"
proof (induction ds rule: rev_induct)
  case Nil
  show ?case by (simp add: declare_fields_def nothing_registered_def processor_of_def reset_all_def)
next
  case (snoc d ds)
  show ?case
    by (cases d)
      (simp_all del: reset_input.simps add: declare_snoc registering processor_snoc reset_all_def snoc.IH
        reset_input_cases reset_output_cases outputs_later params_later declared_input_def declared_output_def)
qed

lemma prepare_registered:
  "fold (\<lambda>prepare. prepare arena) (rg_prepare_funcs (declare_fields ds)) st =
    fold (\<lambda>i st. if fo_arena i then set_member (fo_member i) (Some (arena (fo_member i))) st else st)
      (pr_outputs (processor_of ds)) st"
proof (induction ds rule: rev_induct)
  case Nil
  show ?case by (simp add: declare_fields_def nothing_registered_def processor_of_def)
next
  case (snoc d ds)
  show ?case unfolding declare_snoc using snoc.IH
    by (cases d) (simp_all add: registering processor_snoc declared_output_def)
qed

lemma one_setting:
  "run_settings [f] h args = f h args" "set_params h args [d] = set_param h args d"
  by (simp_all add: fun_eq_iff split: Option.bind_split)

lemma run_settings_append: "run_settings (fs @ gs) h args st = Option.bind (run_settings fs h args st) (run_settings gs h args)"
  by (induction fs arbitrary: st) (simp_all split: Option.bind_split)

lemma set_params_append: "set_params h args (ds @ es) st = Option.bind (set_params h args ds st) (set_params h args es)"
  by (induction ds arbitrary: st) (simp_all split: Option.bind_split)

lemma settings_registered:
  "run_settings (rg_params_settings (declare_fields ds)) h args st = set_params h args (pr_params (processor_of ds)) st"
proof (induction ds rule: rev_induct)
  case Nil
  show ?case by (simp add: declare_fields_def nothing_registered_def processor_of_def)
next
  case (snoc d ds)
  show ?case unfolding declare_snoc
    by (cases d) (simp_all add: registering processor_snoc run_settings_append set_params_append one_setting snoc.IH
        del: run_settings.simps set_params.simps)
qed

lemma lists_registered:
  "rg_input_ids (declare_fields ds) = pr_inputs (processor_of ds)"
  "rg_output_ids (declare_fields ds) = pr_outputs (processor_of ds)"
  "map pmi_name (rg_params (declare_fields ds)) = map pd_name (pr_params (processor_of ds))"
proof (induction ds rule: rev_induct)
  case Nil
  { case 1 show ?case by (simp add: declare_fields_def nothing_registered_def processor_of_def) }
  { case 2 show ?case by (simp add: declare_fields_def nothing_registered_def processor_of_def) }
  { case 3 show ?case by (simp add: declare_fields_def nothing_registered_def processor_of_def) }
next
  case (snoc d ds)
  { case 1 show ?case unfolding declare_snoc by (cases d) (simp_all add: registering processor_snoc snoc.IH) }
  { case 2 show ?case unfolding declare_snoc by (cases d) (simp_all add: registering processor_snoc snoc.IH) }
  { case 3 show ?case unfolding declare_snoc by (cases d) (simp_all add: registering processor_snoc snoc.IH) }
qed

section \<open>The two pictures of an operator\<close>

text \<open>
  C17: Whatever fields an operator declares and in whatever order, the functions that the macros register make
  \<open>Prepare\<close>, \<open>Reset\<close> and \<open>Execute\<close> do exactly what the operations over the declarations do: all inputs,
  outputs and parameters are reset and none twice with a different result, only arena outputs are prepared, and the parameters
  are set in the order of their declarations before the user's code runs.
\<close>
theorem registered_is_processor:
  "PrepareRegistered (declare_fields ds) arena OnPrepare st = PrepareOp (processor_of ds) arena OnPrepare st
    \<and> ResetRegistered (declare_fields ds) OnReset st = ResetOp (processor_of ds) OnReset st
    \<and> ExecuteRegistered (declare_fields ds) h args (only_execute f) st = ExecuteOp (processor_of ds) h args f st
    \<and> rg_input_ids (declare_fields ds) = pr_inputs (processor_of ds)
    \<and> rg_output_ids (declare_fields ds) = pr_outputs (processor_of ds)
    \<and> map pmi_name (rg_params (declare_fields ds)) = map pd_name (pr_params (processor_of ds))"
  by (simp add: PrepareRegistered_def PrepareOp_def prepare_registered ResetRegistered_def ResetOp_def
      reset_registered reset_all_def ExecuteRegistered_def ExecuteOp_def settings_registered only_execute_def
      call_body_def[abs_def] lists_registered)

text \<open>
  An operator declared with \<open>GRAPH_CORO_OP_BEGIN\<close> that implements only \<open>OnCoroExecute\<close>, as such operators
  do: nothing defines \<open>ISPINE_HAS_COROUTINES\<close>, so the executor runs the synchronous form, and the operator
  ends with \<open>ERR_UNIMPLEMENTED\<close> after its parameters were set, without its body having run.
\<close>
theorem coroutine_unimplemented:
  assumes "OnExecute b = None" and "set_params h args (pr_params (processor_of ds)) st = Some st'"
  shows "ExecuteByMode (oh_mode (GRAPH_CORO_OP_BEGIN names)) (declare_fields ds) h args b st = Some (ERR_UNIMPLEMENTED, st')"
  using assms
  by (simp add: GRAPH_CORO_OP_BEGIN_def ExecuteByMode_def ExecuteRegistered_def settings_registered call_body_def)

theorem coroutine_unimplemented_witness:
  "ExecuteByMode (oh_mode (GRAPH_CORO_OP_BEGIN [''c'']))
      (declare_fields [GRAPH_OP_INPUT False 1 ByPointer ''x'', GRAPH_OP_ARENA_OUTPUT 2 ''y''])
      (\<lambda>_. None) demo_var_params \<lparr>OnExecute = None, OnCoroExecute = Some (\<lambda>_ st. (0, st)), OnFutureExecute = None, OnAExecute = None\<rparr>
      \<lparr>op_member = (\<lambda>_. None), op_map = (\<lambda>_. []), op_param = (\<lambda>_. BoolValue False)\<rparr>
    = Some (-7890, \<lparr>op_member = (\<lambda>_. None), op_map = (\<lambda>_. []), op_param = (\<lambda>_. BoolValue False)\<rparr>)"
  unfolding ERR_UNIMPLEMENTED_def[symmetric]
  by (rule coroutine_unimplemented) (simp_all add: processor_of_def)

end
