(* ===== verification/Worker.thy ===== *)
theory Worker
  imports StoreDrain
begin

text \<open>
  The background worker (\<open>AsyncResetWorker\<close>, \<open>store/background_worker.{h,cpp}\<close>) and the store that posts
  to it. The store alone takes one thing for granted: a function that is posted runs once, some time later.
  Here the functions go through the worker: its own pool of threads, or the executor that the client sets. A
  posted function is the number of the context that it releases.
\<close>

section \<open>The pool of threads\<close>

text \<open>
  The pool is folly's: an empty pool, adding a function, the function that a thread takes next and runs, the
  functions that still run before \<open>stop\<close> returns, and those that wait.
\<close>

record 'p pool_ops =
  po_new :: 'p
  po_add :: "nat \<Rightarrow> 'p \<Rightarrow> 'p"
  po_take :: "'p \<Rightarrow> (nat \<times> 'p) option"
  po_stop :: "'p \<Rightarrow> nat list"
  po_pending :: "'p \<Rightarrow> nat list"

text \<open>What its documentation promises: a function that is added waits until one thread takes it.\<close>

definition pool_laws :: "'p pool_ops \<Rightarrow> bool" where
  "pool_laws ops = (po_pending ops (po_new ops) = []
     \<and> (\<forall>f p. mset (po_pending ops (po_add ops f p)) = add_mset f (mset (po_pending ops p)))
     \<and> (\<forall>p f p'. po_take ops p = Some (f, p') \<longrightarrow> mset (po_pending ops p) = add_mset f (mset (po_pending ops p')))
     \<and> (\<forall>p. mset (po_stop ops p) \<subseteq># mset (po_pending ops p)))"

section \<open>The worker\<close>

text \<open>
  \<open>executor_\<close>, whether \<open>custom_executor_\<close> is set, and what that executor was given and did not run yet.
  \<open>w_lost\<close> is no state of the code: the functions that waited in a pool that was stopped.
\<close>

record 'p worker =
  w_executor :: "'p option"
  w_custom :: bool
  w_handed :: "nat list"
  w_lost :: "nat multiset"

definition AsyncResetWorker :: "'p pool_ops \<Rightarrow> 'p worker" where
  "AsyncResetWorker ops = \<lparr>w_executor = Some (po_new ops), w_custom = False, w_handed = [], w_lost = {#}\<rparr>"

definition stop_pool :: "'p pool_ops \<Rightarrow> 'p \<Rightarrow> 'p worker \<Rightarrow> nat list \<times> 'p worker" where
  "stop_pool ops p w = (po_stop ops p,
     w\<lparr>w_executor := None, w_lost := w_lost w + (mset (po_pending ops p) - mset (po_stop ops p))\<rparr>)"

text \<open>
  \<open>None\<close> is a call through a null pointer; the list has the functions that run during the call. \<open>func\<close> says
  whether the function that the client gives is one: it may be empty.
\<close>

definition SetCustomExecutor :: "'p pool_ops \<Rightarrow> bool \<Rightarrow> 'p worker \<Rightarrow> (nat list \<times> 'p worker) option" where
  "SetCustomExecutor ops func w =
    (let w1 = w\<lparr>w_custom := func\<rparr> in map_option (\<lambda>p. stop_pool ops p w1) (w_executor w1))"

definition Post :: "'p pool_ops \<Rightarrow> nat \<Rightarrow> 'p worker \<Rightarrow> 'p worker option" where
  "Post ops f w =
    (if w_custom w then Some (w\<lparr>w_handed := w_handed w @ [f]\<rparr>)
     else map_option (\<lambda>p. w\<lparr>w_executor := Some (po_add ops f p)\<rparr>) (w_executor w))"

definition DestroyWorker :: "'p pool_ops \<Rightarrow> 'p worker \<Rightarrow> nat list \<times> 'p worker" where
  "DestroyWorker ops w = (case w_executor w of None \<Rightarrow> ([], w) | Some p \<Rightarrow> stop_pool ops p w)"

primrec post_all :: "'p pool_ops \<Rightarrow> nat list \<Rightarrow> 'p worker \<Rightarrow> 'p worker option" where
  "post_all ops [] w = Some w"
| "post_all ops (f # fs) w = Option.bind (Post ops f w) (post_all ops fs)"

section \<open>The store with its worker\<close>

text \<open>
  A step of the store that posts gives the functions to the worker; the threads of the pool and the client's
  executor run them.
\<close>

inductive worker_step :: "'p pool_ops \<Rightarrow> bool \<Rightarrow> graph_store \<times> 'p worker \<Rightarrow> graph_store \<times> 'p worker \<Rightarrow> bool"
  for ops disc where
  store_posts: "store_step disc s s' \<Longrightarrow> s_posted s' = s_posted s @ fs \<Longrightarrow> post_all ops fs w = Some w' \<Longrightarrow>
    worker_step ops disc (s, w) (s', w')"
| thread_runs: "w_executor w = Some p \<Longrightarrow> po_take ops p = Some (c, p') \<Longrightarrow>
    worker_step ops disc (s, w) (RunRelease c s, w\<lparr>w_executor := Some p'\<rparr>)"
| custom_runs: "c \<in> set (w_handed w) \<Longrightarrow>
    worker_step ops disc (s, w) (RunRelease c s, w\<lparr>w_handed := remove1 c (w_handed w)\<rparr>)"
| customise: "SetCustomExecutor ops func w = Some (fs, w') \<Longrightarrow> worker_step ops disc (s, w) (fold RunRelease fs s, w')"
| destroy_worker: "DestroyWorker ops w = (fs, w') \<Longrightarrow> worker_step ops disc (s, w) (fold RunRelease fs s, w')"

text \<open>The destructor of the store sleeps and looks again while graphs run.\<close>

definition store_waits :: "graph_store \<Rightarrow> bool" where
  "store_waits s = (0 < s_running s)"

definition worker_start :: "'p pool_ops \<Rightarrow> graph_store \<times> 'p worker" where
  "worker_start ops = (new_store, AsyncResetWorker ops)"

definition waiting :: "'p pool_ops \<Rightarrow> 'p worker \<Rightarrow> nat multiset" where
  "waiting ops w = (case w_executor w of None \<Rightarrow> {#} | Some p \<Rightarrow> mset (po_pending ops p)) + mset (w_handed w)"

text \<open>What the store counts as posted is what waits in the worker and what was lost.\<close>

definition worker_inv :: "'p pool_ops \<Rightarrow> bool \<Rightarrow> graph_store \<times> 'p worker \<Rightarrow> bool" where
  "worker_inv ops disc sw = (store_reachable disc (fst sw)
     \<and> mset (s_posted (fst sw)) = waiting ops (snd sw) + w_lost (snd sw))"

lemma post_waits: "pool_laws ops \<Longrightarrow> Post ops f w = Some w' \<Longrightarrow> waiting ops w' = add_mset f (waiting ops w) \<and> w_lost w' = w_lost w"
  by (auto simp: Post_def waiting_def pool_laws_def split: if_splits)

lemma post_all_waits:
  "pool_laws ops \<Longrightarrow> post_all ops fs w = Some w' \<Longrightarrow> waiting ops w' = mset fs + waiting ops w \<and> w_lost w' = w_lost w"
proof (induction fs arbitrary: w)
  case (Cons f fs)
  then obtain w1 where 1: "Post ops f w = Some w1" "post_all ops fs w1 = Some w'" by (auto split: Option.bind_splits)
  show ?case using post_waits[OF Cons.prems(1) 1(1)] Cons.IH[OF Cons.prems(1) 1(2)] by simp
qed simp

lemma stop_waits:
  assumes "pool_laws ops" "w_executor w = Some p" "stop_pool ops p w = (fs, w')"
  shows "mset fs + waiting ops w' + w_lost w' = waiting ops w + w_lost w" and "w_lost w \<subseteq># w_lost w'"
proof -
  have "mset (po_stop ops p) \<subseteq># mset (po_pending ops p)" using assms(1) by (simp add: pool_laws_def)
  then have "mset (po_stop ops p) + (mset (po_pending ops p) - mset (po_stop ops p)) = mset (po_pending ops p)"
    by (rule subset_mset.add_diff_inverse)
  then show "mset fs + waiting ops w' + w_lost w' = waiting ops w + w_lost w"
    using assms(2,3) by (auto simp: stop_pool_def waiting_def ac_simps)
  show "w_lost w \<subseteq># w_lost w'" using assms(3) by (auto simp: stop_pool_def)
qed

lemma custom_stops: "SetCustomExecutor ops func w = Some (fs, w') \<Longrightarrow>
    \<exists>p w1. w_executor w1 = Some p \<and> stop_pool ops p w1 = (fs, w') \<and> waiting ops w1 = waiting ops w \<and> w_lost w1 = w_lost w"
  by (auto simp: SetCustomExecutor_def waiting_def Let_def intro!: exI[of _ "w\<lparr>w_custom := func\<rparr>"])

lemma release_all:
  "store_reachable disc s \<Longrightarrow> mset fs \<subseteq># mset (s_posted s) \<Longrightarrow>
    store_reachable disc (fold RunRelease fs s) \<and> mset (s_posted (fold RunRelease fs s)) = mset (s_posted s) - mset fs"
proof (induction fs arbitrary: s)
  case (Cons c fs)
  have c: "c \<in> set (s_posted s)" using Cons.prems(2) by (auto dest: mset_subset_eqD)
  have 1: "store_reachable disc (RunRelease c s)"
    using Cons.prems(1) release[OF c, of disc] unfolding store_reachable_def by (rule rtranclp.rtrancl_into_rtrancl)
  have 2: "mset (s_posted (RunRelease c s)) = mset (s_posted s) - {#c#}" by (simp add: RunRelease_fields)
  have 3: "mset fs \<subseteq># mset (s_posted (RunRelease c s))"
    using Cons.prems(2) c unfolding 2 by (simp add: insert_subset_eq_iff)
  show ?case using Cons.IH[OF 1 3] unfolding 2 by simp
qed simp

lemma worker_inv_run:
  assumes "worker_inv ops disc (s, w)" "waiting ops w + w_lost w = mset fs + (waiting ops w' + w_lost w')"
  shows "worker_inv ops disc (fold RunRelease fs s, w')"
  using release_all[of disc s fs] assms by (simp add: worker_inv_def)

lemma worker_inv_step:
  assumes laws: "pool_laws ops" and inv: "worker_inv ops disc sw" and step: "worker_step ops disc sw sw'"
  shows "worker_inv ops disc sw' \<and> w_lost (snd sw) \<subseteq># w_lost (snd sw')"
  using step inv
proof cases
  case (store_posts s s' fs w w')
  have "store_reachable disc s'"
    using inv store_posts unfolding worker_inv_def store_reachable_def by (auto intro: rtranclp.rtrancl_into_rtrancl)
  then show ?thesis
    using inv store_posts post_all_waits[OF laws store_posts(5)] by (simp add: worker_inv_def)
next
  case (thread_runs w p c p' s)
  have "mset (po_pending ops p) = add_mset c (mset (po_pending ops p'))"
    using laws thread_runs by (simp add: pool_laws_def)
  then show ?thesis
    using worker_inv_run[of ops disc s w "[c]" "w\<lparr>w_executor := Some p'\<rparr>"] inv thread_runs by (simp add: waiting_def)
next
  case (custom_runs c w s)
  then show ?thesis
    using worker_inv_run[of ops disc s w "[c]" "w\<lparr>w_handed := remove1 c (w_handed w)\<rparr>"] inv by (simp add: waiting_def)
next
  case (customise func w fs w' s)
  obtain p w1 where w1: "w_executor w1 = Some p" "stop_pool ops p w1 = (fs, w')" "waiting ops w1 = waiting ops w"
    "w_lost w1 = w_lost w" using custom_stops[OF customise(3)] by blast
  show ?thesis
    using worker_inv_run[of ops disc s w fs w'] stop_waits[OF laws w1(1,2)] w1 inv customise by (simp add: ac_simps)
next
  case (destroy_worker w fs w' s)
  show ?thesis
  proof (cases "w_executor w")
    case None
    then show ?thesis using destroy_worker inv by (simp add: DestroyWorker_def)
  next
    case (Some p)
    then have "stop_pool ops p w = (fs, w')" using destroy_worker by (simp add: DestroyWorker_def)
    then show ?thesis
      using worker_inv_run[of ops disc s w fs w'] stop_waits[OF laws Some] inv destroy_worker by (simp add: ac_simps)
  qed
qed

lemma worker_inv_start: "pool_laws ops \<Longrightarrow> worker_inv ops disc (worker_start ops)"
  by (simp add: worker_inv_def worker_start_def AsyncResetWorker_def waiting_def pool_laws_def new_store_def store_reachable_def)

lemma worker_inv_run_on:
  assumes laws: "pool_laws ops" and inv: "worker_inv ops disc sw" and run: "(worker_step ops disc)\<^sup>*\<^sup>* sw sw'"
  shows "worker_inv ops disc sw' \<and> w_lost (snd sw) \<subseteq># w_lost (snd sw')"
  using run
proof (induction rule: rtranclp_induct)
  case base
  show ?case using inv by simp
next
  case (step x y)
  show ?case
    using worker_inv_step[OF laws step(3)[THEN conjunct1] step(2)] step(3) subset_mset.order_trans by blast
qed

section \<open>Examples\<close>

text \<open>A pool whose \<open>stop\<close> drops what waits.\<close>

definition queue_pool :: "nat list pool_ops" where
  "queue_pool = \<lparr>po_new = [], po_add = (\<lambda>f p. p @ [f]),
     po_take = (\<lambda>p. case p of [] \<Rightarrow> None | f # p' \<Rightarrow> Some (f, p')), po_stop = (\<lambda>p. []), po_pending = (\<lambda>p. p)\<rparr>"

lemma queue_pool_laws: "pool_laws queue_pool"
  by (simp add: pool_laws_def queue_pool_def split: list.split)

text \<open>A request for a graph that does not exist, whose data context is then destroyed.\<close>

definition refused :: "cluster_handle \<Rightarrow> graph_store" where
  "refused h = (snd (StoreExecute True (\<lambda>_ _. False) 0 (Some 0) ''m'' ''g'' (loaded h)))\<lparr>s_held := []\<rparr>"

definition with_release :: "nat list worker" where
  "with_release = (AsyncResetWorker queue_pool)\<lparr>w_executor := Some [0]\<rparr>"

lemma with_release_reached:
  assumes h: "HandleBuild Map.empty 0 (\<lambda>_. True) 0 small_cluster = Some h" "h_contexts h = []"
  shows "(worker_step queue_pool True)\<^sup>*\<^sup>* (worker_start queue_pool) (DestroyData 0 (refused h), with_release)"
    and "s_posted (DestroyData 0 (refused h)) = [0]" and "s_home (DestroyData 0 (refused h)) = [0]"
proof -
  let ?w = "AsyncResetWorker queue_pool" and ?s0 = "snd (put_handle ''m'' h new_store)" and ?s1 = "loaded h"
    and ?s2 = "snd (StoreExecute True (\<lambda>_ _. False) 0 (Some 0) ''m'' ''g'' (loaded h))" and ?s3 = "refused h"
  note eval = loaded_def refused_def put_handle_def new_store_def Let_def StoreExecute_def GetGraphClusterContext_def
    FindGraphClusterByName_def GetContext_def SetReleaseClosure_def call_done_def DestroyData_def
  have quiet: "worker_step queue_pool True (s, ?w) (s', ?w)" if "store_step True s s'" "s_posted s' = s_posted s" for s s'
    by (rule store_posts[OF that(1), of "[]"]) (simp_all add: that(2))
  have "worker_step queue_pool True (new_store, ?w) (?s0, ?w)"
    by (rule quiet, rule load[of Map.empty 0 "\<lambda>_. True"]) (use h in \<open>simp_all add: eval\<close>)
  moreover have "store_step True ?s0 ?s1"
    using create[of 0 ?s0 True] h(2) by (simp add: eval)
  then have "worker_step queue_pool True (?s0, ?w) (?s1, ?w)" by (rule quiet) (use h in \<open>simp add: eval\<close>)
  moreover have "worker_step queue_pool True (?s1, ?w) (?s2, ?w)"
    by (rule quiet, rule execute) (use h in \<open>simp_all add: eval\<close>)
  moreover have "store_step True ?s2 ?s3"
    using drop[of True ?s2 0] h(2) by (simp add: eval)
  then have "worker_step queue_pool True (?s2, ?w) (?s3, ?w)" by (rule quiet) (use h in \<open>simp add: eval\<close>)
  moreover have "worker_step queue_pool True (?s3, ?w) (DestroyData 0 ?s3, with_release)"
    by (rule store_posts[of True _ _ "[0]"], rule destroy)
      (use h in \<open>simp_all add: eval Post_def AsyncResetWorker_def queue_pool_def with_release_def\<close>)
  ultimately show "(worker_step queue_pool True)\<^sup>*\<^sup>* (worker_start queue_pool) (DestroyData 0 (refused h), with_release)"
    unfolding worker_start_def by (meson converse_rtranclp_into_rtranclp rtranclp.rtrancl_refl)
  show "s_posted (DestroyData 0 (refused h)) = [0]" "s_home (DestroyData 0 (refused h)) = [0]"
    using h(2) by (simp_all add: eval)
qed

section \<open>What the store may rely on\<close>

text \<open>
  C19: The store with its worker does what the store does alone, where a posted function runs some time later: each of its states is one of the
  store, in which exactly the functions that wait in the worker or that it lost are still posted; so none runs twice, and
  none is forgotten unless a pool was stopped while it waited.
\<close>
theorem worker_refines:
  assumes "pool_laws ops" and "(worker_step ops disc)\<^sup>*\<^sup>* (worker_start ops) (s, w)"
  shows "store_reachable disc s \<and> mset (s_posted s) = waiting ops w + w_lost w"
  using worker_inv_run_on[OF assms(1) worker_inv_start[OF assms(1)] assms(2)] by (simp add: worker_inv_def)

text \<open>
  C39: A client sets an executor of its own while a release waits in the pool, whose \<open>stop\<close> drops what waits: in
  every later state that context is still posted and in no queue, and the destructor of the store waits for
  the number of running graphs to become 0.
\<close>
theorem custom_executor_loses:
  assumes "pool_laws ops" and "(worker_step ops disc)\<^sup>*\<^sup>* (worker_start ops) (s, w)"
    and "w_executor w = Some p" and "c \<in> set (po_pending ops p)" and "po_stop ops p = []"
    and "SetCustomExecutor ops func w = Some ([], w1)"
    and "(worker_step ops disc)\<^sup>*\<^sup>* (s, w1) (s', w')" and "length (s_home s') < 2 ^ 32"
  shows "c \<in> set (s_posted s') \<and> c \<notin> set (pool_ctxs s') \<and> store_waits s'"
proof -
  have "worker_step ops disc (s, w) (s, w1)" using customise[OF assms(6), of disc s] by simp
  then have "(worker_step ops disc)\<^sup>*\<^sup>* (worker_start ops) (s, w1)"
    using assms(2) by (rule rtranclp.rtrancl_into_rtrancl[rotated])
  note i1 = worker_inv_run_on[OF assms(1) worker_inv_start[OF assms(1)] this, THEN conjunct1]
  note i2 = worker_inv_run_on[OF assms(1) i1 assms(7)]
  have "c \<in># w_lost w1" using assms(3-6) by (auto simp: SetCustomExecutor_def stop_pool_def Let_def)
  then have "c \<in># w_lost w'" using i2 by (auto dest: mset_subset_eqD)
  then have c: "c \<in> set (s_posted s')"
    using i2 by (metis (no_types, lifting) fst_conv set_mset_mset snd_conv union_iff worker_inv_def)
  have r: "store_reachable disc s'" using i2 by (simp add: worker_inv_def)
  have "s_running s' = card (set (map snd (s_release s')) \<union> set (s_posted s'))" by (rule running_counts[OF r assms(8)])
  then show ?thesis using c one_place[OF r] by (auto simp: store_waits_def card_gt_0_iff)
qed

theorem worker_refines_witness:
  "\<exists>s. store_reachable True s \<and> s_posted s = [0] \<and> waiting queue_pool with_release = {#0#}"
proof -
  obtain h where h: "HandleBuild Map.empty 0 (\<lambda>_. True) 0 small_cluster = Some h" "h_contexts h = []" using small_handle by blast
  show ?thesis
    using worker_refines[OF queue_pool_laws with_release_reached(1)[OF h]] with_release_reached(2)[OF h]
    by (auto simp: waiting_def with_release_def AsyncResetWorker_def queue_pool_def)
qed

theorem custom_executor_loses_witness: "\<exists>s. 0 \<in> set (s_posted s) \<and> 0 \<notin> set (pool_ctxs s) \<and> store_waits s"
proof -
  obtain h where h: "HandleBuild Map.empty 0 (\<lambda>_. True) 0 small_cluster = Some h" "h_contexts h = []" using small_handle by blast
  note e = with_release_reached[OF h]
  show ?thesis
    using custom_executor_loses[OF queue_pool_laws e(1), of "[0]" 0, OF _ _ _ _ rtranclp.rtrancl_refl] e(3)
    by (auto simp: with_release_def AsyncResetWorker_def queue_pool_def SetCustomExecutor_def stop_pool_def Let_def)
qed

end
