(* ===== verification/SyncCalls.thy ===== *)
theory SyncCalls
  imports Worker
begin

text \<open>
  The synchronous calls of the store (\<open>SyncExecute\<close> of \<open>store/graph_store.cpp\<close>, \<open>Latch\<close> of
  \<open>store/common.h\<close>). The closure of such a call writes to a variable and a latch of the calling
  function, so it must have been called when that function returns, and never afterwards.
\<close>

section \<open>Latches and calls\<close>

text \<open>
  The latch comes from the \<open>latch_creator\<close> of the options, or is folly's (\<open>FollyLatch\<close>): it opens when it was
  counted down as often as it was made for.
\<close>

record 'l latch_ops =
  la_new :: "nat \<Rightarrow> 'l"
  la_count_down :: "nat \<Rightarrow> 'l \<Rightarrow> 'l"
  la_open :: "'l \<Rightarrow> bool"

definition latch_laws :: "'l latch_ops \<Rightarrow> bool" where
  "latch_laws ops = (\<not> la_open ops (la_new ops 1) \<and> la_open ops (la_count_down ops 1 (la_new ops 1)))"

text \<open>The local variables of a call of \<open>SyncExecute\<close> that waits.\<close>

record 'l sync_call =
  sy_rc :: int
  sy_code :: int
  sy_latch :: 'l

type_synonym 'l sync_calls = "nat \<Rightarrow> 'l sync_call option"

definition closure_called :: "'l latch_ops \<Rightarrow> nat \<times> int \<Rightarrow> 'l sync_calls \<Rightarrow> 'l sync_calls" where
  "closure_called ops rc calls =
    (case calls (fst rc) of
       None \<Rightarrow> calls
     | Some c \<Rightarrow> calls(fst rc \<mapsto> c\<lparr>sy_code := snd rc, sy_latch := la_count_down ops 1 (sy_latch c)\<rparr>))"

text \<open>
  \<open>SyncExecute\<close> up to its wait, the closures that a step calls, and the rest of \<open>SyncExecute\<close>, which goes on when the
  latch is open. \<open>None\<close> is the return without a latch creator.
\<close>

definition new_answers :: "graph_store \<Rightarrow> graph_store \<Rightarrow> (nat \<times> int) list" where
  "new_answers s s' = drop (length (s_done s)) (s_done s')"

definition SyncBegin :: "'l latch_ops option \<Rightarrow> bool \<Rightarrow> (nat \<Rightarrow> string \<Rightarrow> bool) \<Rightarrow> nat \<Rightarrow> nat option \<Rightarrow> string \<Rightarrow> string
    \<Rightarrow> graph_store \<times> 'l sync_calls \<Rightarrow> (graph_store \<times> 'l sync_calls) option" where
  "SyncBegin latch_creator has_executor finds r data cluster graph x =
    (case latch_creator of
       None \<Rightarrow> None
     | Some ops \<Rightarrow>
         let (rc, s') = StoreExecute has_executor finds r data cluster graph (fst x);
             calls = (snd x)(r \<mapsto> \<lparr>sy_rc = rc, sy_code = 0, sy_latch = la_new ops 1\<rparr>)
         in Some (s', fold (closure_called ops) (new_answers (fst x) s') calls))"

definition SyncReturn :: "'l latch_ops \<Rightarrow> 'l sync_call \<Rightarrow> int option" where
  "SyncReturn ops c = (if la_open ops (sy_latch c) then Some (SyncExecute (sy_rc c) (sy_code c)) else None)"

text \<open>\<open>sr_returned\<close> has the calls that returned, with their results.\<close>

record 'l sync_state =
  sr_store :: graph_store
  sr_calls :: "'l sync_calls"
  sr_returned :: "(nat \<times> int) list"

inductive sync_step :: "'l latch_ops \<Rightarrow> bool \<Rightarrow> 'l sync_state \<Rightarrow> 'l sync_state \<Rightarrow> bool" for ops disc where
  sync_begin: "store_step disc (sr_store x) s' \<Longrightarrow> r \<notin> fst ` set (s_busy (sr_store x)) \<union> fst ` set (s_done (sr_store x)) \<Longrightarrow>
    SyncBegin (Some ops) has_executor finds r data cluster graph (sr_store x, sr_calls x) = Some (s', calls) \<Longrightarrow>
    sync_step ops disc x (x\<lparr>sr_store := s', sr_calls := calls\<rparr>)"
| sync_other: "store_step disc (sr_store x) s' \<Longrightarrow>
    sync_step ops disc x (x\<lparr>sr_store := s', sr_calls := fold (closure_called ops) (new_answers (sr_store x) s') (sr_calls x)\<rparr>)"
| sync_return: "sr_calls x r = Some c \<Longrightarrow> SyncReturn ops c = Some v \<Longrightarrow>
    sync_step ops disc x (x\<lparr>sr_calls := (sr_calls x)(r := None), sr_returned := (r, v) # sr_returned x\<rparr>)"

definition sync_start :: "'l sync_state" where
  "sync_start = \<lparr>sr_store = new_store, sr_calls = (\<lambda>_. None), sr_returned = []\<rparr>"

section \<open>Answers\<close>

lemma ReleaseContext_answers: "s_busy (ReleaseContext n c s) = s_busy s \<and> s_done (ReleaseContext n c s) = s_done s"
proof (induction n arbitrary: c s)
  case 0
  show ?case by (simp add: enqueue_def modify_handle_def)
next
  case (Suc n)
  let ?f = "\<lambda>x s. if (c, x) \<in> set (s_sub s) then ReleaseContext n x (s\<lparr>s_sub := remove1 (c, x) (s_sub s)\<rparr>) else s"
  have "s_busy (fold ?f xs t) = s_busy t \<and> s_done (fold ?f xs t) = s_done t" for xs t
    by (induction xs arbitrary: t) (simp_all add: Suc)
  then show ?case by (simp add: enqueue_def modify_handle_def)
qed

lemma RunRelease_answers: "s_busy (RunRelease c s) = s_busy s" "s_done (RunRelease c s) = s_done s"
  by (simp_all add: RunRelease_def Let_def ReleaseContext_answers)

lemma context_answers: "GetGraphClusterContext cluster s = (oc, s1) \<Longrightarrow> s_done s1 = s_done s \<and> s_busy s1 = s_busy s"
  by (auto simp: GetGraphClusterContext_def GetContext_def modify_handle_def split: option.splits list.splits)

lemma SetReleaseClosure_answers: "s_done (SetReleaseClosure d c s) = s_done s" "s_busy (SetReleaseClosure d c s) = s_busy s"
  by (simp_all add: SetReleaseClosure_def Let_def split: option.splits)

lemma StoreExecute_answers:
  assumes "StoreExecute has_executor finds r data cluster graph s = (rc, t)"
  shows "(rc = -1 \<or> rc = 0) \<and> s_done t = s_done s @ [(r, -1)] \<and> s_busy t = s_busy s
    \<or> rc = 0 \<and> s_done t = s_done s \<and> (\<exists>c d. s_busy t = (r, c, d) # s_busy s)"
proof -
  obtain oc s1 where g: "GetGraphClusterContext cluster s = (oc, s1)" by fastforce
  show ?thesis using assms g context_answers[OF g]
    by (auto simp: StoreExecute_def call_done_def SetReleaseClosure_answers Let_def split: if_splits option.splits)
qed

text \<open>A request that is busy stays so until its closure is called.\<close>

lemma step_answers:
  assumes "store_step disc s t"
  shows "\<exists>new. s_done t = s_done s @ new \<and> fst ` set (s_busy s) \<subseteq> fst ` set (s_busy t) \<union> fst ` set new"
  using assms
proof cases
  case (execute r data has_executor finds cluster graph)
  obtain rc where "StoreExecute has_executor finds r data cluster graph s = (rc, t)"
    using execute(1) by (metis surjective_pairing)
  from StoreExecute_answers[OF this] show ?thesis by auto
next
  case (finish b code)
  have "fst ` set (s_busy s) \<subseteq> insert (fst b) (fst ` set (remove1 b (s_busy s)))"
    by (metis (no_types, lifting) image_insert image_mono in_set_remove1 insertCI subsetI)
  then show ?thesis using finish by (auto simp: GraphDone_def call_done_def)
next
  case (borrow p cluster)
  obtain oc s1 where g: "GetGraphClusterContext cluster s = (oc, s1)" by fastforce
  show ?thesis using borrow context_answers[OF g] by (auto simp: BorrowContext_def g split: option.splits)
qed (auto simp: put_handle_def Let_def DestroyData_def RunRelease_answers split: option.splits)

lemma new_answers_step: "store_step disc s t \<Longrightarrow> s_done t = s_done s @ new_answers s t"
  using step_answers[of disc s t] by (auto simp: new_answers_def)

lemma closure_called_at:
  "closure_called ops a calls r = (if r = fst a
     then map_option (\<lambda>c. c\<lparr>sy_code := snd a, sy_latch := la_count_down ops 1 (sy_latch c)\<rparr>) (calls r) else calls r)"
  by (auto simp: closure_called_def split: option.split)

lemma closures_called:
  "distinct (map fst new) \<Longrightarrow> fold (closure_called ops) new calls r =
    (case map_of new r of None \<Rightarrow> calls r
     | Some code \<Rightarrow> map_option (\<lambda>c. c\<lparr>sy_code := code, sy_latch := la_count_down ops 1 (sy_latch c)\<rparr>) (calls r))"
proof (induction new arbitrary: calls)
  case (Cons a new)
  have "map_of new (fst a) = None" using Cons.prems by (simp add: map_of_eq_None_iff)
  then show ?case using Cons.IH[of "closure_called ops a calls"] Cons.prems
    by (cases a; cases "r = fst a") (auto simp: closure_called_at split: option.splits)
qed simp

section \<open>The invariant\<close>

definition call_ok :: "'l latch_ops \<Rightarrow> graph_store \<Rightarrow> nat \<Rightarrow> 'l sync_call \<Rightarrow> bool" where
  "call_ok ops s r c =
    ((sy_rc c = 0 \<or> sy_rc c = -1 \<and> map_of (s_done s) r = Some (-1))
     \<and> (case map_of (s_done s) r of
          None \<Rightarrow> r \<in> fst ` set (s_busy s) \<and> sy_latch c = la_new ops 1
        | Some code \<Rightarrow> sy_code c = code \<and> sy_latch c = la_count_down ops 1 (la_new ops 1)))"

definition sync_inv :: "'l latch_ops \<Rightarrow> bool \<Rightarrow> 'l sync_state \<Rightarrow> bool" where
  "sync_inv ops disc x = (store_reachable disc (sr_store x)
     \<and> (\<forall>r c. sr_calls x r = Some c \<longrightarrow> call_ok ops (sr_store x) r c)
     \<and> (\<forall>(r, v) \<in> set (sr_returned x). map_of (s_done (sr_store x)) r = Some v))"

lemma answers_distinct: "store_reachable disc s \<Longrightarrow> distinct (map fst (s_done s) @ map fst (s_busy s))"
  using reachable_store_inv[of disc s] by (simp add: store_inv_def busy_ok_def)

lemma reachable_next: "store_reachable disc s \<Longrightarrow> store_step disc s t \<Longrightarrow> store_reachable disc t"
  unfolding store_reachable_def by (rule rtranclp.rtrancl_into_rtrancl)

lemma new_answers_fresh:
  assumes "store_reachable disc s" "store_step disc s t"
  shows "distinct (map fst (new_answers s t))" "r \<in> fst ` set (new_answers s t) \<Longrightarrow> map_of (s_done s) r = None"
  using answers_distinct[OF reachable_next[OF assms]] unfolding new_answers_step[OF assms(2)]
  by (auto simp: map_of_eq_None_iff)

text \<open>A call after the closures of a step.\<close>

lemma call_ok_step:
  assumes s: "store_reachable disc s" "store_step disc s t" and c: "call_ok ops s r c"
  shows "\<exists>c'. (case map_of (new_answers s t) r of None \<Rightarrow> Some c
      | Some code \<Rightarrow> Some (c\<lparr>sy_code := code, sy_latch := la_count_down ops 1 (sy_latch c)\<rparr>)) = Some c' \<and> call_ok ops t r c'"
proof -
  have dn: "map_of (s_done t) r = (case map_of (s_done s) r of Some v \<Rightarrow> Some v | None \<Rightarrow> map_of (new_answers s t) r)"
    unfolding new_answers_step[OF s(2)] by (simp add: map_add_def split: option.split)
  show ?thesis
  proof (cases "map_of (new_answers s t) r")
    case None
    have "r \<in> fst ` set (s_busy s) \<Longrightarrow> r \<in> fst ` set (s_busy t)"
      using step_answers[OF s(2)] new_answers_step[OF s(2)] None by (auto simp: map_of_eq_None_iff)
    then show ?thesis using c None dn by (auto simp: call_ok_def split: option.splits)
  next
    case (Some code)
    then have "map_of (s_done s) r = None" using new_answers_fresh(2)[OF s] by (metis map_of_eq_None_iff option.distinct(1))
    then show ?thesis using c Some dn by (auto simp: call_ok_def)
  qed
qed

lemma calls_step:
  assumes s: "store_reachable disc s" "store_step disc s t"
    and c: "fold (closure_called ops) (new_answers s t) calls r = Some c'"
    and ok: "\<And>c. calls r = Some c \<Longrightarrow> call_ok ops s r c"
  shows "call_ok ops t r c'"
proof -
  note f = c[unfolded closures_called[OF new_answers_fresh(1)[OF s]]]
  then obtain c0 where c0: "calls r = Some c0" by (cases "map_of (new_answers s t) r") auto
  from call_ok_step[OF s ok[OF c0]] f c0 show ?thesis by (auto split: option.splits)
qed

lemma begin_ok:
  assumes s: "store_reachable disc s" "store_step disc s t" and r: "r \<notin> fst ` set (s_busy s) \<union> fst ` set (s_done s)"
    and e: "StoreExecute has_executor finds r data cluster graph s = (rc, t)"
    and c: "fold (closure_called ops) (new_answers s t) (calls(r \<mapsto> \<lparr>sy_rc = rc, sy_code = 0, sy_latch = la_new ops 1\<rparr>)) r = Some c'"
  shows "call_ok ops t r c'"
proof -
  have none: "map_of (s_done s) r = None" using r by (auto simp: map_of_eq_None_iff)
  from StoreExecute_answers[OF e] show ?thesis
  proof
    assume a: "(rc = -1 \<or> rc = 0) \<and> s_done t = s_done s @ [(r, -1)] \<and> s_busy t = s_busy s"
    then have "new_answers s t = [(r, -1)]" by (simp add: new_answers_def)
    then show ?thesis using c a none by (auto simp: call_ok_def closure_called_at map_add_def)
  next
    assume a: "rc = 0 \<and> s_done t = s_done s \<and> (\<exists>c d. s_busy t = (r, c, d) # s_busy s)"
    then have "new_answers s t = []" by (simp add: new_answers_def)
    then show ?thesis using c a none by (auto simp: call_ok_def)
  qed
qed

lemma sync_inv_step:
  assumes inv: "sync_inv ops disc x" and laws: "latch_laws ops" and st: "sync_step ops disc x y"
  shows "sync_inv ops disc y"
  using st
proof cases
  case (sync_begin s' r has_executor finds data cluster graph calls)
  have s: "store_reachable disc (sr_store x)" using inv by (simp add: sync_inv_def)
  obtain rc t where e: "StoreExecute has_executor finds r data cluster graph (sr_store x) = (rc, t)" by fastforce
  let ?c = "(sr_calls x)(r \<mapsto> \<lparr>sy_rc = rc, sy_code = 0, sy_latch = la_new ops 1\<rparr>)"
  have t: "t = s'" "calls = fold (closure_called ops) (new_answers (sr_store x) s') ?c"
    using sync_begin(4) e by (auto simp: SyncBegin_def Let_def)
  have "call_ok ops s' q c" if q: "calls q = Some c" for q c
  proof (cases "q = r")
    case True
    then show ?thesis using begin_ok[OF s sync_begin(2,3), of has_executor finds data cluster graph rc ops "sr_calls x" c] e t q by simp
  next
    case False
    show ?thesis
      by (rule calls_step[OF s sync_begin(2) q[unfolded t(2)]]) (use False inv in \<open>simp add: sync_inv_def\<close>)
  qed
  moreover have "map_of (s_done s') q = Some v" if "map_of (s_done (sr_store x)) q = Some v" for q v
    using that unfolding new_answers_step[OF sync_begin(2)] by (simp add: map_add_def split: option.split)
  ultimately show ?thesis using inv reachable_next[OF s sync_begin(2)] unfolding sync_begin(1) by (auto simp: sync_inv_def)
next
  case (sync_other s')
  have s: "store_reachable disc (sr_store x)" using inv by (simp add: sync_inv_def)
  have "call_ok ops s' q c" if "fold (closure_called ops) (new_answers (sr_store x) s') (sr_calls x) q = Some c" for q c
    by (rule calls_step[OF s sync_other(2) that]) (use inv in \<open>simp add: sync_inv_def\<close>)
  moreover have "map_of (s_done s') q = Some v" if "map_of (s_done (sr_store x)) q = Some v" for q v
    using that unfolding new_answers_step[OF sync_other(2)] by (simp add: map_add_def split: option.split)
  ultimately show ?thesis using inv reachable_next[OF s sync_other(2)] unfolding sync_other(1) by (auto simp: sync_inv_def)
next
  case (sync_return r c v)
  have ok: "call_ok ops (sr_store x) r c" using inv sync_return(2) by (simp add: sync_inv_def)
  have "la_open ops (sy_latch c)" "v = SyncExecute (sy_rc c) (sy_code c)"
    using sync_return(3) by (auto simp: SyncReturn_def split: if_splits)
  then have "map_of (s_done (sr_store x)) r = Some v"
    using ok laws by (auto simp: call_ok_def latch_laws_def SyncExecute_def split: option.splits)
  then show ?thesis using inv unfolding sync_return(1) by (auto simp: sync_inv_def split: if_splits)
qed

lemma sync_inv_start: "sync_inv ops disc sync_start"
  by (simp add: sync_inv_def sync_start_def store_reachable_def)

section \<open>Properties\<close>

text \<open>
  C16: A call of \<open>SyncExecute\<close> waits only while the graph of its request runs, and returns the code with which the closure was
  called, also when \<open>Execute\<close> fails; when it has returned, its closure is not called any more, so that the variable and the latch
  of the calling function are not written to after they are gone.
\<close>
theorem sync_calls_safe:
  assumes "latch_laws ops" and "(sync_step ops disc)\<^sup>*\<^sup>* sync_start x"
  shows "(\<forall>r c. sr_calls x r = Some c \<longrightarrow>
      (case SyncReturn ops c of None \<Rightarrow> r \<in> fst ` set (s_busy (sr_store x)) | Some v \<Rightarrow> (r, v) \<in> set (s_done (sr_store x))))
    \<and> (\<forall>(r, v) \<in> set (sr_returned x). (r, v) \<in> set (s_done (sr_store x))
      \<and> (\<forall>s'. store_step disc (sr_store x) s' \<longrightarrow> r \<notin> fst ` set (new_answers (sr_store x) s')))"
proof -
  have inv: "sync_inv ops disc x"
    using assms(2) by (induction rule: rtranclp_induct) (use sync_inv_start sync_inv_step[OF _ assms(1)] in blast)+
  then have s: "store_reachable disc (sr_store x)" by (simp add: sync_inv_def)
  have "case SyncReturn ops c of None \<Rightarrow> r \<in> fst ` set (s_busy (sr_store x)) | Some v \<Rightarrow> (r, v) \<in> set (s_done (sr_store x))"
    if "sr_calls x r = Some c" for r c
  proof -
    have "call_ok ops (sr_store x) r c" using inv that by (simp add: sync_inv_def)
    then show ?thesis
      using assms(1) by (auto simp: call_ok_def latch_laws_def SyncReturn_def SyncExecute_def dest: map_of_SomeD split: option.splits)
  qed
  moreover have "(r, v) \<in> set (s_done (sr_store x)) \<and> (\<forall>s'. store_step disc (sr_store x) s' \<longrightarrow> r \<notin> fst ` set (new_answers (sr_store x) s'))"
    if "(r, v) \<in> set (sr_returned x)" for r v
  proof -
    have "map_of (s_done (sr_store x)) r = Some v" using inv that by (auto simp: sync_inv_def)
    then show ?thesis using new_answers_fresh(2)[OF s] by (metis map_of_SomeD option.distinct(1))
  qed
  ultimately show ?thesis by blast
qed

definition nat_latch :: "nat latch_ops" where
  "nat_latch = \<lparr>la_new = (\<lambda>n. n), la_count_down = (\<lambda>k l. l - k), la_open = (\<lambda>l. l = 0)\<rparr>"

theorem sync_calls_safe_witness:
  "\<exists>x :: nat sync_state. sr_returned x = [(7, -1)]
    \<and> (\<nexists>s'. store_step True (sr_store x) s' \<and> 7 \<in> fst ` set (new_answers (sr_store x) s'))"
proof -
  let ?s = "call_done 7 (-1) new_store" and ?c = "\<lparr>sy_rc = -1, sy_code = -1, sy_latch = 0 :: nat\<rparr>"
  let ?x = "sync_start\<lparr>sr_store := ?s, sr_calls := [7 \<mapsto> ?c]\<rparr>"
  have empty: "s_done new_store = []" by (simp add: new_store_def)
  have e: "StoreExecute False (\<lambda>_ _. True) 7 None ''m'' ''g'' new_store = (-1, ?s)" by (simp add: StoreExecute_def)
  have "store_step True new_store (snd (StoreExecute False (\<lambda>_ _. True) 7 None ''m'' ''g'' new_store))"
    by (rule execute) (simp_all add: new_store_def)
  then have st: "store_step True (sr_store (sync_start :: nat sync_state)) ?s" by (simp add: e sync_start_def)
  have beg: "SyncBegin (Some nat_latch) False (\<lambda>_ _. True) 7 None ''m'' ''g'' (sr_store sync_start, sr_calls sync_start) = Some (?s, [7 \<mapsto> ?c])"
    using empty by (simp add: SyncBegin_def sync_start_def e new_answers_def call_done_def closure_called_def nat_latch_def)
  have 1: "sync_step nat_latch True sync_start ?x"
    by (rule sync_begin[OF st _ beg]) (simp add: sync_start_def new_store_def)
  have "SyncReturn nat_latch ?c = Some (-1)" by (simp add: SyncReturn_def nat_latch_def SyncExecute_def)
  then have 2: "sync_step nat_latch True ?x (?x\<lparr>sr_calls := (sr_calls ?x)(7 := None), sr_returned := (7, -1) # sr_returned ?x\<rparr>)"
    by (intro sync_return[of ?x 7 ?c]) simp_all
  have laws: "latch_laws nat_latch" by (simp add: latch_laws_def nat_latch_def)
  from 1 2 have r: "(sync_step nat_latch True)\<^sup>*\<^sup>* sync_start (?x\<lparr>sr_calls := (sr_calls ?x)(7 := None), sr_returned := (7, -1) # sr_returned ?x\<rparr>)"
    by (meson converse_rtranclp_into_rtranclp rtranclp.rtrancl_refl)
  show ?thesis
    by (rule exI[of _ "?x\<lparr>sr_calls := (sr_calls ?x)(7 := None), sr_returned := (7, -1) # sr_returned ?x\<rparr>"])
      (use sync_calls_safe[OF laws r, THEN conjunct2] in \<open>simp add: sync_start_def\<close>)
qed

end
