(* ===== verification/Trace.thy ===== *)
theory Trace
  imports Executor "HOL-Library.Word"
begin

text \<open>
  The trace of a run (\<open>trace/event.{h,cpp}\<close> and the places of \<open>store/vertex_context.cpp\<close> and
  \<open>store/graph_context.cpp\<close> that add to a tracker): which events the executor adds in which step, and that the
  trace of a graph that is done has one event for each vertex, with its code. \<open>ContextServices\<close> has the
  tracker that collects them.
\<close>

section \<open>Events\<close>

datatype phase_type =
    DAG_PHASE_UNKNOWN
  | DAG_PHASE_CONCURRENT_SCHED
  | DAG_PHASE_OP_PREPARE_EXECUTE
  | DAG_PHASE_OP_POST_EXECUTE
  | DAG_PHASE_GRAPH_ASYNC_RESET
  | DAG_GRAPH_GRAPH_PREPARE_EXECUTE

fun get_dag_phase_name :: "phase_type \<Rightarrow> string" where
  "get_dag_phase_name DAG_PHASE_UNKNOWN = ''unknown''"
| "get_dag_phase_name DAG_PHASE_CONCURRENT_SCHED = ''concurrency_sched''"
| "get_dag_phase_name DAG_PHASE_OP_PREPARE_EXECUTE = ''prepare_execute''"
| "get_dag_phase_name DAG_PHASE_OP_POST_EXECUTE = ''post_execute''"
| "get_dag_phase_name DAG_PHASE_GRAPH_ASYNC_RESET = ''graph_reset''"
| "get_dag_phase_name DAG_GRAPH_GRAPH_PREPARE_EXECUTE = ''graph_prepare_execute''"

record dag_event =
  de_processor :: string
  de_cluster :: string
  de_graph :: string
  de_full_graph_name :: string
  de_matched_cond :: string
  de_phase :: phase_type
  de_start_ustime :: "64 word"
  de_end_ustime :: "64 word"
  de_rc :: int

definition phase_event :: "phase_type \<Rightarrow> 64 word \<Rightarrow> 64 word \<Rightarrow> dag_event" where
  "phase_event ph t0 t1 = \<lparr>de_processor = [], de_cluster = [], de_graph = [], de_full_graph_name = [],
     de_matched_cond = [], de_phase = ph, de_start_ustime = t0, de_end_ustime = t1, de_rc = -1\<rparr>"

text \<open>The name that \<open>VertexContext::Setup\<close> makes for a subgraph: the cluster up to its last dot, and the graph.\<close>

definition full_graph_name :: "vertex \<Rightarrow> string" where
  "full_graph_name n =
    (if v_graph n = [] \<or> v_while_cond n \<noteq> [] then []
     else (if CHR ''.'' \<in> set (v_cluster n)
           then rev (tl (dropWhile (\<lambda>c. c \<noteq> CHR ''.'') (rev (v_cluster n)))) else v_cluster n) @ ''_'' @ v_graph n)"

section \<open>What a step adds\<close>

text \<open>
  The state beside the executor's: the trace, the latest event first, the members
  \<open>_exec_start_ustime\<close> and \<open>_exec_matched_cond\<close> of each vertex, and the time at which a vertex
  was given to the asynchronous executor, which its closure keeps. The names of the operators and of the
  cluster are arguments, as is whether there is a tracker.
\<close>

record trace_env =
  te_tracker :: bool
  te_name :: "vref \<Rightarrow> string"
  te_cluster :: string

record tracer =
  tr_trace :: "dag_event list"
  tr_exec_start :: "vref \<Rightarrow> 64 word"
  tr_matched :: "vref \<Rightarrow> string"
  tr_handed :: "vref \<Rightarrow> 64 word option"

definition new_tracer :: tracer where
  "new_tracer = \<lparr>tr_trace = [], tr_exec_start = (\<lambda>_. 0), tr_matched = (\<lambda>_. []), tr_handed = (\<lambda>_. None)\<rparr>"

definition add_event :: "trace_env \<Rightarrow> dag_event \<Rightarrow> tracer \<Rightarrow> tracer" where
  "add_event env e tr = (if te_tracker env then tr\<lparr>tr_trace := e # tr_trace tr\<rparr> else tr)"

text \<open>
  \<open>ExecuteReadyVertexs\<close> reads the clock when it has more than one vertex; all but the last of its tasks
  go to the asynchronous executor, whose closure adds an event first.
\<close>

definition hand_over :: "task list \<Rightarrow> 64 word \<Rightarrow> tracer \<Rightarrow> tracer" where
  "hand_over ts t0 tr = tr\<lparr>tr_handed := (\<lambda>v. if TExecute v \<in> set (butlast ts) then Some t0 else tr_handed tr v)\<rparr>"

definition run_handed :: "trace_env \<Rightarrow> vref \<Rightarrow> 64 word \<Rightarrow> tracer \<Rightarrow> tracer" where
  "run_handed env v t1 tr =
    (case tr_handed tr v of
       None \<Rightarrow> tr
     | Some t0 \<Rightarrow> add_event env (phase_event DAG_PHASE_CONCURRENT_SCHED t0 t1) (tr\<lparr>tr_handed := (tr_handed tr)(v := None)\<rparr>))"

text \<open>
  The end of \<open>FinishVertexProcess\<close>; \<open>gc\<close> is the state after it, \<open>clk\<close> gives the readings of the
  clock in the order in which the step makes them, \<open>n\<close> of which were made before.
\<close>

definition vertex_event :: "trace_env \<Rightarrow> graph \<Rightarrow> vref \<Rightarrow> 64 word \<Rightarrow> 64 word \<Rightarrow> string \<Rightarrow> graph_ctx \<Rightarrow> dag_event" where
  "vertex_event env g v t0 t1 cond gc =
    (let c = gc_ctx gc v; n = deref g v; e = phase_event DAG_PHASE_UNKNOWN t0 t1;
         e1 = (if vx_processor c \<noteq> None then e\<lparr>de_processor := te_name env v\<rparr>
               else e\<lparr>de_graph := v_graph n, de_cluster := te_cluster env, de_full_graph_name := full_graph_name n\<rparr>)
     in e1\<lparr>de_matched_cond := cond, de_rc := vx_exec_rc c\<rparr>)"

definition finish_trace :: "trace_env \<Rightarrow> graph \<Rightarrow> vref \<Rightarrow> (nat \<Rightarrow> 64 word) \<Rightarrow> nat \<Rightarrow> graph_ctx \<Rightarrow> tracer \<Rightarrow> tracer" where
  "finish_trace env g v clk n gc tr =
    (let c = gc_ctx gc v;
         tr1 = (if vx_code c = 0 \<and> vx_processor c \<noteq> None
                then add_event env (phase_event DAG_PHASE_OP_POST_EXECUTE (clk (n + 1)) (clk (n + 2))) tr else tr)
     in add_event env (vertex_event env g v (tr_exec_start tr1 v) (clk n) (tr_matched tr1 v) gc) tr1)"

text \<open>
  \<open>Execute\<close>, \<open>ExecuteProcessor\<close> and \<open>ExecuteSubGraph\<close>; \<open>mc\<close> is the condition whose arguments
  \<open>GetExecParams\<close> takes, if any.
\<close>

definition passes :: "graph \<Rightarrow> choice \<Rightarrow> vref \<Rightarrow> graph_ctx \<Rightarrow> bool" where
  "passes g ch v gc =
    (let n = deref g v; c = gc_ctx gc v
     in (vx_processor c \<noteq> None \<or> (if v_cluster n \<noteq> [] \<and> \<not> vx_subgraph_cluster c then ch_cluster_found ch else vx_subgraph_cluster c))
        \<and> match_deps (vx_deps_results c) (v_deps_expected_results n)
        \<and> match_expect_config (ch_bool ch) (v_expect_config n)
        \<and> \<not> ch_timeout ch \<and> gc_early_exist_rc gc = 0)"

definition take_params :: "vref \<Rightarrow> string option \<Rightarrow> tracer \<Rightarrow> tracer" where
  "take_params v mc tr = (case mc of None \<Rightarrow> tr | Some m \<Rightarrow> tr\<lparr>tr_matched := (tr_matched tr)(v := m)\<rparr>)"

definition start_exec :: "vref \<Rightarrow> 64 word \<Rightarrow> tracer \<Rightarrow> tracer" where
  "start_exec v t tr = tr\<lparr>tr_exec_start := (tr_exec_start tr)(v := t)\<rparr>"

definition execute_trace :: "trace_env \<Rightarrow> graph \<Rightarrow> choice \<Rightarrow> vref \<Rightarrow> (nat \<Rightarrow> 64 word) \<Rightarrow> string option
    \<Rightarrow> graph_ctx \<Rightarrow> graph_ctx \<Rightarrow> tracer \<Rightarrow> tracer" where
  "execute_trace env g ch v clk mc gc gc' tr =
    (if \<not> passes g ch v gc then finish_trace env g v clk 1 gc' tr
     else if vx_processor (gc_ctx gc v) \<noteq> None
     then (let tr1 = take_params v mc tr
           in if ch_inject_rc ch \<noteq> 0 then finish_trace env g v clk 2 gc' tr1
              else start_exec v (clk 3) (add_event env (phase_event DAG_PHASE_OP_PREPARE_EXECUTE (clk 1) (clk 2)) tr1))
     else (let tr1 = take_params v mc (start_exec v (clk 1) tr)
           in if vx_subgraph_ctx (gc_ctx gc v) \<or> ch_graph_found ch then tr1 else finish_trace env g v clk 2 gc' tr1))"

definition trace_after :: "trace_env \<Rightarrow> graph \<Rightarrow> choice \<Rightarrow> (nat \<Rightarrow> 64 word) \<Rightarrow> string option \<Rightarrow> task \<Rightarrow> graph_ctx
    \<Rightarrow> tracer \<Rightarrow> tracer" where
  "trace_after env g ch clk mc t gc tr =
    (let (gc', ts, evs) = handle g ch t gc;
         tr1 = (case t of
            TExecute v \<Rightarrow> execute_trace env g ch v clk mc gc gc' (run_handed env v (clk 0) tr)
          | TProcess v \<Rightarrow> (if ch_outcome ch = FutureFailed then tr else finish_trace env g v clk 0 gc' tr)
          | _ \<Rightarrow> tr)
     in hand_over ts (clk 0) tr1)"

text \<open>A run with its trace: each move has the readings of the clock and the condition that is met.\<close>

type_synonym traced_move = "task \<times> choice \<times> (nat \<Rightarrow> 64 word) \<times> string option"

fun traced_run :: "trace_env \<Rightarrow> graph \<Rightarrow> traced_move list \<Rightarrow> engine \<times> tracer \<Rightarrow> (engine \<times> tracer) option" where
  "traced_run env g [] x = Some x"
| "traced_run env g ((t, ch, clk, mc) # ms) (s, tr) =
    (if t \<in># en_tasks s \<and> enabled ch t (en_ctx s)
     then traced_run env g ms (after g ch t s, trace_after env g ch clk mc t (en_ctx s) tr) else None)"

text \<open>
  \<open>GraphClusterContext::Execute\<close> adds an event of its own before it starts the graph; the release of the
  context, in the background worker, gives one to the event reporter if there is one.
\<close>

definition prepare_graph :: "trace_env \<Rightarrow> 64 word \<Rightarrow> 64 word \<Rightarrow> tracer \<Rightarrow> tracer" where
  "prepare_graph env start_exec_ustime now = add_event env (phase_event DAG_GRAPH_GRAPH_PREPARE_EXECUTE start_exec_ustime now)"

definition release_report :: "bool \<Rightarrow> 64 word \<Rightarrow> 64 word \<Rightarrow> dag_event list" where
  "release_report event_reporter start_exec_ustime now =
    (if event_reporter then [phase_event DAG_PHASE_GRAPH_ASYNC_RESET start_exec_ustime now] else [])"

definition traced_start :: "trace_env \<Rightarrow> graph_ctx \<Rightarrow> (nat \<Rightarrow> 64 word) \<Rightarrow> engine \<times> tracer" where
  "traced_start env gc clk =
    (start gc, hand_over (ExecuteReadyVertexs gc (gc_start_ctxs gc)) (clk 2) (prepare_graph env (clk 0) (clk 1) new_tracer))"

lemma traced_run_run: "traced_run env g ms (s, tr) = Some (s', tr') \<Longrightarrow> run g (map (\<lambda>(t, ch, _). (t, ch)) ms) s = Some s'"
  by (induction ms arbitrary: s tr) (auto split: if_splits)

lemma run_traced_run: "run g ms s = Some s' \<Longrightarrow> \<exists>tr'. traced_run env g (map (\<lambda>(t, ch). (t, ch, clk, mc)) ms) (s, tr) = Some (s', tr')"
  by (induction ms arbitrary: s tr) (auto split: if_splits)

section \<open>What the events say\<close>

definition own_report :: "dag_event \<Rightarrow> bool" where
  "own_report e = (de_phase e = DAG_PHASE_UNKNOWN)"

definition label :: "dag_event \<Rightarrow> (string \<times> string \<times> string \<times> string) \<times> int" where
  "label e = ((de_processor e, de_cluster e, de_graph e, de_full_graph_name e), de_rc e)"

text \<open>What the event of a vertex must say.\<close>

definition report_of :: "trace_env \<Rightarrow> graph \<Rightarrow> (vref \<Rightarrow> processor_info option) \<Rightarrow> graph_ctx \<Rightarrow> vref
    \<Rightarrow> (string \<times> string \<times> string \<times> string) \<times> int" where
  "report_of env g procs gc v =
    (if procs v \<noteq> None then (te_name env v, [], [], [])
     else ([], te_cluster env, v_graph (deref g v), full_graph_name (deref g v)), vx_exec_rc (gc_ctx gc v))"

fun is_collect :: "event \<Rightarrow> bool" where
  "is_collect (EvCollect v) = True"
| "is_collect _ = False"

fun op_start :: "(vref \<Rightarrow> processor_info option) \<Rightarrow> event \<Rightarrow> bool" where
  "op_start procs (EvStart v) = (procs v \<noteq> None)"
| "op_start procs _ = False"

definition ended :: "graph \<Rightarrow> engine \<Rightarrow> vref set" where
  "ended g s = {v. valid_ref g v \<and> (TDone v \<in># en_tasks s \<or> finished (en_log s) v \<noteq> None)}"

definition trace_inv :: "trace_env \<Rightarrow> graph \<Rightarrow> (vref \<Rightarrow> processor_info option) \<Rightarrow> engine \<Rightarrow> tracer \<Rightarrow> bool" where
  "trace_inv env g procs s tr =
    (mset (map label (filter own_report (tr_trace tr))) = image_mset (report_of env g procs (en_ctx s)) (mset_set (ended g s))
     \<and> length (filter (\<lambda>e. de_phase e = DAG_PHASE_OP_POST_EXECUTE) (tr_trace tr)) = length (filter is_collect (en_log s))
     \<and> length (filter (\<lambda>e. de_phase e = DAG_PHASE_OP_PREPARE_EXECUTE) (tr_trace tr)) = length (filter (op_start procs) (en_log s)))"

section \<open>What each step adds\<close>

abbreviation reports_in :: "tracer \<Rightarrow> ((string \<times> string \<times> string \<times> string) \<times> int) list" where
  "reports_in tr \<equiv> map label (filter own_report (tr_trace tr))"

abbreviation posts :: "tracer \<Rightarrow> nat" where
  "posts tr \<equiv> length (filter (\<lambda>e. de_phase e = DAG_PHASE_OP_POST_EXECUTE) (tr_trace tr))"

abbreviation prepares :: "tracer \<Rightarrow> nat" where
  "prepares tr \<equiv> length (filter (\<lambda>e. de_phase e = DAG_PHASE_OP_PREPARE_EXECUTE) (tr_trace tr))"

definition adds :: "((string \<times> string \<times> string \<times> string) \<times> int) list \<Rightarrow> nat \<Rightarrow> nat \<Rightarrow> tracer \<Rightarrow> tracer \<Rightarrow> bool" where
  "adds rs a b tr tr' = (reports_in tr' = rs @ reports_in tr \<and> posts tr' = a + posts tr \<and> prepares tr' = b + prepares tr)"

lemma adds_trans: "adds [] 0 0 tr tr1 \<Longrightarrow> adds rs a b tr1 tr2 \<Longrightarrow> adds rs a b tr tr2"
  by (simp add: adds_def)

lemma adds_quiet [simp]:
  "adds [] 0 0 tr tr" "adds [] 0 0 tr (hand_over ts t0 tr)" "adds [] 0 0 tr (take_params v mc tr)"
  "adds [] 0 0 tr (start_exec v t tr)" "adds [] 0 0 tr (run_handed env v t1 tr)"
  by (simp_all add: adds_def hand_over_def take_params_def start_exec_def run_handed_def add_event_def own_report_def
      phase_event_def split: option.split)

lemma label_vertex_event:
  "vx_processor (gc_ctx gc v) = procs v \<Longrightarrow> label (vertex_event env g v t0 t1 cond gc) = report_of env g procs gc v"
  by (simp add: label_def vertex_event_def report_of_def phase_event_def Let_def)

lemma phase_vertex_event: "de_phase (vertex_event env g v t0 t1 cond gc) = DAG_PHASE_UNKNOWN"
  by (simp add: vertex_event_def phase_event_def Let_def)

lemma finish_trace_adds:
  assumes "te_tracker env" "vx_processor (gc_ctx gc v) = procs v"
  shows "adds [report_of env g procs gc v] (if vx_code (gc_ctx gc v) = 0 \<and> procs v \<noteq> None then 1 else 0) 0
    tr (finish_trace env g v clk n gc tr)"
  using assms label_vertex_event[of gc v procs]
  by (simp add: adds_def finish_trace_def add_event_def own_report_def phase_event_def phase_vertex_event)

lemma FinishVertexProcess_events:
  assumes "FinishVertexProcess g v code adj gc = (gc', evs)"
  shows "length (filter is_collect evs) = (if vx_code (gc_ctx gc' v) = 0 \<and> vx_processor (gc_ctx gc v) \<noteq> None then 1 else 0)"
    and "filter (op_start procs) evs = []" and "vx_processor (gc_ctx gc' v) = vx_processor (gc_ctx gc v)"
  using assms by (auto simp: FinishVertexProcess_def Let_def modify_ctx_def SetEarlyExitCode_def)

lemma finish_adds:
  assumes "te_tracker env" "FinishVertexProcess g v code adj gc = (gc', evs)" "vx_processor (gc_ctx gc v) = procs v"
  shows "adds [report_of env g procs gc' v] (length (filter is_collect evs)) (length (filter (op_start procs) evs))
    tr (finish_trace env g v clk n gc' tr)"
  using finish_trace_adds[of env gc' v procs g tr clk n] FinishVertexProcess_events[OF assms(2)] assms(1,3) by simp

lemma passes_Execute:
  assumes "vx_processor (gc_ctx gc v) = procs v"
  obtains gc1 where "vx_processor (gc_ctx gc1 v) = procs v" "vx_subgraph_ctx (gc_ctx gc1 v) = vx_subgraph_ctx (gc_ctx gc v)"
    and "Execute g ch v gc = (if \<not> passes g ch v gc then skip_vertex g v gc1
        else if procs v \<noteq> None then ExecuteProcessor g ch v gc1 else ExecuteSubGraph g ch v gc1)"
proof -
  let ?gc1 = "if v_cluster (deref g v) \<noteq> [] \<and> \<not> vx_subgraph_cluster (gc_ctx gc v)
               then modify_ctx v (\<lambda>c. c\<lparr>vx_subgraph_cluster := ch_cluster_found ch\<rparr>) gc else gc"
  have "Execute g ch v gc = (if \<not> passes g ch v gc then skip_vertex g v ?gc1
        else if procs v \<noteq> None then ExecuteProcessor g ch v ?gc1 else ExecuteSubGraph g ch v ?gc1)"
    using assms by (auto simp: Execute_def passes_def Let_def modify_ctx_def)
  then show thesis using that[of ?gc1] assms by (simp add: modify_ctx_def)
qed

lemma execute_adds:
  assumes tr: "te_tracker env" and p: "vx_processor (gc_ctx gc v) = procs v" and e: "Execute g ch v gc = (gc', ts, evs)"
  shows "adds (if ts = [TDone v] then [report_of env g procs gc' v] else []) (length (filter is_collect evs))
    (length (filter (op_start procs) evs)) tr (execute_trace env g ch v clk mc gc gc' tr)"
proof -
  obtain gc1 where gc1: "vx_processor (gc_ctx gc1 v) = procs v" "vx_subgraph_ctx (gc_ctx gc1 v) = vx_subgraph_ctx (gc_ctx gc v)"
    and ex: "Execute g ch v gc = (if \<not> passes g ch v gc then skip_vertex g v gc1
        else if procs v \<noteq> None then ExecuteProcessor g ch v gc1 else ExecuteSubGraph g ch v gc1)"
    by (rule passes_Execute[of gc v procs g ch, OF p]) blast
  note fin = finish_adds[OF tr, of g v _ _ _ gc' _ procs]
  consider "\<not> passes g ch v gc" | "passes g ch v gc" "procs v \<noteq> None" | "passes g ch v gc" "procs v = None" by blast
  then show ?thesis
  proof cases
    case 1
    define gc2 where "gc2 = modify_ctx v (\<lambda>c. c\<lparr>vx_result :=
                  (if g_vertex_skip_as_error g then V_RESULT_ERR else V_RESULT_SKIP), vx_code := V_CODE_SKIP\<rparr>) gc1"
    have "FinishVertexProcess g v V_CODE_SKIP False gc2 = (gc', evs)" "ts = [TDone v]"
      using e 1 ex by (simp_all add: skip_vertex_def gc2_def case_prod_unfold Let_def prod_eq_iff)
    moreover have "vx_processor (gc_ctx gc2 v) = procs v" using gc1(1) by (simp add: gc2_def modify_ctx_def)
    ultimately show ?thesis using fin 1 by (simp add: execute_trace_def)
  next
    case 2
    show ?thesis
    proof (cases "ch_inject_rc ch = 0")
      case True
      then have "ts = [TProcess v]" "evs = [EvStart v]" using e 2 ex by (simp_all add: ExecuteProcessor_def)
      then show ?thesis
        using True 2 p tr by (simp add: execute_trace_def adds_def start_exec_def add_event_def take_params_def own_report_def
            phase_event_def split: option.split)
    next
      case False
      then have "FinishVertexProcess g v V_CODE_SKIP False gc1 = (gc', evs)" "ts = [TDone v]"
        using e 2 ex by (simp_all add: ExecuteProcessor_def case_prod_unfold Let_def prod_eq_iff)
      with fin[of V_CODE_SKIP False gc1 evs] gc1(1) show ?thesis
        using False 2 p adds_trans[OF adds_quiet(3)[of tr v mc]] by (simp add: execute_trace_def)
    qed
  next
    case 3
    show ?thesis
    proof (cases "vx_subgraph_ctx (gc_ctx gc v) \<or> ch_graph_found ch")
      case True
      then have "ts = [TProcess v]" "evs = [EvStart v]" using e 3 ex gc1(2) by (auto simp: ExecuteSubGraph_def)
      then show ?thesis
        using True 3 p adds_trans[OF adds_quiet(4)[of tr v "clk 1"] adds_quiet(3)] by (simp add: execute_trace_def)
    next
      case False
      then obtain evs1 where "FinishVertexProcess g v (-1) True gc1 = (gc', evs1)" "ts = [TDone v]" "evs = EvStart v # evs1"
        using e 3 ex gc1(2) by (auto simp: ExecuteSubGraph_def case_prod_unfold Let_def prod_eq_iff)
      with fin[of "-1" True gc1 evs1] gc1(1) show ?thesis
        using False 3 p adds_trans[OF adds_trans[OF adds_quiet(4)[of tr v "clk 1"] adds_quiet(3)[of _ v mc]]] by (simp add: execute_trace_def)
    qed
  qed
qed

lemma end_adds:
  assumes tr: "te_tracker env" and p: "vx_processor (gc_ctx gc v) = procs v" and e: "EndProcess g out v gc = (gc', ts, evs)"
  shows "adds (if ts = [TDone v] then [report_of env g procs gc' v] else []) (length (filter is_collect evs))
    (length (filter (op_start procs) evs)) tr (if out = FutureFailed then tr else finish_trace env g v clk 0 gc' tr)"
proof (cases "out = FutureFailed")
  case True
  then show ?thesis using e by (auto simp: EndProcess_def)
next
  case False
  define rc where "rc = (case out of Returned rc \<Rightarrow> rc | _ \<Rightarrow> V_CODE_ERR)"
  define gc1 where "gc1 = (if vx_processor (gc_ctx gc v) \<noteq> None
                  then modify_ctx v (\<lambda>c. c\<lparr>vx_exec_rc := rc\<rparr>) gc else gc)"
  have f: "FinishVertexProcess g v rc True gc1 = (gc', evs)" "ts = [TDone v]"
    using e False unfolding EndProcess_def Let_def rc_def[symmetric] gc1_def[symmetric]
    by (cases out; simp add: case_prod_unfold Let_def prod_eq_iff)+
  have "vx_processor (gc_ctx gc1 v) = procs v" using p by (simp add: gc1_def modify_ctx_def)
  then show ?thesis using finish_adds[OF tr f(1), of procs tr clk 0] f(2) False by simp
qed

lemma trace_after_adds:
  assumes "te_tracker env" "t \<in> {TExecute v, TProcess v}" "vx_processor (gc_ctx gc v) = procs v"
    and h: "handle g ch t gc = (gc', ts, evs)"
  shows "adds (if ts = [TDone v] then [report_of env g procs gc' v] else []) (length (filter is_collect evs))
    (length (filter (op_start procs) evs)) tr (trace_after env g ch clk mc t gc tr)"
proof -
  have post: "adds rs a b tr tr1 \<Longrightarrow> adds rs a b tr (hand_over ts t0 tr1)" for rs a b tr1 t0
    by (simp add: adds_def hand_over_def)
  show ?thesis
    using assms(2)
  proof (elim insertE emptyE)
    assume t: "t = TExecute v"
    then have e: "Execute g ch v gc = (gc', ts, evs)" using h by simp
    have "trace_after env g ch clk mc t gc tr =
        hand_over ts (clk 0) (execute_trace env g ch v clk mc gc gc' (run_handed env v (clk 0) tr))"
      using t e by (simp add: trace_after_def)
    then show ?thesis
      using post[OF adds_trans[OF adds_quiet(5) execute_adds[where procs = procs, OF assms(1,3) e]]] by simp
  next
    assume t: "t = TProcess v"
    then have e: "EndProcess g (ch_outcome ch) v gc = (gc', ts, evs)" using h by simp
    have "trace_after env g ch clk mc t gc tr =
        hand_over ts (clk 0) (if ch_outcome ch = FutureFailed then tr else finish_trace env g v clk 0 gc' tr)"
      using t e by (simp add: trace_after_def)
    then show ?thesis using post[OF end_adds[where procs = procs, OF assms(1,3) e]] by simp
  qed
qed

section \<open>The trace of a run\<close>

lemma finite_ended: "finite (ended g s)"
  by (rule finite_subset[OF _ finite_valid[of g]]) (auto simp: ended_def)

text \<open>A step that ends no vertex, and one that ends \<open>v\<close>.\<close>

lemma trace_inv_same:
  assumes inv: "trace_inv env g procs s tr" and a: "adds [] (length (filter is_collect evs)) (length (filter (op_start procs) evs)) tr tr'"
    and l: "en_log s' = rev evs @ en_log s" and e: "ended g s' = ended g s"
    and r: "\<And>u. u \<in> ended g s \<Longrightarrow> vx_exec_rc (gc_ctx (en_ctx s') u) = vx_exec_rc (gc_ctx (en_ctx s) u)"
  shows "trace_inv env g procs s' tr'"
proof -
  have "image_mset (report_of env g procs (en_ctx s')) (mset_set (ended g s)) =
      image_mset (report_of env g procs (en_ctx s)) (mset_set (ended g s))"
    by (rule image_mset_cong) (simp add: r report_of_def finite_ended)
  then show ?thesis using inv a by (simp add: trace_inv_def adds_def l e rev_filter[symmetric])
qed

lemma trace_inv_more:
  assumes inv: "trace_inv env g procs s tr"
    and a: "adds [report_of env g procs (en_ctx s') v] (length (filter is_collect evs)) (length (filter (op_start procs) evs)) tr tr'"
    and l: "en_log s' = rev evs @ en_log s" and e: "ended g s' = insert v (ended g s)" "v \<notin> ended g s"
    and r: "\<And>u. u \<noteq> v \<Longrightarrow> gc_ctx (en_ctx s') u = gc_ctx (en_ctx s) u"
  shows "trace_inv env g procs s' tr'"
proof -
  have "image_mset (report_of env g procs (en_ctx s')) (mset_set (ended g s)) =
      image_mset (report_of env g procs (en_ctx s)) (mset_set (ended g s))"
  proof (rule image_mset_cong)
    fix u assume "u \<in># mset_set (ended g s)"
    then have "u \<noteq> v" using e(2) finite_ended by auto
    then show "report_of env g procs (en_ctx s') u = report_of env g procs (en_ctx s) u" using r by (simp add: report_of_def)
  qed
  then show ?thesis using inv a by (simp add: trace_inv_def adds_def l e finite_ended rev_filter[symmetric])
qed

lemma trace_inv_step:
  assumes inv: "inv_of g procs s" and g: "runnable g" and env: "te_tracker env" and w: "gc_while_ctx (en_ctx s) = None"
    and ti: "trace_inv env g procs s tr" and t: "t \<in># en_tasks s" "enabled ch t (en_ctx s)"
  shows "trace_inv env g procs (after g ch t s) (trace_after env g ch clk mc t (en_ctx s) tr)"
proof -
  obtain rest where rest: "en_tasks s = add_mset t rest" using t(1) by (meson multi_member_split)
  obtain gc' ts evs where h: "handle g ch t (en_ctx s) = (gc', ts, evs)" by (metis prod_cases3)
  define s1 where "s1 = after g ch t s"
  define tr1 where "tr1 = trace_after env g ch clk mc t (en_ctx s) tr"
  have s': "en_ctx s1 = gc'" "en_tasks s1 = rest + mset ts" "en_log s1 = rev evs @ en_log s"
    using h rest by (simp_all add: s1_def after_def)
  have inv1: "engine_inv g procs (en_ctx s) (add_mset t rest) (en_log s)" using inv rest by simp
  have running: "trace_inv env g procs s1 tr1" if tv: "t \<in> {TExecute v, TProcess v}" for v
  proof -
    obtain t' where t': "ts = [t']" "run_effect v (en_ctx s) gc' t' evs" using handle_run[OF inv1 tv h] by blast
    then have eff: "local_effect v (en_ctx s) gc'" "quiet v evs" "next_task v t'" by (simp_all add: run_effect_def)
    have v: "valid_ref g v" using engine_invD(5)[OF inv1] tv by (auto simp: tasks_ok_def)
    have "0 < tok v t" using tv by auto
    note single = single_token[OF inv1 v this]
    have nd: "TDone v \<notin># rest" using no_token[OF single(4), of "TDone v"] by simp
    have nv: "v \<notin> ended g s" using nd single(1) tv rest by (auto simp: ended_def)
    have fin: "finished (rev evs @ en_log s) = finished (en_log s)" using quiet_log[OF eff(2)] by simp
    have other: "TDone u \<in># rest + mset ts \<longleftrightarrow> TDone u \<in># en_tasks s" if "u \<noteq> v" for u
      using that tok_run(5,6)[OF tv eff(3) that] t'(1) rest by auto
    have e: "ended g s1 = (if t' = TDone v then insert v (ended g s) else ended g s)"
    proof (rule set_eqI)
      fix u
      show "u \<in> ended g s1 \<longleftrightarrow> u \<in> (if t' = TDone v then insert v (ended g s) else ended g s)"
        using other[of u] nv nd single(1) v t'(1) by (cases "u = v") (auto simp: ended_def s' fin)
    qed
    have p: "vx_processor (gc_ctx (en_ctx s) v) = procs v" using engine_invD(1)[OF inv1] v by (simp add: static_ok_def)
    note a = trace_after_adds[where procs = procs, OF env tv p h, of tr clk mc, folded tr1_def]
    have r: "gc_ctx gc' u = gc_ctx (en_ctx s) u" if "u \<noteq> v" for u using eff(1) that by (simp add: local_effect_def)
    show ?thesis
    proof (cases "t' = TDone v")
      case True
      have "adds [report_of env g procs (en_ctx s1) v] (length (filter is_collect evs)) (length (filter (op_start procs) evs)) tr tr1"
        using a True t'(1) s'(1) by simp
      then show ?thesis by (rule trace_inv_more[OF ti _ s'(3)]) (use e True nv r s'(1) in simp_all)
    next
      case False
      have "adds [] (length (filter is_collect evs)) (length (filter (op_start procs) evs)) tr tr1"
        using a False t'(1) by simp
      then show ?thesis
        by (rule trace_inv_same[OF ti _ s'(3)]) (use e False nv r s'(1) in \<open>simp, metis\<close>)
    qed
  qed
  have "trace_inv env g procs s1 tr1"
  proof (cases t)
    case (TDone v)
    have run: "OnVertexDone g v (en_ctx s) = (gc', ts, evs)" using h TDone by simp
    note inv2 = inv1[unfolded TDone]
    have tr': "tr1 = hand_over ts (clk 0) tr" using h TDone by (simp add: tr1_def trace_after_def)
    have v: "valid_ref g v" using engine_invD(5)[OF inv2] by (simp add: tasks_ok_def)
    let ?l' = "EvFinish v (vx_result (gc_ctx (en_ctx s) v)) (vx_code (gc_ctx (en_ctx s) v)) # en_log s"
    have main: "trace_inv env g procs s1 tr1" if "rev evs @ en_log s = ?l' \<or> rev evs @ en_log s = EvDone rc # ?l'" "gc_ctx gc' = gc_ctx (en_ctx s)"
        "\<And>u. TDone u \<notin># mset ts" for rc
    proof -
      have f: "finished (rev evs @ en_log s) = finished ?l'" using that(1) by auto
      have e: "ended g s1 = ended g s"
        using v that(3) rest TDone by (auto simp: ended_def s' f)
      have "length (filter is_collect (rev evs @ en_log s)) = length (filter is_collect (en_log s))"
        "length (filter (op_start procs) (rev evs @ en_log s)) = length (filter (op_start procs) (en_log s))"
        using that(1) by auto
      then have c: "length (filter is_collect evs) = 0" "length (filter (op_start procs) evs) = 0"
        by (simp_all add: rev_filter[symmetric])
      show ?thesis
        by (rule trace_inv_same[OF ti _ s'(3) e]) (simp_all only: c tr' adds_quiet s'(1) that(2))
    qed
    show ?thesis
      using inv2 g run
    proof (cases rule: OnVertexDone_cases)
      case 1
      then show ?thesis using main by (auto simp: reports_def split: if_splits)
    next
      case 2
      then show ?thesis using w by (simp add: while_again_def)
    next
      case 3
      then show ?thesis using main by auto
    qed
  next
    case (TNotify v i ready)
    have run: "Notify v i ready (en_ctx s) = (gc', ts, evs)" using h TNotify by simp
    note inv2 = inv1[unfolded TNotify]
    note n = Notify_effect[OF inv2 runnable_edges[OF g] run]
    have i: "i < length (succs g v)" using engine_invD(5)[OF inv2] by (simp add: tasks_ok_def)
    obtain ready' where ts: "mset ts = told_tasks g v i ready'" and ev: "evs = []" using n by blast
    have nd: "TDone u \<notin># mset ts" for u unfolding ts by (rule told_tasks_simps(4)[OF i])
    have x: "vx_exec_rc (gc_ctx gc' u) = vx_exec_rc (gc_ctx (en_ctx s) u)" for u
      using n by (auto simp: modify_ctx_def)
    have tr': "tr1 = hand_over ts (clk 0) tr" using h TNotify by (simp add: tr1_def trace_after_def)
    have e: "ended g s1 = ended g s" using nd rest TNotify by (auto simp: ended_def s' ev)
    show ?thesis
      by (rule trace_inv_same[OF ti _ s'(3) e]) (simp_all add: ev tr' x s'(1))
  next
    case (TLost v)
    then show ?thesis using t(2) by simp
  qed (use running in blast)+
  then show ?thesis unfolding s1_def tr1_def .
qed

lemma traced_run_inv:
  assumes g: "runnable g" and env: "te_tracker env"
  shows "inv_of g procs s \<Longrightarrow> gc_while_ctx (en_ctx s) = None \<Longrightarrow> trace_inv env g procs s tr \<Longrightarrow>
    traced_run env g ms (s, tr) = Some (s', tr') \<Longrightarrow> inv_of g procs s' \<and> trace_inv env g procs s' tr'"
proof (induction ms arbitrary: s tr)
  case (Cons m ms)
  obtain t ch clk mc where m: "m = (t, ch, clk, mc)" by (metis prod_cases4)
  have t: "t \<in># en_tasks s" "enabled ch t (en_ctx s)"
    and r: "traced_run env g ms (after g ch t s, trace_after env g ch clk mc t (en_ctx s) tr) = Some (s', tr')"
    using Cons.prems(4) m by (auto split: if_splits)
  have "inv_of g procs (after g ch t s)" using step_inv[OF Cons.prems(1) g task_step[OF t]] by simp
  moreover have "gc_while_ctx (en_ctx (after g ch t s)) = None"
    using Cons.prems(2) handle_while[of g ch t "en_ctx s"] by (auto simp: after_def split: prod.splits)
  ultimately show ?case
    using Cons.IH[OF _ _ trace_inv_step[OF Cons.prems(1) g env Cons.prems(2,3) t] r] by blast
qed simp

lemma trace_inv_start:
  assumes "static_ok g procs gc"
  shows "trace_inv env g procs (fst (traced_start env gc clk)) (snd (traced_start env gc clk))"
proof -
  have "ended g (start gc) = {}" using start_tasks[OF assms] by (auto simp: ended_def start_def)
  then show ?thesis by (simp add: trace_inv_def traced_start_def start_def hand_over_def new_tracer_def prepare_graph_def add_event_def
      own_report_def phase_event_def)
qed

section \<open>Properties\<close>

text \<open>
  C29: When the closure of a graph that is no while graph has been called, whatever the schedule and the codes of the operators,
  its trace has one event for each vertex, with the name of the operator or the cluster, the graph and the full name of the
  subgraph, and the code of its last process; and one event of the phase \<open>post_execute\<close> for each
  operator whose outputs were collected, one of \<open>prepare_execute\<close> for each operator that ran.
\<close>
theorem trace_complete:
  assumes "runnable g" and "SetupContexts g procs = Some gc" and "\<not> g_is_gen_while_graph g" and "te_tracker env"
    and "traced_run env g ms (traced_start env gc clk) = Some (s, tr)" and "en_tasks s = {#}"
  shows "mset (map label (filter own_report (tr_trace tr))) = image_mset (report_of env g procs (en_ctx s)) (mset_set (vertices g))
    \<and> length (filter (\<lambda>e. de_phase e = DAG_PHASE_OP_POST_EXECUTE) (tr_trace tr)) = length (filter is_collect (en_log s))
    \<and> length (filter (\<lambda>e. de_phase e = DAG_PHASE_OP_PREPARE_EXECUTE) (tr_trace tr)) = length (filter (op_start procs) (en_log s))"
proof -
  have i0: "inv_of g procs (start gc)" by (rule start_inv[OF assms(1,2)])
  have w: "gc_while_ctx (en_ctx (start gc)) = None" using SetupContexts_while[OF assms(2,3)] by (simp add: start_def)
  have t0: "trace_inv env g procs (start gc) (snd (traced_start env gc clk))"
    using trace_inv_start[OF SetupContexts_ok(1)[OF assms(1,2)], of env clk] by (simp add: traced_start_def)
  have "traced_run env g ms (start gc, snd (traced_start env gc clk)) = Some (s, tr)" using assms(5) by (simp add: traced_start_def)
  note r = traced_run_inv[OF assms(1,4) i0 w t0 this]
  have "dom (finished (en_log s)) = vertices g" using no_tasks_all_done[of g procs "en_ctx s" "en_log s"] r assms(1,6) by simp
  then have "finished (en_log s) v \<noteq> None \<longleftrightarrow> valid_ref g v" for v by (metis domIff mem_Collect_eq)
  then have "ended g s = vertices g" by (auto simp: ended_def assms(6))
  then show ?thesis using r by (simp add: trace_inv_def)
qed

theorem trace_complete_witness:
  "\<exists>(s :: engine) (tr :: tracer). mset (map label (filter own_report (tr_trace tr))) =
      image_mset (report_of \<lparr>te_tracker = True, te_name = (\<lambda>_. ''op''), te_cluster = ''c''\<rparr> example_built example_procs (en_ctx s))
        (mset_set (vertices example_built)) \<and> en_tasks s = {#}"
proof (rule example_run)
  fix ms s
  assume r: "run example_built ms (start example_gc) = Some s" and e: "en_tasks s = {#}"
  obtain tr where "traced_run \<lparr>te_tracker = True, te_name = (\<lambda>_. ''op''), te_cluster = ''c''\<rparr> example_built
      (map (\<lambda>(t, ch). (t, ch, \<lambda>_. 0, None)) ms) (traced_start \<lparr>te_tracker = True, te_name = (\<lambda>_. ''op''), te_cluster = ''c''\<rparr> example_gc (\<lambda>_. 0)) = Some (s, tr)"
    using run_traced_run[OF r] unfolding traced_start_def by blast
  note all = trace_complete[OF example_runnable example_gc example_not_while _ this e, THEN conjunct1]
  show ?thesis by (rule exI[of _ s], rule exI[of _ tr], rule conjI[OF all e]) simp
qed

end
