(* ===== verification/Spec2Isabelle.thy ===== *)
theory Spec2Isabelle
  imports Executor StoreProps RunParams Composition ParamsToml Dot Expr ObjectInjection ContextServices StoreDrain Nested ParamsWrite TimeLimit
    OpDeclare SyncCalls Trace
begin

text \<open>
  Didagle runs graphs of operators: a configuration names the vertices of a graph, what operator or
  subgraph each one runs, what it depends on and what data it reads and writes; the library builds
  the graph, sets up the operators and runs them as soon as what they depend on is done, handing
  every operator the objects that others put out. This development models the C++ library under
  \<open>src/didagle\<close> and proves what makes it correct. File names below are relative to that directory.

  \<^bold>\<open>How the parts interact.\<close>
  A file is parsed into a \<open>GraphCluster\<close> with its \<open>Graph\<close>s and \<open>Vertex\<close>es (\<open>graph/\<close>); \<open>Build\<close> derives the
  edges, generates condition vertices and while graphs and rejects cycles. \<open>GraphStore\<close>
  (\<open>store/graph_store.cpp\<close>) keeps the clusters by name and, for each, a pool of \<open>GraphClusterContext\<close>s.
  A request takes a context from the pool, which evaluates the configuration settings and
  starts the \<open>GraphContext\<close> of the graph; its \<open>VertexContext\<close>s count their dependencies down, run operators
  (\<open>processor/\<close>) on the executor of the client and report to their successors; the last one calls the
  closure of the request, and the context goes back to its pool through the release closure of the
  data context and a background worker. Operators get their inputs from, and put their outputs into,
  a \<open>GraphDataContext\<close>, which searches its parents, the contexts of subgraphs and the dependency container.

  \<^bold>\<open>How the code is represented.\<close>
  A structure is a record with a field for each member, with a prefix of its type. A pointer is a
  name: a vertex is \<open>VertexRef i\<close> or \<open>GenRef i\<close>, its position among the configured or generated
  vertices of its graph; data contexts, parameter objects, tasks and cluster contexts are positions or addresses in
  the list or map that holds them all; an object of the user is a number. A builder returns an
  \<open>outcome\<close>: \<open>Ok\<close> with the result, \<open>Err\<close> with the reason of the error return, \<open>Crash\<close> for an access that C++
  leaves undefined or a recursion without end. A hash table is an association list or a map; where
  the code walks one, the theorem holds for every order or the text says which one is taken. Doubles are
  their bit patterns (\<open>64 word\<close>); the counters of the executor have 32 bits and wrap (\<open>fetch_sub\<close>).

  \<^bold>\<open>The theories\<close>, from the bottom.
  \<^item> \<open>Prelude\<close>: outcomes, loops over them with their invariant rules, ordered sets of strings, printing of numbers,
    counters, and the locale \<open>invariant_system\<close> (an invariant of a step relation holds wherever it
    leads), interpreted by \<open>StoreProps\<close> (twice) and \<open>ContextServices\<close>.
  \<^item> \<open>Params\<close>, \<open>ParamsWrite\<close>, \<open>ParamsToml\<close> (\<open>graph/params.h\<close>, \<open>graph/params.cpp\<close>): parameter trees with parents, their writers,
    the string parser and \<open>ParseFromToml\<close>. Lookups are along the chain of parents; a write through a name changes
    whoever on the chain has it; what is read from TOML reads back as the same document.
  \<^item> \<open>Vertex\<close>, \<open>Graph\<close> (\<open>graph/vertex.cpp\<close>, \<open>graph/graph.cpp\<close>): the configuration and \<open>Graph::Build\<close>, statement by statement.
    \<open>GraphEdges\<close> has the invariant of the edges (both directions agree, dependencies are numbered
    without gaps), \<open>GraphBuild\<close> what each pass establishes, \<open>ConfigKept\<close> what becomes of the configuration of a vertex,
    \<open>GraphCircle\<close> the cycle test, \<open>Builder\<close> the contract of \<open>Build\<close>.
  \<^item> \<open>Cluster\<close> (\<open>GraphCluster\<close> of \<open>graph/graph.cpp\<close>): while graphs, priorities, settings. \<open>Dot\<close>: the picture of a graph.
  \<^item> \<open>Engine\<close> (\<open>store/graph_context.cpp\<close>, \<open>store/vertex_context.cpp\<close>): the executor as a step relation over a
    multiset of pieces of work, each the code between two accesses to shared counters. \<open>EngineInv\<close>
    states its invariant, \<open>EngineSteps\<close> shows that each piece of work keeps it, \<open>Execution\<close> that every run is a legal
    schedule, \<open>Progress\<close> that it is never stuck, \<open>Bounds\<close> that a round is finite, \<open>Determinism\<close> that results
    do not depend on the schedule, \<open>Liveness\<close> that the closure is called; \<open>Pipeline\<close> connects it with
    the builder, \<open>Alone\<close> is a run worked out, \<open>Executor\<close> states the properties. \<open>Nested\<close> puts executors together: graphs whose
    vertices run other graphs, at any depth, each of which behaves as it does alone; all of them end. \<open>Trace\<close>: the events
    that the executor adds to a tracker (\<open>trace/event.h\<close>); the trace of a graph that is done has one for each vertex.
  \<^item> \<open>Rounds\<close>, \<open>RoundsInv\<close>, \<open>RoundsProps\<close> (\<open>ResetState\<close>, \<open>OnVertexDone\<close>, \<open>ExecuteSubGraph\<close>): nested graphs with while loops. A round
    that ends resets the contexts of all graphs below and starts them again in place; the steps, their invariant, and the
    theorems, for graphs none of which calls itself again, directly or through others: each round of each graph is a legal schedule, only a loop that goes on for ever keeps a run from its
    end, and without loops the steps reach what those of \<open>Nested\<close> reach. \<open>TimeLimit\<close> (\<open>end_ustime\<close>) adds the clock: the limit is
    handed down, blocks no step, and ends every loop.
  \<^item> \<open>DataContext\<close>, \<open>DataSearch\<close>, \<open>DataProps\<close> (\<open>GraphDataContext\<close> of \<open>processor/api.h\<close> and \<open>processor/processor.cpp\<close>): \<open>Set\<close>, \<open>Get\<close>,
    \<open>Move\<close>, registration, reset, and the search through parents and children, refined to reachability.
    \<open>ContextServices\<close>: the event tracker (\<open>trace/event.h\<close>), the arena and the user context, their lookup and
    their ownership as a conservation law.
  \<^item> \<open>Processor\<close>, \<open>ProcessorDI\<close>, \<open>ProcessorProps\<close> (\<open>processor/api.h\<close>, \<open>processor/processor_di.cpp\<close>): operator objects as the declaration macros
    make them, binding to configured names, injection, collection, the move of a skipped vertex. \<open>OpDeclare\<close>: what the macros
    register, and that the registered functions are the operations of \<open>Processor\<close>; the forms of \<open>Execute\<close>, the operators
    without fields (\<open>processor/impl/noop.cpp\<close>, \<open>switch.cpp\<close>).
  \<^item> \<open>Registry\<close> (\<open>processor/processor.cpp\<close>, \<open>di/container.cpp\<close>): the factory of operators and the table of builders, both
    instances of the locale \<open>first_wins\<close>; \<open>run_processor\<close>. \<open>ObjectInjection\<close> (\<open>di/container.h\<close>): objects with dependencies of their own.
    \<open>Expr\<close> (\<open>processor/impl/expr.cpp\<close>): the operator of conditions.
  \<^item> \<open>GraphData\<close>, \<open>RunParams\<close> (\<open>GraphContext::Setup\<close>, \<open>VertexContext::Setup\<close>, \<open>GetExecParams\<close>): the operators of a graph, the
    checks of their names (aggregate inputs, as in the code, are not checked here but by the builder), and the arguments of a run.
  \<^item> \<open>ClusterContext\<close> (\<open>store/cluster_context.cpp\<close>): settings, the running graph, execution up to its start.
  \<^item> \<open>Tasks\<close> (\<open>store/graph_task.cpp\<close>): graphs that a program builds itself.
  \<^item> \<open>Store\<close>, \<open>StoreProps\<close> (\<open>store/graph_store.cpp\<close>, \<open>GraphClusterHandle\<close>): loading, pools, requests, releases, as a step
    relation; every context is in one place, every request is answered once. \<open>StoreDrain\<close>: a release gives back exactly the
    contexts that were taken for subgraphs below it, so that a store that is left alone comes to rest with all of
    them in their pools. \<open>Worker\<close> (\<open>store/background_worker.cpp\<close>): the store with the worker that runs its releases, which
    refines the store alone, and what is lost when a client replaces the executor of the worker. \<open>SyncCalls\<close> (\<open>SyncExecute\<close>): the calls that wait on a
    latch for their closure, which is never called after they have returned.
  \<^item> \<open>Flow\<close>, \<open>FlowProps\<close>, \<open>Dataflow\<close>, \<open>Composition\<close>: the executor together with operators and data. A run with data
    is simulated by the executor alone, so that its theorems carry over; and, from the configuration to the call, an operator
    that runs has in each input the object that the operator with the output of that name put out.

  \<^bold>\<open>Interleaving.\<close>
  The steps of \<open>Engine\<close>, \<open>Rounds\<close>, \<open>TimeLimit\<close>, \<open>Flow\<close>, \<open>Store\<close>, \<open>Worker\<close> and \<open>ContextServices\<close> are atomic and come in any order. That the
  counters and the slots of results are written by one piece of work at a time is proved; accesses
  to \<open>early_exist_rc_\<close> and the operations of the store are taken to be atomic. The executor of the client
  is assumed to run every function it is given once; liveness is proved for operators that return. The clock
  may give any values; the theorems about a limit speak of steps made after it.

  \<^bold>\<open>Bounds.\<close>
  Recursions of the code that may not end have fuel or are partial. \<open>search_ctx\<close> and \<open>nearest\<close> get one
  more than, or exactly, the number of contexts: the search marks every context it enters, and a chain of parents has
  no context twice. \<open>GetObject\<close> gets one more than the number of objects: it marks every object it
  injects. \<open>ReleaseContext\<close> gets the number of contexts lent to subgraphs. In each case a theorem shows that this is enough. \<open>GetVar\<close>, \<open>Get\<close> along parents and the cycle
  test are partial functions whose value \<open>None\<close> is not returning. Graphs have fewer than \<open>2 ^ 32\<close> vertices where the
  counters matter; the 64-bit counters of identifiers do not wrap.

  \<^bold>\<open>Not modelled.\<close>
  Logging; the threads of the pool of the background worker (an argument of \<open>Worker\<close>, with what its documentation
  promises); how long anything takes; coroutines
  (\<open>processor/coroutine.h\<close>, compiled only under a macro that no file defines); what a subgraph does
  to the data contexts while it runs, which is an argument of the step of its vertex in \<open>Flow\<close>; the data of operators in the rounds of a
  while graph, which \<open>Rounds\<close> leaves out; the JSON file that describes the operators; type traits, where a type is its number; examples and tests. Libraries outside the
  repository (the TOML and expression libraries, folly, protobuf) are arguments or take their documented behaviour.
\<close>

end
